(* ===== verification/Prelude.thy ===== *)
theory Prelude
  imports Main "HOL-Library.Word" "HOL-Library.AList"
begin

text \<open>
  Types and lemmas the components share: thrown errors as values (\<open>result\<close>), the insertion-ordered
  JavaScript \<^verbatim>\<open>Map\<close> and \<^verbatim>\<open>Set\<close> as association lists and lists, byte strings as lists of 8-bit words, and
  the generic locale of a state machine whose operations keep an invariant.
\<close>

section \<open>Collections of facts\<close>

named_theorems result_simps "evaluation of results"
named_theorems inv_intros "operations keep the invariant of their component"

section \<open>Thrown errors as values\<close>

type_synonym 'a result = "string + 'a"

abbreviation Ok :: "'a \<Rightarrow> 'a result" where "Ok \<equiv> Inr"
abbreviation Throw :: "string \<Rightarrow> 'a result" where "Throw \<equiv> Inl"

definition and_then :: "'a result \<Rightarrow> ('a \<Rightarrow> 'b result) \<Rightarrow> 'b result" where
  "and_then r f = (case r of Inl e \<Rightarrow> Inl e | Inr x \<Rightarrow> f x)"

lemma and_then_simps [simp, result_simps]:
  "and_then (Inl e) f = Inl e"
  "and_then (Inr x) f = f x"
  by (simp_all add: and_then_def)

lemma and_then_Ok_iff:
  "and_then r f = Inr y \<longleftrightarrow> (\<exists>x. r = Inr x \<and> f x = Inr y)"
  by (cases r) simp_all

lemma and_then_cong [fundef_cong]:
  assumes "r = r'" "\<And>x. r' = Inr x \<Longrightarrow> f x = f' x"
  shows "and_then r f = and_then r' f'"
  using assms by (cases r') (auto simp: and_then_def)

fun foldl_res :: "('s \<Rightarrow> 'x \<Rightarrow> 's result) \<Rightarrow> 's \<Rightarrow> 'x list \<Rightarrow> 's result" where
  "foldl_res f s [] = Ok s"
| "foldl_res f s (x # xs) = and_then (f s x) (\<lambda>s'. foldl_res f s' xs)"

fun concat_res :: "('x \<Rightarrow> 'y list result) \<Rightarrow> 'x list \<Rightarrow> 'y list result" where
  "concat_res f [] = Ok []"
| "concat_res f (x # xs) = and_then (f x) (\<lambda>ys. and_then (concat_res f xs) (\<lambda>zs. Ok (ys @ zs)))"

lemma concat_res_cong [fundef_cong]:
  assumes "xs = ys" "\<And>x. x \<in> set ys \<Longrightarrow> f x = g x"
  shows "concat_res f xs = concat_res g ys"
  unfolding assms(1) using assms(2) by (induction ys) auto

lemma concat_res_Ok:
  assumes "\<And>x. x \<in> set xs \<Longrightarrow> f x = Ok (g x)"
  shows "concat_res f xs = Ok (concat (map g xs))"
  using assms by (induction xs) auto

lemma foldl_res_append:
  "foldl_res f s (xs @ ys) = and_then (foldl_res f s xs) (\<lambda>s'. foldl_res f s' ys)"
  by (induction xs arbitrary: s) (auto simp: and_then_def split: sum.splits)

section \<open>Bytes and identifiers\<close>

text \<open>
  A \<^verbatim>\<open>Uint8Array\<close> is a list of 8-bit words.  A \<^verbatim>\<open>CID\<close> of \<^verbatim>\<open>multiformats\<close> is the string the code compares and
  prints it by.
\<close>

type_synonym bytes = "8 word list"
type_synonym cid = string

text \<open>A byte past the end of an array is \<^verbatim>\<open>undefined\<close>, which the bitwise operators read as 0.\<close>

definition byte_at :: "bytes \<Rightarrow> nat \<Rightarrow> 8 word" where
  "byte_at a i = (if i < length a then a ! i else 0)"

definition zero32 :: bytes where "zero32 = replicate 32 0"

definition xor32 :: "bytes \<Rightarrow> bytes \<Rightarrow> bytes" where
  "xor32 a b = map (\<lambda>i. xor (byte_at a i) (byte_at b i)) [0..<32]"

lemma length_xor32 [simp]: "length (xor32 a b) = 32"
  by (simp add: xor32_def)

lemma byte_at_xor32: "byte_at (xor32 a b) i = (if i < 32 then xor (byte_at a i) (byte_at b i) else 0)"
  by (simp add: byte_at_def xor32_def)

lemma xor32_assoc: "xor32 (xor32 a b) c = xor32 a (xor32 b c)"
  by (simp add: xor32_def byte_at_xor32 [unfolded xor32_def] xor.assoc)

lemma xor32_commute: "xor32 a b = xor32 b a"
  by (simp add: xor32_def xor.commute)

lemma xor32_zero: "length a = 32 \<Longrightarrow> xor32 a zero32 = a" "length a = 32 \<Longrightarrow> xor32 zero32 a = a"
  by (auto simp: xor32_def zero32_def byte_at_def intro!: nth_equalityI)

lemma xor32_self: "xor32 a a = zero32"
  by (auto simp: xor32_def zero32_def intro!: nth_equalityI)

lemma length_zero32 [simp]: "length zero32 = 32"
  by (simp add: zero32_def)

section \<open>The insertion-ordered map\<close>

text \<open>
  A JavaScript \<^verbatim>\<open>Map\<close> iterates its entries in the order their keys were first inserted: \<^verbatim>\<open>set\<close> replaces the
  value of a key in place or appends, which is \<open>AList.update\<close>; \<^verbatim>\<open>delete\<close> is \<open>AList.delete\<close>.
\<close>

type_synonym ('k, 'v) omap = "('k \<times> 'v) list"

lemma update_absent: "k \<notin> fst ` set es \<Longrightarrow> AList.update k d es = es @ [(k, d)]"
  by (induction es) auto

lemma set_update_subset: "set (AList.update k v al) \<subseteq> insert (k, v) (set al)"
  by (induction al) auto

lemma set_delete_subset: "set (AList.delete k al) \<subseteq> set al"
  by (auto simp: AList.delete_eq)

lemma update_all:
  "\<forall>x \<in> set al. P x \<Longrightarrow> P (k, v) \<Longrightarrow> \<forall>x \<in> set (AList.update k v al). P x"
  using set_update_subset [of k v al] by blast

lemma delete_all: "\<forall>x \<in> set al. P x \<Longrightarrow> \<forall>x \<in> set (AList.delete k al). P x"
  using set_delete_subset [of k al] by blast

section \<open>State machines with an invariant\<close>

text \<open>
  The contract of a component with state: it starts in its invariant and each operation keeps it.
  \<open>inv_machine\<close> is for operations that cannot fail; \<open>sim_machine\<close> for operations that may throw and
  promise not to on valid arguments, and that implement the steps of an abstract machine.
\<close>

locale inv_machine =
  fixes init :: 's and step :: "'s \<Rightarrow> 'op \<Rightarrow> 's" and inv :: "'s \<Rightarrow> bool"
  assumes inv_init: "inv init"
    and inv_step: "inv s \<Longrightarrow> inv (step s op)"
begin

lemma inv_run_from: "inv s \<Longrightarrow> inv (foldl step s ops)"
  by (induction ops arbitrary: s) (simp_all add: inv_step)

lemma inv_run: "inv (foldl step init ops)"
  by (rule inv_run_from [OF inv_init])

end

text \<open>The same for operations that can throw.\<close>

locale safe_machine =
  fixes step :: "'s \<Rightarrow> 'op \<Rightarrow> 's result" and inv :: "'s \<Rightarrow> bool"
  assumes safe_step: "inv s \<Longrightarrow> step s op = Ok s' \<Longrightarrow> inv s'"
begin

lemma safe_run: "inv s \<Longrightarrow> foldl_res step s ops = Ok s' \<Longrightarrow> inv s'"
  by (induction ops arbitrary: s) (auto simp: and_then_Ok_iff intro: safe_step)

end

locale sim_machine =
  fixes init :: "'s result" and step :: "'s \<Rightarrow> 'op \<Rightarrow> 's result"
    and ainit :: 'a and astep :: "'a \<Rightarrow> 'op \<Rightarrow> 'a"
    and R :: "'s \<Rightarrow> 'a \<Rightarrow> bool" and valid :: "'op \<Rightarrow> bool"
  assumes sim_init: "\<exists>s. init = Ok s \<and> R s ainit"
    and sim_step: "R s a \<Longrightarrow> valid op \<Longrightarrow> \<exists>s'. step s op = Ok s' \<and> R s' (astep a op)"
begin

lemma sim_run_from:
  "R s a \<Longrightarrow> list_all valid ops \<Longrightarrow> \<exists>s'. foldl_res step s ops = Ok s' \<and> R s' (foldl astep a ops)"
proof (induction ops arbitrary: s a)
  case (Cons op ops)
  then obtain s' where "step s op = Ok s'" "R s' (astep a op)" using sim_step [of s a op] by auto
  with Cons show ?case by simp
qed simp

lemma sim_run:
  assumes "list_all valid ops"
  shows "\<exists>s'. and_then init (\<lambda>s. foldl_res step s ops) = Ok s' \<and> R s' (foldl astep ainit ops)"
  using sim_init sim_run_from [OF _ assms] by auto

end

end
