(* ===== verification/Finger_Tree.thy ===== *)
theory Finger_Tree
  imports Prelude
begin

text \<open>
  The package \<^verbatim>\<open>finger-tree\<close>: \<open>types.ts\<close>, \<open>monoid.ts\<close>, \<open>digit.ts\<close>, \<open>node.ts\<close> and \<open>tree.ts\<close>.  The
  code types the middle of a deep tree as a tree of \<^verbatim>\<open>unknown\<close> and casts: an element is a raw value
  at depth 0 and a node at the depths below.  The datatype \<open>elem\<close> is that untyped element, and
  \<open>wf_elem\<close>/\<open>wf_tree\<close> is the level discipline the casts rely on, together with the claim that every
  cached measure is the measure of the elements below it.
\<close>

section \<open>Types\<close>

datatype ('v, 'a) elem =
    Leaf 'a
  | Node2 'v "('v, 'a) elem" "('v, 'a) elem"
  | Node3 'v "('v, 'a) elem" "('v, 'a) elem" "('v, 'a) elem"

datatype 'e digit = One 'e | Two 'e 'e | Three 'e 'e 'e | Four 'e 'e 'e 'e

datatype ('v, 'e) ftree = Empty | Single 'e | Deep 'v "'e digit" "('v, 'e) ftree" "'e digit"

record 'v monoid =
  mempty :: 'v
  mappend :: "'v \<Rightarrow> 'v \<Rightarrow> 'v"

record ('v, 'a) measured =
  monoid :: "'v monoid"
  measure :: "'a \<Rightarrow> 'v"

type_synonym ('v, 'a) tree = "('v, ('v, 'a) elem) ftree"
type_synonym ('v, 'a) emeasured = "('v, ('v, 'a) elem) measured"

abbreviation memp :: "('v, 'a) measured \<Rightarrow> 'v" where "memp m \<equiv> mempty (monoid m)"
abbreviation mapp :: "('v, 'a) measured \<Rightarrow> 'v \<Rightarrow> 'v \<Rightarrow> 'v" where "mapp m \<equiv> mappend (monoid m)"

section \<open>Digits\<close>

fun digitToArray :: "'e digit \<Rightarrow> 'e list" where
  "digitToArray (One a) = [a]"
| "digitToArray (Two a b) = [a, b]"
| "digitToArray (Three a b c) = [a, b, c]"
| "digitToArray (Four a b c d) = [a, b, c, d]"

fun digitMeasure :: "('v, 'e) measured \<Rightarrow> 'e digit \<Rightarrow> 'v" where
  "digitMeasure m (One a) = measure m a"
| "digitMeasure m (Two a b) = mapp m (measure m a) (measure m b)"
| "digitMeasure m (Three a b c) = mapp m (mapp m (measure m a) (measure m b)) (measure m c)"
| "digitMeasure m (Four a b c d) =
     mapp m (mapp m (mapp m (measure m a) (measure m b)) (measure m c)) (measure m d)"

fun consDigit :: "'e \<Rightarrow> 'e digit \<Rightarrow> 'e digit result" where
  "consDigit a (One b) = Ok (Two a b)"
| "consDigit a (Two b c) = Ok (Three a b c)"
| "consDigit a (Three b c d) = Ok (Four a b c d)"
| "consDigit a (Four _ _ _ _) = Throw ''Cannot cons onto a Four digit''"

fun snocDigit :: "'e digit \<Rightarrow> 'e \<Rightarrow> 'e digit result" where
  "snocDigit (One b) a = Ok (Two b a)"
| "snocDigit (Two b c) a = Ok (Three b c a)"
| "snocDigit (Three b c d) a = Ok (Four b c d a)"
| "snocDigit (Four _ _ _ _) a = Throw ''Cannot snoc onto a Four digit''"

fun digitHead :: "'e digit \<Rightarrow> 'e" where
  "digitHead (One a) = a"
| "digitHead (Two a _) = a"
| "digitHead (Three a _ _) = a"
| "digitHead (Four a _ _ _) = a"

fun digitTail :: "'e digit \<Rightarrow> 'e digit result" where
  "digitTail (One _) = Throw ''Cannot tail a One digit''"
| "digitTail (Two a b) = Ok (One b)"
| "digitTail (Three a b c) = Ok (Two b c)"
| "digitTail (Four a b c d) = Ok (Three b c d)"

fun digitLast :: "'e digit \<Rightarrow> 'e" where
  "digitLast (One a) = a"
| "digitLast (Two _ b) = b"
| "digitLast (Three _ _ c) = c"
| "digitLast (Four _ _ _ d) = d"

fun digitInit :: "'e digit \<Rightarrow> 'e digit result" where
  "digitInit (One _) = Throw ''Cannot init a One digit''"
| "digitInit (Two a b) = Ok (One a)"
| "digitInit (Three a b c) = Ok (Two a b)"
| "digitInit (Four a b c d) = Ok (Three a b c)"

section \<open>Nodes\<close>

definition node2 :: "('v, 'a) emeasured \<Rightarrow> ('v, 'a) elem \<Rightarrow> ('v, 'a) elem \<Rightarrow> ('v, 'a) elem" where
  "node2 m a b = Node2 (mapp m (measure m a) (measure m b)) a b"

definition node3 ::
  "('v, 'a) emeasured \<Rightarrow> ('v, 'a) elem \<Rightarrow> ('v, 'a) elem \<Rightarrow> ('v, 'a) elem \<Rightarrow> ('v, 'a) elem" where
  "node3 m a b c = Node3 (mapp m (mapp m (measure m a) (measure m b)) (measure m c)) a b c"

text \<open>Reading the children or the digit of a raw value is the cast going wrong: an error.\<close>

fun nodeToArray :: "('v, 'a) elem \<Rightarrow> ('v, 'a) elem list result" where
  "nodeToArray (Leaf a) = Throw ''not a node''"
| "nodeToArray (Node2 v a b) = Ok [a, b]"
| "nodeToArray (Node3 v a b c) = Ok [a, b, c]"

fun node_v :: "'v \<Rightarrow> ('v, 'a) elem \<Rightarrow> 'v" where
  "node_v z (Leaf a) = z"
| "node_v z (Node2 v a b) = v"
| "node_v z (Node3 v a b c) = v"

text \<open>
  The measure one level down reads the cached annotation.  A raw value has none there, and a node is
  no argument of the client's measure: both cases get the identity and no well-formed tree meets them.
\<close>

definition nodeMeasured :: "('v, 'a) emeasured \<Rightarrow> ('v, 'a) emeasured" where
  "nodeMeasured m = \<lparr>monoid = monoid m, measure = node_v (memp m)\<rparr>"

definition leafMeasured :: "('v, 'a) measured \<Rightarrow> ('v, 'a) emeasured" where
  "leafMeasured b = \<lparr>monoid = monoid b,
     measure = (\<lambda>x. case x of Leaf a \<Rightarrow> measure b a | _ \<Rightarrow> memp b)\<rparr>"

section \<open>Trees\<close>

definition isEmpty :: "('v, 'e) ftree \<Rightarrow> bool" where
  "isEmpty t \<longleftrightarrow> (case t of Empty \<Rightarrow> True | _ \<Rightarrow> False)"

fun measureTree :: "('v, 'e) measured \<Rightarrow> ('v, 'e) ftree \<Rightarrow> 'v" where
  "measureTree m Empty = memp m"
| "measureTree m (Single a) = measure m a"
| "measureTree m (Deep v pr mid sf) = v"

definition deep :: "('v, 'a) emeasured \<Rightarrow> ('v, 'a) elem digit \<Rightarrow> ('v, 'a) tree \<Rightarrow>
    ('v, 'a) elem digit \<Rightarrow> ('v, 'a) tree" where
  "deep m pr mid sf =
     (let nm = nodeMeasured m;
          v = mapp m (mapp m (digitMeasure m pr) (measureTree nm mid)) (digitMeasure m sf)
      in Deep v pr mid sf)"

fun consDigitUnsafe :: "'e \<Rightarrow> 'e digit \<Rightarrow> 'e digit result" where
  "consDigitUnsafe a (One b) = Ok (Two a b)"
| "consDigitUnsafe a (Two b c) = Ok (Three a b c)"
| "consDigitUnsafe a (Three b c d) = Ok (Four a b c d)"
| "consDigitUnsafe a (Four _ _ _ _) = Throw ''unreachable''"

fun snocDigitUnsafe :: "'e digit \<Rightarrow> 'e \<Rightarrow> 'e digit result" where
  "snocDigitUnsafe (One b) a = Ok (Two b a)"
| "snocDigitUnsafe (Two b c) a = Ok (Three b c a)"
| "snocDigitUnsafe (Three b c d) a = Ok (Four b c d a)"
| "snocDigitUnsafe (Four _ _ _ _) a = Throw ''unreachable''"

fun cons :: "('v, 'a) emeasured \<Rightarrow> ('v, 'a) elem \<Rightarrow> ('v, 'a) tree \<Rightarrow> ('v, 'a) tree result" where
  "cons m a Empty = Ok (Single a)"
| "cons m a (Single b) = Ok (deep m (One a) Empty (One b))"
| "cons m a (Deep v pr mid sf) =
     (case pr of
        Four b c d e \<Rightarrow>
          (let nm = nodeMeasured m; n = node3 m c d e
           in and_then (cons nm n mid) (\<lambda>newMiddle. Ok (deep m (Two a b) newMiddle sf)))
      | _ \<Rightarrow> and_then (consDigitUnsafe a pr) (\<lambda>pr'. Ok (deep m pr' mid sf)))"

fun snoc :: "('v, 'a) emeasured \<Rightarrow> ('v, 'a) tree \<Rightarrow> ('v, 'a) elem \<Rightarrow> ('v, 'a) tree result" where
  "snoc m Empty a = Ok (Single a)"
| "snoc m (Single b) a = Ok (deep m (One b) Empty (One a))"
| "snoc m (Deep v pr mid sf) a =
     (case sf of
        Four b c d e \<Rightarrow>
          (let nm = nodeMeasured m; n = node3 m b c d
           in and_then (snoc nm mid n) (\<lambda>newMiddle. Ok (deep m pr newMiddle (Two e a))))
      | _ \<Rightarrow> and_then (snocDigitUnsafe sf a) (\<lambda>sf'. Ok (deep m pr mid sf')))"

fun nodeToDigit :: "('v, 'a) elem \<Rightarrow> ('v, 'a) elem digit result" where
  "nodeToDigit (Leaf a) = Throw ''not a node''"
| "nodeToDigit (Node2 v a b) = Ok (Two a b)"
| "nodeToDigit (Node3 v a b c) = Ok (Three a b c)"

fun digitToTree :: "('v, 'a) emeasured \<Rightarrow> ('v, 'a) elem digit \<Rightarrow> ('v, 'a) tree" where
  "digitToTree m (One a) = Single a"
| "digitToTree m (Two a b) = deep m (One a) Empty (One b)"
| "digitToTree m (Three a b c) = deep m (Two a b) Empty (One c)"
| "digitToTree m (Four a b c d) = deep m (Two a b) Empty (Two c d)"

text \<open>\<open>viewl\<close> and \<open>viewr\<close>, with \<open>undefined\<close> (an empty tree, an emptied digit) as \<open>None\<close>.\<close>

fun viewl :: "('v, 'a) emeasured \<Rightarrow> ('v, 'a) tree \<Rightarrow>
      (('v, 'a) elem \<times> ('v, 'a) tree) option result"
  and deepL :: "('v, 'a) emeasured \<Rightarrow> ('v, 'a) elem digit option \<Rightarrow> ('v, 'a) tree \<Rightarrow>
      ('v, 'a) elem digit \<Rightarrow> ('v, 'a) tree result"
where
  "viewl m Empty = Ok None"
| "viewl m (Single a) = Ok (Some (a, Empty))"
| "viewl m (Deep v pr mid sf) =
     (let h = digitHead pr in
      and_then (case pr of One _ \<Rightarrow> Ok None | _ \<Rightarrow> and_then (digitTail pr) (\<lambda>d. Ok (Some d))) (\<lambda>pr'.
      and_then (deepL m pr' mid sf) (\<lambda>tl'.
      Ok (Some (h, tl')))))"
| "deepL m (Some pr) mid sf = Ok (deep m pr mid sf)"
| "deepL m None mid sf =
     and_then (viewl (nodeMeasured m) mid) (\<lambda>v. case v of
        None \<Rightarrow> Ok (digitToTree m sf)
      | Some (h, rest) \<Rightarrow> and_then (nodeToDigit h) (\<lambda>newPrefix. Ok (deep m newPrefix rest sf)))"

fun viewr :: "('v, 'a) emeasured \<Rightarrow> ('v, 'a) tree \<Rightarrow>
      (('v, 'a) tree \<times> ('v, 'a) elem) option result"
  and deepR :: "('v, 'a) emeasured \<Rightarrow> ('v, 'a) elem digit \<Rightarrow> ('v, 'a) tree \<Rightarrow>
      ('v, 'a) elem digit option \<Rightarrow> ('v, 'a) tree result"
where
  "viewr m Empty = Ok None"
| "viewr m (Single a) = Ok (Some (Empty, a))"
| "viewr m (Deep v pr mid sf) =
     (let l = digitLast sf in
      and_then (case sf of One _ \<Rightarrow> Ok None | _ \<Rightarrow> and_then (digitInit sf) (\<lambda>d. Ok (Some d))) (\<lambda>sf'.
      and_then (deepR m pr mid sf') (\<lambda>ini.
      Ok (Some (ini, l)))))"
| "deepR m pr mid (Some sf) = Ok (deep m pr mid sf)"
| "deepR m pr mid None =
     and_then (viewr (nodeMeasured m) mid) (\<lambda>v. case v of
        None \<Rightarrow> Ok (digitToTree m pr)
      | Some (ini, l) \<Rightarrow> and_then (nodeToDigit l) (\<lambda>newSuffix. Ok (deep m pr ini newSuffix)))"

fun ft_head :: "('v, 'e) ftree \<Rightarrow> 'e option" where
  "ft_head Empty = None"
| "ft_head (Single a) = Some a"
| "ft_head (Deep v pr mid sf) = Some (digitHead pr)"

fun ft_last :: "('v, 'e) ftree \<Rightarrow> 'e option" where
  "ft_last Empty = None"
| "ft_last (Single a) = Some a"
| "ft_last (Deep v pr mid sf) = Some (digitLast sf)"

section \<open>Well-formed trees and the list they stand for\<close>

fun mlist :: "('v, 'a) measured \<Rightarrow> 'a list \<Rightarrow> 'v" where
  "mlist b [] = memp b"
| "mlist b (x # xs) = mapp b (measure b x) (mlist b xs)"

fun flat :: "('v, 'a) elem \<Rightarrow> 'a list" where
  "flat (Leaf a) = [a]"
| "flat (Node2 v x y) = flat x @ flat y"
| "flat (Node3 v x y z) = flat x @ flat y @ flat z"

definition flats :: "('v, 'a) elem list \<Rightarrow> 'a list" where
  "flats xs = concat (map flat xs)"

definition flat_digit :: "('v, 'a) elem digit \<Rightarrow> 'a list" where
  "flat_digit d = flats (digitToArray d)"

fun flat_tree :: "('v, 'a) tree \<Rightarrow> 'a list" where
  "flat_tree Empty = []"
| "flat_tree (Single x) = flat x"
| "flat_tree (Deep v pr mid sf) = flat_digit pr @ flat_tree mid @ flat_digit sf"

fun wf_elem :: "('v, 'a) measured \<Rightarrow> nat \<Rightarrow> ('v, 'a) elem \<Rightarrow> bool" where
  "wf_elem b 0 (Leaf a) \<longleftrightarrow> True"
| "wf_elem b (Suc n) (Node2 v x y) \<longleftrightarrow> wf_elem b n x \<and> wf_elem b n y \<and> v = mlist b (flat x @ flat y)"
| "wf_elem b (Suc n) (Node3 v x y z) \<longleftrightarrow> wf_elem b n x \<and> wf_elem b n y \<and> wf_elem b n z \<and>
     v = mlist b (flat x @ flat y @ flat z)"
| "wf_elem b _ _ \<longleftrightarrow> False"

definition wf_elems :: "('v, 'a) measured \<Rightarrow> nat \<Rightarrow> ('v, 'a) elem list \<Rightarrow> bool" where
  "wf_elems b n xs \<longleftrightarrow> (\<forall>x \<in> set xs. wf_elem b n x)"

definition wf_digit :: "('v, 'a) measured \<Rightarrow> nat \<Rightarrow> ('v, 'a) elem digit \<Rightarrow> bool" where
  "wf_digit b n d \<longleftrightarrow> wf_elems b n (digitToArray d)"

fun wf_tree :: "('v, 'a) measured \<Rightarrow> nat \<Rightarrow> ('v, 'a) tree \<Rightarrow> bool" where
  "wf_tree b n Empty \<longleftrightarrow> True"
| "wf_tree b n (Single x) \<longleftrightarrow> wf_elem b n x"
| "wf_tree b n (Deep v pr mid sf) \<longleftrightarrow> wf_digit b n pr \<and> wf_tree b (Suc n) mid \<and> wf_digit b n sf \<and>
     v = mlist b (flat_digit pr @ flat_tree mid @ flat_digit sf)"

text \<open>\<open>m\<close> is the measured record the code passes at depth \<open>n\<close>.\<close>

definition at_level :: "('v, 'a) measured \<Rightarrow> nat \<Rightarrow> ('v, 'a) emeasured \<Rightarrow> bool" where
  "at_level b n m \<longleftrightarrow> monoid m = monoid b \<and> (\<forall>x. wf_elem b n x \<longrightarrow> measure m x = mlist b (flat x))"

lemma flats_simps [simp]:
  "flats [] = []" "flats (x # xs) = flat x @ flats xs" "flats (xs @ ys) = flats xs @ flats ys"
  by (simp_all add: flats_def)

lemma wf_elems_simps [simp]:
  "wf_elems b n []"
  "wf_elems b n (x # xs) \<longleftrightarrow> wf_elem b n x \<and> wf_elems b n xs"
  "wf_elems b n (xs @ ys) \<longleftrightarrow> wf_elems b n xs \<and> wf_elems b n ys"
  by (auto simp: wf_elems_def)

lemma flat_digit_simps [simp]:
  "flat_digit (One a) = flat a"
  "flat_digit (Two a c) = flat a @ flat c"
  "flat_digit (Three a c d) = flat a @ flat c @ flat d"
  "flat_digit (Four a c d e) = flat a @ flat c @ flat d @ flat e"
  by (simp_all add: flat_digit_def)

lemma wf_digit_simps [simp]:
  "wf_digit b n (One a) \<longleftrightarrow> wf_elem b n a"
  "wf_digit b n (Two a c) \<longleftrightarrow> wf_elem b n a \<and> wf_elem b n c"
  "wf_digit b n (Three a c d) \<longleftrightarrow> wf_elem b n a \<and> wf_elem b n c \<and> wf_elem b n d"
  "wf_digit b n (Four a c d e) \<longleftrightarrow> wf_elem b n a \<and> wf_elem b n c \<and> wf_elem b n d \<and> wf_elem b n e"
  by (simp_all add: wf_digit_def)

lemma wf_elem_Suc:
  "wf_elem b (Suc n) x \<longleftrightarrow>
     (\<exists>v y z. x = Node2 v y z \<and> wf_elem b n y \<and> wf_elem b n z \<and> v = mlist b (flat y @ flat z)) \<or>
     (\<exists>v y z w. x = Node3 v y z w \<and> wf_elem b n y \<and> wf_elem b n z \<and> wf_elem b n w \<and>
        v = mlist b (flat y @ flat z @ flat w))"
  by (cases x) auto

lemma wf_elem_0: "wf_elem b 0 x \<longleftrightarrow> (\<exists>a. x = Leaf a)"
  by (cases x) auto

lemma flat_not_empty [simp]: "flat x \<noteq> []"
  by (induction x) auto

lemma monoid_nodeMeasured [simp]: "monoid (nodeMeasured m) = monoid m"
  by (simp add: nodeMeasured_def)

lemma at_level_monoid: "at_level b n m \<Longrightarrow> monoid m = monoid b"
  by (simp add: at_level_def)

lemma at_level_measure: "at_level b n m \<Longrightarrow> wf_elem b n x \<Longrightarrow> measure m x = mlist b (flat x)"
  by (simp add: at_level_def)

lemma at_level_nodeMeasured [intro, simp]:
  assumes "at_level b n m"
  shows "at_level b (Suc n) (nodeMeasured m)"
  using assms by (auto simp: at_level_def nodeMeasured_def wf_elem_Suc)

section \<open>Operations on a lawful monoid\<close>

text \<open>
  What the package asks of its client: on the values \<open>ok\<close> that measures and their sums take, the
  append is associative with the empty value as identity.
\<close>

locale measured_laws =
  fixes b :: "('v, 'a) measured" and ok :: "'v \<Rightarrow> bool"
  assumes ok_empty: "ok (memp b)"
    and ok_append: "ok x \<Longrightarrow> ok y \<Longrightarrow> ok (mapp b x y)"
    and ok_measure: "ok (measure b a)"
    and assoc: "ok x \<Longrightarrow> ok y \<Longrightarrow> ok z \<Longrightarrow> mapp b (mapp b x y) z = mapp b x (mapp b y z)"
    and left_id: "ok x \<Longrightarrow> mapp b (memp b) x = x"
    and right_id: "ok x \<Longrightarrow> mapp b x (memp b) = x"
begin

lemma ok_mlist [simp]: "ok (mlist b xs)"
  by (induction xs) (auto intro: ok_empty ok_append ok_measure)

lemma mlist_append: "mlist b (xs @ ys) = mapp b (mlist b xs) (mlist b ys)"
  by (induction xs) (simp_all add: left_id assoc ok_measure)

lemma mlist_single [simp]: "mlist b [a] = measure b a"
  by (simp add: right_id ok_measure)

lemma at_level_leaf: "at_level b 0 (leafMeasured b)"
  by (auto simp: at_level_def leafMeasured_def wf_elem_0 right_id ok_measure)

lemma mapp_mlist [simp]:
  "mapp b (mlist b xs) (mlist b ys) = mlist b (xs @ ys)"
  by (simp add: mlist_append)

lemma digitMeasure_wf:
  assumes "at_level b n m" "wf_digit b n d"
  shows "digitMeasure m d = mlist b (flat_digit d)"
  using assms(2) at_level_monoid [OF assms(1)] at_level_measure [OF assms(1)]
  by (cases d) simp_all

lemma measureTree_wf:
  assumes "at_level b n m" "wf_tree b n t"
  shows "measureTree m t = mlist b (flat_tree t)"
  using assms(2) at_level_monoid [OF assms(1)] at_level_measure [OF assms(1)]
  by (cases t) simp_all

lemma deep_wf:
  assumes "at_level b n m" "wf_digit b n pr" "wf_tree b (Suc n) mid" "wf_digit b n sf"
  shows "wf_tree b n (deep m pr mid sf)" "flat_tree (deep m pr mid sf) = flat_digit pr @ flat_tree mid @ flat_digit sf"
  using assms at_level_monoid [OF assms(1)]
  by (auto simp: deep_def Let_def digitMeasure_wf measureTree_wf [OF at_level_nodeMeasured])

lemma node_wf:
  assumes "at_level b n m" "wf_elem b n x" "wf_elem b n y"
  shows "wf_elem b (Suc n) (node2 m x y)" "flat (node2 m x y) = flat x @ flat y"
    "wf_elem b n z \<Longrightarrow> wf_elem b (Suc n) (node3 m x y z)" "flat (node3 m x y z) = flat x @ flat y @ flat z"
  using assms at_level_monoid [OF assms(1)] at_level_measure [OF assms(1)]
  by (auto simp: node2_def node3_def)

lemma cons_wf:
  assumes "at_level b n m" "wf_elem b n a" "wf_tree b n t"
  shows "\<exists>t'. cons m a t = Ok t' \<and> wf_tree b n t' \<and> flat_tree t' = flat a @ flat_tree t"
  using assms
proof (induction t arbitrary: n m a)
  case (Deep v pr mid sf)
  show ?case
  proof (cases "\<exists>w x y z. pr = Four w x y z")
    case True
    then obtain w x y z where pr: "pr = Four w x y z" by blast
    have "wf_elem b (Suc n) (node3 m x y z)" "flat (node3 m x y z) = flat x @ flat y @ flat z"
      using Deep.prems pr by (auto simp: node_wf)
    then show ?thesis
      using Deep.IH [of "Suc n" "nodeMeasured m" "node3 m x y z"] Deep.prems pr
      by (fastforce simp: Let_def deep_wf)
  next
    case False
    then show ?thesis using Deep.prems by (cases pr) (auto simp: deep_wf)
  qed
qed (auto simp: deep_wf)

lemma snoc_wf:
  assumes "at_level b n m" "wf_elem b n a" "wf_tree b n t"
  shows "\<exists>t'. snoc m t a = Ok t' \<and> wf_tree b n t' \<and> flat_tree t' = flat_tree t @ flat a"
  using assms
proof (induction t arbitrary: n m a)
  case (Deep v pr mid sf)
  show ?case
  proof (cases "\<exists>w x y z. sf = Four w x y z")
    case True
    then obtain w x y z where sf: "sf = Four w x y z" by blast
    have "wf_elem b (Suc n) (node3 m w x y)" "flat (node3 m w x y) = flat w @ flat x @ flat y"
      using Deep.prems sf by (auto simp: node_wf)
    then show ?thesis
      using Deep.IH [of "Suc n" "nodeMeasured m" "node3 m w x y"] Deep.prems sf
      by (fastforce simp: Let_def deep_wf)
  next
    case False
    then show ?thesis using Deep.prems by (cases sf) (auto simp: deep_wf)
  qed
qed (auto simp: deep_wf)

lemma digitToTree_wf:
  assumes "at_level b n m" "wf_digit b n d"
  shows "wf_tree b n (digitToTree m d)" "flat_tree (digitToTree m d) = flat_digit d"
  using assms by (cases d; simp add: deep_wf)+

lemma nodeToDigit_wf:
  assumes "wf_elem b (Suc n) x"
  shows "\<exists>d. nodeToDigit x = Ok d \<and> wf_digit b n d \<and> flat_digit d = flat x"
  using assms by (auto simp: wf_elem_Suc)

lemma digitTail_wf:
  assumes "wf_digit b n d" "\<forall>a. d \<noteq> One a"
  shows "\<exists>d'. digitTail d = Ok d' \<and> wf_digit b n d' \<and> flat_digit d = flat (digitHead d) @ flat_digit d'"
  using assms by (cases d) auto

lemma digitInit_wf:
  assumes "wf_digit b n d" "\<forall>a. d \<noteq> One a"
  shows "\<exists>d'. digitInit d = Ok d' \<and> wf_digit b n d' \<and> flat_digit d = flat_digit d' @ flat (digitLast d)"
  using assms by (cases d) auto

lemma wf_digit_ends:
  assumes "wf_digit b n d"
  shows "wf_elem b n (digitHead d)" "wf_elem b n (digitLast d)"
  using assms by (cases d; simp)+

text \<open>The view of a well-formed tree: empty, or an element and the rest, nothing thrown.\<close>

definition viewl_post :: "nat \<Rightarrow> ('v, 'a) tree \<Rightarrow> (('v, 'a) elem \<times> ('v, 'a) tree) option result \<Rightarrow> bool" where
  "viewl_post n t r \<longleftrightarrow> (r = Ok None \<and> t = Empty) \<or>
     (\<exists>h u. r = Ok (Some (h, u)) \<and> wf_elem b n h \<and> wf_tree b n u \<and> flat_tree t = flat h @ flat_tree u)"

definition viewr_post :: "nat \<Rightarrow> ('v, 'a) tree \<Rightarrow> (('v, 'a) tree \<times> ('v, 'a) elem) option result \<Rightarrow> bool" where
  "viewr_post n t r \<longleftrightarrow> (r = Ok None \<and> t = Empty) \<or>
     (\<exists>u l. r = Ok (Some (u, l)) \<and> wf_elem b n l \<and> wf_tree b n u \<and> flat_tree t = flat_tree u @ flat l)"

definition tree_post :: "nat \<Rightarrow> 'a list \<Rightarrow> ('v, 'a) tree result \<Rightarrow> bool" where
  "tree_post n xs r \<longleftrightarrow> (\<exists>u. r = Ok u \<and> wf_tree b n u \<and> flat_tree u = xs)"

definition opt_digit :: "('v, 'a) elem digit option \<Rightarrow> 'a list" where
  "opt_digit d = (case d of None \<Rightarrow> [] | Some d \<Rightarrow> flat_digit d)"

lemma viewl_deepL_wf:
  "at_level b n m \<Longrightarrow> wf_tree b n t \<Longrightarrow> viewl_post n t (viewl m t)"
  "at_level b n m \<Longrightarrow> pred_option (wf_digit b n) pr \<Longrightarrow> wf_tree b (Suc n) mid \<Longrightarrow> wf_digit b n sf \<Longrightarrow>
     tree_post n (opt_digit pr @ flat_tree mid @ flat_digit sf) (deepL m pr mid sf)"
proof (induction m t and m pr mid sf arbitrary: n and n rule: viewl_deepL.induct)
  case (3 m v pr mid sf)
  show ?case
  proof (cases "\<exists>a. pr = One a")
    case True
    with 3 show ?thesis
      by (fastforce simp: viewl_post_def tree_post_def opt_digit_def)
  next
    case False
    then obtain d where d: "digitTail pr = Ok d" "wf_digit b n d"
      "flat_digit pr = flat (digitHead pr) @ flat_digit d"
      using digitTail_wf [of n pr] "3.prems" by auto
    have "(case pr of One _ \<Rightarrow> Ok None | _ \<Rightarrow> and_then (digitTail pr) (\<lambda>d. Ok (Some d))) = Ok (Some d)"
      using False d(1) by (cases pr) auto
    then show ?thesis using d "3.prems"
      by (auto simp: viewl_post_def deep_wf wf_digit_ends)
  qed
next
  case (5 m mid sf)
  have "viewl_post (Suc n) mid (viewl (nodeMeasured m) mid)"
    using "5.prems" "5.IH" by blast
  then consider "mid = Empty" "viewl (nodeMeasured m) mid = Ok None"
    | h u where "viewl (nodeMeasured m) mid = Ok (Some (h, u))" "wf_elem b (Suc n) h"
        "wf_tree b (Suc n) u" "flat_tree mid = flat h @ flat_tree u"
    by (auto simp: viewl_post_def)
  then show ?case
  proof cases
    case 1
    then show ?thesis using "5.prems" by (auto simp: tree_post_def opt_digit_def digitToTree_wf)
  next
    case 2
    then show ?thesis using "5.prems" nodeToDigit_wf [OF 2(2)]
      by (auto simp: tree_post_def opt_digit_def deep_wf)
  qed
qed (auto simp: viewl_post_def tree_post_def opt_digit_def deep_wf)

lemma viewr_deepR_wf:
  "at_level b n m \<Longrightarrow> wf_tree b n t \<Longrightarrow> viewr_post n t (viewr m t)"
  "at_level b n m \<Longrightarrow> wf_digit b n pr \<Longrightarrow> wf_tree b (Suc n) mid \<Longrightarrow> pred_option (wf_digit b n) sf \<Longrightarrow>
     tree_post n (flat_digit pr @ flat_tree mid @ opt_digit sf) (deepR m pr mid sf)"
proof (induction m t and m pr mid sf arbitrary: n and n rule: viewr_deepR.induct)
  case (3 m v pr mid sf)
  show ?case
  proof (cases "\<exists>a. sf = One a")
    case True
    with 3 show ?thesis
      by (fastforce simp: viewr_post_def tree_post_def opt_digit_def)
  next
    case False
    then obtain d where d: "digitInit sf = Ok d" "wf_digit b n d"
      "flat_digit sf = flat_digit d @ flat (digitLast sf)"
      using digitInit_wf [of n sf] "3.prems" by auto
    have "(case sf of One _ \<Rightarrow> Ok None | _ \<Rightarrow> and_then (digitInit sf) (\<lambda>d. Ok (Some d))) = Ok (Some d)"
      using False d(1) by (cases sf) auto
    then show ?thesis using d "3.prems"
      by (auto simp: viewr_post_def deep_wf wf_digit_ends)
  qed
next
  case (5 m pr mid)
  have "viewr_post (Suc n) mid (viewr (nodeMeasured m) mid)"
    using "5.prems" "5.IH" by blast
  then consider "mid = Empty" "viewr (nodeMeasured m) mid = Ok None"
    | h u where "viewr (nodeMeasured m) mid = Ok (Some (u, h))" "wf_elem b (Suc n) h"
        "wf_tree b (Suc n) u" "flat_tree mid = flat_tree u @ flat h"
    by (auto simp: viewr_post_def)
  then show ?case
  proof cases
    case 1
    then show ?thesis using "5.prems" by (auto simp: tree_post_def opt_digit_def digitToTree_wf)
  next
    case 2
    then show ?thesis using "5.prems" nodeToDigit_wf [OF 2(2)]
      by (auto simp: tree_post_def opt_digit_def deep_wf)
  qed
qed (auto simp: viewr_post_def tree_post_def opt_digit_def deep_wf)

end

end
