(* ===== verification/Finger_Ops.thy ===== *)
theory Finger_Ops
  imports Finger_Tree
begin

text \<open>
  The package \<^verbatim>\<open>finger-tree\<close>, second half: conversions and folds (\<open>fold.ts\<close>), splitting at a predicate on
  the accumulated measure (\<open>split.ts\<close>) and concatenation (\<open>concat.ts\<close>), with the lemmas that on
  well-formed trees nothing throws and each operation is the list operation it stands for.
\<close>

section \<open>fold.ts\<close>

text \<open>An element at depth 0 is pushed as it is; below, the children of the node are visited.\<close>

fun pushElement :: "('v, 'a) elem \<Rightarrow> nat \<Rightarrow> ('v, 'a) elem list result" where
  "pushElement x 0 = Ok [x]"
| "pushElement x (Suc d) =
     and_then (nodeToArray x) (concat_res (\<lambda>child. pushElement child d))"

definition pushDigitElements :: "('v, 'a) elem digit \<Rightarrow> nat \<Rightarrow> ('v, 'a) elem list result" where
  "pushDigitElements d depth = concat_res (\<lambda>x. pushElement x depth) (digitToArray d)"

fun pushTree :: "('v, 'a) tree \<Rightarrow> nat \<Rightarrow> ('v, 'a) elem list result" where
  "pushTree Empty depth = Ok []"
| "pushTree (Single a) depth = pushElement a depth"
| "pushTree (Deep v pr mid sf) depth =
     and_then (pushDigitElements pr depth) (\<lambda>xs.
     and_then (pushTree mid (depth + 1)) (\<lambda>ys.
     and_then (pushDigitElements sf depth) (\<lambda>zs. Ok (xs @ ys @ zs))))"

definition toArray :: "('v, 'a) tree \<Rightarrow> ('v, 'a) elem list result" where
  "toArray t = pushTree t 0"

definition fromArray :: "('v, 'a) emeasured \<Rightarrow> ('v, 'a) elem list \<Rightarrow> ('v, 'a) tree result" where
  "fromArray m xs = foldl_res (snoc m) Empty xs"

definition ft_foldr :: "('v, 'a) tree \<Rightarrow> (('v, 'a) elem \<Rightarrow> 'b \<Rightarrow> 'b) \<Rightarrow> 'b \<Rightarrow> 'b result" where
  "ft_foldr t f z = and_then (toArray t) (\<lambda>arr. Ok (foldr f arr z))"

definition ft_foldl :: "('v, 'a) tree \<Rightarrow> ('b \<Rightarrow> ('v, 'a) elem \<Rightarrow> 'b) \<Rightarrow> 'b \<Rightarrow> 'b result" where
  "ft_foldl t f z = and_then (toArray t) (\<lambda>arr. Ok (foldl f z arr))"

section \<open>split.ts\<close>

record ('v, 'a) split =
  left :: "('v, 'a) tree"
  svalue :: "('v, 'a) elem"
  right :: "('v, 'a) tree"

fun arrToDigit :: "'e list \<Rightarrow> 'e digit result" where
  "arrToDigit [a] = Ok (One a)"
| "arrToDigit [a, b] = Ok (Two a b)"
| "arrToDigit [a, b, c] = Ok (Three a b c)"
| "arrToDigit [a, b, c, d] = Ok (Four a b c d)"
| "arrToDigit _ = Throw ''Invalid digit length''"

text \<open>
  The scan for the first element at which \<open>p\<close> holds of the running measure.  When none is found the code
  falls back to the last element, and on an empty array the value is \<open>undefined\<close>, an error here.
\<close>

fun splitDigitArr_from :: "('v, 'e) measured \<Rightarrow> ('v \<Rightarrow> bool) \<Rightarrow> 'v \<Rightarrow> 'e list \<Rightarrow> ('e list \<times> 'e \<times> 'e list) option" where
  "splitDigitArr_from m p running [] = None"
| "splitDigitArr_from m p running (x # xs) =
     (let nxt = mapp m running (measure m x) in
      if p nxt then Some ([], x, xs)
      else map_option (\<lambda>(l, y, r). (x # l, y, r)) (splitDigitArr_from m p nxt xs))"

definition splitDigitArr :: "('v, 'e) measured \<Rightarrow> ('v \<Rightarrow> bool) \<Rightarrow> 'v \<Rightarrow> 'e list \<Rightarrow> ('e list \<times> 'e \<times> 'e list) result" where
  "splitDigitArr m p acc xs =
     (case splitDigitArr_from m p acc xs of
        Some r \<Rightarrow> Ok r
      | None \<Rightarrow> if xs = [] then Throw ''undefined element'' else Ok (butlast xs, last xs, []))"

definition splitDigit :: "('v, 'e) measured \<Rightarrow> ('v \<Rightarrow> bool) \<Rightarrow> 'v \<Rightarrow> 'e digit \<Rightarrow> ('e list \<times> 'e \<times> 'e list) result" where
  "splitDigit m p acc d = splitDigitArr m p acc (digitToArray d)"

text \<open>\<open>split.ts\<close> has its own copies of the helpers of \<open>tree.ts\<close>, over arrays instead of digits.\<close>

definition mkDeep :: "('v, 'a) emeasured \<Rightarrow> ('v, 'a) elem digit \<Rightarrow> ('v, 'a) tree \<Rightarrow>
    ('v, 'a) elem digit \<Rightarrow> ('v, 'a) tree" where
  "mkDeep m pr mid sf =
     (let nm = nodeMeasured m;
          v = mapp m (mapp m (digitMeasure m pr) (measureTree nm mid)) (digitMeasure m sf)
      in Deep v pr mid sf)"

definition split_digitToTree :: "('v, 'a) emeasured \<Rightarrow> ('v, 'a) elem digit \<Rightarrow> ('v, 'a) tree result" where
  "split_digitToTree m d = fromArray m (digitToArray d)"

definition split_deepL :: "('v, 'a) emeasured \<Rightarrow> ('v, 'a) elem list \<Rightarrow> ('v, 'a) tree \<Rightarrow>
    ('v, 'a) elem digit \<Rightarrow> ('v, 'a) tree result" where
  "split_deepL m prefixArr mid sf =
     (if prefixArr = [] then
        and_then (viewl (nodeMeasured m) mid) (\<lambda>v. case v of
           None \<Rightarrow> split_digitToTree m sf
         | Some (h, rest) \<Rightarrow> and_then (nodeToDigit h) (\<lambda>d. Ok (mkDeep m d rest sf)))
      else and_then (arrToDigit prefixArr) (\<lambda>d. Ok (mkDeep m d mid sf)))"

definition split_deepR :: "('v, 'a) emeasured \<Rightarrow> ('v, 'a) elem digit \<Rightarrow> ('v, 'a) tree \<Rightarrow>
    ('v, 'a) elem list \<Rightarrow> ('v, 'a) tree result" where
  "split_deepR m pr mid suffixArr =
     (if suffixArr = [] then
        and_then (viewr (nodeMeasured m) mid) (\<lambda>v. case v of
           None \<Rightarrow> split_digitToTree m pr
         | Some (ini, l) \<Rightarrow> and_then (nodeToDigit l) (\<lambda>d. Ok (mkDeep m pr ini d)))
      else and_then (arrToDigit suffixArr) (\<lambda>d. Ok (mkDeep m pr mid d)))"

fun splitTree :: "('v, 'a) emeasured \<Rightarrow> ('v \<Rightarrow> bool) \<Rightarrow> 'v \<Rightarrow> ('v, 'a) tree \<Rightarrow> ('v, 'a) split result" where
  "splitTree m p acc (Single a) = Ok \<lparr>left = Empty, svalue = a, right = Empty\<rparr>"
| "splitTree m p acc Empty = Throw ''splitTree called on empty tree''"
| "splitTree m p acc (Deep v pr mid sf) =
     (let accPr = mapp m acc (digitMeasure m pr) in
      if p accPr then
        and_then (splitDigit m p acc pr) (\<lambda>(l, x, r).
        and_then (fromArray m l) (\<lambda>leftTree.
        and_then (split_deepL m r mid sf) (\<lambda>rightTree.
        Ok \<lparr>left = leftTree, svalue = x, right = rightTree\<rparr>)))
      else
        (let nm = nodeMeasured m; accMid = mapp m accPr (measureTree nm mid) in
         if p accMid then
           and_then (splitTree nm p accPr mid) (\<lambda>ms.
           and_then (nodeToArray (svalue ms)) (\<lambda>nodeArr.
           let accLeft = mapp m accPr (measureTree nm (left ms)) in
           and_then (splitDigitArr m p accLeft nodeArr) (\<lambda>(l, x, r).
           and_then (split_deepR m pr (left ms) l) (\<lambda>leftTree.
           and_then (split_deepL m r (right ms) sf) (\<lambda>rightTree.
           Ok \<lparr>left = leftTree, svalue = x, right = rightTree\<rparr>)))))
         else
           and_then (splitDigit m p accMid sf) (\<lambda>(l, x, r).
           and_then (split_deepR m pr mid l) (\<lambda>leftTree.
           and_then (fromArray m r) (\<lambda>rightTree.
           Ok \<lparr>left = leftTree, svalue = x, right = rightTree\<rparr>)))))"

definition ft_split :: "('v, 'a) emeasured \<Rightarrow> ('v \<Rightarrow> bool) \<Rightarrow> ('v, 'a) tree \<Rightarrow> ('v, 'a) split option result" where
  "ft_split m p t =
     (if isEmpty t then Ok None
      else if \<not> p (measureTree m t) then Ok None
      else and_then (splitTree m p (memp m) t) (\<lambda>s. Ok (Some s)))"

definition takeUntil :: "('v, 'a) emeasured \<Rightarrow> ('v \<Rightarrow> bool) \<Rightarrow> ('v, 'a) tree \<Rightarrow> ('v, 'a) tree result" where
  "takeUntil m p t = and_then (ft_split m p t) (\<lambda>s. case s of None \<Rightarrow> Ok t | Some s \<Rightarrow> Ok (left s))"

definition dropUntil :: "('v, 'a) emeasured \<Rightarrow> ('v \<Rightarrow> bool) \<Rightarrow> ('v, 'a) tree \<Rightarrow> ('v, 'a) tree result" where
  "dropUntil m p t = and_then (ft_split m p t) (\<lambda>s. case s of
      None \<Rightarrow> Ok Empty | Some s \<Rightarrow> cons m (svalue s) (right s))"

section \<open>concat.ts\<close>

text \<open>
  Called with fewer than two elements the code reads past the end of its array (and would recurse for
  ever): an error here.
\<close>

fun nodes :: "('v, 'a) emeasured \<Rightarrow> ('v, 'a) elem list \<Rightarrow> ('v, 'a) elem list result" where
  "nodes m [a, b] = Ok [node2 m a b]"
| "nodes m [a, b, c] = Ok [node3 m a b c]"
| "nodes m [a, b, c, d] = Ok [node2 m a b, node2 m c d]"
| "nodes m (a # b # c # d # e # xs) = and_then (nodes m (d # e # xs)) (\<lambda>ns. Ok (node3 m a b c # ns))"
| "nodes m _ = Throw ''nodes needs two elements''"

fun cons_all :: "('v, 'a) emeasured \<Rightarrow> ('v, 'a) elem list \<Rightarrow> ('v, 'a) tree \<Rightarrow> ('v, 'a) tree result" where
  "cons_all m [] t = Ok t"
| "cons_all m (x # xs) t = and_then (cons_all m xs t) (cons m x)"

fun tweight :: "('v, 'e) ftree \<Rightarrow> nat" where
  "tweight Empty = 0"
| "tweight (Single a) = 1"
| "tweight (Deep v pr mid sf) = 2 + tweight mid"

function (sequential) app3 :: "('v, 'a) emeasured \<Rightarrow> ('v, 'a) tree \<Rightarrow> ('v, 'a) elem list \<Rightarrow>
    ('v, 'a) tree \<Rightarrow> ('v, 'a) tree result" where
  "app3 m Empty mid r = cons_all m mid r"
| "app3 m l mid Empty = foldl_res (snoc m) l mid"
| "app3 m (Single a) mid r = and_then (app3 m Empty mid r) (cons m a)"
| "app3 m l mid (Single a) = and_then (app3 m l mid Empty) (\<lambda>t. snoc m t a)"
| "app3 m (Deep v pr md sf) mid (Deep v' pr' md' sf') =
     (let nm = nodeMeasured m;
          combined = digitToArray sf @ mid @ digitToArray pr' in
      and_then (nodes m combined) (\<lambda>ns.
      and_then (app3 nm md ns md') (\<lambda>newMiddle.
      Ok (Deep (mapp m (mapp m (digitMeasure m pr) (measureTree nm newMiddle)) (digitMeasure m sf'))
            pr newMiddle sf'))))"
  by pat_completeness auto
termination
  by (relation "Wellfounded.measure (\<lambda>(m, l, mid, r). tweight l + tweight r)") auto

definition ft_concat :: "('v, 'a) emeasured \<Rightarrow> ('v, 'a) tree \<Rightarrow> ('v, 'a) tree \<Rightarrow> ('v, 'a) tree result" where
  "ft_concat m l r = app3 m l [] r"

section \<open>On well-formed trees nothing throws\<close>

lemma wf_elems_Leaf [simp]: "wf_elems b 0 (map Leaf xs)"
  by (auto simp: wf_elems_def)

lemma flats_Leaf [simp]: "flats (map Leaf xs) = xs"
  by (induction xs) simp_all

lemma isEmpty_flat: "isEmpty t \<longleftrightarrow> flat_tree t = []"
proof (cases t)
  case (Deep v pr mid sf)
  have "flat_digit pr \<noteq> []" by (cases pr) auto
  with Deep show ?thesis by (simp add: isEmpty_def)
qed (simp_all add: isEmpty_def)

context measured_laws
begin

lemma pushElement_wf:
  assumes "wf_elem b n x"
  shows "pushElement x n = Ok (map Leaf (flat x))"
  using assms
proof (induction n arbitrary: x)
  case 0
  then show ?case by (auto simp: wf_elem_0)
next
  case (Suc n)
  then show ?case by (auto simp: wf_elem_Suc)
qed

lemma pushDigitElements_wf:
  assumes "wf_digit b n d"
  shows "pushDigitElements d n = Ok (map Leaf (flat_digit d))"
  using assms by (cases d) (auto simp: pushDigitElements_def pushElement_wf)

lemma pushTree_wf:
  assumes "wf_tree b n t"
  shows "pushTree t n = Ok (map Leaf (flat_tree t))"
  using assms by (induction t arbitrary: n) (auto simp: pushElement_wf pushDigitElements_wf)

lemma snoc_all_wf:
  assumes "at_level b n m" "wf_elems b n xs" "wf_tree b n t"
  shows "tree_post n (flat_tree t @ flats xs) (foldl_res (snoc m) t xs)"
  using assms(2,3)
proof (induction xs arbitrary: t)
  case (Cons x xs)
  then obtain t' where "snoc m t x = Ok t'" "wf_tree b n t'" "flat_tree t' = flat_tree t @ flat x"
    using snoc_wf [OF assms(1), of x t] by auto
  with Cons show ?case by (fastforce simp: tree_post_def)
qed (simp add: tree_post_def)

lemma fromArray_wf:
  assumes "at_level b n m" "wf_elems b n xs"
  shows "tree_post n (flats xs) (fromArray m xs)"
  using snoc_all_wf [OF assms, of Empty] by (simp add: fromArray_def)

lemma cons_all_wf:
  assumes "at_level b n m" "wf_elems b n xs" "wf_tree b n t"
  shows "tree_post n (flats xs @ flat_tree t) (cons_all m xs t)"
  using assms(2)
proof (induction xs)
  case (Cons x xs)
  then obtain t' where "cons_all m xs t = Ok t'" "wf_tree b n t'" "flat_tree t' = flats xs @ flat_tree t"
    by (auto simp: tree_post_def)
  with Cons.prems show ?case using cons_wf [OF assms(1), of x t'] by (auto simp: tree_post_def)
qed (simp add: tree_post_def assms(3))

lemma nodes_wf:
  assumes "at_level b n m" "wf_elems b n xs" "2 \<le> length xs"
  shows "\<exists>ns. nodes m xs = Ok ns \<and> wf_elems b (Suc n) ns \<and> flats ns = flats xs"
  using assms
  by (induction m xs rule: nodes.induct) (fastforce simp: node_wf)+

lemma digit_length: "1 \<le> length (digitToArray d)"
  by (cases d) auto

lemma app3_wf:
  assumes "at_level b n m" "wf_tree b n l" "wf_elems b n mid" "wf_tree b n r"
  shows "tree_post n (flat_tree l @ flats mid @ flat_tree r) (app3 m l mid r)"
  using assms
proof (induction m l mid r arbitrary: n rule: app3.induct)
  case (5 m v pr md sf mid v' pr' md' sf')
  let ?c = "digitToArray sf @ mid @ digitToArray pr'"
  have "2 \<le> length ?c" using digit_length [of sf] digit_length [of pr'] by simp
  then obtain ns where ns: "nodes m ?c = Ok ns" "wf_elems b (Suc n) ns" "flats ns = flats ?c"
    using nodes_wf [of n m ?c] "5.prems" by (auto simp: wf_digit_def)
  have "tree_post (Suc n) (flat_tree md @ flats ns @ flat_tree md') (app3 (nodeMeasured m) md ns md')"
    using "5.IH" [OF refl refl ns(1), of "Suc n"] "5.prems" ns by simp
  then show ?case
    using ns "5.prems" at_level_monoid [OF "5.prems"(1)]
    by (auto simp: tree_post_def digitMeasure_wf measureTree_wf [OF at_level_nodeMeasured]
        flat_digit_def [symmetric])
qed (fastforce simp: tree_post_def dest: cons_all_wf snoc_all_wf cons_wf snoc_wf)+

lemma mkDeep_deep: "mkDeep m pr mid sf = deep m pr mid sf"
  by (simp add: mkDeep_def deep_def)

lemma arrToDigit_wf:
  assumes "wf_elems b n xs" "xs \<noteq> []" "length xs \<le> 4"
  shows "\<exists>d. arrToDigit xs = Ok d \<and> wf_digit b n d \<and> flat_digit d = flats xs"
  using assms by (cases xs rule: arrToDigit.cases) auto

lemma split_digitToTree_wf:
  assumes "at_level b n m" "wf_digit b n d"
  shows "tree_post n (flat_digit d) (split_digitToTree m d)"
  using fromArray_wf [OF assms(1), of "digitToArray d"] assms(2)
  by (simp add: split_digitToTree_def flat_digit_def wf_digit_def)

lemma split_deepL_wf:
  assumes "at_level b n m" "wf_elems b n xs" "length xs \<le> 4" "wf_tree b (Suc n) mid" "wf_digit b n sf"
  shows "tree_post n (flats xs @ flat_tree mid @ flat_digit sf) (split_deepL m xs mid sf)"
proof (cases "xs = []")
  case True
  have "viewl_post (Suc n) mid (viewl (nodeMeasured m) mid)"
    using assms viewl_deepL_wf(1) by blast
  then consider "mid = Empty" "viewl (nodeMeasured m) mid = Ok None"
    | h u where "viewl (nodeMeasured m) mid = Ok (Some (h, u))" "wf_elem b (Suc n) h"
        "wf_tree b (Suc n) u" "flat_tree mid = flat h @ flat_tree u"
    by (auto simp: viewl_post_def)
  then show ?thesis
  proof cases
    case 1
    then show ?thesis using True split_digitToTree_wf [OF assms(1,5)] by (simp add: split_deepL_def)
  next
    case 2
    then show ?thesis using True nodeToDigit_wf [OF 2(2)] assms
      by (auto simp: split_deepL_def tree_post_def mkDeep_deep deep_wf)
  qed
next
  case False
  then show ?thesis using arrToDigit_wf [OF assms(2) False assms(3)] assms
    by (auto simp: split_deepL_def tree_post_def mkDeep_deep deep_wf)
qed

lemma split_deepR_wf:
  assumes "at_level b n m" "wf_digit b n pr" "wf_tree b (Suc n) mid" "wf_elems b n xs" "length xs \<le> 4"
  shows "tree_post n (flat_digit pr @ flat_tree mid @ flats xs) (split_deepR m pr mid xs)"
proof (cases "xs = []")
  case True
  have "viewr_post (Suc n) mid (viewr (nodeMeasured m) mid)"
    using assms viewr_deepR_wf(1) by blast
  then consider "mid = Empty" "viewr (nodeMeasured m) mid = Ok None"
    | h u where "viewr (nodeMeasured m) mid = Ok (Some (u, h))" "wf_elem b (Suc n) h"
        "wf_tree b (Suc n) u" "flat_tree mid = flat_tree u @ flat h"
    by (auto simp: viewr_post_def)
  then show ?thesis
  proof cases
    case 1
    then show ?thesis using True split_digitToTree_wf [OF assms(1,2)] by (simp add: split_deepR_def)
  next
    case 2
    then show ?thesis using True nodeToDigit_wf [OF 2(2)] assms
      by (auto simp: split_deepR_def tree_post_def mkDeep_deep deep_wf)
  qed
next
  case False
  then show ?thesis using arrToDigit_wf [OF assms(4) False assms(5)] assms
    by (auto simp: split_deepR_def tree_post_def mkDeep_deep deep_wf)
qed

text \<open>
  What a split point is: \<open>p\<close> fails on the measure up to \<open>left\<close> and holds once the element is added.
  No monotonicity of \<open>p\<close> is needed.
\<close>

definition split_point :: "('v \<Rightarrow> bool) \<Rightarrow> 'v \<Rightarrow> 'a list \<Rightarrow> 'a list \<Rightarrow> bool" where
  "split_point p acc l x \<longleftrightarrow> \<not> p (mapp b acc (mlist b l)) \<and> p (mapp b acc (mlist b (l @ x)))"

lemma acc_assoc:
  "ok acc \<Longrightarrow> mapp b (mapp b acc (mlist b xs)) (mlist b ys) = mapp b acc (mlist b (xs @ ys))"
  by (simp add: assoc)

lemma ok_acc [simp]: "ok acc \<Longrightarrow> ok (mapp b acc (mlist b xs))"
  by (simp add: ok_append)

lemma split_point_shift:
  "ok acc \<Longrightarrow> split_point p (mapp b acc (mlist b xs)) l x = split_point p acc (xs @ l) x"
  by (simp add: split_point_def acc_assoc)

lemma splitDigitArr_from_wf:
  assumes "at_level b n m" "wf_elems b n xs" "ok acc" "\<not> p acc" "p (mapp b acc (mlist b (flats xs)))"
  shows "\<exists>l x r. splitDigitArr_from m p acc xs = Some (l, x, r) \<and> xs = l @ x # r \<and>
     split_point p acc (flats l) (flat x)"
  using assms(2-)
proof (induction xs arbitrary: acc)
  case Nil
  then show ?case by (simp add: right_id)
next
  case (Cons y ys)
  let ?nxt = "mapp b acc (mlist b (flat y))"
  have nxt: "mapp m acc (measure m y) = ?nxt" "ok ?nxt"
    using Cons.prems at_level_measure [OF assms(1)] at_level_monoid [OF assms(1)] by simp_all
  show ?case
  proof (cases "p ?nxt")
    case True
    then show ?thesis using Cons.prems nxt
      by (auto simp: Let_def split_point_def right_id)
  next
    case False
    then obtain l x r where r: "splitDigitArr_from m p ?nxt ys = Some (l, x, r)" "ys = l @ x # r"
      "split_point p ?nxt (flats l) (flat x)"
      using Cons.IH [of ?nxt] Cons.prems nxt by (auto simp: acc_assoc)
    then show ?thesis using nxt False Cons.prems
      by (auto simp: Let_def split_point_shift intro: exI [of _ "y # l"])
  qed
qed

lemma splitDigitArr_wf:
  assumes "at_level b n m" "wf_elems b n xs" "ok acc" "\<not> p acc" "p (mapp b acc (mlist b (flats xs)))"
  shows "\<exists>l x r. splitDigitArr m p acc xs = Ok (l, x, r) \<and> xs = l @ x # r \<and>
     split_point p acc (flats l) (flat x)"
  using splitDigitArr_from_wf [OF assms] by (auto simp: splitDigitArr_def)

definition split_post :: "nat \<Rightarrow> ('v \<Rightarrow> bool) \<Rightarrow> 'v \<Rightarrow> ('v, 'a) tree \<Rightarrow> ('v, 'a) split result \<Rightarrow> bool" where
  "split_post n p acc t r \<longleftrightarrow> (\<exists>s. r = Ok s \<and>
     wf_tree b n (left s) \<and> wf_elem b n (svalue s) \<and> wf_tree b n (right s) \<and>
     flat_tree t = flat_tree (left s) @ flat (svalue s) @ flat_tree (right s) \<and>
     split_point p acc (flat_tree (left s)) (flat (svalue s)))"

lemma length_digit: "length (digitToArray d) \<le> 4"
  by (cases d) auto

lemma splitDigit_wf:
  assumes "at_level b n m" "wf_digit b n d" "ok acc" "\<not> p acc" "p (mapp b acc (mlist b (flat_digit d)))"
  shows "\<exists>l x r. splitDigit m p acc d = Ok (l, x, r) \<and> digitToArray d = l @ x # r \<and>
     wf_elems b n l \<and> wf_elem b n x \<and> wf_elems b n r \<and> length l \<le> 4 \<and> length r \<le> 4 \<and>
     flat_digit d = flats l @ flat x @ flats r \<and> split_point p acc (flats l) (flat x)"
proof -
  have w: "wf_elems b n (digitToArray d)" using assms(2) by (simp add: wf_digit_def)
  obtain l x r where r: "splitDigitArr m p acc (digitToArray d) = Ok (l, x, r)"
    "digitToArray d = l @ x # r" "split_point p acc (flats l) (flat x)"
    using splitDigitArr_wf [OF assms(1) w assms(3), of p] assms(4,5) by (auto simp: flat_digit_def)
  moreover have "length l \<le> 4" "length r \<le> 4" using length_digit [of d] r(2) by simp_all
  ultimately show ?thesis using w by (auto simp: splitDigit_def flat_digit_def)
qed

lemma nodeToArray_wf:
  assumes "wf_elem b (Suc n) x"
  shows "\<exists>xs. nodeToArray x = Ok xs \<and> wf_elems b n xs \<and> flats xs = flat x \<and> length xs \<le> 4"
  using assms by (auto simp: wf_elem_Suc)

text \<open>The prefix, the middle and the suffix case of \<open>splitTree\<close>.\<close>

lemma splitTree_prefix:
  assumes "at_level b n m" "wf_tree b n (Deep v pr mid sf)" "ok acc" "\<not> p acc"
    and "p (mapp b acc (mlist b (flat_digit pr)))"
  shows "split_post n p acc (Deep v pr mid sf) (splitTree m p acc (Deep v pr mid sf))"
proof -
  obtain l x r where ds: "splitDigit m p acc pr = Ok (l, x, r)" "wf_elems b n l" "wf_elem b n x"
    "wf_elems b n r" "length r \<le> 4" "flat_digit pr = flats l @ flat x @ flats r"
    "split_point p acc (flats l) (flat x)"
    using splitDigit_wf [OF assms(1) _ assms(3), of pr p] assms(2,4,5) by auto
  moreover have "mapp m acc (digitMeasure m pr) = mapp b acc (mlist b (flat_digit pr))"
    using assms by (simp add: digitMeasure_wf at_level_monoid)
  moreover obtain lt where "fromArray m l = Ok lt" "wf_tree b n lt" "flat_tree lt = flats l"
    using fromArray_wf [OF assms(1) ds(2)] by (auto simp: tree_post_def)
  moreover obtain rt where "split_deepL m r mid sf = Ok rt" "wf_tree b n rt"
    "flat_tree rt = flats r @ flat_tree mid @ flat_digit sf"
    using split_deepL_wf [OF assms(1) ds(4,5)] assms(2) by (auto simp: tree_post_def)
  ultimately show ?thesis using assms(5) by (simp add: split_post_def Let_def)
qed

lemma splitTree_middle:
  assumes "at_level b n m" "wf_tree b n (Deep v pr mid sf)" "ok acc"
    and "\<not> p (mapp b acc (mlist b (flat_digit pr)))"
    and mid: "p (mapp b acc (mlist b (flat_digit pr @ flat_tree mid)))"
    and IH: "split_post (Suc n) p (mapp b acc (mlist b (flat_digit pr))) mid
        (splitTree (nodeMeasured m) p (mapp b acc (mlist b (flat_digit pr))) mid)"
  shows "split_post n p acc (Deep v pr mid sf) (splitTree m p acc (Deep v pr mid sf))"
proof -
  let ?pr = "mapp b acc (mlist b (flat_digit pr))" and ?nm = "nodeMeasured m"
  note mm = at_level_monoid [OF assms(1)]
  obtain s where s: "splitTree ?nm p ?pr mid = Ok s" "wf_tree b (Suc n) (left s)"
    "wf_elem b (Suc n) (svalue s)" "wf_tree b (Suc n) (right s)"
    "flat_tree mid = flat_tree (left s) @ flat (svalue s) @ flat_tree (right s)"
    "split_point p ?pr (flat_tree (left s)) (flat (svalue s))"
    using IH by (auto simp: split_post_def)
  have eqs: "mapp m acc (digitMeasure m pr) = ?pr"
    "mapp m ?pr (measureTree ?nm mid) = mapp b acc (mlist b (flat_digit pr @ flat_tree mid))"
    "mapp m ?pr (measureTree ?nm (left s)) = mapp b acc (mlist b (flat_digit pr @ flat_tree (left s)))"
    using assms(1-3) s(2) mm
    by (simp_all add: digitMeasure_wf measureTree_wf [OF at_level_nodeMeasured] acc_assoc
        del: mapp_mlist flip: mlist_append)
  obtain xs where xs: "nodeToArray (svalue s) = Ok xs" "wf_elems b n xs" "flats xs = flat (svalue s)"
    "length xs \<le> 4"
    using nodeToArray_wf [OF s(3)] by blast
  let ?acc = "mapp b acc (mlist b (flat_digit pr @ flat_tree (left s)))"
  have "\<not> p ?acc" "p (mapp b ?acc (mlist b (flats xs)))"
    using s(6) xs(3) assms(3) by (simp_all add: split_point_shift split_point_def acc_assoc)
  then obtain l x r where ds: "splitDigitArr m p ?acc xs = Ok (l, x, r)" "xs = l @ x # r"
    "split_point p ?acc (flats l) (flat x)"
    using splitDigitArr_wf [OF assms(1) xs(2), of ?acc p] assms(3) by auto
  moreover obtain lt where "split_deepR m pr (left s) l = Ok lt" "wf_tree b n lt"
    "flat_tree lt = flat_digit pr @ flat_tree (left s) @ flats l"
    using split_deepR_wf [OF assms(1) _ s(2), of pr l] assms(2) xs ds(2) by (auto simp: tree_post_def)
  moreover obtain rt where "split_deepL m r (right s) sf = Ok rt" "wf_tree b n rt"
    "flat_tree rt = flats r @ flat_tree (right s) @ flat_digit sf"
    using split_deepL_wf [OF assms(1), of r "right s" sf] s(4) assms(2) xs ds(2) by (auto simp: tree_post_def)
  ultimately show ?thesis using assms(3,4) mid eqs s xs
    by (auto simp: split_post_def Let_def split_point_shift)
qed

lemma splitTree_suffix:
  assumes "at_level b n m" "wf_tree b n (Deep v pr mid sf)" "ok acc"
    and "\<not> p (mapp b acc (mlist b (flat_digit pr)))"
    and mid: "\<not> p (mapp b acc (mlist b (flat_digit pr @ flat_tree mid)))"
    and sf: "p (mapp b acc (mlist b (flat_digit pr @ flat_tree mid @ flat_digit sf)))"
  shows "split_post n p acc (Deep v pr mid sf) (splitTree m p acc (Deep v pr mid sf))"
proof -
  let ?pr = "mapp b acc (mlist b (flat_digit pr))" and ?nm = "nodeMeasured m"
  let ?mid = "mapp b acc (mlist b (flat_digit pr @ flat_tree mid))"
  have eqs: "mapp m acc (digitMeasure m pr) = ?pr" "mapp m ?pr (measureTree ?nm mid) = ?mid"
    using assms(1-3) at_level_monoid [OF assms(1)]
    by (simp_all add: digitMeasure_wf measureTree_wf [OF at_level_nodeMeasured] acc_assoc)
  have "p (mapp b ?mid (mlist b (flat_digit sf)))"
    using sf assms(3) by (simp add: acc_assoc)
  then obtain l x r where ds: "splitDigit m p ?mid sf = Ok (l, x, r)" "wf_elems b n l" "wf_elem b n x"
    "wf_elems b n r" "length l \<le> 4" "flat_digit sf = flats l @ flat x @ flats r"
    "split_point p ?mid (flats l) (flat x)"
    using splitDigit_wf [OF assms(1), of sf ?mid p] assms(2,3) mid by auto
  moreover obtain lt where "split_deepR m pr mid l = Ok lt" "wf_tree b n lt"
    "flat_tree lt = flat_digit pr @ flat_tree mid @ flats l"
    using split_deepR_wf [OF assms(1) _ _ ds(2,5), of pr mid] assms(2) by (auto simp: tree_post_def)
  moreover obtain rt where "fromArray m r = Ok rt" "wf_tree b n rt" "flat_tree rt = flats r"
    using fromArray_wf [OF assms(1) ds(4)] by (auto simp: tree_post_def)
  ultimately show ?thesis using assms(3,4) mid eqs
    by (auto simp: split_post_def Let_def split_point_shift)
qed

lemma splitTree_wf:
  assumes "at_level b n m" "wf_tree b n t" "t \<noteq> Empty" "ok acc" "\<not> p acc"
    "p (mapp b acc (mlist b (flat_tree t)))"
  shows "split_post n p acc t (splitTree m p acc t)"
  using assms
proof (induction t arbitrary: n m acc)
  case (Single x)
  then show ?case by (auto simp: split_post_def split_point_def right_id)
next
  case (Deep v pr mid sf)
  let ?pr = "mapp b acc (mlist b (flat_digit pr))"
  consider "p ?pr" | "\<not> p ?pr" "p (mapp b acc (mlist b (flat_digit pr @ flat_tree mid)))"
    | "\<not> p ?pr" "\<not> p (mapp b acc (mlist b (flat_digit pr @ flat_tree mid)))" by blast
  then show ?case
  proof cases
    case 1
    then show ?thesis using Deep.prems by (intro splitTree_prefix)
  next
    case 2
    moreover from 2 have "mid \<noteq> Empty" by auto
    moreover have "p (mapp b ?pr (mlist b (flat_tree mid)))"
      using 2 Deep.prems by (simp add: acc_assoc)
    ultimately have "split_post (Suc n) p ?pr mid (splitTree (nodeMeasured m) p ?pr mid)"
      using Deep.prems by (intro Deep.IH) auto
    then show ?thesis using 2 Deep.prems by (intro splitTree_middle)
  next
    case 3
    then show ?thesis using Deep.prems by (intro splitTree_suffix) auto
  qed
qed simp

lemma toArray_wf: "wf_tree b 0 t \<Longrightarrow> toArray t = Ok (map Leaf (flat_tree t))"
  by (simp add: toArray_def pushTree_wf)

lemma cons_viewl_ok:
  assumes "wf_tree b 0 t"
  shows "\<exists>u. cons (leafMeasured b) (Leaf a) t = Ok u \<and> wf_tree b 0 u \<and>
      toArray u = map_sum id ((#) (Leaf a)) (toArray t) \<and>
      (\<exists>t'. viewl (leafMeasured b) u = Ok (Some (Leaf a, t')) \<and> wf_tree b 0 t' \<and> toArray t' = toArray t)"
proof -
  obtain u where u: "cons (leafMeasured b) (Leaf a) t = Ok u" "wf_tree b 0 u" "flat_tree u = a # flat_tree t"
    using cons_wf [OF at_level_leaf _ assms, of "Leaf a"] by auto
  then have "\<exists>t'. viewl (leafMeasured b) u = Ok (Some (Leaf a, t')) \<and> wf_tree b 0 t' \<and> flat_tree t' = flat_tree t"
    using viewl_deepL_wf(1) [OF at_level_leaf u(2)] by (auto simp: viewl_post_def wf_elem_0)
  with u assms show ?thesis by (auto simp: toArray_wf)
qed

lemma snoc_viewr_ok:
  assumes "wf_tree b 0 t"
  shows "\<exists>u. snoc (leafMeasured b) t (Leaf a) = Ok u \<and> wf_tree b 0 u \<and>
      toArray u = map_sum id (\<lambda>xs. xs @ [Leaf a]) (toArray t) \<and>
      (\<exists>t'. viewr (leafMeasured b) u = Ok (Some (t', Leaf a)) \<and> wf_tree b 0 t' \<and> toArray t' = toArray t)"
proof -
  obtain u where u: "snoc (leafMeasured b) t (Leaf a) = Ok u" "wf_tree b 0 u" "flat_tree u = flat_tree t @ [a]"
    using snoc_wf [OF at_level_leaf _ assms, of "Leaf a"] by auto
  then have "\<exists>t'. viewr (leafMeasured b) u = Ok (Some (t', Leaf a)) \<and> wf_tree b 0 t' \<and> flat_tree t' = flat_tree t"
    using viewr_deepR_wf(1) [OF at_level_leaf u(2)] by (auto simp: viewr_post_def wf_elem_0)
  with u assms show ?thesis by (auto simp: toArray_wf)
qed

lemma ft_split_wf:
  assumes "wf_tree b 0 t" "\<not> p (memp b)"
  shows "if p (mlist b (flat_tree t))
     then \<exists>s. ft_split (leafMeasured b) p t = Ok (Some s) \<and> split_post 0 p (memp b) t (Ok s)
     else ft_split (leafMeasured b) p t = Ok None"
proof -
  have m: "measureTree (leafMeasured b) t = mlist b (flat_tree t)"
    "memp (leafMeasured b) = memp b"
    using measureTree_wf [OF at_level_leaf assms(1)] at_level_monoid [OF at_level_leaf] by simp_all
  show ?thesis
  proof (cases "p (mlist b (flat_tree t))")
    case True
    then have ne: "t \<noteq> Empty" "\<not> isEmpty t" using assms(2) isEmpty_flat [of t] by auto
    then have "split_post 0 p (memp b) t (splitTree (leafMeasured b) p (memp b) t)"
      using True assms by (intro splitTree_wf at_level_leaf) (simp_all add: ok_empty left_id)
    then show ?thesis using True ne m by (auto simp: ft_split_def split_post_def)
  next
    case False
    then show ?thesis by (simp add: ft_split_def m)
  qed
qed

end

section \<open>Properties of the package\<close>

text \<open>The measure the package's own tests use: the number of elements.\<close>

definition size_measured :: "(nat, 'a) measured" where
  "size_measured = \<lparr>monoid = \<lparr>mempty = 0, mappend = (+)\<rparr>, measure = (\<lambda>_. 1)\<rparr>"

lemma size_measured_laws: "measured_laws size_measured (\<lambda>_. True)"
  by unfold_locales (simp_all add: size_measured_def)

text \<open>A list of two-element digits whose concatenation exercises the middle: five elements each side.\<close>

definition sample :: "(nat, nat) tree" where
  "sample = (case fromArray (leafMeasured size_measured) (map Leaf [1, 2, 3, 4, 5, 6, 7]) of
     Inr t \<Rightarrow> t | Inl _ \<Rightarrow> Empty)"

lemma sample_wf: "wf_tree size_measured 0 sample" "toArray sample = Ok (map Leaf [1, 2, 3, 4, 5, 6, 7])"
  by code_simp+

text \<open>
  C11: concatenating two well-formed trees never throws; the result is well formed, so every cached
  measure in it is right, and it lists the elements of the left tree followed by those of the right.
\<close>

theorem concat_correct:
  assumes "measured_laws b ok" "wf_tree b 0 l" "wf_tree b 0 r"
  shows "\<exists>t. ft_concat (leafMeasured b) l r = Ok t \<and> wf_tree b 0 t \<and>
    toArray t = and_then (toArray l) (\<lambda>xs. and_then (toArray r) (\<lambda>ys. Ok (xs @ ys)))"
  using measured_laws.app3_wf [OF assms(1) measured_laws.at_level_leaf [OF assms(1)] assms(2) _ assms(3),
      of "[]"] assms(2,3)
  by (auto simp: ft_concat_def measured_laws.tree_post_def [OF assms(1)] measured_laws.toArray_wf [OF assms(1)])

theorem concat_correct_witness:
  "\<exists>t. ft_concat (leafMeasured size_measured) sample sample = Ok t \<and> wf_tree size_measured 0 t \<and>
     toArray t = Ok (map Leaf [1, 2, 3, 4, 5, 6, 7, 1, 2, 3, 4, 5, 6, 7])"
  using concat_correct [OF size_measured_laws sample_wf(1) sample_wf(1)] by (simp add: sample_wf(2))

text \<open>
  C12: splitting a well-formed tree at a predicate that fails on the identity never throws.  It answers
  \<open>undefined\<close> exactly when the predicate fails on the measure of the whole sequence; otherwise the two
  well-formed parts and the element put together are the sequence, the predicate fails on the measure of
  the left part and holds once the element is added.  The monotonicity the code's comment asks for is
  not needed.
\<close>

theorem split_correct:
  assumes "measured_laws b ok" "wf_tree b 0 t" "toArray t = Ok (map Leaf xs)" "\<not> p (memp b)"
  shows "if p (mlist b xs)
    then \<exists>s l x r. ft_split (leafMeasured b) p t = Ok (Some s) \<and> wf_tree b 0 (left s) \<and> wf_tree b 0 (right s) \<and>
      toArray (left s) = Ok (map Leaf l) \<and> svalue s = Leaf x \<and> toArray (right s) = Ok (map Leaf r) \<and>
      xs = l @ x # r \<and> \<not> p (mlist b l) \<and> p (mlist b (l @ [x]))
    else ft_split (leafMeasured b) p t = Ok None"
proof -
  have "map Leaf (flat_tree t) = (map Leaf xs :: ('a, 'b) elem list)"
    using assms(3) by (simp add: measured_laws.toArray_wf [OF assms(1,2)])
  then have xs: "flat_tree t = xs"
    by (metis (no_types, lifting) elem.inject(1) list.inj_map_strong)
  show ?thesis
  proof (cases "p (mlist b xs)")
    case True
    then obtain s where s: "ft_split (leafMeasured b) p t = Ok (Some s)"
      "measured_laws.split_post b 0 p (memp b) t (Ok s)"
      using measured_laws.ft_split_wf [where p = p, OF assms(1,2,4)] xs by auto
    then obtain x where "svalue s = Leaf x"
      by (auto simp: measured_laws.split_post_def [OF assms(1)] wf_elem_0)
    with s True xs show ?thesis
      by (auto simp: measured_laws.split_post_def [OF assms(1)] measured_laws.split_point_def [OF assms(1)]
          measured_laws.toArray_wf [OF assms(1)] measured_laws.left_id [OF assms(1)]
          measured_laws.ok_mlist [OF assms(1)])
  next
    case False
    then show ?thesis using measured_laws.ft_split_wf [where p = p, OF assms(1,2,4)] xs by auto
  qed
qed

theorem split_correct_witness:
  "\<exists>s l x r. ft_split (leafMeasured size_measured) (\<lambda>v. 3 < v) sample = Ok (Some s) \<and>
     toArray (left s) = Ok (map Leaf l) \<and> svalue s = Leaf x \<and> [1, 2, 3, 4, 5, 6, 7] = l @ x # r \<and>
     \<not> 3 < mlist size_measured l \<and> 3 < mlist size_measured (l @ [x])"
proof -
  have "3 < mlist size_measured [1, 2, 3, 4, 5, 6, 7 :: nat]" "\<not> 3 < memp (size_measured :: (nat, nat) measured)"
    by (simp_all add: size_measured_def)
  then show ?thesis
    using split_correct [where p = "\<lambda>v. 3 < v", OF size_measured_laws sample_wf] by (simp only: if_True) blast
qed

text \<open>
  Building a tree from an array never throws, the tree is well formed, reads back as the array, and
  its measure is the sum of the measures of the elements from left to right.
\<close>

theorem fromArray_toArray:
  assumes "measured_laws b ok"
  shows "\<exists>t. fromArray (leafMeasured b) (map Leaf xs) = Ok t \<and> wf_tree b 0 t \<and>
    toArray t = Ok (map Leaf xs) \<and> measureTree (leafMeasured b) t = mlist b xs"
  using measured_laws.fromArray_wf [OF assms measured_laws.at_level_leaf [OF assms], of "map Leaf xs"]
  by (auto simp: measured_laws.tree_post_def [OF assms] measured_laws.toArray_wf [OF assms]
      measured_laws.measureTree_wf [OF assms measured_laws.at_level_leaf [OF assms]])

theorem fromArray_toArray_witness:
  "\<exists>t. fromArray (leafMeasured size_measured) (map Leaf [True, False, True]) = Ok t \<and>
     toArray t = Ok (map Leaf [True, False, True]) \<and> measureTree (leafMeasured size_measured) t = 3"
  using fromArray_toArray [OF size_measured_laws, of "[True, False, True]"] by (auto simp: size_measured_def)

text \<open>
  On a well-formed tree \<open>cons\<close> and \<open>snoc\<close> never throw and add their element at the front and at
  the back, and \<open>viewl\<close> and \<open>viewr\<close> never throw and take it off again: the head and a tree with the
  elements the tree had before.
\<close>

theorem deque_correct:
  assumes "measured_laws b ok" "wf_tree b 0 t"
  shows "(\<exists>u. cons (leafMeasured b) (Leaf a) t = Ok u \<and> wf_tree b 0 u \<and>
      toArray u = map_sum id ((#) (Leaf a)) (toArray t) \<and>
      (\<exists>t'. viewl (leafMeasured b) u = Ok (Some (Leaf a, t')) \<and> wf_tree b 0 t' \<and> toArray t' = toArray t)) \<and>
    (\<exists>u. snoc (leafMeasured b) t (Leaf a) = Ok u \<and> wf_tree b 0 u \<and>
      toArray u = map_sum id (\<lambda>xs. xs @ [Leaf a]) (toArray t) \<and>
      (\<exists>t'. viewr (leafMeasured b) u = Ok (Some (t', Leaf a)) \<and> wf_tree b 0 t' \<and> toArray t' = toArray t))"
  using measured_laws.cons_viewl_ok [OF assms] measured_laws.snoc_viewr_ok [OF assms] by blast

theorem deque_correct_witness:
  "\<exists>u. cons (leafMeasured size_measured) (Leaf 0) sample = Ok u \<and>
     toArray u = Ok (map Leaf [0, 1, 2, 3, 4, 5, 6, 7])"
  using deque_correct [OF size_measured_laws sample_wf(1), of 0] by (auto simp: sample_wf(2))

text \<open>
  For any predicate that fails on the identity, \<open>takeUntil\<close> and \<open>dropUntil\<close> cut a well-formed
  tree in two: neither throws and the arrays of the two parts put together are the array of the tree.
\<close>

theorem take_drop_partition:
  assumes "measured_laws b ok" "wf_tree b 0 t" "\<not> p (memp b)"
  shows "\<exists>l r. takeUntil (leafMeasured b) p t = Ok l \<and> dropUntil (leafMeasured b) p t = Ok r \<and>
    wf_tree b 0 l \<and> wf_tree b 0 r \<and>
    toArray t = and_then (toArray l) (\<lambda>xs. and_then (toArray r) (\<lambda>ys. Ok (xs @ ys)))"
proof -
  note [simp] = measured_laws.toArray_wf [OF assms(1)]
  show ?thesis
  proof (cases "p (mlist b (flat_tree t))")
    case True
    then obtain s where s: "ft_split (leafMeasured b) p t = Ok (Some s)"
      "measured_laws.split_post b 0 p (memp b) t (Ok s)"
      using measured_laws.ft_split_wf [where p = p, OF assms] by auto
    then obtain u where "cons (leafMeasured b) (svalue s) (right s) = Ok u" "wf_tree b 0 u"
      "flat_tree u = flat (svalue s) @ flat_tree (right s)"
      using measured_laws.cons_wf [OF assms(1) measured_laws.at_level_leaf [OF assms(1)],
          of "svalue s" "right s"]
      by (auto simp: measured_laws.split_post_def [OF assms(1)])
    with s assms(2) show ?thesis
      by (auto simp: takeUntil_def dropUntil_def measured_laws.split_post_def [OF assms(1)])
  next
    case False
    then show ?thesis using measured_laws.ft_split_wf [where p = p, OF assms] assms(2)
      by (auto simp: takeUntil_def dropUntil_def)
  qed
qed

theorem take_drop_partition_witness:
  "\<exists>l r. takeUntil (leafMeasured size_measured) (\<lambda>v. 3 < v) sample = Ok l \<and>
     dropUntil (leafMeasured size_measured) (\<lambda>v. 3 < v) sample = Ok r \<and>
     Ok (map Leaf [1, 2, 3, 4, 5, 6, 7]) = and_then (toArray l) (\<lambda>xs. and_then (toArray r) (\<lambda>ys. Ok (xs @ ys)))"
  using take_drop_partition [OF size_measured_laws sample_wf(1), of "\<lambda>v. 3 < v"]
  by (auto simp: sample_wf(2) size_measured_def)

end
