(* ===== verification/History.thy ===== *)
theory History
  imports Finger_Ops "HOL-Library.Multiset"
begin

text \<open>
  The history of a channel (\<open>packages/document/src/history\<close>): edits, epochs and their boundary, the
  navigation summary cached in the finger tree, and the operations on the tree of epochs: merging two
  adjacent epochs, splitting one at a snapshot, and the builders used on hydration.  A timestamp is an
  integer, a CID its string, and the CRDT codec the parameter \<open>contains\<close>.
\<close>

section \<open>Edits, boundaries and epochs\<close>

datatype origin = Local | Sync | Hydrate

record edit =
  payload :: bytes
  timestamp :: int
  author :: string
  channel :: string
  origin :: origin
  signature :: bytes

datatype boundary = Open | Closed | Snapshotted cid

record epoch =
  edits :: "edit list"
  boundary :: boundary

definition Epoch_create :: "edit list \<Rightarrow> boundary \<Rightarrow> epoch" where
  "Epoch_create es bd = \<lparr>edits = es, boundary = bd\<rparr>"

definition Epoch_append :: "epoch \<Rightarrow> edit \<Rightarrow> epoch result" where
  "Epoch_append ep e =
     (if boundary ep \<noteq> Open then Throw ''Cannot append edit to a non-open epoch''
      else Ok \<lparr>edits = edits ep @ [e], boundary = boundary ep\<rparr>)"

definition Epoch_isOpen :: "epoch \<Rightarrow> bool" where
  "Epoch_isOpen ep \<longleftrightarrow> boundary ep = Open"

definition Epoch_close :: "epoch \<Rightarrow> epoch result" where
  "Epoch_close ep =
     (if boundary ep \<noteq> Open then Throw ''Can only close an open epoch''
      else Ok \<lparr>edits = edits ep, boundary = Closed\<rparr>)"

definition Epoch_snapshot :: "epoch \<Rightarrow> cid \<Rightarrow> epoch result" where
  "Epoch_snapshot ep c =
     (if boundary ep = Open then Throw ''Cannot snapshot an open epoch''
      else Ok \<lparr>edits = edits ep, boundary = Snapshotted c\<rparr>)"

definition Epoch_merge :: "epoch \<Rightarrow> epoch \<Rightarrow> epoch result" where
  "Epoch_merge a b =
     (if boundary a = Open then Throw ''Cannot merge epoch with open boundary''
      else if boundary b = Open then Throw ''Cannot merge epoch with open boundary''
      else Ok (Epoch_create (edits a @ edits b) (boundary b)))"

section \<open>The summary\<close>

text \<open>Numbers with the two infinities the empty time range is made of.\<close>

datatype ext_num = NegInf | Num int | PosInf

instantiation ext_num :: linorder
begin

fun less_eq_ext_num :: "ext_num \<Rightarrow> ext_num \<Rightarrow> bool" where
  "less_eq_ext_num NegInf _ \<longleftrightarrow> True"
| "less_eq_ext_num (Num a) (Num b) \<longleftrightarrow> a \<le> b"
| "less_eq_ext_num (Num a) PosInf \<longleftrightarrow> True"
| "less_eq_ext_num PosInf PosInf \<longleftrightarrow> True"
| "less_eq_ext_num _ _ \<longleftrightarrow> False"

definition less_ext_num :: "ext_num \<Rightarrow> ext_num \<Rightarrow> bool" where
  "less_ext_num a b \<longleftrightarrow> a \<le> b \<and> \<not> b \<le> a"

instance
proof
  fix x y z :: ext_num
  show "x < y \<longleftrightarrow> x \<le> y \<and> \<not> y \<le> x" by (rule less_ext_num_def)
  show "x \<le> x" by (cases x) simp_all
  show "x \<le> y \<Longrightarrow> y \<le> z \<Longrightarrow> x \<le> z" by (cases x; cases y; cases z) simp_all
  show "x \<le> y \<Longrightarrow> y \<le> x \<Longrightarrow> x = y" by (cases x; cases y) simp_all
  show "x \<le> y \<or> y \<le> x" by (cases x; cases y) auto
qed

end

record summary =
  epochCount :: int
  editCount :: int
  timeRange :: "ext_num \<times> ext_num"
  authors :: "string set"
  snapshotCount :: int

definition Sum :: "int monoid" where
  "Sum = \<lparr>mempty = 0, mappend = (\<lambda>a b. a + b)\<rparr>"

definition MinMax :: "(ext_num \<times> ext_num) monoid" where
  "MinMax = \<lparr>mempty = (PosInf, NegInf), mappend = (\<lambda>a b. (min (fst a) (fst b), max (snd a) (snd b)))\<rparr>"

definition SetUnion :: "string set monoid" where
  "SetUnion = \<lparr>mempty = {}, mappend = (\<lambda>a b. if a = {} then b else if b = {} then a else a \<union> b)\<rparr>"

definition summaryMonoid :: "summary monoid" where
  "summaryMonoid =
     \<lparr>mempty = \<lparr>epochCount = mempty Sum, editCount = mempty Sum, timeRange = mempty MinMax,
                authors = mempty SetUnion, snapshotCount = mempty Sum\<rparr>,
      mappend = (\<lambda>a b. \<lparr>epochCount = mappend Sum (epochCount a) (epochCount b),
                editCount = mappend Sum (editCount a) (editCount b),
                timeRange = mappend MinMax (timeRange a) (timeRange b),
                authors = mappend SetUnion (authors a) (authors b),
                snapshotCount = mappend Sum (snapshotCount a) (snapshotCount b)\<rparr>)\<rparr>"

definition measure_step :: "(string set \<times> ext_num \<times> ext_num) \<Rightarrow> edit \<Rightarrow> string set \<times> ext_num \<times> ext_num" where
  "measure_step acc e = (case acc of (aus, earliest, latest) \<Rightarrow>
     (insert (author e) aus,
      if Num (timestamp e) < earliest then Num (timestamp e) else earliest,
      if latest < Num (timestamp e) then Num (timestamp e) else latest))"

definition measureEpoch :: "epoch \<Rightarrow> summary" where
  "measureEpoch ep = (case foldl measure_step ({}, PosInf, NegInf) (edits ep) of
     (aus, earliest, latest) \<Rightarrow>
       \<lparr>epochCount = 1, editCount = int (length (edits ep)), timeRange = (earliest, latest),
        authors = aus,
        snapshotCount = (case boundary ep of Snapshotted _ \<Rightarrow> 1 | _ \<Rightarrow> 0)\<rparr>)"

definition epochMeasured :: "(summary, epoch) measured" where
  "epochMeasured = \<lparr>monoid = summaryMonoid, measure = measureEpoch\<rparr>"

lemma epochMeasured_simps [simp]:
  "monoid epochMeasured = summaryMonoid" "measure epochMeasured = measureEpoch"
  by (simp_all add: epochMeasured_def)

lemma ext_num_ends [simp]:
  "NegInf \<le> x" "x \<le> PosInf" "PosInf \<le> x \<longleftrightarrow> x = PosInf" "x \<le> NegInf \<longleftrightarrow> x = NegInf"
  by (cases x; simp)+

lemma Sum_laws:
  "mappend Sum (mempty Sum) x = x" "mappend Sum x (mempty Sum) = x"
  "mappend Sum (mappend Sum x y) z = mappend Sum x (mappend Sum y z)"
  by (simp_all add: Sum_def)

lemma MinMax_laws:
  "mappend MinMax (mempty MinMax) r = r" "mappend MinMax r (mempty MinMax) = r"
  "mappend MinMax (mappend MinMax r u) v = mappend MinMax r (mappend MinMax u v)"
  by (cases r; auto simp: MinMax_def min_def max_def)+

lemma SetUnion_laws:
  "mappend SetUnion (mempty SetUnion) x = x" "mappend SetUnion x (mempty SetUnion) = x"
  "mappend SetUnion (mappend SetUnion x y) z = mappend SetUnion x (mappend SetUnion y z)"
  by (auto simp: SetUnion_def)

interpretation summary: measured_laws epochMeasured "\<lambda>_. True"
  by unfold_locales (simp_all add: summaryMonoid_def Sum_laws MinMax_laws SetUnion_laws)

lemma summary_left_id [simp]: "mappend summaryMonoid (mempty summaryMonoid) x = x"
  using summary.left_id [of x] by simp

type_synonym history = "(summary, epoch) tree"

abbreviation emm :: "(summary, epoch) emeasured" where "emm \<equiv> leafMeasured epochMeasured"

section \<open>Operations on the tree\<close>

definition fromEpochs :: "epoch list \<Rightarrow> history result" where
  "fromEpochs epochs = fromArray emm (map Leaf epochs)"

text \<open>A raw value at depth 0: what \<open>split\<close> and \<open>viewr\<close> hand to the operations on epochs.\<close>

fun unleaf :: "('v, 'a) elem \<Rightarrow> 'a result" where
  "unleaf (Leaf a) = Ok a"
| "unleaf _ = Throw ''not an element''"

definition splitAt :: "int \<Rightarrow> history \<Rightarrow> (summary, epoch) split option result" where
  "splitAt position tree = ft_split emm (\<lambda>v. position \<le> epochCount v) tree"

definition mergeAdjacent :: "history \<Rightarrow> int \<Rightarrow> history result" where
  "mergeAdjacent tree position =
     (if position < 1 then Throw ''Position must be >= 1'' else
      and_then (splitAt position tree) (\<lambda>so. case so of
        None \<Rightarrow> Throw ''Position beyond tree size''
      | Some s \<Rightarrow>
          and_then (splitAt 1 (right s)) (\<lambda>so2. case so2 of
            None \<Rightarrow> Throw ''Position beyond tree size''
          | Some s2 \<Rightarrow>
              and_then (unleaf (svalue s)) (\<lambda>a.
              and_then (unleaf (svalue s2)) (\<lambda>b.
              and_then (Epoch_merge a b) (\<lambda>merged.
              and_then (snoc emm (left s) (Leaf merged)) (\<lambda>l.
              ft_concat emm l (right s2))))))))"

definition splitAtSnapshot ::
  "(bytes \<Rightarrow> bytes \<Rightarrow> bool) \<Rightarrow> history \<Rightarrow> int \<Rightarrow> bytes \<Rightarrow> cid \<Rightarrow> history result" where
  "splitAtSnapshot contains tree position snapshot c =
     (if position < 1 then Throw ''Position must be >= 1'' else
      and_then (splitAt position tree) (\<lambda>so. case so of
        None \<Rightarrow> Throw ''Position beyond tree size''
      | Some s \<Rightarrow>
          and_then (unleaf (svalue s)) (\<lambda>target.
          if boundary target = Open then Throw ''Cannot split an epoch with open boundary'' else
          let before = filter (\<lambda>e. contains snapshot (payload e)) (edits target);
              after = filter (\<lambda>e. \<not> contains snapshot (payload e)) (edits target);
              beforeEpoch = Epoch_create before (Snapshotted c);
              afterEpoch = Epoch_create after (boundary target)
          in and_then (snoc emm (left s) (Leaf beforeEpoch)) (\<lambda>withBefore.
             and_then (snoc emm withBefore (Leaf afterEpoch)) (\<lambda>withBoth.
             ft_concat emm withBoth (right s))))))"

record snapshot =
  scid :: cid
  sstate :: bytes

definition fromSnapshots :: "snapshot list \<Rightarrow> history result" where
  "fromSnapshots ss = fromArray emm (map (\<lambda>s. Leaf (Epoch_create [] (Snapshotted (scid s)))) ss)"

text \<open>The index of the first snapshot that contains the edit, or the number of snapshots.\<close>

fun bucket_index :: "(bytes \<Rightarrow> bytes \<Rightarrow> bool) \<Rightarrow> snapshot list \<Rightarrow> edit \<Rightarrow> nat" where
  "bucket_index contains [] e = 0"
| "bucket_index contains (s # ss) e =
     (if contains (sstate s) (payload e) then 0 else Suc (bucket_index contains ss e))"

definition place :: "(bytes \<Rightarrow> bytes \<Rightarrow> bool) \<Rightarrow> snapshot list \<Rightarrow> edit list list \<Rightarrow> edit \<Rightarrow> edit list list" where
  "place contains ss buckets e =
     (let i = bucket_index contains ss e in buckets[i := (buckets ! i) @ [e]])"

definition backfillEdits :: "(bytes \<Rightarrow> bytes \<Rightarrow> bool) \<Rightarrow> snapshot list \<Rightarrow> edit list \<Rightarrow> history result" where
  "backfillEdits contains ss es =
     (if ss = [] then fromArray emm [] else
      let buckets = foldl (place contains ss) (replicate (length ss + 1) []) es;
          result = map (\<lambda>(i, s). Epoch_create (buckets ! i) (Snapshotted (scid s))) (enumerate 0 ss);
          remainder = buckets ! length ss
      in fromArray emm (map Leaf (if remainder \<noteq> [] then result @ [Epoch_create remainder Closed] else result)))"

section \<open>The tree as the list of its epochs\<close>

definition hist :: "history \<Rightarrow> epoch list \<Rightarrow> bool" where
  "hist t es \<longleftrightarrow> wf_tree epochMeasured 0 t \<and> flat_tree t = es"

lemma hist_toArray: "hist t es \<Longrightarrow> toArray t = Ok (map Leaf es)"
  by (auto simp: hist_def summary.toArray_wf)

lemma fromEpochs_hist: "\<exists>t. fromArray emm (map Leaf es) = Ok t \<and> hist t es"
  using summary.fromArray_wf [OF summary.at_level_leaf, of "map Leaf es"]
  by (auto simp: summary.tree_post_def hist_def)

lemma snoc_hist: "hist t es \<Longrightarrow> \<exists>u. snoc emm t (Leaf e) = Ok u \<and> hist u (es @ [e])"
  using summary.snoc_wf [OF summary.at_level_leaf, of "Leaf e" t] by (auto simp: hist_def)

lemma concat_hist: "hist t es \<Longrightarrow> hist u fs \<Longrightarrow> \<exists>w. ft_concat emm t u = Ok w \<and> hist w (es @ fs)"
  using summary.app3_wf [OF summary.at_level_leaf, of t "[]" u]
  by (auto simp: hist_def ft_concat_def summary.tree_post_def)

lemma viewr_hist:
  assumes "hist t (es @ [e])"
  shows "\<exists>u. viewr emm t = Ok (Some (u, Leaf e)) \<and> hist u es"
  using summary.viewr_deepR_wf(1) [OF summary.at_level_leaf, of t] assms
  by (auto simp: hist_def summary.viewr_post_def wf_elem_0)

lemma epochCount_measure [simp]: "epochCount (measureEpoch e) = 1"
  by (simp add: measureEpoch_def split: prod.splits)

lemma epochCount_mlist [simp]: "epochCount (mlist epochMeasured es) = int (length es)"
  by (induction es) (simp_all add: summaryMonoid_def Sum_def)

lemma splitAt_hist:
  assumes "hist t es" "1 \<le> position"
  shows "if position \<le> int (length es)
    then \<exists>s. splitAt position t = Ok (Some s) \<and> hist (left s) (take (nat position - 1) es) \<and>
      svalue s = Leaf (es ! (nat position - 1)) \<and> hist (right s) (drop (nat position) es)
    else splitAt position t = Ok None"
proof -
  let ?p = "\<lambda>v. position \<le> epochCount v"
  have wf: "wf_tree epochMeasured 0 t" and fl: "flat_tree t = es" using assms(1) by (simp_all add: hist_def)
  have np: "\<not> ?p (memp epochMeasured)" using assms(2) by (simp add: summaryMonoid_def Sum_def)
  note sp = summary.ft_split_wf [where p = ?p, OF wf np]
  show ?thesis
  proof (cases "position \<le> int (length es)")
    case True
    then obtain s where s: "splitAt position t = Ok (Some s)"
      "summary.split_post 0 ?p (memp epochMeasured) t (Ok s)"
      using sp fl by (auto simp: splitAt_def)
    from s(2) obtain x where x: "svalue s = Leaf x" by (auto simp: summary.split_post_def wf_elem_0)
    let ?l = "flat_tree (left s)" and ?r = "flat_tree (right s)"
    have es: "es = ?l @ x # ?r" "\<not> position \<le> int (length ?l)" "position \<le> int (length ?l) + 1"
      using s(2) x fl by (auto simp: summary.split_post_def summary.split_point_def summary.left_id)
    then have len: "nat position - 1 = length ?l" "nat position = Suc (length ?l)" by simp_all
    have "es ! length ?l = x" "take (length ?l) es = ?l" "drop (Suc (length ?l)) es = ?r"
      by (subst es(1), simp)+
    then show ?thesis using True s x len by (auto simp: summary.split_post_def hist_def)
  next
    case False
    then show ?thesis using sp fl by (auto simp: splitAt_def)
  qed
qed

lemma mergeAdjacent_hist:
  assumes "hist t es"
  shows "if position < 1 then mergeAdjacent t position = Throw ''Position must be >= 1''
    else if int (length es) \<le> position then mergeAdjacent t position = Throw ''Position beyond tree size''
    else (case Epoch_merge (es ! (nat position - 1)) (es ! nat position) of
        Inl err \<Rightarrow> mergeAdjacent t position = Throw err
      | Inr e \<Rightarrow> \<exists>u. mergeAdjacent t position = Ok u \<and>
          hist u (take (nat position - 1) es @ [e] @ drop (nat position + 1) es))"
proof (cases "position < 1")
  case True
  then show ?thesis by (simp add: mergeAdjacent_def)
next
  case pos: False
  note sp = splitAt_hist [OF assms, of position]
  show ?thesis
  proof (cases "position \<le> int (length es)")
    case False
    then show ?thesis using pos sp by (simp add: mergeAdjacent_def)
  next
    case True
    then obtain s where s: "splitAt position t = Ok (Some s)" "hist (left s) (take (nat position - 1) es)"
      "svalue s = Leaf (es ! (nat position - 1))" "hist (right s) (drop (nat position) es)"
      using sp pos by auto
    note sp2 = splitAt_hist [OF s(4), of 1, simplified]
    show ?thesis
    proof (cases "int (length es) = position")
      case True
      then show ?thesis using sp2 s pos by (auto simp: mergeAdjacent_def)
    next
      case False
      with True have lt: "position < int (length es)" by simp
      then obtain s2 where s2: "splitAt 1 (right s) = Ok (Some s2)"
        "svalue s2 = Leaf (es ! nat position)" "hist (right s2) (drop (nat position + 1) es)"
      proof -
        have "Suc 0 \<le> length es - nat position" using lt pos by linarith
        then show ?thesis using that sp2 by (auto split: if_splits)
      qed
      show ?thesis
      proof (cases "Epoch_merge (es ! (nat position - 1)) (es ! nat position)")
        case (Inl err)
        then show ?thesis using pos lt s s2 by (simp add: mergeAdjacent_def)
      next
        case (Inr e)
        obtain l where l: "snoc emm (left s) (Leaf e) = Ok l" "hist l (take (nat position - 1) es @ [e])"
          using snoc_hist [OF s(2)] by blast
        then show ?thesis using pos lt s s2 Inr concat_hist [OF l(2) s2(3)]
          by (auto simp: mergeAdjacent_def)
      qed
    qed
  qed
qed

text \<open>The two epochs a snapshot makes of one.\<close>

definition split_epoch :: "(bytes \<Rightarrow> bytes \<Rightarrow> bool) \<Rightarrow> bytes \<Rightarrow> cid \<Rightarrow> epoch \<Rightarrow> epoch list" where
  "split_epoch contains snap c ep =
     [\<lparr>edits = filter (\<lambda>e. contains snap (payload e)) (edits ep), boundary = Snapshotted c\<rparr>,
      \<lparr>edits = filter (\<lambda>e. \<not> contains snap (payload e)) (edits ep), boundary = boundary ep\<rparr>]"

lemma splitAtSnapshot_hist:
  assumes "hist t es"
  shows "if position < 1 then splitAtSnapshot contains t position snap c = Throw ''Position must be >= 1''
    else if int (length es) < position
      then splitAtSnapshot contains t position snap c = Throw ''Position beyond tree size''
    else if boundary (es ! (nat position - 1)) = Open
      then splitAtSnapshot contains t position snap c = Throw ''Cannot split an epoch with open boundary''
    else \<exists>u. splitAtSnapshot contains t position snap c = Ok u \<and>
      hist u (take (nat position - 1) es @ split_epoch contains snap c (es ! (nat position - 1)) @
              drop (nat position) es)"
proof (cases "position < 1")
  case True
  then show ?thesis by (simp add: splitAtSnapshot_def)
next
  case pos: False
  note sp = splitAt_hist [OF assms, of position]
  show ?thesis
  proof (cases "position \<le> int (length es)")
    case False
    then show ?thesis using pos sp by (simp add: splitAtSnapshot_def)
  next
    case True
    let ?ep = "es ! (nat position - 1)"
    obtain s where s: "splitAt position t = Ok (Some s)" "hist (left s) (take (nat position - 1) es)"
      "svalue s = Leaf ?ep" "hist (right s) (drop (nat position) es)"
      using sp pos True by auto
    obtain bef aft where se: "split_epoch contains snap c ?ep = [bef, aft]" by (simp add: split_epoch_def)
    obtain l where l: "snoc emm (left s) (Leaf bef) = Ok l" "hist l (take (nat position - 1) es @ [bef])"
      using snoc_hist [OF s(2)] by blast
    obtain m where m: "snoc emm l (Leaf aft) = Ok m" "hist m (take (nat position - 1) es @ [bef, aft])"
      using snoc_hist [OF l(2), of aft] by auto
    have "bef = Epoch_create (filter (\<lambda>e. contains snap (payload e)) (edits ?ep)) (Snapshotted c)"
      "aft = Epoch_create (filter (\<lambda>e. \<not> contains snap (payload e)) (edits ?ep)) (boundary ?ep)"
      using se by (auto simp: split_epoch_def Epoch_create_def)
    then show ?thesis using pos True s l(1) m(1) se concat_hist [OF m(2) s(4)]
      by (auto simp: splitAtSnapshot_def Let_def)
  qed
qed

lemma bucket_index_le: "bucket_index contains ss e \<le> length ss"
  by (induction ss) auto

lemma bucket_index_iff:
  "i < length ss \<Longrightarrow> bucket_index contains ss e = i \<longleftrightarrow>
     contains (sstate (ss ! i)) (payload e) \<and> (\<forall>j < i. \<not> contains (sstate (ss ! j)) (payload e))"
proof (induction ss arbitrary: i)
  case (Cons s ss)
  then show ?case by (cases i) (auto simp: All_less_Suc2)
qed simp

lemma bucket_index_length:
  "bucket_index contains ss e = length ss \<longleftrightarrow> (\<forall>s \<in> set ss. \<not> contains (sstate s) (payload e))"
  by (induction ss) auto

lemma place_buckets:
  assumes "length bs = length ss + 1"
  shows "length (foldl (place contains ss) bs es) = length ss + 1"
    "i \<le> length ss \<Longrightarrow> foldl (place contains ss) bs es ! i = bs ! i @ filter (\<lambda>e. bucket_index contains ss e = i) es"
  using assms
proof (induction es arbitrary: bs)
  case (Cons e es)
  {
    case 1
    then show ?case using Cons.IH(1) by (simp add: place_def Let_def)
  next
    case 2
    then show ?case
      using Cons.IH(2) [of "place contains ss bs e"] bucket_index_le [of contains ss e]
      by (auto simp: place_def Let_def nth_list_update)
  }
qed auto

text \<open>What backfilling promises: one epoch per snapshot, and one for the edits no snapshot has.\<close>

definition backfill_spec :: "(bytes \<Rightarrow> bytes \<Rightarrow> bool) \<Rightarrow> snapshot list \<Rightarrow> edit list \<Rightarrow> epoch list" where
  "backfill_spec contains ss es =
     (let bucket = (\<lambda>i. filter (\<lambda>e. bucket_index contains ss e = i) es) in
      map (\<lambda>i. \<lparr>edits = bucket i, boundary = Snapshotted (scid (ss ! i))\<rparr>) [0..<length ss] @
      (if bucket (length ss) = [] then [] else [\<lparr>edits = bucket (length ss), boundary = Closed\<rparr>]))"

lemma backfillEdits_hist:
  assumes "ss \<noteq> []"
  shows "\<exists>t. backfillEdits contains ss es = Ok t \<and> hist t (backfill_spec contains ss es)"
proof -
  let ?bs = "foldl (place contains ss) (replicate (Suc (length ss)) []) es"
  have b: "i \<le> length ss \<Longrightarrow> ?bs ! i = filter (\<lambda>e. bucket_index contains ss e = i) es" for i
    using place_buckets(2) [of "replicate (Suc (length ss)) []" ss i contains es]
    by (simp del: replicate.simps add: nth_replicate less_Suc_eq_le)
  have "map (\<lambda>(i, s). Epoch_create (?bs ! i) (Snapshotted (scid s))) (enumerate 0 ss) =
      map (\<lambda>i. \<lparr>edits = filter (\<lambda>e. bucket_index contains ss e = i) es,
                boundary = Snapshotted (scid (ss ! i))\<rparr>) [0..<length ss]"
    by (rule nth_equalityI) (auto simp del: replicate.simps simp: nth_enumerate_eq b Epoch_create_def)
  then have "backfillEdits contains ss es = fromArray emm (map Leaf (backfill_spec contains ss es))"
    using assms by (simp del: replicate.simps map_map
        add: backfillEdits_def Let_def b backfill_spec_def Epoch_create_def)
  then show ?thesis using fromEpochs_hist by simp
qed

lemma mset_buckets:
  "(\<Sum>i\<in>{0..<n}. mset (filter (\<lambda>e. f e = i) es)) = mset (filter (\<lambda>e. f e < n) es)" for f :: "'e \<Rightarrow> nat"
proof (induction n)
  case (Suc n)
  have "filter_mset (\<lambda>e. f e < Suc n) M = filter_mset (\<lambda>e. f e < n) M + filter_mset (\<lambda>e. f e = n) M" for M
    by (induction M) auto
  with Suc show ?case by simp
qed simp

lemma backfill_spec_mset:
  "mset (concat (map edits (backfill_spec contains ss es))) = mset es"
proof -
  let ?b = "\<lambda>i. filter (\<lambda>e. bucket_index contains ss e = i) es"
  have le: "filter (\<lambda>e. bucket_index contains ss e < Suc (length ss)) es = es"
    using bucket_index_le [of contains ss] by (auto simp: filter_id_conv less_Suc_eq_le)
  have "mset (concat (map ?b [0..<n])) = (\<Sum>i\<in>{0..<n}. mset (?b i))" for n
    by (induction n) simp_all
  then have "mset (concat (map ?b [0..<length ss])) + mset (?b (length ss)) = mset es"
    using mset_buckets [of "bucket_index contains ss" es "Suc (length ss)"] le by (simp add: add.commute)
  then have *: "mset (concat (map ?b [0..<length ss])) + mset (?b (length ss)) = mset es" .
  show ?thesis
  proof (cases "?b (length ss) = []")
    case True
    then show ?thesis using * [unfolded True] by (simp add: backfill_spec_def Let_def comp_def)
  next
    case False
    then show ?thesis using * by (simp add: backfill_spec_def Let_def comp_def)
  qed
qed

lemma histE:
  assumes "fromEpochs es = Ok t"
  shows "hist t es"
  using fromEpochs_hist [of es] assms by (auto simp: fromEpochs_def)

lemma inj_Leaf [simp]: "map Leaf xs = map Leaf ys \<longleftrightarrow> xs = ys"
  by (simp add: inj_map_eq_map inj_on_def)

section \<open>Properties\<close>

text \<open>
  Merging at a position of a history built from any list of epochs.  A position below 1 or at the
  length or beyond is an error, so is an open epoch; otherwise the two epochs around the boundary become
  one that has the edits of both and the boundary of the second, and every other epoch is untouched.
\<close>

theorem mergeAdjacent_correct:
  assumes "fromEpochs es = Ok t"
  shows "if position < 1 then mergeAdjacent t position = Throw ''Position must be >= 1''
    else if int (length es) \<le> position then mergeAdjacent t position = Throw ''Position beyond tree size''
    else (let a = es ! (nat position - 1); b = es ! nat position in
      if boundary a = Open \<or> boundary b = Open
      then mergeAdjacent t position = Throw ''Cannot merge epoch with open boundary''
      else \<exists>u. mergeAdjacent t position = Ok u \<and>
        toArray u = Ok (map Leaf (take (nat position - 1) es @
          \<lparr>edits = edits a @ edits b, boundary = boundary b\<rparr> # drop (nat position + 1) es)))"
proof (cases "position < 1 \<or> int (length es) \<le> position")
  case True
  then show ?thesis using mergeAdjacent_hist [OF histE [OF assms], of position] by (auto simp only: if_True if_False split: if_split)
next
  case False
  let ?a = "es ! (nat position - 1)" and ?b = "es ! nat position"
  have "case Epoch_merge ?a ?b of
        Inl err \<Rightarrow> mergeAdjacent t position = Throw err
      | Inr e \<Rightarrow> \<exists>u. mergeAdjacent t position = Ok u \<and>
          hist u (take (nat position - 1) es @ [e] @ drop (nat position + 1) es)"
    using mergeAdjacent_hist [OF histE [OF assms], of position] False by simp
  then show ?thesis using False
    by (cases "boundary ?a = Open"; cases "boundary ?b = Open")
      (auto simp: Let_def Epoch_merge_def Epoch_create_def dest!: hist_toArray)
qed

theorem mergeAdjacent_correct_witness:
  "\<exists>t u. fromEpochs [Epoch_create [] Closed, Epoch_create [] (Snapshotted ''c''), Epoch_create [] Open] = Ok t \<and>
     mergeAdjacent t 1 = Ok u \<and>
     toArray u = Ok (map Leaf [Epoch_create [] (Snapshotted ''c''), Epoch_create [] Open])"
proof -
  let ?es = "[Epoch_create [] Closed, Epoch_create [] (Snapshotted ''c''), Epoch_create [] Open]"
  obtain t where t: "fromEpochs ?es = Ok t" using fromEpochs_hist [of ?es] by (auto simp: fromEpochs_def)
  then show ?thesis using mergeAdjacent_correct [OF t, of 1]
    by (simp add: Epoch_create_def Let_def)
qed

text \<open>
  Splitting an epoch at a snapshot.  The errors are the code's three; otherwise the epoch is replaced
  by the edits the snapshot contains, with the snapshot as boundary, and the rest, with the old boundary,
  in order, and merging the two again at that position gives the same multiset of edits back.
\<close>

theorem splitAtSnapshot_correct:
  assumes "fromEpochs es = Ok t"
  shows "if position < 1 then splitAtSnapshot contains t position snap c = Throw ''Position must be >= 1''
    else if int (length es) < position
      then splitAtSnapshot contains t position snap c = Throw ''Position beyond tree size''
    else let ep = es ! (nat position - 1) in
      if boundary ep = Open
      then splitAtSnapshot contains t position snap c = Throw ''Cannot split an epoch with open boundary''
      else \<exists>u. splitAtSnapshot contains t position snap c = Ok u \<and>
        toArray u = Ok (map Leaf (take (nat position - 1) es @
          [\<lparr>edits = filter (\<lambda>e. contains snap (payload e)) (edits ep), boundary = Snapshotted c\<rparr>,
           \<lparr>edits = filter (\<lambda>e. \<not> contains snap (payload e)) (edits ep), boundary = boundary ep\<rparr>] @
          drop (nat position) es))"
  using splitAtSnapshot_hist [OF histE [OF assms], of position contains snap c]
  by (cases "position < 1"; cases "int (length es) < position"; cases "boundary (es ! (nat position - 1)) = Open")
    (auto simp: Let_def split_epoch_def dest!: hist_toArray)

theorem splitAtSnapshot_correct_witness:
  "\<exists>t u. fromEpochs [Epoch_create [] Closed, Epoch_create [] Open] = Ok t \<and>
     splitAtSnapshot (\<lambda>s e. True) t 1 [] ''c'' = Ok u \<and>
     toArray u = Ok (map Leaf [Epoch_create [] (Snapshotted ''c''), Epoch_create [] Closed, Epoch_create [] Open])"
proof -
  let ?es = "[Epoch_create [] Closed, Epoch_create [] Open]"
  obtain t where t: "fromEpochs ?es = Ok t" using fromEpochs_hist [of ?es] by (auto simp: fromEpochs_def)
  then show ?thesis using splitAtSnapshot_correct [OF t, of 1 "\<lambda>s e. True" "[]" "''c''"]
    by (simp add: Epoch_create_def Let_def)
qed

text \<open>
  Backfilling over at least one snapshot never throws and gives one epoch per snapshot, in order, with
  the edits whose first containing snapshot it is, and a trailing closed epoch with the edits no snapshot
  contains, if any; no edit is lost or duplicated.  Without a snapshot the edits are dropped: the result is
  the empty history, where the function's comment has every edit that no snapshot contains go into a
  trailing closed epoch.
\<close>

theorem backfill_correct:
  "if ss = [] then backfillEdits contains ss es = Ok Empty else
   \<exists>t es'. backfillEdits contains ss es = Ok t \<and> toArray t = Ok (map Leaf es') \<and>
    mset (concat (map edits es')) = mset es \<and>
    (\<forall>i < length ss. boundary (es' ! i) = Snapshotted (scid (ss ! i)) \<and>
      edits (es' ! i) = filter (\<lambda>e. contains (sstate (ss ! i)) (payload e) \<and>
        (\<forall>j < i. \<not> contains (sstate (ss ! j)) (payload e))) es) \<and>
    drop (length ss) es' = (let rest = filter (\<lambda>e. \<forall>s \<in> set ss. \<not> contains (sstate s) (payload e)) es in
      if rest = [] then [] else [\<lparr>edits = rest, boundary = Closed\<rparr>])"
proof (cases "ss = []")
  case False
  let ?es = "backfill_spec contains ss es"
  obtain t where t: "backfillEdits contains ss es = Ok t" "hist t ?es"
    using backfillEdits_hist [OF False] by blast
  have "\<forall>i < length ss. boundary (?es ! i) = Snapshotted (scid (ss ! i)) \<and>
      edits (?es ! i) = filter (\<lambda>e. contains (sstate (ss ! i)) (payload e) \<and>
        (\<forall>j < i. \<not> contains (sstate (ss ! j)) (payload e))) es"
    by (auto simp: backfill_spec_def Let_def nth_append bucket_index_iff intro!: filter_cong)
  moreover have "drop (length ss) ?es = (let rest = filter (\<lambda>e. \<forall>s \<in> set ss. \<not> contains (sstate s) (payload e)) es in
      if rest = [] then [] else [\<lparr>edits = rest, boundary = Closed\<rparr>])"
    by (simp add: backfill_spec_def Let_def bucket_index_length)
  ultimately show ?thesis
    unfolding if_not_P [OF False]
    by (intro exI [of _ t] exI [of _ ?es] conjI t(1) hist_toArray [OF t(2)] backfill_spec_mset)
qed (simp add: backfillEdits_def fromArray_def)

theorem backfill_correct_witness:
  "\<exists>t es'. backfillEdits (\<lambda>s e. s = e) [\<lparr>scid = ''a'', sstate = [1]\<rparr>] [] = Ok t \<and> toArray t = Ok (map Leaf es') \<and>
     boundary (es' ! 0) = Snapshotted ''a''"
proof -
  let ?ss = "[\<lparr>scid = ''a'', sstate = [1]\<rparr>]"
  obtain t es' where "backfillEdits (\<lambda>s e. s = e) ?ss [] = Ok t" "toArray t = Ok (map Leaf es')"
    "\<forall>i < length ?ss. boundary (es' ! i) = Snapshotted (scid (?ss ! i))"
    using backfill_correct [of ?ss "\<lambda>s e. s = e" "[]", unfolded if_not_P [OF list.distinct(2)]]
    by (elim exE conjE) (rule that, assumption+, blast)
  then show ?thesis by force
qed

end
