(* ===== verification/View.thy ===== *)
theory View
  imports History
begin

text \<open>
  Monoidal views over a history (\<open>packages/document/src/view.ts\<close>), the fingerprint and the state view.
  The cache of the code is a \<^verbatim>\<open>WeakMap\<close> keyed by the identity of a tree node; here it is keyed by the node
  itself, so that a lookup may hit where the code, holding an equal node at another address, recomputes.
  The lemmas show that a sound cache only ever returns what recomputing would.
\<close>

section \<open>Cache and fold\<close>

type_synonym ('v, 'a) node_key = "('v, 'a) tree + ('v, 'a) elem"
type_synonym ('v, 'a, 'w) cache = "('v, 'a) node_key \<rightharpoonup> 'w"

definition Cache_create :: "('v, 'a, 'w) cache" where
  "Cache_create = Map.empty"

definition Cache_seed :: "('v, 'a, 'w) cache \<Rightarrow> ('v, 'a) node_key \<Rightarrow> 'w \<Rightarrow> ('v, 'a, 'w) cache" where
  "Cache_seed c k w = c(k \<mapsto> w)"

text \<open>At depth 0 the element is measured, below it is a node: a cast going wrong is an error.\<close>

fun walkElement :: "('w, 'a) measured \<Rightarrow> ('v, 'a) elem \<Rightarrow> ('v, 'a, 'w) cache \<Rightarrow> nat \<Rightarrow>
    ('w \<times> ('v, 'a, 'w) cache) result" where
  "walkElement b x c 0 = and_then (unleaf x) (\<lambda>a. Ok (measure b a, c))"
| "walkElement b x c (Suc d) =
     (case c (Inr x) of
        Some w \<Rightarrow> Ok (w, c)
      | None \<Rightarrow> (case x of
          Leaf a \<Rightarrow> Throw ''not a node''
        | Node2 v p q \<Rightarrow>
            and_then (walkElement b p c d) (\<lambda>(w1, c1).
            and_then (walkElement b q c1 d) (\<lambda>(w2, c2).
            let result = mapp b w1 w2 in Ok (result, c2(Inr x \<mapsto> result))))
        | Node3 v p q r \<Rightarrow>
            and_then (walkElement b p c d) (\<lambda>(w1, c1).
            and_then (walkElement b q c1 d) (\<lambda>(w2, c2).
            and_then (walkElement b r c2 d) (\<lambda>(w3, c3).
            let result = mapp b (mapp b w1 w2) w3 in Ok (result, c3(Inr x \<mapsto> result)))))))"

fun walkDigit :: "('w, 'a) measured \<Rightarrow> ('v, 'a) elem digit \<Rightarrow> ('v, 'a, 'w) cache \<Rightarrow> nat \<Rightarrow>
    ('w \<times> ('v, 'a, 'w) cache) result" where
  "walkDigit b (One p) c d = walkElement b p c d"
| "walkDigit b (Two p q) c d =
     and_then (walkElement b p c d) (\<lambda>(w1, c1).
     and_then (walkElement b q c1 d) (\<lambda>(w2, c2). Ok (mapp b w1 w2, c2)))"
| "walkDigit b (Three p q r) c d =
     and_then (walkElement b p c d) (\<lambda>(w1, c1).
     and_then (walkElement b q c1 d) (\<lambda>(w2, c2).
     and_then (walkElement b r c2 d) (\<lambda>(w3, c3). Ok (mapp b (mapp b w1 w2) w3, c3))))"
| "walkDigit b (Four p q r s) c d =
     and_then (walkElement b p c d) (\<lambda>(w1, c1).
     and_then (walkElement b q c1 d) (\<lambda>(w2, c2).
     and_then (walkElement b r c2 d) (\<lambda>(w3, c3).
     and_then (walkElement b s c3 d) (\<lambda>(w4, c4). Ok (mapp b (mapp b w1 w2) (mapp b w3 w4), c4)))))"

fun walkTree :: "('w, 'a) measured \<Rightarrow> ('v, 'a) tree \<Rightarrow> ('v, 'a, 'w) cache \<Rightarrow> nat \<Rightarrow>
    ('w \<times> ('v, 'a, 'w) cache) result" where
  "walkTree b Empty c d = Ok (memp b, c)"
| "walkTree b (Single x) c d = walkElement b x c d"
| "walkTree b (Deep v pr mid sf) c d =
     (case c (Inl (Deep v pr mid sf)) of
        Some w \<Rightarrow> Ok (w, c)
      | None \<Rightarrow>
          and_then (walkDigit b pr c d) (\<lambda>(w1, c1).
          and_then (walkTree b mid c1 (d + 1)) (\<lambda>(w2, c2).
          and_then (walkDigit b sf c2 d) (\<lambda>(w3, c3).
          let result = mapp b (mapp b w1 w2) w3 in
          Ok (result, c3(Inl (Deep v pr mid sf) \<mapsto> result))))))"

definition foldTree_full :: "('w, epoch) measured \<Rightarrow> history \<Rightarrow> (summary, epoch, 'w) cache \<Rightarrow>
    ('w \<times> (summary, epoch, 'w) cache) result" where
  "foldTree_full b t c = walkTree b t c 0"

definition foldTreeAt :: "('w, epoch) measured \<Rightarrow> history \<Rightarrow> int \<Rightarrow> (summary, epoch, 'w) cache \<Rightarrow>
    ('w \<times> (summary, epoch, 'w) cache) result" where
  "foldTreeAt b t position c =
     (if position \<le> 0 then Ok (memp b, c) else
      and_then (splitAt position t) (\<lambda>so. case so of
        None \<Rightarrow> foldTree_full b t c
      | Some s \<Rightarrow> and_then (foldTree_full b (left s) c) (\<lambda>(leftValue, c').
          and_then (unleaf (svalue s)) (\<lambda>e. Ok (mapp b leftValue (measure b e), c')))))"

definition foldTree :: "('w, epoch) measured \<Rightarrow> history \<Rightarrow> (summary, epoch, 'w) cache \<Rightarrow> int option \<Rightarrow>
    ('w \<times> (summary, epoch, 'w) cache) result" where
  "foldTree b t c at = (case at of Some n \<Rightarrow> foldTreeAt b t n c | None \<Rightarrow> foldTree_full b t c)"

section \<open>The fingerprint and the state view\<close>

text \<open>\<open>sha256\<close> is the parameter \<open>sha\<close>.\<close>

definition xor_edit :: "(bytes \<Rightarrow> bytes) \<Rightarrow> bytes \<Rightarrow> edit \<Rightarrow> bytes" where
  "xor_edit sha acc e = xor32 acc (sha (payload e))"

definition measureEpochHash :: "(bytes \<Rightarrow> bytes) \<Rightarrow> epoch \<Rightarrow> bytes" where
  "measureEpochHash sha ep = foldl (xor_edit sha) zero32 (edits ep)"

definition fingerprintMeasured :: "(bytes \<Rightarrow> bytes) \<Rightarrow> (bytes, epoch) measured" where
  "fingerprintMeasured sha =
     \<lparr>monoid = \<lparr>mempty = zero32, mappend = xor32\<rparr>, measure = measureEpochHash sha\<rparr>"

record codec =
  cmerge :: "bytes \<Rightarrow> bytes \<Rightarrow> bytes"
  cempty :: bytes

definition stateMeasured :: "codec \<Rightarrow> (bytes, epoch) measured" where
  "stateMeasured cd = \<lparr>monoid = \<lparr>mempty = cempty cd, mappend = cmerge cd\<rparr>,
     measure = (\<lambda>ep. foldl (\<lambda>st e. cmerge cd st (payload e)) (cempty cd) (edits ep))\<rparr>"

section \<open>A sound cache\<close>

definition cache_ok :: "('w, 'a) measured \<Rightarrow> ('v, 'a, 'w) cache \<Rightarrow> bool" where
  "cache_ok b c \<longleftrightarrow> (\<forall>t w. c (Inl t) = Some w \<longrightarrow> w = mlist b (flat_tree t)) \<and>
     (\<forall>x w. c (Inr x) = Some w \<longrightarrow> w = mlist b (flat x))"

lemma cache_ok_empty [simp]: "cache_ok b Cache_create"
  by (simp add: cache_ok_def Cache_create_def)

lemma cache_ok_update:
  "cache_ok b c \<Longrightarrow> cache_ok b (c(Inl t \<mapsto> mlist b (flat_tree t)))"
  "cache_ok b c \<Longrightarrow> cache_ok b (c(Inr x \<mapsto> mlist b (flat x)))"
  by (auto simp: cache_ok_def)

definition walk_post :: "('w, 'a) measured \<Rightarrow> 'a list \<Rightarrow> ('w \<times> ('v, 'a, 'w) cache) result \<Rightarrow> bool" where
  "walk_post b xs r \<longleftrightarrow> (\<exists>c'. r = Ok (mlist b xs, c') \<and> cache_ok b c')"

lemma cache_hit:
  "cache_ok b c \<Longrightarrow> c (Inl t) = Some w \<Longrightarrow> walk_post b (flat_tree t) (Ok (w, c))"
  "cache_ok b c \<Longrightarrow> c (Inr x) = Some w \<Longrightarrow> walk_post b (flat x) (Ok (w, c))"
  by (auto simp: cache_ok_def walk_post_def)

context measured_laws
begin

lemma walkElement_ok:
  assumes "wf_elem b0 n x" "cache_ok b c"
  shows "walk_post b (flat x) (walkElement b x c n)"
  using assms
proof (induction n arbitrary: x c)
  case 0
  then show ?case by (auto simp: wf_elem_0 walk_post_def right_id ok_measure)
next
  case (Suc n)
  show ?case
  proof (cases "c (Inr x)")
    case (Some w)
    then show ?thesis using cache_hit(2) [OF Suc.prems(2) Some] by simp
  next
    case None
    from Suc.prems(1) show ?thesis
      unfolding wf_elem_Suc
    proof (elim disjE exE conjE)
      fix v y z assume x: "x = Node2 v y z" and w: "wf_elem b0 n y" "wf_elem b0 n z"
      obtain c1 where c1: "walkElement b y c n = Ok (mlist b (flat y), c1)" "cache_ok b c1"
        using Suc.IH [OF w(1) Suc.prems(2)] by (auto simp: walk_post_def)
      obtain c2 where "walkElement b z c1 n = Ok (mlist b (flat z), c2)" "cache_ok b c2"
        using Suc.IH [OF w(2) c1(2)] by (auto simp: walk_post_def)
      then show ?thesis using c1 None x cache_ok_update(2) [of b c2 x] by (auto simp: walk_post_def Let_def)
    next
      fix v y z u assume x: "x = Node3 v y z u" and w: "wf_elem b0 n y" "wf_elem b0 n z" "wf_elem b0 n u"
      obtain c1 where c1: "walkElement b y c n = Ok (mlist b (flat y), c1)" "cache_ok b c1"
        using Suc.IH [OF w(1) Suc.prems(2)] by (auto simp: walk_post_def)
      obtain c2 where c2: "walkElement b z c1 n = Ok (mlist b (flat z), c2)" "cache_ok b c2"
        using Suc.IH [OF w(2) c1(2)] by (auto simp: walk_post_def)
      obtain c3 where "walkElement b u c2 n = Ok (mlist b (flat u), c3)" "cache_ok b c3"
        using Suc.IH [OF w(3) c2(2)] by (auto simp: walk_post_def)
      then show ?thesis using c1 c2 None x cache_ok_update(2) [of b c3 x] by (auto simp: walk_post_def Let_def)
    qed
  qed
qed

lemma walkElement_okE:
  assumes "wf_elem b0 n x" "cache_ok b c"
  obtains c' where "walkElement b x c n = Ok (mlist b (flat x), c')" "cache_ok b c'"
  using walkElement_ok [OF assms] by (auto simp: walk_post_def)

lemma walkDigit_ok:
  assumes "wf_digit b0 n d" "cache_ok b c"
  shows "walk_post b (flat_digit d) (walkDigit b d c n)"
proof (cases d)
  case (One p)
  then show ?thesis using assms by (auto simp: walkElement_ok)
next
  case (Two p q)
  obtain c1 where c1: "walkElement b p c n = Ok (mlist b (flat p), c1)" "cache_ok b c1"
    using assms Two by (auto elim: walkElement_okE)
  obtain c2 where "walkElement b q c1 n = Ok (mlist b (flat q), c2)" "cache_ok b c2"
    using assms Two c1(2) by (auto elim: walkElement_okE)
  then show ?thesis using c1 Two by (simp add: walk_post_def)
next
  case (Three p q r)
  obtain c1 where c1: "walkElement b p c n = Ok (mlist b (flat p), c1)" "cache_ok b c1"
    using assms Three by (auto elim: walkElement_okE)
  obtain c2 where c2: "walkElement b q c1 n = Ok (mlist b (flat q), c2)" "cache_ok b c2"
    using assms Three c1(2) by (auto elim: walkElement_okE)
  obtain c3 where "walkElement b r c2 n = Ok (mlist b (flat r), c3)" "cache_ok b c3"
    using assms Three c2(2) by (auto elim: walkElement_okE)
  then show ?thesis using c1 c2 Three by (simp add: walk_post_def)
next
  case (Four p q r s)
  obtain c1 where c1: "walkElement b p c n = Ok (mlist b (flat p), c1)" "cache_ok b c1"
    using assms Four by (auto elim: walkElement_okE)
  obtain c2 where c2: "walkElement b q c1 n = Ok (mlist b (flat q), c2)" "cache_ok b c2"
    using assms Four c1(2) by (auto elim: walkElement_okE)
  obtain c3 where c3: "walkElement b r c2 n = Ok (mlist b (flat r), c3)" "cache_ok b c3"
    using assms Four c2(2) by (auto elim: walkElement_okE)
  obtain c4 where "walkElement b s c3 n = Ok (mlist b (flat s), c4)" "cache_ok b c4"
    using assms Four c3(2) by (auto elim: walkElement_okE)
  then show ?thesis using c1 c2 c3 Four by (simp add: walk_post_def)
qed

lemma walkTree_ok:
  assumes "wf_tree b0 n t" "cache_ok b c"
  shows "walk_post b (flat_tree t) (walkTree b t c n)"
  using assms
proof (induction t arbitrary: n c)
  case (Deep v pr mid sf)
  let ?t = "Deep v pr mid sf"
  show ?case
  proof (cases "c (Inl ?t)")
    case (Some w)
    then show ?thesis using cache_hit(1) [OF Deep.prems(2) Some] by simp
  next
    case None
    obtain c1 where c1: "walkDigit b pr c n = Ok (mlist b (flat_digit pr), c1)" "cache_ok b c1"
      using walkDigit_ok [of b0 n pr c] Deep.prems by (auto simp: walk_post_def)
    obtain c2 where c2: "walkTree b mid c1 (Suc n) = Ok (mlist b (flat_tree mid), c2)" "cache_ok b c2"
      using Deep.IH [of "Suc n" c1] Deep.prems c1 by (auto simp: walk_post_def)
    obtain c3 where "walkDigit b sf c2 n = Ok (mlist b (flat_digit sf), c3)" "cache_ok b c3"
      using walkDigit_ok [of b0 n sf c2] Deep.prems c2 by (auto simp: walk_post_def)
    then show ?thesis using c1 c2 None cache_ok_update(1) [of b c3 ?t] by (auto simp: walk_post_def Let_def)
  qed
qed (auto simp: walk_post_def walkElement_ok [unfolded walk_post_def])

lemma mlist_snoc: "mapp b (mlist b xs) (measure b x) = mlist b (xs @ [x])"
  by (simp add: mlist_append right_id ok_measure)

end

lemma foldTree_full_ok:
  assumes "measured_laws b ok" "hist t es" "cache_ok b c"
  shows "walk_post b es (foldTree_full b t c)"
  using measured_laws.walkTree_ok [OF assms(1), of epochMeasured 0 t c] assms(2,3)
  by (simp add: foldTree_full_def hist_def)

text \<open>The epochs a fold covers: all, or the first \<open>n\<close>.\<close>

definition upto_epochs :: "int option \<Rightarrow> epoch list \<Rightarrow> epoch list" where
  "upto_epochs at es = (case at of None \<Rightarrow> es | Some n \<Rightarrow> take (nat n) es)"

lemma foldTree_ok:
  assumes "measured_laws b ok" "hist t es" "cache_ok b c"
  shows "walk_post b (upto_epochs at es) (foldTree b t c at)"
proof (cases at)
  case None
  then show ?thesis using foldTree_full_ok [OF assms] by (simp add: upto_epochs_def foldTree_def)
next
  case (Some n)
  show ?thesis
  proof (cases "n \<le> 0")
    case True
    then show ?thesis using Some assms(3) by (simp add: upto_epochs_def foldTree_def foldTreeAt_def walk_post_def)
  next
    case False
    then have n1: "1 \<le> n" by simp
    show ?thesis
    proof (cases "n \<le> int (length es)")
      case True
      then obtain s where s: "splitAt n t = Ok (Some s)" "hist (left s) (take (nat n - 1) es)"
        "svalue s = Leaf (es ! (nat n - 1))"
        using splitAt_hist [OF assms(2) n1] by auto
      obtain c' where c': "foldTree_full b (left s) c = Ok (mlist b (take (nat n - 1) es), c')" "cache_ok b c'"
        using foldTree_full_ok [OF assms(1) s(2) assms(3)] by (auto simp: walk_post_def)
      have "take (nat n - 1) es @ [es ! (nat n - 1)] = take (nat n) es"
        using True n1 take_Suc_conv_app_nth [of "nat n - 1" es] by (simp flip: Suc_pred' add: Suc_nat_eq_nat_zadd1)
      then show ?thesis using Some s c' n1 measured_laws.mlist_snoc [OF assms(1)]
        by (simp add: foldTree_def foldTreeAt_def walk_post_def upto_epochs_def)
    next
      case False
      then have "splitAt n t = Ok None" using splitAt_hist [OF assms(2) n1] by simp
      then show ?thesis using Some n1 False foldTree_full_ok [OF assms]
        by (simp add: foldTree_def foldTreeAt_def upto_epochs_def)
    qed
  qed
qed

section \<open>The fingerprint is lawful\<close>

lemma length_measureEpochHash [simp]: "length (measureEpochHash sha ep) = 32"
proof -
  have "length (foldl (xor_edit sha) a es) = 32" if "length a = 32" for a es
    using that by (induction es arbitrary: a) (simp_all add: xor_edit_def)
  then show ?thesis by (simp add: measureEpochHash_def)
qed

interpretation fingerprint: measured_laws "fingerprintMeasured sha" "\<lambda>v. length v = 32" for sha
  by unfold_locales (simp_all add: fingerprintMeasured_def xor32_assoc xor32_zero)

text \<open>The XOR of the hashes of a bag of edits.\<close>

lemma fold_xor_start:
  "length a = 32 \<Longrightarrow> foldl (xor_edit sha) a es =
     xor32 a (foldl (xor_edit sha) zero32 es)"
proof (induction es rule: rev_induct)
  case Nil
  then show ?case by (simp add: xor32_zero)
next
  case (snoc e es)
  then show ?case by (simp add: xor_edit_def xor32_assoc)
qed

lemma fingerprint_mlist:
  "mlist (fingerprintMeasured sha) es =
     foldl (xor_edit sha) zero32 (concat (map edits es))"
proof (induction es)
  case Nil
  then show ?case by (simp add: fingerprintMeasured_def)
next
  case (Cons ep es)
  have "foldl (xor_edit sha) (measureEpochHash sha ep) xs =
      xor32 (measureEpochHash sha ep) (foldl (xor_edit sha) zero32 xs)" for xs
    by (rule fold_xor_start) simp
  with Cons show ?case by (simp add: fingerprintMeasured_def measureEpochHash_def)
qed

lemma fold_xor_mset:
  "mset xs = mset ys \<Longrightarrow> foldl (xor_edit sha) z xs =
     foldl (xor_edit sha) z ys"
  unfolding foldl_conv_fold
  by (rule fun_cong [of _ _ z], rule fold_multiset_equiv)
    (auto simp: xor_edit_def fun_eq_iff xor32_assoc intro: arg_cong [OF xor32_commute])

section \<open>Properties\<close>

text \<open>
  Evaluating a view over a history never throws and gives the product of the measures of the epochs
  from left to right, of the first \<open>n\<close> only when asked for a prefix, with whatever sound cache it starts
  from; and the cache it leaves is sound, so a later evaluation of any other history is right too.
\<close>

theorem foldTree_correct:
  assumes "measured_laws b ok" "fromEpochs es = Ok t" "cache_ok b c"
  shows "\<exists>c'. foldTree b t c at = Ok (mlist b (upto_epochs at es), c') \<and> cache_ok b c'"
  using foldTree_ok [OF assms(1) histE [OF assms(2)] assms(3)] by (simp add: walk_post_def)

theorem foldTree_correct_witness:
  "\<exists>t c'. fromEpochs [Epoch_create [] Closed, Epoch_create [] Open] = Ok t \<and>
     foldTree (fingerprintMeasured (\<lambda>x. x)) t Cache_create (Some 1) = Ok (zero32, c')"
proof -
  let ?es = "[Epoch_create [] Closed, Epoch_create [] Open]"
  obtain t where t: "fromEpochs ?es = Ok t" using fromEpochs_hist [of ?es] by (auto simp: fromEpochs_def)
  have "mlist (fingerprintMeasured (\<lambda>x. x)) (upto_epochs (Some 1) ?es) = zero32"
    unfolding fingerprint_mlist by (simp add: upto_epochs_def Epoch_create_def)
  then show ?thesis using t foldTree_correct [OF fingerprint.measured_laws_axioms t cache_ok_empty, of _ "Some 1"] by metis
qed

text \<open>
  C40: the fingerprint of a channel depends only on the multiset of its edits: two histories with the same
  edits, whatever their order, their epochs and the caches used, have the same fingerprint.
\<close>

theorem fingerprint_order_independent:
  assumes "fromEpochs es = Ok t" "fromEpochs fs = Ok u"
    and "mset (concat (map edits es)) = mset (concat (map edits fs))"
    and "cache_ok (fingerprintMeasured sha) c" "cache_ok (fingerprintMeasured sha) d"
  shows "\<exists>v c' d'. foldTree (fingerprintMeasured sha) t c None = Ok (v, c') \<and>
    foldTree (fingerprintMeasured sha) u d None = Ok (v, d') \<and> length v = 32"
proof -
  have "mlist (fingerprintMeasured sha) es = mlist (fingerprintMeasured sha) fs"
    unfolding fingerprint_mlist by (rule fold_xor_mset [OF assms(3)])
  then show ?thesis
    using foldTree_ok [OF fingerprint.measured_laws_axioms histE [OF assms(1)] assms(4), of None]
      foldTree_ok [OF fingerprint.measured_laws_axioms histE [OF assms(2)] assms(5), of None]
      fingerprint.ok_mlist [of sha]
    by (auto simp: walk_post_def upto_epochs_def)
qed

definition sample_edit :: "8 word \<Rightarrow> edit" where
  "sample_edit b = \<lparr>payload = [b], timestamp = 0, author = ''a'', channel = ''content'', origin = Local, signature = []\<rparr>"

theorem fingerprint_order_independent_witness:
  "\<exists>t u v c' d'.
     fromEpochs [Epoch_create [sample_edit 1, sample_edit 2] Open] = Ok t \<and>
     fromEpochs [Epoch_create [sample_edit 2] Closed, Epoch_create [sample_edit 1] Open] = Ok u \<and>
     foldTree (fingerprintMeasured (\<lambda>x. x @ replicate 31 7)) t Cache_create None = Ok (v, c') \<and>
     foldTree (fingerprintMeasured (\<lambda>x. x @ replicate 31 7)) u Cache_create None = Ok (v, d')"
proof -
  let ?es = "[Epoch_create [sample_edit 1, sample_edit 2] Open]"
  let ?fs = "[Epoch_create [sample_edit 2] Closed, Epoch_create [sample_edit 1] Open]"
  obtain t where t: "fromEpochs ?es = Ok t" using fromEpochs_hist [of ?es] by (auto simp: fromEpochs_def)
  obtain u where u: "fromEpochs ?fs = Ok u" using fromEpochs_hist [of ?fs] by (auto simp: fromEpochs_def)
  have "mset (concat (map edits ?es)) = mset (concat (map edits ?fs))" by (simp add: Epoch_create_def)
  from fingerprint_order_independent [OF t u this cache_ok_empty cache_ok_empty]
  show ?thesis using t u by blast
qed

end
