(* ===== verification/Channel.thy ===== *)
theory Channel
  imports View
begin

text \<open>
  Feeds, the registry of active views and the channel (\<open>packages/document/src/feed\<close>, \<open>registry\<close>,
  \<open>channel\<close>).  Callbacks are numbers, and what the code calls is the list of events an operation returns:
  the callback and the status it finds when it looks.  \<open>Date.now()\<close> is an argument.
\<close>

section \<open>Feeds\<close>

datatype 'w status = Pending | Computing | Ready 'w | Stale 'w

record 'w feed =
  fmeasured :: "('w, epoch) measured"
  fcache :: "(summary, epoch, 'w) cache"
  fstate :: "'w status"
  fsubs :: "nat list"
  fdestroyed :: bool

type_synonym 'w event = "nat \<times> 'w status"

definition Feed_create :: "('w, epoch) measured \<Rightarrow> history \<Rightarrow> 'w feed result" where
  "Feed_create b t = and_then (foldTree b t Cache_create None) (\<lambda>(initial, c).
     Ok \<lparr>fmeasured = b, fcache = c, fstate = Ready initial, fsubs = [], fdestroyed = False\<rparr>)"

definition Feed_subscribe :: "'w feed \<Rightarrow> nat \<Rightarrow> 'w feed" where
  "Feed_subscribe f cb = f\<lparr>fsubs := (if cb \<in> set (fsubs f) then fsubs f else fsubs f @ [cb])\<rparr>"

definition Feed_unsubscribe :: "'w feed \<Rightarrow> nat \<Rightarrow> 'w feed" where
  "Feed_unsubscribe f cb = f\<lparr>fsubs := filter (\<lambda>x. x \<noteq> cb) (fsubs f)\<rparr>"

definition Feed_notify :: "'w feed \<Rightarrow> 'w event list" where
  "Feed_notify f = (if fdestroyed f then [] else map (\<lambda>cb. (cb, fstate f)) (fsubs f))"

definition Feed_update :: "'w feed \<Rightarrow> history \<Rightarrow> ('w feed \<times> 'w event list) result" where
  "Feed_update f newTree =
     (if fdestroyed f then Ok (f, []) else
      let lastValue = (case fstate f of Ready v \<Rightarrow> Some v | Stale v \<Rightarrow> Some v | _ \<Rightarrow> None);
          f1 = (case lastValue of Some v \<Rightarrow> f\<lparr>fstate := Stale v\<rparr> | None \<Rightarrow> f);
          ev1 = (case lastValue of Some v \<Rightarrow> Feed_notify f1 | None \<Rightarrow> [])
      in and_then (foldTree (fmeasured f1) newTree (fcache f1) None) (\<lambda>(value, c).
         let f2 = f1\<lparr>fcache := c, fstate := Ready value\<rparr> in
         Ok (f2, ev1 @ Feed_notify f2)))"

definition Feed_destroy :: "'w feed \<Rightarrow> 'w feed" where
  "Feed_destroy f = f\<lparr>fdestroyed := True, fsubs := []\<rparr>"

section \<open>The registry\<close>

record 'w view =
  vname :: string
  vchannels :: "(string \<times> ('w, epoch) measured) list"

record 'w registry =
  rchannel :: string
  currentTree :: history
  feeds :: "(string \<times> 'w feed) list"

definition Registry_create :: "string \<Rightarrow> history \<Rightarrow> 'w registry" where
  "Registry_create channelName t = \<lparr>rchannel = channelName, currentTree = t, feeds = []\<rparr>"

definition Registry_activate :: "'w registry \<Rightarrow> 'w view \<Rightarrow> ('w registry \<times> 'w feed) result" where
  "Registry_activate r v =
     (case map_of (feeds r) (vname v) of
        Some existing \<Rightarrow> Ok (r, existing)
      | None \<Rightarrow> (case map_of (vchannels v) (rchannel r) of
          None \<Rightarrow> Throw ''View has no channel''
        | Some b \<Rightarrow> and_then (Feed_create b (currentTree r)) (\<lambda>f.
            Ok (r\<lparr>feeds := AList.update (vname v) f (feeds r)\<rparr>, f))))"

definition Registry_deactivate :: "'w registry \<Rightarrow> string \<Rightarrow> 'w registry" where
  "Registry_deactivate r viewName =
     (case map_of (feeds r) viewName of
        Some f \<Rightarrow> r\<lparr>feeds := AList.delete viewName (feeds r)\<rparr>
      | None \<Rightarrow> r)"

definition Registry_isActive :: "'w registry \<Rightarrow> string \<Rightarrow> bool" where
  "Registry_isActive r viewName \<longleftrightarrow> map_of (feeds r) viewName \<noteq> None"

fun update_feeds :: "(string \<times> 'w feed) list \<Rightarrow> history \<Rightarrow> ((string \<times> 'w feed) list \<times> 'w event list) result" where
  "update_feeds [] t = Ok ([], [])"
| "update_feeds ((n, f) # fs) t =
     and_then (Feed_update f t) (\<lambda>(f', ev).
     and_then (update_feeds fs t) (\<lambda>(fs', evs). Ok ((n, f') # fs', ev @ evs)))"

definition Registry_notifyTreeChanged :: "'w registry \<Rightarrow> history \<Rightarrow> ('w registry \<times> 'w event list) result" where
  "Registry_notifyTreeChanged r t =
     and_then (update_feeds (feeds r) t) (\<lambda>(fs, evs). Ok (r\<lparr>currentTree := t, feeds := fs\<rparr>, evs))"

definition Registry_destroy :: "'w registry \<Rightarrow> 'w registry" where
  "Registry_destroy r = r\<lparr>feeds := []\<rparr>"

section \<open>The channel\<close>

record 'w channel =
  cname :: string
  tree :: history
  registry :: "'w registry"
  destroyed :: bool

definition open_epoch :: epoch where "open_epoch = Epoch_create [] Open"

definition Channel_create :: "string \<Rightarrow> 'w channel result" where
  "Channel_create n = and_then (fromEpochs [open_epoch]) (\<lambda>t.
     Ok \<lparr>cname = n, tree = t, registry = Registry_create n t, destroyed = False\<rparr>)"

definition updateTree :: "'w channel \<Rightarrow> history \<Rightarrow> ('w channel \<times> 'w event list) result" where
  "updateTree ch newTree =
     (let ch1 = ch\<lparr>tree := newTree\<rparr> in
      if destroyed ch1 then Ok (ch1, [])
      else and_then (Registry_notifyTreeChanged (registry ch1) newTree) (\<lambda>(r, evs).
        Ok (ch1\<lparr>registry := r\<rparr>, evs)))"

definition appendEdit :: "'w channel \<Rightarrow> edit \<Rightarrow> ('w channel \<times> 'w event list) result" where
  "appendEdit ch e =
     and_then (viewr emm (tree ch)) (\<lambda>v. case v of
        None \<Rightarrow> Ok (ch, [])
      | Some (ini, l) \<Rightarrow>
          and_then (unleaf l) (\<lambda>tip.
          and_then (Epoch_append tip e) (\<lambda>newTip.
          and_then (snoc emm ini (Leaf newTip)) (updateTree ch))))"

definition closeEpoch :: "'w channel \<Rightarrow> ('w channel \<times> 'w event list) result" where
  "closeEpoch ch =
     and_then (viewr emm (tree ch)) (\<lambda>v. case v of
        None \<Rightarrow> Ok (ch, [])
      | Some (ini, l) \<Rightarrow>
          and_then (unleaf l) (\<lambda>tip.
          and_then (Epoch_close tip) (\<lambda>closed.
          and_then (snoc emm ini (Leaf closed)) (\<lambda>withClosed.
          and_then (snoc emm withClosed (Leaf open_epoch)) (updateTree ch)))))"

definition synthetic_edit :: "string \<Rightarrow> bytes \<Rightarrow> int \<Rightarrow> edit" where
  "synthetic_edit n st now =
     \<lparr>payload = st, timestamp = now, author = ''snapshot'', channel = n, origin = Hydrate, signature = []\<rparr>"

definition appendSnapshot :: "'w channel \<Rightarrow> bytes \<Rightarrow> int \<Rightarrow> ('w channel \<times> 'w event list) result" where
  "appendSnapshot ch st now =
     and_then (viewr emm (tree ch)) (\<lambda>v. case v of
        None \<Rightarrow> Ok (ch, [])
      | Some (ini, l) \<Rightarrow>
          and_then (unleaf l) (\<lambda>tip.
          and_then (Epoch_close tip) (\<lambda>closed.
          and_then (snoc emm ini (Leaf closed)) (\<lambda>afterClose.
          and_then (snoc emm afterClose (Leaf (Epoch_create [synthetic_edit (cname ch) st now] Closed)))
            (\<lambda>afterSnapshot.
          and_then (snoc emm afterSnapshot (Leaf open_epoch)) (updateTree ch))))))"

definition Channel_activate :: "'w channel \<Rightarrow> 'w view \<Rightarrow> ('w channel \<times> 'w feed) result" where
  "Channel_activate ch v =
     and_then (Registry_activate (registry ch) v) (\<lambda>(r, f). Ok (ch\<lparr>registry := r\<rparr>, f))"

definition Channel_deactivate :: "'w channel \<Rightarrow> string \<Rightarrow> 'w channel" where
  "Channel_deactivate ch viewName = ch\<lparr>registry := Registry_deactivate (registry ch) viewName\<rparr>"

definition Channel_destroy :: "'w channel \<Rightarrow> 'w channel" where
  "Channel_destroy ch = ch\<lparr>destroyed := True, registry := Registry_destroy (registry ch)\<rparr>"

text \<open>The operations a client can call, as one step function.\<close>

datatype 'w channel_op =
    AppendEdit edit
  | CloseEpoch
  | AppendSnapshot bytes int
  | Activate "'w view"
  | Deactivate string
  | Destroy

fun channel_step :: "'w channel \<Rightarrow> 'w channel_op \<Rightarrow> 'w channel result" where
  "channel_step ch (AppendEdit e) = and_then (appendEdit ch e) (\<lambda>(ch', _). Ok ch')"
| "channel_step ch CloseEpoch = and_then (closeEpoch ch) (\<lambda>(ch', _). Ok ch')"
| "channel_step ch (AppendSnapshot st now) = and_then (appendSnapshot ch st now) (\<lambda>(ch', _). Ok ch')"
| "channel_step ch (Activate v) = and_then (Channel_activate ch v) (\<lambda>(ch', _). Ok ch')"
| "channel_step ch (Deactivate n) = Ok (Channel_deactivate ch n)"
| "channel_step ch Destroy = Ok (Channel_destroy ch)"

section \<open>Feeds and registries stay current\<close>

definition lawful :: "('w, epoch) measured \<Rightarrow> bool" where
  "lawful b \<longleftrightarrow> (\<exists>ok. measured_laws b ok)"

definition feed_ok :: "epoch list \<Rightarrow> 'w feed \<Rightarrow> bool" where
  "feed_ok es f \<longleftrightarrow> lawful (fmeasured f) \<and> cache_ok (fmeasured f) (fcache f) \<and> \<not> fdestroyed f \<and>
     fstate f = Ready (mlist (fmeasured f) es)"

lemma foldTree_lawful:
  assumes "lawful b" "hist t es" "cache_ok b c"
  shows "\<exists>c'. foldTree b t c None = Ok (mlist b es, c') \<and> cache_ok b c'"
  using assms foldTree_ok [of b _ t es c None] by (auto simp: lawful_def walk_post_def upto_epochs_def)

lemma Feed_create_ok:
  assumes "lawful b" "hist t es"
  shows "\<exists>f. Feed_create b t = Ok f \<and> feed_ok es f \<and> fmeasured f = b"
  using foldTree_lawful [OF assms cache_ok_empty] assms(1) by (auto simp: Feed_create_def feed_ok_def)

lemma Feed_update_ok:
  assumes "feed_ok es f" "hist t fs"
  shows "\<exists>f' ev. Feed_update f t = Ok (f', ev) \<and> feed_ok fs f' \<and> fmeasured f' = fmeasured f"
  using foldTree_lawful [of "fmeasured f" t fs "fcache f"] assms
  by (auto simp: Feed_update_def Let_def feed_ok_def)

definition registry_ok :: "epoch list \<Rightarrow> 'w registry \<Rightarrow> bool" where
  "registry_ok es r \<longleftrightarrow> hist (currentTree r) es \<and> (\<forall>(n, f) \<in> set (feeds r). feed_ok es f)"

lemma update_feeds_ok:
  assumes "\<forall>(n, f) \<in> set fs. feed_ok es f" "hist t es'"
  shows "\<exists>fs' ev. update_feeds fs t = Ok (fs', ev) \<and> (\<forall>(n, f) \<in> set fs'. feed_ok es' f)"
  using assms(1)
proof (induction fs)
  case (Cons p fs)
  obtain n f where p: "p = (n, f)" by force
  have f: "feed_ok es f" and r: "\<forall>(n, f) \<in> set fs. feed_ok es f" using Cons.prems p by auto
  obtain f' ev where "Feed_update f t = Ok (f', ev)" "feed_ok es' f'"
    using Feed_update_ok [OF f assms(2)] by blast
  moreover obtain fs' evs where "update_feeds fs t = Ok (fs', evs)" "\<forall>(n, f) \<in> set fs'. feed_ok es' f"
    using Cons.IH [OF r] by blast
  ultimately show ?case using p by auto
qed simp

lemma Registry_notifyTreeChanged_ok:
  assumes "registry_ok es r" "hist t es'"
  shows "\<exists>r' ev. Registry_notifyTreeChanged r t = Ok (r', ev) \<and> registry_ok es' r' \<and> currentTree r' = t"
  using update_feeds_ok [of "feeds r" es t es'] assms
  by (auto simp: Registry_notifyTreeChanged_def registry_ok_def)

lemma Registry_activate_ok:
  assumes "registry_ok es r" "map_of (vchannels v) (rchannel r) = Some b" "lawful b"
  shows "\<exists>r' f. Registry_activate r v = Ok (r', f) \<and> registry_ok es r' \<and> feed_ok es f \<and> currentTree r' = currentTree r"
proof (cases "map_of (feeds r) (vname v)")
  case None
  obtain f where "Feed_create b (currentTree r) = Ok f" "feed_ok es f"
    using Feed_create_ok [OF assms(3), of "currentTree r" es] assms(1) by (auto simp: registry_ok_def)
  then show ?thesis using None assms
    by (auto simp: Registry_activate_def registry_ok_def dest!: subsetD [OF set_update_subset])
next
  case (Some f)
  then show ?thesis using assms(1) by (auto simp: Registry_activate_def registry_ok_def dest: map_of_SomeD)
qed

lemma Registry_deactivate_ok: "registry_ok es r \<Longrightarrow> registry_ok es (Registry_deactivate r n)"
  by (auto simp: registry_ok_def Registry_deactivate_def dest!: subsetD [OF set_delete_subset] split: option.splits)

lemma registry_names [simp]:
  "currentTree (Registry_deactivate r n) = currentTree r" "rchannel (Registry_deactivate r n) = rchannel r"
  "currentTree (Registry_destroy r) = currentTree r" "rchannel (Registry_destroy r) = rchannel r"
  by (simp_all add: Registry_deactivate_def Registry_destroy_def split: option.splits)

lemma Registry_activate_rchannel: "Registry_activate r v = Ok (r', f) \<Longrightarrow> rchannel r' = rchannel r"
  by (auto simp: Registry_activate_def and_then_Ok_iff split: option.splits)

lemma Registry_notify_rchannel: "Registry_notifyTreeChanged r t = Ok (r', ev) \<Longrightarrow> rchannel r' = rchannel r"
  by (auto simp: Registry_notifyTreeChanged_def and_then_Ok_iff)

section \<open>The channel implements a list of closed epochs and an open bag of edits\<close>

type_synonym achannel = "epoch list \<times> edit list"

definition aepochs :: "achannel \<Rightarrow> epoch list" where
  "aepochs a = fst a @ [Epoch_create (snd a) Open]"

fun astep :: "string \<Rightarrow> achannel \<Rightarrow> 'w channel_op \<Rightarrow> achannel" where
  "astep n (cs, tip) (AppendEdit e) = (cs, tip @ [e])"
| "astep n (cs, tip) CloseEpoch = (cs @ [Epoch_create tip Closed], [])"
| "astep n (cs, tip) (AppendSnapshot st now) =
     (cs @ [Epoch_create tip Closed, Epoch_create [synthetic_edit n st now] Closed], [])"
| "astep n a _ = a"

definition chan_sim :: "string \<Rightarrow> 'w channel \<Rightarrow> achannel \<Rightarrow> bool" where
  "chan_sim n ch a \<longleftrightarrow> cname ch = n \<and> rchannel (registry ch) = n \<and> hist (tree ch) (aepochs a) \<and>
     (if destroyed ch then \<exists>es. registry_ok es (registry ch)
      else registry_ok (aepochs a) (registry ch) \<and> currentTree (registry ch) = tree ch)"

fun valid_op :: "string \<Rightarrow> 'w channel_op \<Rightarrow> bool" where
  "valid_op n (Activate v) \<longleftrightarrow> (\<exists>b. map_of (vchannels v) n = Some b \<and> lawful b)"
| "valid_op n _ \<longleftrightarrow> True"

lemma updateTree_sim:
  assumes "chan_sim n ch a" "hist t (aepochs a')"
  shows "\<exists>ch' ev. updateTree ch t = Ok (ch', ev) \<and> chan_sim n ch' a'"
proof (cases "destroyed ch")
  case True
  then show ?thesis using assms by (auto simp: updateTree_def chan_sim_def)
next
  case False
  then obtain r ev where "Registry_notifyTreeChanged (registry ch) t = Ok (r, ev)"
    "registry_ok (aepochs a') r" "currentTree r = t"
    using Registry_notifyTreeChanged_ok [of "aepochs a" "registry ch" t "aepochs a'"] assms
    by (auto simp: chan_sim_def)
  then show ?thesis using False assms
    by (auto simp: updateTree_def chan_sim_def dest: Registry_notify_rchannel)
qed

lemma tip_view:
  assumes "chan_sim n ch (cs, tip)"
  shows "\<exists>u. viewr emm (tree ch) = Ok (Some (u, Leaf (Epoch_create tip Open))) \<and> hist u cs"
  using viewr_hist [of "tree ch" cs] assms by (simp add: chan_sim_def aepochs_def)

lemma appendEdit_sim:
  assumes "chan_sim n ch (cs, tip)"
  shows "\<exists>ch' ev. appendEdit ch e = Ok (ch', ev) \<and> chan_sim n ch' (cs, tip @ [e])"
proof -
  obtain u where u: "viewr emm (tree ch) = Ok (Some (u, Leaf (Epoch_create tip Open)))" "hist u cs"
    using tip_view [OF assms] by blast
  obtain t where "snoc emm u (Leaf (Epoch_create (tip @ [e]) Open)) = Ok t" "hist t (aepochs (cs, tip @ [e]))"
    using snoc_hist [OF u(2)] by (auto simp: aepochs_def)
  then show ?thesis using u updateTree_sim [OF assms]
    by (simp add: appendEdit_def Epoch_append_def Epoch_create_def)
qed

lemma closeEpoch_sim:
  assumes "chan_sim n ch (cs, tip)"
  shows "\<exists>ch' ev. closeEpoch ch = Ok (ch', ev) \<and> chan_sim n ch' (cs @ [Epoch_create tip Closed], [])"
proof -
  let ?c = "Epoch_create tip Closed"
  obtain u where u: "viewr emm (tree ch) = Ok (Some (u, Leaf (Epoch_create tip Open)))" "hist u cs"
    using tip_view [OF assms] by blast
  obtain t where t: "snoc emm u (Leaf ?c) = Ok t" "hist t (cs @ [?c])"
    using snoc_hist [OF u(2)] by blast
  obtain w where "snoc emm t (Leaf open_epoch) = Ok w" "hist w (aepochs (cs @ [?c], []))"
    using snoc_hist [OF t(2), of open_epoch] by (auto simp: aepochs_def open_epoch_def)
  then show ?thesis using u t updateTree_sim [OF assms]
    by (simp add: closeEpoch_def Epoch_close_def Epoch_create_def)
qed

lemma appendSnapshot_sim:
  assumes "chan_sim n ch (cs, tip)"
  shows "\<exists>ch' ev. appendSnapshot ch st now = Ok (ch', ev) \<and> chan_sim n ch'
     (cs @ [Epoch_create tip Closed, Epoch_create [synthetic_edit n st now] Closed], [])"
proof -
  let ?c = "Epoch_create tip Closed" and ?s = "Epoch_create [synthetic_edit n st now] Closed"
  obtain u where u: "viewr emm (tree ch) = Ok (Some (u, Leaf (Epoch_create tip Open)))" "hist u cs"
    using tip_view [OF assms] by blast
  obtain t where t: "snoc emm u (Leaf ?c) = Ok t" "hist t (cs @ [?c])"
    using snoc_hist [OF u(2)] by blast
  obtain v where v: "snoc emm t (Leaf ?s) = Ok v" "hist v (cs @ [?c, ?s])"
    using snoc_hist [OF t(2), of ?s] by auto
  obtain w where "snoc emm v (Leaf open_epoch) = Ok w" "hist w (aepochs (cs @ [?c, ?s], []))"
    using snoc_hist [OF v(2), of open_epoch] by (auto simp: aepochs_def open_epoch_def)
  moreover have "cname ch = n" using assms by (simp add: chan_sim_def)
  ultimately show ?thesis using u t v updateTree_sim [OF assms]
    by (simp add: appendSnapshot_def Epoch_close_def Epoch_create_def)
qed

lemma Channel_activate_sim:
  assumes "chan_sim n ch a" "map_of (vchannels v) n = Some b" "lawful b"
  shows "\<exists>ch' f. Channel_activate ch v = Ok (ch', f) \<and> chan_sim n ch' a"
proof -
  obtain es where es: "registry_ok es (registry ch)" "\<not> destroyed ch \<Longrightarrow> es = aepochs a"
    using assms(1) by (auto simp: chan_sim_def split: if_splits)
  obtain r f where "Registry_activate (registry ch) v = Ok (r, f)" "registry_ok es r"
    "currentTree r = currentTree (registry ch)"
    using Registry_activate_ok [OF es(1), of v b] assms by (auto simp: chan_sim_def)
  then show ?thesis using assms(1) es(2)
    by (auto simp: Channel_activate_def chan_sim_def dest: Registry_activate_rchannel)
qed

lemma channel_step_sim:
  assumes "chan_sim n ch a" "valid_op n op"
  shows "\<exists>ch'. channel_step ch op = Ok ch' \<and> chan_sim n ch' (astep n a op)"
proof -
  obtain cs tip where a: "a = (cs, tip)" by force
  show ?thesis
  proof (cases op)
    case (AppendEdit e)
    then show ?thesis using appendEdit_sim [of n ch cs tip e] assms a by fastforce
  next
    case CloseEpoch
    then show ?thesis using closeEpoch_sim [of n ch cs tip] assms a by fastforce
  next
    case (AppendSnapshot st now)
    then show ?thesis using appendSnapshot_sim [of n ch cs tip st now] assms a by fastforce
  next
    case (Activate v)
    then show ?thesis using Channel_activate_sim [of n ch a v] assms a by fastforce
  next
    case (Deactivate m)
    then show ?thesis using assms a
      by (auto simp: Channel_deactivate_def chan_sim_def Registry_deactivate_ok; blast intro: Registry_deactivate_ok)
  next
    case Destroy
    then show ?thesis using assms a
      by (auto simp: Channel_destroy_def chan_sim_def registry_ok_def Registry_destroy_def split: if_splits)
  qed
qed

lemma not_destroyed_step:
  "channel_step ch op = Ok ch' \<Longrightarrow> op \<noteq> Destroy \<Longrightarrow> destroyed ch' = destroyed ch"
  by (cases op)
    (auto simp: and_then_Ok_iff appendEdit_def closeEpoch_def appendSnapshot_def updateTree_def Let_def
      Channel_activate_def Channel_deactivate_def split: option.splits if_splits)

lemma not_destroyed_run:
  "foldl_res channel_step ch ops = Ok ch' \<Longrightarrow> Destroy \<notin> set ops \<Longrightarrow> \<not> destroyed ch \<Longrightarrow> \<not> destroyed ch'"
  by (induction ops arbitrary: ch) (auto simp: and_then_Ok_iff dest: not_destroyed_step)

lemma Channel_create_sim: "\<exists>ch. Channel_create n = Ok ch \<and> chan_sim n ch ([], [])"
  using fromEpochs_hist [of "[open_epoch]"]
  by (auto simp: Channel_create_def fromEpochs_def chan_sim_def aepochs_def open_epoch_def Registry_create_def
      registry_ok_def)

interpretation channel_machine: sim_machine "Channel_create n" channel_step "([], [])" "astep n" "chan_sim n" "valid_op n"
  for n
  by unfold_locales (simp_all add: Channel_create_sim channel_step_sim)

lemma astep_closed:
  "\<forall>ep \<in> set (fst a). boundary ep = Closed \<Longrightarrow> \<forall>ep \<in> set (fst (astep n a op)). boundary ep = Closed"
  by (cases a; cases op) (auto simp: Epoch_create_def)

interpretation achannel_inv: inv_machine "([], [])" "astep n" "\<lambda>a. \<forall>ep \<in> set (fst a). boundary ep = Closed" for n
  by unfold_locales (simp, rule astep_closed)

lemma update_feeds_names: "update_feeds fs t = Ok (fs', ev) \<Longrightarrow> map fst fs' = map fst fs"
  by (induction fs arbitrary: fs' ev) (auto simp: and_then_Ok_iff)

lemma appendEdit_names:
  "appendEdit ch e = Ok (ch', ev) \<Longrightarrow> map fst (feeds (registry ch')) = map fst (feeds (registry ch))"
  by (auto simp: appendEdit_def updateTree_def Let_def Registry_notifyTreeChanged_def and_then_Ok_iff
      split: option.splits if_splits; drule update_feeds_names; simp)

lemma active_after_activate:
  assumes "and_then (Channel_create n) (\<lambda>ch. foldl_res channel_step ch [Activate v, AppendEdit e]) = Ok ch"
  shows "map_of (feeds (registry ch)) (vname v) \<noteq> None"
proof -
  obtain ch0 ch1 f where 0: "Channel_activate ch0 v = Ok (ch1, f)" and 1: "channel_step ch1 (AppendEdit e) = Ok ch"
    using assms by (auto simp: and_then_Ok_iff)
  have "map_of (feeds (registry ch1)) (vname v) \<noteq> None"
    using 0 by (auto simp: and_then_Ok_iff Channel_activate_def Registry_activate_def update_conv' split: option.splits)
  moreover have "map fst (feeds (registry ch)) = map fst (feeds (registry ch1))"
    using 1 by (auto simp: and_then_Ok_iff dest: appendEdit_names)
  then have "fst ` set (feeds (registry ch)) = fst ` set (feeds (registry ch1))"
    by (metis set_map)
  ultimately show ?thesis by (simp add: map_of_eq_None_iff)
qed

section \<open>Properties\<close>

text \<open>
  C7: any sequence of operations on a fresh channel (appending edits, closing the epoch, recording a
  remote snapshot, activating a view that has the channel with a lawful monoid, deactivating, destroying)
  never throws and leaves the tree that the same sequence leaves as a list of closed epochs followed by one
  open epoch.
\<close>

theorem channel_refines:
  assumes "list_all (valid_op n) ops"
  shows "\<exists>ch. and_then (Channel_create n) (\<lambda>ch. foldl_res channel_step ch ops) = Ok ch \<and>
    (\<exists>cs tip. foldl (astep n) ([], []) ops = (cs, tip) \<and> (\<forall>ep \<in> set cs. boundary ep = Closed) \<and>
      toArray (tree ch) = Ok (map Leaf (cs @ [Epoch_create tip Open])))"
proof -
  obtain cs tip where r: "foldl (astep n) ([], []) ops = (cs, tip)" by force
  then have "\<forall>ep \<in> set cs. boundary ep = Closed"
    using achannel_inv.inv_run [of n ops] by simp
  moreover obtain ch where "and_then (Channel_create n) (\<lambda>ch. foldl_res channel_step ch ops) = Ok ch"
    "chan_sim n ch (cs, tip)"
    using channel_machine.sim_run [OF assms] r by auto
  ultimately show ?thesis using r by (auto simp: chan_sim_def aepochs_def dest: hist_toArray)
qed

theorem channel_refines_witness:
  "\<exists>ch. and_then (Channel_create ''c'') (\<lambda>ch. foldl_res channel_step ch
      [AppendEdit (sample_edit 1), Activate \<lparr>vname = ''v'', vchannels = [(''c'', fingerprintMeasured (\<lambda>x. x))]\<rparr>,
       CloseEpoch, AppendEdit (sample_edit 2)]) = Ok ch \<and>
     toArray (tree ch) = Ok (map Leaf [Epoch_create [sample_edit 1] Closed, Epoch_create [sample_edit 2] Open])"
proof -
  let ?ops = "[AppendEdit (sample_edit 1), Activate \<lparr>vname = ''v'', vchannels = [(''c'', fingerprintMeasured (\<lambda>x. x))]\<rparr>,
       CloseEpoch, AppendEdit (sample_edit 2)]"
  have "list_all (valid_op ''c'') ?ops"
    using fingerprint.measured_laws_axioms by (auto simp: lawful_def)
  from channel_refines [OF this] show ?thesis by (auto simp del: foldl_res.simps channel_step.simps)
qed

text \<open>
  C23: feeds are always current: after any such sequence on a channel that was not destroyed, every active
  feed is ready and its value is the fold of its view over the epochs the tree lists now.
\<close>

theorem feeds_current:
  assumes "list_all (valid_op n) ops" "Destroy \<notin> set ops"
    and "and_then (Channel_create n) (\<lambda>ch. foldl_res channel_step ch ops) = Ok ch"
    and "map_of (feeds (registry ch)) name = Some f"
  shows "\<exists>es. toArray (tree ch) = Ok (map Leaf es) \<and> fstate f = Ready (mlist (fmeasured f) es)"
proof -
  obtain ch0 where "Channel_create n = Ok ch0" "foldl_res channel_step ch0 ops = Ok ch"
    using assms(3) by (auto simp: and_then_Ok_iff)
  moreover from this have "\<not> destroyed ch0" by (auto simp: Channel_create_def and_then_Ok_iff)
  ultimately have "\<not> destroyed ch" using not_destroyed_run assms(2) by blast
  then show ?thesis
    using channel_machine.sim_run [OF assms(1)] assms(3,4)
    by (auto simp: chan_sim_def registry_ok_def feed_ok_def dest!: hist_toArray map_of_SomeD)
qed

theorem feeds_current_witness:
  "\<exists>ch f es. and_then (Channel_create ''c'') (\<lambda>ch. foldl_res channel_step ch
      [Activate \<lparr>vname = ''v'', vchannels = [(''c'', fingerprintMeasured (\<lambda>x. x))]\<rparr>, AppendEdit (sample_edit 1)]) = Ok ch \<and>
     map_of (feeds (registry ch)) ''v'' = Some f \<and>
     toArray (tree ch) = Ok (map Leaf es) \<and> fstate f = Ready (mlist (fmeasured f) es)"
proof -
  let ?v = "\<lparr>vname = ''v'', vchannels = [(''c'', fingerprintMeasured (\<lambda>x. x))]\<rparr>"
  let ?ops = "[Activate ?v, AppendEdit (sample_edit 1)]"
  have v: "list_all (valid_op ''c'') ?ops" and d: "Destroy \<notin> set ?ops"
    using fingerprint.measured_laws_axioms by (auto simp: lawful_def)
  obtain ch where ch: "and_then (Channel_create ''c'') (\<lambda>ch. foldl_res channel_step ch ?ops) = Ok ch"
    using channel_machine.sim_run [OF v] by blast
  then obtain f where f: "map_of (feeds (registry ch)) ''v'' = Some f"
    using active_after_activate [of "''c''" ?v "sample_edit 1" ch] by auto
  show ?thesis using feeds_current [OF v d ch f] ch f by blast
qed

end
