(* ===== verification/Merkle_Trie.thy ===== *)
theory Merkle_Trie
  imports Prelude
begin

text \<open>
  The binary prefix trie over edit hashes (\<open>packages/sync/src/reconciliation/merkle-trie.ts\<close>): its
  construction, the XOR fingerprints and counts it caches, and the prefix queries the reconciliation
  protocol makes.
\<close>

section \<open>Nodes\<close>

datatype trie = LeafNode bytes | InternalNode bytes nat "trie option" "trie option"

text \<open>A byte past the end is \<open>undefined\<close>, whose shifts and masks are 0.\<close>

definition getBit :: "bytes \<Rightarrow> nat \<Rightarrow> bool" where
  "getBit hash bitIndex = bit (byte_at hash (bitIndex div 8)) (7 - bitIndex mod 8)"

definition xorBytes :: "bytes \<Rightarrow> bytes \<Rightarrow> bytes" where
  "xorBytes a b = map (\<lambda>i. xor (a ! i) (byte_at b i)) [0..<length a]"

definition emptyInternal :: trie where
  "emptyInternal = InternalNode zero32 0 None None"

fun fingerprint :: "trie \<Rightarrow> bytes" where
  "fingerprint (LeafNode h) = h"
| "fingerprint (InternalNode fp c l r) = fp"

fun editCount :: "trie \<Rightarrow> nat" where
  "editCount (LeafNode h) = 1"
| "editCount (InternalNode fp c l r) = c"

definition buildInternal :: "trie option \<Rightarrow> trie option \<Rightarrow> trie" where
  "buildInternal l r =
     (let lf = (case l of Some t \<Rightarrow> fingerprint t | None \<Rightarrow> zero32);
          rf = (case r of Some t \<Rightarrow> fingerprint t | None \<Rightarrow> zero32)
      in InternalNode (xorBytes lf rf)
           ((case l of Some t \<Rightarrow> editCount t | None \<Rightarrow> 0) + (case r of Some t \<Rightarrow> editCount t | None \<Rightarrow> 0)) l r)"

text \<open>
  Past the last bit of both hashes every bit is equal and the recursion never stops: the engine's stack
  overflow is the error.
\<close>

function splitLeaf :: "bytes \<Rightarrow> bytes \<Rightarrow> nat \<Rightarrow> trie result" where
  "splitLeaf existing newHash depth =
     (if 8 * max (length existing) (length newHash) \<le> depth then Throw ''Maximum call stack size exceeded''
      else
        let eBit = getBit existing depth; nBit = getBit newHash depth in
        if eBit = nBit then
          and_then (splitLeaf existing newHash (depth + 1)) (\<lambda>child.
          Ok (buildInternal (if \<not> eBit then Some child else None) (if eBit then Some child else None)))
        else
          Ok (buildInternal (Some (LeafNode (if \<not> eBit then existing else newHash)))
                            (Some (LeafNode (if eBit then existing else newHash)))))"
  by pat_completeness auto
termination
  by (relation "Wellfounded.measure (\<lambda>(e, n, d). 8 * max (length e) (length n) - d)") auto

declare splitLeaf.simps [simp del]

fun trie_insert :: "trie \<Rightarrow> bytes \<Rightarrow> nat \<Rightarrow> trie result" where
  "trie_insert (LeafNode h) hash depth =
     (if h = hash then Ok (LeafNode h) else splitLeaf h hash depth)"
| "trie_insert (InternalNode fp c l r) hash depth =
     (if \<not> getBit hash depth then
        and_then (case l of None \<Rightarrow> Ok (LeafNode hash) | Some child \<Rightarrow> trie_insert child hash (Suc depth)) (\<lambda>newChild.
        Ok (buildInternal (Some newChild) r))
      else
        and_then (case r of None \<Rightarrow> Ok (LeafNode hash) | Some child \<Rightarrow> trie_insert child hash (Suc depth)) (\<lambda>newChild.
        Ok (buildInternal l (Some newChild))))"

definition buildTrie :: "bytes list \<Rightarrow> trie result" where
  "buildTrie hashes = (case hashes of
      [] \<Rightarrow> Ok emptyInternal
    | h # hs \<Rightarrow> foldl_res (\<lambda>root x. trie_insert root x 0) (LeafNode h) hs)"

section \<open>Queries\<close>

fun gather :: "trie \<Rightarrow> bytes list" where
  "gather (LeafNode h) = [h]"
| "gather (InternalNode fp c l r) =
     (case l of Some t \<Rightarrow> gather t | None \<Rightarrow> []) @ (case r of Some t \<Rightarrow> gather t | None \<Rightarrow> [])"

fun descend :: "trie \<Rightarrow> bytes \<Rightarrow> nat \<Rightarrow> nat \<Rightarrow> trie option" where
  "descend (LeafNode h) prefix targetDepth currentDepth =
     (if targetDepth \<le> currentDepth then Some (LeafNode h)
      else if \<exists>d \<in> set [currentDepth..<targetDepth]. getBit h d \<noteq> getBit prefix d then None
      else Some (LeafNode h))"
| "descend (InternalNode fp c l r) prefix targetDepth currentDepth =
     (if targetDepth \<le> currentDepth then Some (InternalNode fp c l r)
      else if \<not> getBit prefix currentDepth
        then (case l of None \<Rightarrow> None | Some t \<Rightarrow> descend t prefix targetDepth (Suc currentDepth))
        else (case r of None \<Rightarrow> None | Some t \<Rightarrow> descend t prefix targetDepth (Suc currentDepth)))"

definition queryPrefix :: "trie \<Rightarrow> bytes \<Rightarrow> nat \<Rightarrow> bytes \<times> nat" where
  "queryPrefix t prefix depth = (case descend t prefix depth 0 of
      None \<Rightarrow> (zero32, 0)
    | Some node \<Rightarrow> (fingerprint node, editCount node))"

definition collectHashes :: "trie \<Rightarrow> bytes \<Rightarrow> nat \<Rightarrow> bytes list" where
  "collectHashes t prefix depth = (case descend t prefix depth 0 of
      None \<Rightarrow> []
    | Some node \<Rightarrow> gather node)"

section \<open>Well-formed tries\<close>

definition xor_all :: "bytes list \<Rightarrow> bytes" where
  "xor_all hs = foldr xor32 hs zero32"

definition opt_gather :: "trie option \<Rightarrow> bytes list" where
  "opt_gather t = (case t of Some t \<Rightarrow> gather t | None \<Rightarrow> [])"

text \<open>
  Below a node at depth \<open>d\<close> the hashes are 32 bytes long, the left ones have bit \<open>d\<close> clear and the right
  ones have it set, an internal node holds at least two, and it caches their XOR and their number.
\<close>

fun wf_trie :: "nat \<Rightarrow> trie \<Rightarrow> bool" where
  "wf_trie d (LeafNode h) \<longleftrightarrow> length h = 32"
| "wf_trie d (InternalNode fp c l r) \<longleftrightarrow>
     (case l of Some t \<Rightarrow> wf_trie (Suc d) t \<and> (\<forall>h \<in> set (gather t). \<not> getBit h d) | None \<Rightarrow> True) \<and>
     (case r of Some t \<Rightarrow> wf_trie (Suc d) t \<and> (\<forall>h \<in> set (gather t). getBit h d) | None \<Rightarrow> True) \<and>
     fp = xor_all (opt_gather l @ opt_gather r) \<and> c = length (opt_gather l @ opt_gather r) \<and> 2 \<le> c"

lemma gather_Internal [simp]: "gather (InternalNode fp c l r) = opt_gather l @ opt_gather r"
  by (simp add: opt_gather_def)

lemma opt_gather_simps [simp]: "opt_gather None = []" "opt_gather (Some t) = gather t"
  by (simp_all add: opt_gather_def)

declare gather.simps(2) [simp del]

lemma xor_all_simps [simp]:
  "xor_all [] = zero32" "xor_all (h # hs) = xor32 h (xor_all hs)"
  by (simp_all add: xor_all_def)

lemma length_xor_all [simp]: "length (xor_all hs) = 32"
  by (cases hs) simp_all

lemma xor_all_append: "xor_all (xs @ ys) = xor32 (xor_all xs) (xor_all ys)"
  by (induction xs) (simp_all add: xor32_zero xor32_assoc)

lemma xorBytes_xor32: "length a = 32 \<Longrightarrow> xorBytes a b = xor32 a b"
  by (auto simp: xorBytes_def xor32_def byte_at_def intro!: nth_equalityI)

lemma wf_fingerprint: "wf_trie d t \<Longrightarrow> fingerprint t = xor_all (gather t)"
  by (cases t) (auto simp: xor32_zero)

lemma wf_editCount: "wf_trie d t \<Longrightarrow> editCount t = length (gather t)"
  by (cases t) auto

lemma wf_length: "wf_trie d t \<Longrightarrow> h \<in> set (gather t) \<Longrightarrow> length h = 32"
proof (induction t arbitrary: d)
  case (InternalNode fp c l r)
  then show ?case by (cases l; cases r) auto
qed simp

lemma wf_gather_ne: "wf_trie d t \<Longrightarrow> gather t \<noteq> []"
  by (cases t) auto

definition side_ok :: "nat \<Rightarrow> bool \<Rightarrow> trie option \<Rightarrow> bool" where
  "side_ok d s t \<longleftrightarrow> (case t of Some t \<Rightarrow> wf_trie (Suc d) t \<and> (\<forall>h \<in> set (gather t). getBit h d = s) | None \<Rightarrow> True)"

lemma side_ok_simps [simp]:
  "side_ok d s None" "side_ok d s (Some t) \<longleftrightarrow> wf_trie (Suc d) t \<and> (\<forall>h \<in> set (gather t). getBit h d = s)"
  by (simp_all add: side_ok_def)

lemma wf_trie_Internal:
  "wf_trie d (InternalNode fp c l r) \<longleftrightarrow> side_ok d False l \<and> side_ok d True r \<and>
     fp = xor_all (opt_gather l @ opt_gather r) \<and> c = length (opt_gather l @ opt_gather r) \<and> 2 \<le> c"
  by (auto simp: side_ok_def split: option.splits)

lemma wf_buildInternal:
  assumes "side_ok d False l" "side_ok d True r" "2 \<le> length (opt_gather l @ opt_gather r)"
  shows "wf_trie d (buildInternal l r)" "gather (buildInternal l r) = opt_gather l @ opt_gather r"
proof -
  have "(case t of Some t \<Rightarrow> fingerprint t | None \<Rightarrow> zero32) = xor_all (opt_gather t)"
    "(case t of Some t \<Rightarrow> editCount t | None \<Rightarrow> 0) = length (opt_gather t)"
    if "side_ok d s t" for t s
    using that by (auto simp: wf_fingerprint wf_editCount split: option.splits)
  note eqs = this [OF assms(1)] this [OF assms(2)]
  show "wf_trie d (buildInternal l r)" "gather (buildInternal l r) = opt_gather l @ opt_gather r"
    unfolding buildInternal_def Let_def eqs
    using assms by (simp_all only: wf_trie_Internal gather_Internal xorBytes_xor32 length_xor_all xor_all_append length_append)
qed

text \<open>Two different hashes of 32 bytes differ in one of their 256 bits.\<close>

lemma getBit_ext:
  assumes "length a = 32" "length b = 32" "\<forall>i < 256. getBit a i = getBit b i"
  shows "a = b"
proof (rule nth_equalityI)
  show "length a = length b" using assms by simp
  fix i assume i: "i < length a"
  have "bit (a ! i) n = bit (b ! i) n" if "n < 8" for n
  proof -
    define m k where "m = 7 - n" and "k = m + 8 * i"
    have m: "m < 8" "7 - m = n" using that by (simp_all add: m_def)
    have k: "k < 256" "k div 8 = i" "7 - k mod 8 = n"
      using m i assms(1) by (simp_all add: k_def)
    then have "getBit a k = getBit b k" using assms(3) by blast
    with k i assms(1,2) show ?thesis by (simp add: getBit_def byte_at_def)
  qed
  then show "a ! i = b ! i" by (auto intro!: bit_word_eqI)
qed

lemma splitLeaf_ok:
  assumes "length e = 32" "length n = 32" "e \<noteq> n" "\<forall>i < d. getBit e i = getBit n i"
  shows "\<exists>t. splitLeaf e n d = Ok t \<and> wf_trie d t \<and> set (gather t) = {e, n}"
  using assms
proof (induction e n d rule: splitLeaf.induct)
  case (1 e n d)
  have d: "d < 256"
    using getBit_ext [OF "1.prems"(1,2)] "1.prems"(3,4) by (meson linorder_not_less order_less_le_trans)
  show ?case
  proof (cases "getBit e d = getBit n d")
    case True
    have nd: "\<not> 8 * max (length e) (length n) \<le> d" using d "1.prems" by simp
    have "\<forall>i < Suc d. getBit e i = getBit n i" using True "1.prems"(4) by (auto simp: less_Suc_eq)
    then obtain t where t: "splitLeaf e n (Suc d) = Ok t" "wf_trie (Suc d) t" "set (gather t) = {e, n}"
      using "1.IH" [OF nd refl refl True] "1.prems"(1-3) by auto
    have len: "2 \<le> length (gather t)" using t(3) "1.prems"(3) by (cases "gather t"; cases "tl (gather t)") auto
    show ?thesis
    proof (cases "getBit e d")
      case b: True
      have "wf_trie d (buildInternal None (Some t))" "gather (buildInternal None (Some t)) = gather t"
        using wf_buildInternal [of d None "Some t"] t True b len by auto
      then show ?thesis using t True b d "1.prems" by (simp add: splitLeaf.simps [of e n d])
    next
      case b: False
      have "wf_trie d (buildInternal (Some t) None)" "gather (buildInternal (Some t) None) = gather t"
        using wf_buildInternal [of d "Some t" None] t True b len by auto
      then show ?thesis using t True b d "1.prems" by (simp add: splitLeaf.simps [of e n d])
    qed
  next
    case False
    let ?a = "if \<not> getBit e d then e else n" and ?b = "if getBit e d then e else n"
    have "wf_trie d (buildInternal (Some (LeafNode ?a)) (Some (LeafNode ?b)))"
      "gather (buildInternal (Some (LeafNode ?a)) (Some (LeafNode ?b))) = [?a, ?b]"
      using wf_buildInternal [of d "Some (LeafNode ?a)" "Some (LeafNode ?b)"] False "1.prems" by auto
    then show ?thesis using False d "1.prems" by (auto simp: splitLeaf.simps [of e n d])
  qed
qed

lemma wf_distinct: "wf_trie d t \<Longrightarrow> distinct (gather t)"
proof (induction t arbitrary: d)
  case (InternalNode fp c l r)
  then show ?case by (cases l; cases r) (auto simp: wf_trie_Internal simp del: wf_trie.simps)
qed simp

definition agree :: "nat \<Rightarrow> bytes \<Rightarrow> bytes \<Rightarrow> bool" where
  "agree d a b \<longleftrightarrow> (\<forall>i < d. getBit a i = getBit b i)"

lemma agree_Suc: "agree (Suc d) a b \<longleftrightarrow> agree d a b \<and> getBit a d = getBit b d"
  by (auto simp: agree_def less_Suc_eq)

text \<open>The child on the side of the new hash, after the insertion.\<close>

lemma insert_side:
  assumes "side_ok d s c" "length h = 32" "\<forall>g \<in> set (opt_gather c). agree d g h" "getBit h d = s"
    and IH: "\<And>t. c = Some t \<Longrightarrow> \<forall>g \<in> set (gather t). agree (Suc d) g h \<Longrightarrow>
      \<exists>t'. trie_insert t h (Suc d) = Ok t' \<and> wf_trie (Suc d) t' \<and> set (gather t') = insert h (set (gather t))"
  shows "\<exists>t'. (case c of None \<Rightarrow> Ok (LeafNode h) | Some child \<Rightarrow> trie_insert child h (Suc d)) = Ok t' \<and>
     side_ok d s (Some t') \<and> set (gather t') = insert h (set (opt_gather c)) \<and>
     length (opt_gather c) \<le> length (gather t')"
proof (cases c)
  case None
  then show ?thesis using assms by simp
next
  case (Some t)
  have "\<forall>g \<in> set (gather t). agree (Suc d) g h" using assms Some by (auto simp: agree_Suc)
  then obtain t' where t': "trie_insert t h (Suc d) = Ok t'" "wf_trie (Suc d) t'"
    "set (gather t') = insert h (set (gather t))"
    using IH [OF Some] by blast
  have "length (gather t) = card (set (gather t))"
    using assms(1) Some wf_distinct by (auto simp: distinct_card)
  also have "\<dots> \<le> card (set (gather t'))" by (rule card_mono) (auto simp: t'(3))
  also have "\<dots> \<le> length (gather t')" by (rule card_length)
  finally show ?thesis using t' Some assms by auto
qed

lemma trie_insert_ok:
  assumes "wf_trie d t" "length h = 32" "\<forall>g \<in> set (gather t). agree d g h"
  shows "\<exists>t'. trie_insert t h d = Ok t' \<and> wf_trie d t' \<and> set (gather t') = insert h (set (gather t))"
  using assms
proof (induction t arbitrary: d)
  case (LeafNode e)
  then show ?case using splitLeaf_ok [of e h d] by (auto simp: agree_def)
next
  case (InternalNode fp c l r)
  have w: "side_ok d False l" "side_ok d True r" "2 \<le> length (opt_gather l @ opt_gather r)"
    using InternalNode.prems(1) unfolding wf_trie_Internal by auto
  have a: "\<forall>g \<in> set (opt_gather l). agree d g h" "\<forall>g \<in> set (opt_gather r). agree d g h"
    using InternalNode.prems(3) by auto
  show ?case
  proof (cases "getBit h d")
    case False
    obtain t' where t': "(case l of None \<Rightarrow> Ok (LeafNode h) | Some child \<Rightarrow> trie_insert child h (Suc d)) = Ok t'"
      "side_ok d False (Some t')" "set (gather t') = insert h (set (opt_gather l))"
      "length (opt_gather l) \<le> length (gather t')"
      using insert_side [OF w(1) InternalNode.prems(2) a(1)] False InternalNode.IH(1) InternalNode.prems(2) w(1)
      by (metis (no_types, lifting) option.set_intros side_ok_simps(2))
    then show ?thesis using False w wf_buildInternal [OF t'(2) w(2)] by auto
  next
    case True
    obtain t' where t': "(case r of None \<Rightarrow> Ok (LeafNode h) | Some child \<Rightarrow> trie_insert child h (Suc d)) = Ok t'"
      "side_ok d True (Some t')" "set (gather t') = insert h (set (opt_gather r))"
      "length (opt_gather r) \<le> length (gather t')"
      using insert_side [OF w(2) InternalNode.prems(2) a(2)] True InternalNode.IH(2) InternalNode.prems(2) w(2)
      by (metis (no_types, lifting) option.set_intros side_ok_simps(2))
    then show ?thesis using True w wf_buildInternal [OF w(1) t'(2)] by auto
  qed
qed

text \<open>The trie of a set of hashes: the empty internal node, or a well-formed one.\<close>

definition trie_of :: "bytes set \<Rightarrow> trie \<Rightarrow> bool" where
  "trie_of S t \<longleftrightarrow> (if S = {} then t = emptyInternal else wf_trie 0 t \<and> set (gather t) = S)"

lemma insert_all_ok:
  assumes "wf_trie 0 t" "\<forall>h \<in> set hs. length h = 32"
  shows "\<exists>t'. foldl_res (\<lambda>root x. trie_insert root x 0) t hs = Ok t' \<and> wf_trie 0 t' \<and>
     set (gather t') = set (gather t) \<union> set hs"
  using assms
proof (induction hs arbitrary: t)
  case (Cons h hs)
  obtain t1 where t1: "trie_insert t h 0 = Ok t1" "wf_trie 0 t1" "set (gather t1) = insert h (set (gather t))"
    using trie_insert_ok [of 0 t h] Cons.prems by (auto simp: agree_def)
  then show ?case using Cons.IH [OF t1(2)] Cons.prems by auto
qed simp

lemma buildTrie_ok:
  assumes "\<forall>h \<in> set hs. length h = 32"
  shows "\<exists>t. buildTrie hs = Ok t \<and> trie_of (set hs) t"
proof (cases hs)
  case (Cons h hs')
  then show ?thesis using insert_all_ok [of "LeafNode h" hs'] assms by (auto simp: buildTrie_def trie_of_def)
qed (simp add: buildTrie_def trie_of_def)

text \<open>A well-formed trie is determined by its set of hashes.\<close>

lemma wf_Internal_card:
  assumes "wf_trie d (InternalNode fp c l r)"
  shows "2 \<le> card (set (gather (InternalNode fp c l r)))"
proof -
  have "card (set (gather (InternalNode fp c l r))) = length (gather (InternalNode fp c l r))"
    by (rule distinct_card [OF wf_distinct [OF assms]])
  then show ?thesis using assms unfolding wf_trie_Internal by simp
qed

lemma side_unique:
  assumes "side_ok d s x" "side_ok d s y" "set (opt_gather x) = set (opt_gather y)"
    and "\<And>t u. x = Some t \<Longrightarrow> y = Some u \<Longrightarrow> t = u"
  shows "x = y"
  using assms by (cases x; cases y) (auto dest: wf_gather_ne)

lemma wf_trie_unique:
  "wf_trie d t \<Longrightarrow> wf_trie d u \<Longrightarrow> set (gather t) = set (gather u) \<Longrightarrow> t = u"
proof (induction t arbitrary: d u)
  case (LeafNode h)
  show ?case
  proof (cases u)
    case (InternalNode fp c l r)
    then have "2 \<le> card (set (gather u))" using wf_Internal_card LeafNode.prems(2) by blast
    then show ?thesis using LeafNode.prems(3) by (simp flip: LeafNode.prems(3))
  qed (use LeafNode in auto)
next
  case (InternalNode fp c l r)
  show ?case
  proof (cases u)
    case (LeafNode h)
    have "2 \<le> card (set (gather (InternalNode fp c l r)))"
      using wf_Internal_card [OF InternalNode.prems(1)] .
    then show ?thesis unfolding InternalNode.prems(3) LeafNode by simp
  next
    case u: (InternalNode fp' c' l' r')
    have w: "side_ok d False l" "side_ok d True r" "side_ok d False l'" "side_ok d True r'"
      using InternalNode.prems(1,2) unfolding u wf_trie_Internal by auto
    have bits: "h \<in> set (opt_gather x) \<Longrightarrow> getBit h d = s" if "side_ok d s x" for s x h
      using that by (cases x) auto
    have eq: "set (opt_gather l) \<union> set (opt_gather r) = set (opt_gather l') \<union> set (opt_gather r')"
      using InternalNode.prems(3) u by simp
    have ls: "set (opt_gather l) = set (opt_gather l')" and rs: "set (opt_gather r) = set (opt_gather r')"
      using eq bits [OF w(1)] bits [OF w(2)] bits [OF w(3)] bits [OF w(4)] by blast+
    have "l = l'" using w ls InternalNode.IH(1) by (intro side_unique [OF w(1,3) ls]) fastforce
    moreover have "r = r'" using w rs InternalNode.IH(2) by (intro side_unique [OF w(2,4) rs]) fastforce
    ultimately show ?thesis using InternalNode.prems(1,2) unfolding u wf_trie_Internal by auto
  qed
qed

lemma trie_of_unique: "trie_of S t \<Longrightarrow> trie_of S u \<Longrightarrow> t = u"
  by (auto simp: trie_of_def intro: wf_trie_unique split: if_splits)

section \<open>Queries on well-formed tries\<close>

lemma agree_range:
  "c \<le> n \<Longrightarrow> agree n a b \<longleftrightarrow> agree c a b \<and> (\<forall>d \<in> set [c..<n]. getBit a d = getBit b d)"
  unfolding agree_def by (auto simp: less_le_trans)

lemma filter_side:
  assumes "side_ok d s x" "getBit p d \<noteq> s" "d < n"
  shows "filter (\<lambda>h. agree n h p) (opt_gather x) = []"
  using assms by (cases x) (auto simp: filter_empty_conv agree_def)

lemma descend_ok:
  assumes "wf_trie c t" "c \<le> n" "\<forall>h \<in> set (gather t). agree c h p"
  shows "case descend t p n c of
      None \<Rightarrow> filter (\<lambda>h. agree n h p) (gather t) = []
    | Some u \<Rightarrow> gather u = filter (\<lambda>h. agree n h p) (gather t) \<and> (\<exists>k. wf_trie k u)"
  using assms
proof (induction t arbitrary: c)
  case (LeafNode h)
  then show ?case using agree_range [of c n h p] by (cases "n = c") auto
next
  case (InternalNode fp k l r)
  show ?case
  proof (cases "n = c")
    case True
    then show ?thesis using InternalNode.prems by (auto simp: filter_id_conv simp del: wf_trie.simps)
  next
    case False
    then have n: "c < n" using InternalNode.prems(2) by simp
    have w: "side_ok c False l" "side_ok c True r"
      using InternalNode.prems(1) unfolding wf_trie_Internal by auto
    have ag: "\<forall>h \<in> set (opt_gather x). agree (Suc c) h p" if "side_ok c (getBit p c) x" "x = l \<or> x = r" for x
      using that InternalNode.prems(3) by (cases x) (auto simp: agree_Suc)
    show ?thesis
    proof (cases "getBit p c")
      case True
      have "filter (\<lambda>h. agree n h p) (opt_gather l) = []" using filter_side [OF w(1)] True n by simp
      then show ?thesis using True n w(2) ag [of r] InternalNode.IH(2) [of _ "Suc c"]
        by (cases r) (auto split: option.splits)
    next
      case False
      have "filter (\<lambda>h. agree n h p) (opt_gather r) = []" using filter_side [OF w(2)] False n by simp
      then show ?thesis using False n w(1) ag [of l] InternalNode.IH(1) [of _ "Suc c"]
        by (cases l) (auto split: option.splits)
    qed
  qed
qed

lemma descend_empty: "descend emptyInternal p n 0 = (if n = 0 then Some emptyInternal else None)"
  by (simp add: emptyInternal_def)

lemma queries_ok:
  assumes "trie_of S t"
  shows "set (collectHashes t p n) = {h \<in> S. agree n h p}" "distinct (collectHashes t p n)"
    "queryPrefix t p n = (xor_all (collectHashes t p n), length (collectHashes t p n))"
proof -
  have "set (collectHashes t p n) = {h \<in> S. agree n h p} \<and> distinct (collectHashes t p n) \<and>
    queryPrefix t p n = (xor_all (collectHashes t p n), length (collectHashes t p n))"
  proof (cases "S = {}")
    case True
    then have t: "t = emptyInternal" using assms by (simp add: trie_of_def)
    show ?thesis unfolding t collectHashes_def queryPrefix_def descend_empty
      using True by (simp add: emptyInternal_def)
  next
    case False
    then have t: "wf_trie 0 t" "set (gather t) = S" using assms by (simp_all add: trie_of_def)
    note d = descend_ok [OF t(1), of n p]
    show ?thesis
    proof (cases "descend t p n 0")
      case None
      then show ?thesis using d t(2) by (auto simp: collectHashes_def queryPrefix_def agree_def filter_empty_conv)
    next
      case (Some u)
      then show ?thesis using d t wf_distinct [OF t(1)]
        by (auto simp: collectHashes_def queryPrefix_def agree_def wf_fingerprint wf_editCount)
    qed
  qed
  then show "set (collectHashes t p n) = {h \<in> S. agree n h p}" "distinct (collectHashes t p n)"
    "queryPrefix t p n = (xor_all (collectHashes t p n), length (collectHashes t p n))" by blast+
qed

section \<open>Properties\<close>

text \<open>
  C16: building the trie of any list of 32-byte hashes never throws, and every prefix query of the result is
  right: the hashes collected under a prefix are exactly those of the list that agree with it on its bits,
  each once, and the fingerprint and the count are their XOR and their number.
\<close>

theorem buildTrie_queries:
  assumes "\<forall>h \<in> set hs. length h = 32"
  shows "\<exists>t. buildTrie hs = Ok t \<and>
    (let found = collectHashes t prefix depth in
      set found = {h \<in> set hs. \<forall>i < depth. getBit h i = getBit prefix i} \<and> distinct found \<and>
      queryPrefix t prefix depth = (xor_all found, length found))"
proof -
  obtain t where "buildTrie hs = Ok t" "trie_of (set hs) t" using buildTrie_ok [OF assms] by blast
  then show ?thesis using queries_ok [of "set hs" t] unfolding Let_def agree_def by blast
qed

definition byte_hash :: "8 word \<Rightarrow> bytes" where
  "byte_hash b = b # replicate 31 0"

theorem buildTrie_queries_witness:
  "\<exists>t. buildTrie [byte_hash 1, byte_hash 128, byte_hash 1, byte_hash 3] = Ok t \<and>
     set (collectHashes t (byte_hash 0) 1) = {byte_hash 1, byte_hash 3}"
proof -
  let ?hs = "[byte_hash 1, byte_hash 128, byte_hash 1, byte_hash 3]"
  have "\<forall>h \<in> set ?hs. length h = 32" by (simp add: byte_hash_def)
  moreover have "\<not> getBit (byte_hash 1) 0" "getBit (byte_hash 128) 0" "\<not> getBit (byte_hash 3) 0" "\<not> getBit (byte_hash 0) 0"
    by (simp_all add: byte_hash_def getBit_def byte_at_def)
  ultimately show ?thesis using buildTrie_queries [of ?hs "byte_hash 0" 1] by (auto simp: Let_def)
qed

text \<open>
  The trie depends on the set of hashes only: two peers that hold the same 32-byte hashes, in any
  order and with any repetitions, build the same trie, so they answer every query the same.
\<close>

theorem buildTrie_order_independent:
  assumes "\<forall>h \<in> set hs. length h = 32" "set hs = set hs'"
  shows "buildTrie hs = buildTrie hs'"
proof -
  obtain t where "buildTrie hs = Ok t" "trie_of (set hs) t" using buildTrie_ok [OF assms(1)] by blast
  moreover obtain u where "buildTrie hs' = Ok u" "trie_of (set hs') u"
    using buildTrie_ok [of hs'] assms by auto
  ultimately show ?thesis using trie_of_unique assms(2) by fastforce
qed

theorem buildTrie_order_independent_witness:
  "buildTrie [byte_hash 1, byte_hash 128, byte_hash 3] = buildTrie [byte_hash 3, byte_hash 1, byte_hash 128, byte_hash 1]"
  by (rule buildTrie_order_independent) (auto simp: byte_hash_def)

end
