(* ===== verification/Wire.thy ===== *)
theory Wire
  imports Prelude
begin

text \<open>
  The reconciliation messages, their binary encoding (\<open>packages/sync/src/reconciliation/messages.ts\<close>) and
  the frames of the transport (\<open>transport.ts\<close>).  The primitive readers and writers come from the package
  \<^verbatim>\<open>lib0\<close> and the UTF-8 coder from the platform: they are the record \<open>wire\<close>, and \<open>wire_ok\<close> is their
  documented contract, that a reader gives back what the writer wrote and leaves the rest.
\<close>

section \<open>Messages\<close>

type_synonym wire_edit = "bytes \<times> bytes"

datatype message =
    ReconcileStart string bytes nat
  | TrieQuery string bytes nat bytes nat
  | TrieResponse string bytes nat bytes bool
  | EditSet string bytes nat "bytes list"
  | EditBatch string "wire_edit list"
  | FullState string bytes
  | SnapshotCatalog "(bytes \<times> nat \<times> int) list" "bytes option"
  | SnapshotRequest "bytes list"
  | SnapshotBlock bytes bytes nat nat bool

section \<open>The primitive coders\<close>

type_synonym 'a reader = "bytes \<Rightarrow> ('a \<times> bytes) result"

record wire =
  writeVarUint :: "nat \<Rightarrow> bytes"
  readVarUint :: "nat reader"
  writeVarString :: "string \<Rightarrow> bytes"
  readVarString :: "string reader"
  writeVarUint8Array :: "bytes \<Rightarrow> bytes"
  readVarUint8Array :: "bytes reader"
  writeFloat64 :: "int \<Rightarrow> bytes"
  readFloat64 :: "int reader"
  utf8_encode :: "string \<Rightarrow> bytes"
  utf8_decode :: "bytes \<Rightarrow> string"

text \<open>Integers up to \<^verbatim>\<open>Number.MAX_SAFE_INTEGER\<close>.\<close>

definition max_safe :: nat where "max_safe = 2 ^ 53"

definition wire_ok :: "wire \<Rightarrow> bool" where
  "wire_ok w \<longleftrightarrow>
     (\<forall>n rest. n < max_safe \<longrightarrow> readVarUint w (writeVarUint w n @ rest) = Ok (n, rest)) \<and>
     (\<forall>s rest. readVarString w (writeVarString w s @ rest) = Ok (s, rest)) \<and>
     (\<forall>b rest. readVarUint8Array w (writeVarUint8Array w b @ rest) = Ok (b, rest)) \<and>
     (\<forall>x rest. \<bar>x\<bar> < int max_safe \<longrightarrow> readFloat64 w (writeFloat64 w x @ rest) = Ok (x, rest)) \<and>
     (\<forall>s. utf8_decode w (utf8_encode w s) = s) \<and>
     (\<forall>s. utf8_encode w s = [] \<longleftrightarrow> s = [])"

section \<open>Encoding\<close>

definition encode_list :: "('x \<Rightarrow> bytes) \<Rightarrow> 'x list \<Rightarrow> bytes" where
  "encode_list f xs = concat (map f xs)"

fun message_type :: "message \<Rightarrow> nat" where
  "message_type (ReconcileStart _ _ _) = 0"
| "message_type (TrieQuery _ _ _ _ _) = 1"
| "message_type (TrieResponse _ _ _ _ _) = 2"
| "message_type (EditSet _ _ _ _) = 3"
| "message_type (EditBatch _ _) = 4"
| "message_type (FullState _ _) = 5"
| "message_type (SnapshotCatalog _ _) = 6"
| "message_type (SnapshotRequest _) = 7"
| "message_type (SnapshotBlock _ _ _ _ _) = 8"

definition bool_uint :: "bool \<Rightarrow> nat" where "bool_uint b = (if b then 1 else 0)"

fun encode_body :: "wire \<Rightarrow> message \<Rightarrow> bytes" where
  "encode_body w (ReconcileStart channel fp n) =
     writeVarString w channel @ writeVarUint8Array w fp @ writeVarUint w n"
| "encode_body w (TrieQuery channel prefix depth fp n) =
     writeVarString w channel @ writeVarUint8Array w prefix @ writeVarUint w depth @
     writeVarUint8Array w fp @ writeVarUint w n"
| "encode_body w (TrieResponse channel prefix depth fp m) =
     writeVarString w channel @ writeVarUint8Array w prefix @ writeVarUint w depth @
     writeVarUint8Array w fp @ writeVarUint w (bool_uint m)"
| "encode_body w (EditSet channel prefix depth hashes) =
     writeVarString w channel @ writeVarUint8Array w prefix @ writeVarUint w depth @
     writeVarUint w (length hashes) @ encode_list (writeVarUint8Array w) hashes"
| "encode_body w (EditBatch channel edits) =
     writeVarString w channel @ writeVarUint w (length edits) @
     encode_list (\<lambda>(p, s). writeVarUint8Array w p @ writeVarUint8Array w s) edits"
| "encode_body w (FullState channel snapshot) =
     writeVarString w channel @ writeVarUint8Array w snapshot"
| "encode_body w (SnapshotCatalog entries tip) =
     writeVarUint w (length entries) @
     encode_list (\<lambda>(c, s, t). writeVarUint8Array w c @ writeVarUint w s @ writeFloat64 w t) entries @
     writeVarUint w (bool_uint (tip \<noteq> None)) @
     (case tip of Some t \<Rightarrow> writeVarUint8Array w t | None \<Rightarrow> [])"
| "encode_body w (SnapshotRequest cids) =
     writeVarUint w (length cids) @ encode_list (writeVarUint8Array w) cids"
| "encode_body w (SnapshotBlock c block offset tot lst) =
     writeVarUint8Array w c @ writeVarUint8Array w block @ writeVarUint w offset @
     writeVarUint w tot @ writeVarUint w (bool_uint lst)"

definition encodeMessage :: "wire \<Rightarrow> message \<Rightarrow> bytes" where
  "encodeMessage w msg = writeVarUint w (message_type msg) @ encode_body w msg"

section \<open>Decoding\<close>

fun read_n :: "'x reader \<Rightarrow> nat \<Rightarrow> 'x list reader" where
  "read_n r 0 bs = Ok ([], bs)"
| "read_n r (Suc n) bs =
     and_then (r bs) (\<lambda>(x, bs1). and_then (read_n r n bs1) (\<lambda>(xs, bs2). Ok (x # xs, bs2)))"

definition read_pair :: "'x reader \<Rightarrow> 'y reader \<Rightarrow> ('x \<times> 'y) reader" where
  "read_pair r1 r2 bs = and_then (r1 bs) (\<lambda>(x, bs1). and_then (r2 bs1) (\<lambda>(y, bs2). Ok ((x, y), bs2)))"

definition decodeMessage :: "wire \<Rightarrow> bytes \<Rightarrow> message result" where
  "decodeMessage w bytes =
     and_then (readVarUint w bytes) (\<lambda>(type, d).
     if type = 0 then
       and_then (readVarString w d) (\<lambda>(channel, d).
       and_then (readVarUint8Array w d) (\<lambda>(fp, d).
       and_then (readVarUint w d) (\<lambda>(n, d). Ok (ReconcileStart channel fp n))))
     else if type = 1 then
       and_then (readVarString w d) (\<lambda>(channel, d).
       and_then (readVarUint8Array w d) (\<lambda>(prefix, d).
       and_then (readVarUint w d) (\<lambda>(depth, d).
       and_then (readVarUint8Array w d) (\<lambda>(fp, d).
       and_then (readVarUint w d) (\<lambda>(n, d). Ok (TrieQuery channel prefix depth fp n))))))
     else if type = 2 then
       and_then (readVarString w d) (\<lambda>(channel, d).
       and_then (readVarUint8Array w d) (\<lambda>(prefix, d).
       and_then (readVarUint w d) (\<lambda>(depth, d).
       and_then (readVarUint8Array w d) (\<lambda>(fp, d).
       and_then (readVarUint w d) (\<lambda>(m, d). Ok (TrieResponse channel prefix depth fp (m = 1)))))))
     else if type = 3 then
       and_then (readVarString w d) (\<lambda>(channel, d).
       and_then (readVarUint8Array w d) (\<lambda>(prefix, d).
       and_then (readVarUint w d) (\<lambda>(depth, d).
       and_then (readVarUint w d) (\<lambda>(count, d).
       and_then (read_n (readVarUint8Array w) count d) (\<lambda>(hashes, d).
       Ok (EditSet channel prefix depth hashes))))))
     else if type = 4 then
       and_then (readVarString w d) (\<lambda>(channel, d).
       and_then (readVarUint w d) (\<lambda>(count, d).
       and_then (read_n (read_pair (readVarUint8Array w) (readVarUint8Array w)) count d) (\<lambda>(edits, d).
       Ok (EditBatch channel edits))))
     else if type = 5 then
       and_then (readVarString w d) (\<lambda>(channel, d).
       and_then (readVarUint8Array w d) (\<lambda>(snapshot, d). Ok (FullState channel snapshot)))
     else if type = 6 then
       and_then (readVarUint w d) (\<lambda>(count, d).
       and_then (read_n (read_pair (readVarUint8Array w) (read_pair (readVarUint w) (readFloat64 w))) count d) (\<lambda>(entries, d).
       and_then (readVarUint w d) (\<lambda>(hasTip, d).
       if hasTip = 1 then and_then (readVarUint8Array w d) (\<lambda>(tip, d). Ok (SnapshotCatalog entries (Some tip)))
       else Ok (SnapshotCatalog entries None))))
     else if type = 7 then
       and_then (readVarUint w d) (\<lambda>(count, d).
       and_then (read_n (readVarUint8Array w) count d) (\<lambda>(cids, d). Ok (SnapshotRequest cids)))
     else if type = 8 then
       and_then (readVarUint8Array w d) (\<lambda>(c, d).
       and_then (readVarUint8Array w d) (\<lambda>(block, d).
       and_then (readVarUint w d) (\<lambda>(offset, d).
       and_then (readVarUint w d) (\<lambda>(tot, d).
       and_then (readVarUint w d) (\<lambda>(lst, d). Ok (SnapshotBlock c block offset tot (lst = 1)))))))
     else Throw ''Unknown message type'')"

section \<open>Frames\<close>

text \<open>The length of the channel name in bytes, cut to 16 bits, big endian.\<close>

definition encodeFrame :: "wire \<Rightarrow> string \<Rightarrow> message \<Rightarrow> bytes" where
  "encodeFrame w channelName msg =
     (let nameBytes = utf8_encode w channelName; n = length nameBytes in
      [word_of_nat (n div 256), word_of_nat n] @ nameBytes @ encodeMessage w msg)"

definition encodeSnapshotFrame :: "wire \<Rightarrow> message \<Rightarrow> bytes" where
  "encodeSnapshotFrame w msg = [0, 0] @ encodeMessage w msg"

definition decodeFrame :: "wire \<Rightarrow> bytes \<Rightarrow> (string \<times> message) result" where
  "decodeFrame w frame =
     (let nameLen = 256 * unat (byte_at frame 0) + unat (byte_at frame 1);
          channelName = utf8_decode w (take nameLen (drop 2 frame))
      in and_then (decodeMessage w (drop (2 + nameLen) frame)) (\<lambda>message. Ok (channelName, message)))"

section \<open>The transport\<close>

definition isSnapshotMessage :: "message \<Rightarrow> bool" where
  "isSnapshotMessage msg \<longleftrightarrow> message_type msg = 6 \<or> message_type msg = 7 \<or> message_type msg = 8"

datatype transport_event = SendPong | ToChannel string message | ToSnapshot message | Dropped

definition onDCMessage :: "wire \<Rightarrow> bool \<Rightarrow> bytes \<Rightarrow> transport_event result" where
  "onDCMessage w destroyed frame =
     (if destroyed then Ok Dropped
      else if length frame = 1 then Ok (if frame ! 0 = 1 then SendPong else Dropped)
      else and_then (decodeFrame w frame) (\<lambda>(channelName, message).
        if channelName = '''' then
          if \<not> isSnapshotMessage message then Ok Dropped else Ok (ToSnapshot message)
        else if isSnapshotMessage message then Ok Dropped
        else Ok (ToChannel channelName message)))"

definition transport_send :: "wire \<Rightarrow> string \<Rightarrow> message \<Rightarrow> bytes result" where
  "transport_send w channelName msg =
     (if channelName = '''' then Throw ''transport.send: channelName must be non-empty''
      else if isSnapshotMessage msg then Throw ''transport.send: use sendSnapshotMessage''
      else Ok (encodeFrame w channelName msg))"

section \<open>Round trips\<close>

definition safe :: "nat \<Rightarrow> bool" where "safe n \<longleftrightarrow> n < max_safe"

fun message_ok :: "message \<Rightarrow> bool" where
  "message_ok (ReconcileStart _ _ n) \<longleftrightarrow> safe n"
| "message_ok (TrieQuery _ _ d _ n) \<longleftrightarrow> safe d \<and> safe n"
| "message_ok (TrieResponse _ _ d _ _) \<longleftrightarrow> safe d"
| "message_ok (EditSet _ _ d hs) \<longleftrightarrow> safe d \<and> safe (length hs)"
| "message_ok (EditBatch _ es) \<longleftrightarrow> safe (length es)"
| "message_ok (FullState _ _) \<longleftrightarrow> True"
| "message_ok (SnapshotCatalog es _) \<longleftrightarrow> safe (length es) \<and> (\<forall>(c, s, t) \<in> set es. safe s \<and> \<bar>t\<bar> < int max_safe)"
| "message_ok (SnapshotRequest cs) \<longleftrightarrow> safe (length cs)"
| "message_ok (SnapshotBlock _ _ off tot _) \<longleftrightarrow> safe off \<and> safe tot"

definition codec_for :: "('x \<Rightarrow> bytes) \<Rightarrow> 'x reader \<Rightarrow> ('x \<Rightarrow> bool) \<Rightarrow> bool" where
  "codec_for f r P \<longleftrightarrow> (\<forall>x rest. P x \<longrightarrow> r (f x @ rest) = Ok (x, rest))"

lemma codec_forD: "codec_for f r P \<Longrightarrow> P x \<Longrightarrow> r (f x @ rest) = Ok (x, rest)"
  by (simp add: codec_for_def)

lemma read_n_list:
  assumes "codec_for f r P" "\<forall>x \<in> set xs. P x"
  shows "read_n r (length xs) (encode_list f xs @ rest) = Ok (xs, rest)"
  using assms(2) by (induction xs) (simp_all add: encode_list_def codec_forD [OF assms(1)])

lemma codec_for_pair:
  "codec_for f r P \<Longrightarrow> codec_for g q Q \<Longrightarrow>
     codec_for (\<lambda>(x, y). f x @ g y) (read_pair r q) (\<lambda>(x, y). P x \<and> Q y)"
  by (auto simp: codec_for_def read_pair_def)

lemma max_safe_small: "n \<le> 8 \<Longrightarrow> safe n"
  by (simp add: safe_def max_safe_def)

lemma safe_bool [simp]: "safe (bool_uint b)" "bool_uint b = Suc 0 \<longleftrightarrow> b"
  by (auto simp: bool_uint_def max_safe_small)

lemma wire_okD:
  assumes "wire_ok w"
  shows "codec_for (writeVarUint w) (readVarUint w) safe"
    "codec_for (writeVarString w) (readVarString w) (\<lambda>_. True)"
    "codec_for (writeVarUint8Array w) (readVarUint8Array w) (\<lambda>_. True)"
    "codec_for (writeFloat64 w) (readFloat64 w) (\<lambda>x. \<bar>x\<bar> < int max_safe)"
  using assms by (auto simp: wire_ok_def codec_for_def safe_def)

lemma wire_reads:
  assumes "wire_ok w"
  shows "safe n \<Longrightarrow> readVarUint w (writeVarUint w n @ rest) = Ok (n, rest)"
    "readVarString w (writeVarString w s @ rest) = Ok (s, rest)"
    "readVarUint8Array w (writeVarUint8Array w b @ rest) = Ok (b, rest)"
    "safe n \<Longrightarrow> readVarUint w (writeVarUint w n) = Ok (n, [])"
    "readVarUint8Array w (writeVarUint8Array w b) = Ok (b, [])"
  using wire_okD [OF assms] by (simp_all add: codec_for_def) (metis append_Nil2)+

lemma wire_lists:
  assumes "wire_ok w"
  shows "read_n (readVarUint8Array w) (length bs) (encode_list (writeVarUint8Array w) bs) = Ok (bs, [])"
    "read_n (read_pair (readVarUint8Array w) (readVarUint8Array w)) (length es)
       (encode_list (\<lambda>(p, s). writeVarUint8Array w p @ writeVarUint8Array w s) es) = Ok (es, [])"
    "\<forall>(c, s, t) \<in> set cs. safe s \<and> \<bar>t\<bar> < int max_safe \<Longrightarrow>
     read_n (read_pair (readVarUint8Array w) (read_pair (readVarUint w) (readFloat64 w))) (length cs)
       (encode_list (\<lambda>(c, s, t). writeVarUint8Array w c @ writeVarUint w s @ writeFloat64 w t) cs @ rest) = Ok (cs, rest)"
proof -
  note c = wire_okD [OF assms]
  show "read_n (readVarUint8Array w) (length bs) (encode_list (writeVarUint8Array w) bs) = Ok (bs, [])"
    using read_n_list [OF c(3), of bs "[]"] by simp
  show "read_n (read_pair (readVarUint8Array w) (readVarUint8Array w)) (length es)
       (encode_list (\<lambda>(p, s). writeVarUint8Array w p @ writeVarUint8Array w s) es) = Ok (es, [])"
    using read_n_list [OF codec_for_pair [OF c(3) c(3)], of es "[]"] by auto
  show "\<forall>(c, s, t) \<in> set cs. safe s \<and> \<bar>t\<bar> < int max_safe \<Longrightarrow>
     read_n (read_pair (readVarUint8Array w) (read_pair (readVarUint w) (readFloat64 w))) (length cs)
       (encode_list (\<lambda>(c, s, t). writeVarUint8Array w c @ writeVarUint w s @ writeFloat64 w t) cs @ rest) = Ok (cs, rest)"
    using read_n_list [OF codec_for_pair [OF c(3) codec_for_pair [OF c(1) c(4)]], of cs rest]
    by (auto simp: case_prod_unfold)
qed

lemma decode_encode:
  assumes "wire_ok w" "message_ok msg"
  shows "decodeMessage w (encodeMessage w msg) = Ok msg"
proof -
  have t: "safe (message_type msg)" by (cases msg) (simp_all add: max_safe_small)
  note [simp] = wire_reads [OF assms(1)] wire_lists [OF assms(1)]
  show ?thesis
    using assms(2) t
    by (cases msg) (auto simp: encodeMessage_def decodeMessage_def split: option.splits)
qed

lemma word8_nat: "unat (word_of_nat n :: 8 word) = n mod 256"
  by (simp add: unat_of_nat)

lemma frame_length: "256 * (n div 256 mod 256) + n mod 256 = n mod 65536" for n :: nat
proof -
  have "n mod (256 * 256) = 256 * (n div 256 mod 256) + n mod 256" by (rule mod_mult2_eq)
  then show ?thesis by simp
qed

lemma decodeFrame_encodeFrame:
  assumes "wire_ok w" "message_ok msg" "length (utf8_encode w n) < 65536"
  shows "decodeFrame w (encodeFrame w n msg) = Ok (n, msg)"
proof -
  let ?n = "length (utf8_encode w n)"
  have "256 * (?n div 256 mod 256) + ?n mod 256 = ?n" using assms(3) by (simp add: frame_length)
  moreover have "utf8_decode w (utf8_encode w n) = n" using assms(1) by (simp add: wire_ok_def)
  ultimately show ?thesis using decode_encode [OF assms(1,2)]
    by (simp add: decodeFrame_def encodeFrame_def Let_def byte_at_def word8_nat)
qed

section \<open>An instance of the coders\<close>

text \<open>
  The contract of \<open>wire\<close> can hold: numbers in unary, arrays behind their length, one byte per character.
\<close>

fun unary_read :: "nat reader" where
  "unary_read [] = Throw ''Unexpected end of array''"
| "unary_read (b # bs) = (if b = 0 then and_then (unary_read bs) (\<lambda>(n, r). Ok (Suc n, r)) else Ok (0, bs))"

definition unary_write :: "nat \<Rightarrow> bytes" where "unary_write n = replicate n 0 @ [1]"

definition array_write :: "bytes \<Rightarrow> bytes" where "array_write b = unary_write (length b) @ b"

definition array_read :: "bytes reader" where
  "array_read bs = and_then (unary_read bs) (\<lambda>(n, r). Ok (take n r, drop n r))"

definition chars_write :: "string \<Rightarrow> bytes" where "chars_write s = map (\<lambda>c. word_of_nat (of_char c)) s"

definition chars_read :: "bytes \<Rightarrow> string" where "chars_read b = map (\<lambda>x. char_of (unat x)) b"

definition sample_wire :: wire where
  "sample_wire = \<lparr>writeVarUint = unary_write, readVarUint = unary_read,
     writeVarString = (\<lambda>s. array_write (chars_write s)),
     readVarString = (\<lambda>b. and_then (array_read b) (\<lambda>(x, r). Ok (chars_read x, r))),
     writeVarUint8Array = array_write, readVarUint8Array = array_read,
     writeFloat64 = (\<lambda>x. (if x < 0 then 1 else 0) # unary_write (nat \<bar>x\<bar>)),
     readFloat64 = (\<lambda>b. case b of [] \<Rightarrow> Throw ''Unexpected end of array''
       | s # b' \<Rightarrow> and_then (unary_read b') (\<lambda>(n, r). Ok (if s = 1 then - int n else int n, r))),
     utf8_encode = chars_write, utf8_decode = chars_read\<rparr>"

lemma unary_read_write: "unary_read (unary_write n @ rest) = Ok (n, rest)"
  by (induction n) (simp_all add: unary_write_def)

lemma array_read_write: "array_read (array_write b @ rest) = Ok (b, rest)"
  by (simp add: array_read_def array_write_def unary_read_write)

lemma chars_read_write: "chars_read (chars_write s) = s"
proof -
  have "char_of (unat (word_of_nat (of_char c) :: 8 word)) = (c :: char)" for c
    by (simp add: unat_of_nat)
  then show ?thesis by (simp add: chars_read_def chars_write_def comp_def)
qed

lemma sample_wire_ok: "wire_ok sample_wire"
  by (simp add: wire_ok_def sample_wire_def unary_read_write array_read_write chars_read_write)
    (simp add: chars_write_def)

section \<open>Properties\<close>

text \<open>
  C34: decoding an encoded message gives the message back, for every message whose counts and numbers are
  safe integers; the coders of \<^verbatim>\<open>lib0\<close> are assumed to read what they write.
\<close>

theorem message_roundtrip:
  assumes "wire_ok w" "message_ok msg"
  shows "decodeMessage w (encodeMessage w msg) = Ok msg"
  by (rule decode_encode [OF assms])

theorem message_roundtrip_witness:
  "decodeMessage sample_wire (encodeMessage sample_wire
     (SnapshotCatalog [([1, 2], 7, 1000), ([], 0, -5)] (Some [3]))) =
   Ok (SnapshotCatalog [([1, 2], 7, 1000), ([], 0, -5)] (Some [3]))"
  by (rule message_roundtrip [OF sample_wire_ok]) (simp add: safe_def max_safe_def)

text \<open>
  What one side of the transport accepts for sending, the other side delivers: a frame made by \<open>send\<close>
  reaches the channel callbacks with the same channel name and message, a snapshot message sent as a
  snapshot frame reaches the snapshot callbacks, and neither is taken for a keepalive.  The channel name
  may be at most 65535 bytes long: beyond that its length is cut to 16 bits.
\<close>

theorem transport_delivers:
  assumes "wire_ok w" "message_ok msg" "length (utf8_encode w n) < 65536"
  shows "if isSnapshotMessage msg
    then onDCMessage w False (encodeSnapshotFrame w msg) = Ok (ToSnapshot msg) \<and> isl (transport_send w n msg)
    else n = '''' \<or> (\<exists>frame. transport_send w n msg = Ok frame \<and> onDCMessage w False frame = Ok (ToChannel n msg))"
proof (cases "isSnapshotMessage msg")
  case False
  have "length (encodeFrame w n msg) \<noteq> 1" by (simp add: encodeFrame_def Let_def)
  then show ?thesis using False decodeFrame_encodeFrame [OF assms]
    by (simp add: onDCMessage_def transport_send_def)
next
  case True
  have e: "utf8_encode w '''' = []" using assms(1) by (simp add: wire_ok_def)
  then have "encodeSnapshotFrame w msg = encodeFrame w '''' msg"
    by (simp add: encodeSnapshotFrame_def encodeFrame_def)
  moreover have "length (encodeSnapshotFrame w msg) \<noteq> 1" by (simp add: encodeSnapshotFrame_def)
  ultimately show ?thesis
    using decodeFrame_encodeFrame [OF assms(1,2), of "''''"] True e
    by (simp add: onDCMessage_def transport_send_def)
qed

theorem transport_delivers_witness:
  "\<exists>frame. transport_send sample_wire ''content'' (TrieQuery ''content'' [1, 2] 3 [4] 5) = Ok frame \<and>
     onDCMessage sample_wire False frame = Ok (ToChannel ''content'' (TrieQuery ''content'' [1, 2] 3 [4] 5))"
  using transport_delivers [OF sample_wire_ok, of "TrieQuery ''content'' [1, 2] 3 [4] 5" "''content''"]
  by (simp add: isSnapshotMessage_def safe_def max_safe_def sample_wire_def chars_write_def)

end
