(* ===== verification/Session.thy ===== *)
theory Session
  imports Merkle_Trie Wire "HOL-Library.Multiset"
begin

text \<open>
  The reconciliation session (\<open>packages/sync/src/reconciliation/session.ts\<close>).  The trie the code builds on first use and keeps is built anew here: the local
  hashes never change.  A set of hex strings of hashes is the set of the hashes.
\<close>

section \<open>The session\<close>

definition MAX_DEPTH :: nat where "MAX_DEPTH = 16"
definition EDIT_SET_THRESHOLD :: nat where "EDIT_SET_THRESHOLD = 10"

record session =
  localHashes :: "bytes list"
  localFingerprint :: bytes
  schannel :: string
  localSnapshot :: "bytes option"
  queryQueue :: "(bytes \<times> nat) list"
  receivedEdits :: "wire_edit list"

datatype reply = Msg message | Edits "wire_edit list" | Null

definition createSession :: "bytes list \<Rightarrow> bytes \<Rightarrow> string \<Rightarrow> bytes option \<Rightarrow> session" where
  "createSession hs fp ch snap = \<lparr>localHashes = hs, localFingerprint = fp, schannel = ch,
     localSnapshot = snap, queryQueue = [], receivedEdits = []\<rparr>"

text \<open>Writing past the end of a typed array does nothing, as \<open>list_update\<close> does.\<close>

definition childPrefix :: "bytes \<Rightarrow> nat \<Rightarrow> bool \<Rightarrow> bytes" where
  "childPrefix prefix depth b =
     (let byteIndex = depth div 8; bitOffset = 7 - depth mod 8 in
      prefix[byteIndex := (if b then set_bit bitOffset (prefix ! byteIndex)
                           else unset_bit bitOffset (prefix ! byteIndex))])"

definition ensureTrie :: "session \<Rightarrow> trie result" where
  "ensureTrie s = buildTrie (localHashes s)"

definition initiate :: "session \<Rightarrow> message" where
  "initiate s = ReconcileStart (schannel s) (localFingerprint s) (length (localHashes s))"

definition handleReconcileStart :: "session \<Rightarrow> bytes \<Rightarrow> nat \<Rightarrow> reply result" where
  "handleReconcileStart s fp n =
     (if fp = localFingerprint s \<and> n = length (localHashes s) then Ok Null
      else case (if n = 0 then localSnapshot s else None) of
        Some snap \<Rightarrow> Ok (Msg (FullState (schannel s) snap))
      | None \<Rightarrow> and_then (ensureTrie s) (\<lambda>root.
          Ok (Msg (TrieQuery (schannel s) (replicate 32 0) 0 (fingerprint root) (editCount root)))))"

definition handleTrieQuery :: "session \<Rightarrow> bytes \<Rightarrow> nat \<Rightarrow> bytes \<Rightarrow> nat \<Rightarrow> reply result" where
  "handleTrieQuery s prefix depth fp n =
     and_then (ensureTrie s) (\<lambda>root.
     let loc = queryPrefix root prefix depth;
         match = (fst loc = fp \<and> snd loc = n)
     in Ok (Msg (TrieResponse (schannel s) prefix depth (fst loc) match)))"

definition query_for :: "session \<Rightarrow> bytes \<Rightarrow> nat \<Rightarrow> message result" where
  "query_for s prefix depth =
     and_then (ensureTrie s) (\<lambda>root.
     let loc = queryPrefix root prefix depth in
     Ok (TrieQuery (schannel s) prefix depth (fst loc) (snd loc)))"

definition drainQueue :: "session \<Rightarrow> (session \<times> reply) result" where
  "drainQueue s = (case queryQueue s of
      [] \<Rightarrow> Ok (s, Null)
    | (prefix, depth) # rest \<Rightarrow>
        and_then (query_for s prefix depth) (\<lambda>m. Ok (s\<lparr>queryQueue := rest\<rparr>, Msg m)))"

definition handleTrieResponse :: "session \<Rightarrow> bytes \<Rightarrow> nat \<Rightarrow> bool \<Rightarrow> (session \<times> reply) result" where
  "handleTrieResponse s prefix depth match =
     (if match then drainQueue s else
      and_then (ensureTrie s) (\<lambda>root.
      if depth < MAX_DEPTH \<and> EDIT_SET_THRESHOLD < snd (queryPrefix root prefix depth) then
        let leftPfx = childPrefix prefix depth False; rightPfx = childPrefix prefix depth True in
        and_then (query_for s leftPfx (depth + 1)) (\<lambda>m.
        Ok (s\<lparr>queryQueue := queryQueue s @ [(rightPfx, depth + 1)]\<rparr>, Msg m))
      else Ok (s, Msg (EditSet (schannel s) prefix depth (collectHashes root prefix depth)))))"

definition handleEditSet :: "session \<Rightarrow> bytes \<Rightarrow> nat \<Rightarrow> bytes list \<Rightarrow> reply result" where
  "handleEditSet s prefix depth hashes =
     and_then (ensureTrie s) (\<lambda>root.
     let localInRange = collectHashes root prefix depth;
         editsToSend = map (\<lambda>h. (h, [])) (filter (\<lambda>h. h \<notin> set hashes) localInRange)
     in Ok (Msg (EditBatch (schannel s) editsToSend)))"

fun receive :: "session \<Rightarrow> message \<Rightarrow> (session \<times> reply) result" where
  "receive s (ReconcileStart c fp n) = and_then (handleReconcileStart s fp n) (\<lambda>r. Ok (s, r))"
| "receive s (TrieQuery c p d fp n) = and_then (handleTrieQuery s p d fp n) (\<lambda>r. Ok (s, r))"
| "receive s (TrieResponse c p d fp m) = handleTrieResponse s p d m"
| "receive s (EditSet c p d hs) = and_then (handleEditSet s p d hs) (\<lambda>r. Ok (s, r))"
| "receive s (EditBatch c es) =
     (let s1 = s\<lparr>receivedEdits := receivedEdits s @ es\<rparr> in
      and_then (drainQueue s1) (\<lambda>(s2, nxt).
      if nxt \<noteq> Null then Ok (s2, nxt)
      else Ok (s2, if receivedEdits s2 \<noteq> [] then Edits (receivedEdits s2) else Null)))"
| "receive s (FullState c snapshot) = Ok (s, Edits [(snapshot, [])])"
| "receive s _ = Throw ''snapshot message routed to session''"

section \<open>A conversation\<close>

text \<open>
  One round of the responder \<open>b\<close> with the initiator \<open>a\<close>: the pending message of \<open>b\<close> is answered by \<open>a\<close>,
  whose state never changes, and the answer is received by \<open>b\<close>.  \<open>converse\<close> plays rounds until \<open>b\<close> is
  done, for at most as many rounds as its fuel.
\<close>

definition round :: "session \<Rightarrow> session \<Rightarrow> message \<Rightarrow> (session \<times> reply) result" where
  "round a b m = and_then (receive a m) (\<lambda>(a', r). case r of
      Msg m' \<Rightarrow> receive b m'
    | _ \<Rightarrow> Throw ''initiator has no answer'')"

fun converse :: "nat \<Rightarrow> session \<Rightarrow> session \<Rightarrow> message \<Rightarrow> (session \<times> reply) result" where
  "converse 0 a b m = Throw ''out of fuel''"
| "converse (Suc n) a b m =
     and_then (round a b m) (\<lambda>(b', r). case r of
        Msg m' \<Rightarrow> converse n a b' m'
      | _ \<Rightarrow> Ok (b', r))"

definition reconcile :: "nat \<Rightarrow> session \<Rightarrow> session \<Rightarrow> (session \<times> reply) result" where
  "reconcile fuel a b =
     and_then (receive b (initiate a)) (\<lambda>(b', r). case r of
        Msg m \<Rightarrow> converse fuel a b' m
      | _ \<Rightarrow> Ok (b', r))"

section \<open>Prefixes\<close>

lemma getBit_childPrefix:
  assumes "length p = 32" "d < 256" "i < 256"
  shows "getBit (childPrefix p d b) i = (if i = d then b else getBit p i)"
proof (cases "i div 8 = d div 8")
  case True
  have "7 - i mod 8 = 7 - d mod 8 \<longleftrightarrow> i = d"
  proof
    assume "7 - i mod 8 = 7 - d mod 8"
    moreover have "i mod 8 < 8" "d mod 8 < 8" by simp_all
    ultimately have "i mod 8 = d mod 8" by linarith
    with True show "i = d" by (metis div_mult_mod_eq)
  qed simp
  then show ?thesis using True assms
    by (auto simp: getBit_def byte_at_def childPrefix_def Let_def bit_set_bit_iff bit_unset_bit_iff)
next
  case False
  then show ?thesis using assms by (auto simp: getBit_def byte_at_def childPrefix_def Let_def)
qed

lemma length_childPrefix [simp]: "length (childPrefix p d b) = length p"
  by (simp add: childPrefix_def Let_def)

lemma agree_childPrefix:
  assumes "length p = 32" "d < 256"
  shows "agree (Suc d) h (childPrefix p d b) \<longleftrightarrow> agree d h p \<and> getBit h d = b"
  using assms by (auto simp: agree_def less_Suc_eq getBit_childPrefix)

section \<open>What the responder still has to learn\<close>

definition range_of :: "bytes set \<Rightarrow> bytes \<Rightarrow> nat \<Rightarrow> bytes set" where
  "range_of S p d = {h \<in> S. agree d h p}"

text \<open>
  Two sides with different hashes under a prefix do not agree on both the XOR and the number: the
  assumption on the hash function that the protocol rests on.
\<close>

definition no_collision :: "bytes set \<Rightarrow> bytes set \<Rightarrow> bool" where
  "no_collision S T \<longleftrightarrow> (\<forall>p d xs ys. set xs = range_of S p d \<and> set ys = range_of T p d \<and>
     distinct xs \<and> distinct ys \<and> length xs = length ys \<and> xor_all xs = xor_all ys \<longrightarrow> set xs = set ys)"

definition hashes_ok :: "session \<Rightarrow> bool" where
  "hashes_ok s \<longleftrightarrow> (\<forall>h \<in> set (localHashes s). length h = 32)"

definition missing :: "session \<Rightarrow> session \<Rightarrow> bytes set" where
  "missing a b = set (localHashes a) - set (localHashes b)"

definition missing_mset :: "session \<Rightarrow> session \<Rightarrow> (bytes \<times> nat) list \<Rightarrow> bytes multiset" where
  "missing_mset a b pend = (\<Sum>(p, d)\<leftarrow>pend. mset_set (range_of (missing a b) p d))"

definition work :: "(bytes \<times> nat) list \<Rightarrow> nat" where
  "work pend = (\<Sum>(p, d)\<leftarrow>pend. 2 ^ (18 - d) - 1)"

definition pend_ok :: "(bytes \<times> nat) list \<Rightarrow> bool" where
  "pend_ok pend \<longleftrightarrow> (\<forall>(p, d) \<in> set pend. length p = 32 \<and> d \<le> 16)"

text \<open>The account: what was received and what is pending make up what is missing, each hash once.\<close>

definition account :: "session \<Rightarrow> session \<Rightarrow> (bytes \<times> nat) list \<Rightarrow> bool" where
  "account a b pend \<longleftrightarrow> pend_ok pend \<and>
     mset (map fst (receivedEdits b)) + missing_mset a b pend = mset_set (missing a b)"

lemma range_of_root [simp]: "range_of S p 0 = S"
  by (simp add: range_of_def agree_def)

lemma finite_range [simp]: "finite (range_of (missing a b) p d)"
  by (simp add: range_of_def missing_def)

lemma range_of_children:
  assumes "length p = 32" "d < 256"
  shows "range_of S p d = range_of S (childPrefix p d False) (Suc d) \<union> range_of S (childPrefix p d True) (Suc d)"
    "range_of S (childPrefix p d False) (Suc d) \<inter> range_of S (childPrefix p d True) (Suc d) = {}"
  using agree_childPrefix [OF assms] by (auto simp: range_of_def)

lemma missing_children:
  assumes "length p = 32" "d < 256"
  shows "mset_set (range_of (missing a b) p d) =
    mset_set (range_of (missing a b) (childPrefix p d False) (Suc d)) +
    mset_set (range_of (missing a b) (childPrefix p d True) (Suc d))"
  using range_of_children [OF assms, of "missing a b"] by (simp add: mset_set_Union)

lemma missing_mset_simps [simp]:
  "missing_mset a b [] = {#}"
  "missing_mset a b ((p, d) # q) = mset_set (range_of (missing a b) p d) + missing_mset a b q"
  "missing_mset a b (q @ r) = missing_mset a b q + missing_mset a b r"
  by (simp_all add: missing_mset_def)

lemma work_simps [simp]:
  "work [] = 0" "work ((p, d) # q) = (2 ^ (18 - d) - 1) + work q" "work (q @ r) = work q + work r"
  by (simp_all add: work_def)

lemma pend_ok_simps [simp]:
  "pend_ok []" "pend_ok ((p, d) # q) \<longleftrightarrow> length p = 32 \<and> d \<le> 16 \<and> pend_ok q"
  "pend_ok (q @ r) \<longleftrightarrow> pend_ok q \<and> pend_ok r"
  by (auto simp: pend_ok_def)

lemma work_child:
  assumes "d < 16"
  shows "2 * (2 ^ (18 - Suc d) - 1) < (2 ^ (18 - d) - 1 :: nat)"
proof -
  have "18 - d = Suc (18 - Suc d)" using assms by simp
  then have "(2 ^ (18 - d) :: nat) = 2 * 2 ^ (18 - Suc d)" by simp
  moreover have "(1 :: nat) \<le> 2 ^ (18 - Suc d)" by simp
  ultimately show ?thesis by linarith
qed

lemma work_pos: "d \<le> 16 \<Longrightarrow> 3 \<le> (2 ^ (18 - d) - 1 :: nat)"
proof -
  assume "d \<le> 16"
  then have "(2 ^ 2 :: nat) \<le> 2 ^ (18 - d)" by (intro power_increasing) auto
  then show ?thesis by simp
qed

section \<open>One round\<close>

lemma ensureTrie_ok:
  assumes "hashes_ok s"
  shows "\<exists>t. ensureTrie s = Ok t \<and> trie_of (set (localHashes s)) t"
  using buildTrie_ok [of "localHashes s"] assms by (simp add: ensureTrie_def hashes_ok_def)

lemma query_for_ok:
  assumes "ensureTrie s = Ok t"
  shows "query_for s p d = Ok (TrieQuery (schannel s) p d (fst (queryPrefix t p d)) (snd (queryPrefix t p d)))"
  using assms by (simp add: query_for_def Let_def)

text \<open>A match means that the two ranges are the same, so that nothing is missing there.\<close>

lemma match_nothing_missing:
  assumes "trie_of (set (localHashes a)) ta" "trie_of (set (localHashes b)) tb"
    and "no_collision (set (localHashes a)) (set (localHashes b))"
    and "queryPrefix ta p d = queryPrefix tb p d"
  shows "range_of (missing a b) p d = {}"
proof -
  note qa = queries_ok [OF assms(1)] and qb = queries_ok [OF assms(2)]
  have "set (collectHashes ta p d) = set (collectHashes tb p d)"
    using assms(3,4) qa(2) qb(2) unfolding no_collision_def qa(3) qb(3)
    by (metis qa(1) qb(1) range_of_def prod.inject)
  then show ?thesis unfolding qa(1) qb(1) by (auto simp: range_of_def missing_def)
qed

lemma round_query:
  assumes "ensureTrie a = Ok ta" "ensureTrie b = Ok tb" "query_for b p d = Ok m"
  shows "round a b m = handleTrieResponse b p d (queryPrefix ta p d = queryPrefix tb p d)"
  using assms(1,3) query_for_ok [OF assms(2)]
  by (auto simp: round_def handleTrieQuery_def Let_def prod_eq_iff)

definition batch :: "trie \<Rightarrow> trie \<Rightarrow> bytes \<Rightarrow> nat \<Rightarrow> wire_edit list" where
  "batch ta tb p d = map (\<lambda>h. (h, [])) (filter (\<lambda>h. h \<notin> set (collectHashes tb p d)) (collectHashes ta p d))"

lemma round_set:
  assumes "ensureTrie a = Ok ta"
  shows "round a b (EditSet c p d (collectHashes tb p d)) = receive b (EditBatch (schannel a) (batch ta tb p d))"
  using assms by (simp add: round_def handleEditSet_def Let_def batch_def)

lemma batch_mset:
  assumes "trie_of (set (localHashes a)) ta" "trie_of (set (localHashes b)) tb"
  shows "mset (map fst (batch ta tb p d)) = mset_set (range_of (missing a b) p d)"
proof -
  note qa = queries_ok [OF assms(1)] and qb = queries_ok [OF assms(2)]
  let ?xs = "filter (\<lambda>h. h \<notin> set (collectHashes tb p d)) (collectHashes ta p d)"
  have "map fst (batch ta tb p d) = ?xs" by (simp add: batch_def comp_def)
  moreover have "set ?xs = range_of (missing a b) p d"
    unfolding set_filter qa(1) qb(1) by (auto simp: range_of_def missing_def)
  moreover have "distinct ?xs" using qa(2) by simp
  ultimately show ?thesis by (metis mset_set_set)
qed

text \<open>
  \<open>asks b m pend n\<close>: the pending message of the responder is about the head of \<open>pend\<close>, the rest of which is
  its queue, and \<open>n\<close> bounds the rounds to come.
\<close>

definition asks :: "session \<Rightarrow> message \<Rightarrow> (bytes \<times> nat) list \<Rightarrow> nat \<Rightarrow> bool" where
  "asks b m pend n \<longleftrightarrow> (\<exists>p d. pend = (p, d) # queryQueue b \<and>
     (query_for b p d = Ok m \<and> n = work pend \<or>
      (\<exists>tb. ensureTrie b = Ok tb \<and> m = EditSet (schannel b) p d (collectHashes tb p d) \<and> n = work (queryQueue b) + 1)))"

definition same_local :: "session \<Rightarrow> session \<Rightarrow> bool" where
  "same_local b b' \<longleftrightarrow> localHashes b' = localHashes b \<and> schannel b' = schannel b"

definition step_ok :: "session \<Rightarrow> session \<Rightarrow> nat \<Rightarrow> (session \<times> reply) result \<Rightarrow> bool" where
  "step_ok a b n res \<longleftrightarrow> (\<exists>b' r. res = Ok (b', r) \<and> same_local b b' \<and>
     ((\<exists>m pend k. r = Msg m \<and> account a b' pend \<and> asks b' m pend k \<and> k < n) \<or>
      account a b' [] \<and> (r = Null \<or> r = Edits (receivedEdits b'))))"

lemma same_local_facts:
  assumes "same_local b b'"
  shows "ensureTrie b' = ensureTrie b" "missing a b' = missing a b" "query_for b' p d = query_for b p d"
    "hashes_ok b' = hashes_ok b"
  using assms by (simp_all add: same_local_def ensureTrie_def missing_def query_for_def hashes_ok_def)

lemma account_pop:
  "account a b ((p, d) # q) \<Longrightarrow> range_of (missing a b) p d = {} \<Longrightarrow> account a b q"
  by (simp add: account_def)

lemma missing_mset_cong: "missing a b = missing a b' \<Longrightarrow> missing_mset a b q = missing_mset a b' q"
  by (simp add: missing_mset_def)

lemma drainQueue_ok:
  assumes "ensureTrie b = Ok tb" "account a b (queryQueue b)" "work (queryQueue b) < n"
  shows "step_ok a b n (drainQueue b)"
proof (cases "queryQueue b")
  case Nil
  then show ?thesis using assms by (simp add: step_ok_def drainQueue_def same_local_def)
next
  case (Cons pd rest)
  obtain p d where pd: "pd = (p, d)" by force
  let ?b = "b\<lparr>queryQueue := rest\<rparr>"
  obtain m where m: "query_for b p d = Ok m" using query_for_ok [OF assms(1)] by blast
  have s: "same_local b ?b" by (simp add: same_local_def)
  have "account a ?b (queryQueue b)"
    using assms(2) same_local_facts(2) [OF s, of a] missing_mset_cong [of a ?b b]
    by (simp add: account_def)
  moreover have "asks ?b m (queryQueue b) (work (queryQueue b))"
    using Cons pd m same_local_facts(3) [OF s] by (simp add: asks_def)
  ultimately show ?thesis using Cons pd m s assms(3) by (auto simp: step_ok_def drainQueue_def)
qed

lemma batch_ok:
  assumes "ensureTrie a = Ok ta" "ensureTrie b = Ok tb"
    and "trie_of (set (localHashes a)) ta" "trie_of (set (localHashes b)) tb"
    and "account a b ((p, d) # queryQueue b)" "work (queryQueue b) < n"
  shows "step_ok a b n (receive b (EditBatch c (batch ta tb p d)))"
proof -
  let ?b = "b\<lparr>receivedEdits := receivedEdits b @ batch ta tb p d\<rparr>"
  have s: "same_local b ?b" by (simp add: same_local_def)
  have "account a ?b (queryQueue ?b)"
    using assms(5) batch_mset [OF assms(3,4), of p d] same_local_facts(2) [OF s, of a] missing_mset_cong [of a ?b b]
    by (simp add: account_def ac_simps)
  then have "step_ok a ?b n (drainQueue ?b)"
    using assms(2,6) same_local_facts(1) [OF s] by (intro drainQueue_ok [of _ tb]) simp_all
  then obtain b' r where r: "drainQueue ?b = Ok (b', r)" "same_local ?b b'"
    "(\<exists>m pend k. r = Msg m \<and> account a b' pend \<and> asks b' m pend k \<and> k < n) \<or>
      account a b' [] \<and> (r = Null \<or> r = Edits (receivedEdits b'))"
    unfolding step_ok_def by blast
  have "same_local b b'" using r(2) by (simp add: same_local_def)
  then show ?thesis using r by (auto simp: step_ok_def Let_def)
qed

lemma round_ok:
  assumes "hashes_ok a" "hashes_ok b" "no_collision (set (localHashes a)) (set (localHashes b))"
    and "account a b pend" "asks b m pend n"
  shows "step_ok a b n (round a b m)"
proof -
  obtain ta where ta: "ensureTrie a = Ok ta" "trie_of (set (localHashes a)) ta"
    using ensureTrie_ok [OF assms(1)] by blast
  obtain tb where tb: "ensureTrie b = Ok tb" "trie_of (set (localHashes b)) tb"
    using ensureTrie_ok [OF assms(2)] by blast
  obtain p d where pend: "pend = (p, d) # queryQueue b" and
    ask: "query_for b p d = Ok m \<and> n = work pend \<or>
      m = EditSet (schannel b) p d (collectHashes tb p d) \<and> n = work (queryQueue b) + 1"
    using assms(5) tb(1) by (auto simp: asks_def)
  have pd: "length p = 32" "d \<le> 16" using assms(4) pend by (simp_all add: account_def)
  from ask show ?thesis
  proof (elim disjE conjE)
    assume q: "query_for b p d = Ok m" and n: "n = work pend"
    have lt: "work (queryQueue b) + 1 < n" using n pend work_pos [OF pd(2)] by simp
    show ?thesis
    proof (cases "queryPrefix ta p d = queryPrefix tb p d")
      case True
      then have "account a b (queryQueue b)"
        using assms(4) match_nothing_missing [OF ta(2) tb(2) assms(3)] pend by (auto intro: account_pop)
      then show ?thesis
        using True round_query [OF ta(1) tb(1) q] drainQueue_ok [OF tb(1), of a n] lt
        by (simp add: handleTrieResponse_def)
    next
      case mis: False
      show ?thesis
      proof (cases "d < MAX_DEPTH \<and> EDIT_SET_THRESHOLD < snd (queryPrefix tb p d)")
        case True
        then have d: "d < 16" by (simp add: MAX_DEPTH_def)
        let ?l = "childPrefix p d False" and ?r = "childPrefix p d True"
        let ?b = "b\<lparr>queryQueue := queryQueue b @ [(?r, Suc d)]\<rparr>"
        have s: "same_local b ?b" by (simp add: same_local_def)
        obtain m' where m': "query_for b ?l (Suc d) = Ok m'" using query_for_ok [OF tb(1)] by blast
        have "account a ?b ((?l, Suc d) # queryQueue ?b)"
          using assms(4) pend pd d missing_children [of p d a b] same_local_facts(2) [OF s, of a]
            missing_mset_cong [of a ?b b]
          by (simp add: account_def ac_simps)
        moreover have "asks ?b m' ((?l, Suc d) # queryQueue ?b) (work ((?l, Suc d) # queryQueue ?b))"
          using m' same_local_facts(3) [OF s] by (simp add: asks_def)
        moreover have "work ((?l, Suc d) # queryQueue ?b) < n"
        proof -
          have "work (queryQueue ?b) = work (queryQueue b) + (2 ^ (18 - Suc d) - 1)" by simp
          then show ?thesis using work_child [OF d] unfolding n pend work_simps by linarith
        qed
        ultimately have "step_ok a b n (Ok (?b, Msg m'))" using s unfolding step_ok_def by blast
        then show ?thesis using mis True round_query [OF ta(1) tb(1) q] tb(1) m'
          by (simp add: handleTrieResponse_def Let_def)
      next
        case False
        let ?m = "EditSet (schannel b) p d (collectHashes tb p d)"
        have "asks b ?m pend (work (queryQueue b) + 1)" using pend tb(1) by (auto simp: asks_def)
        then have "step_ok a b n (Ok (b, Msg ?m))"
          using assms(4) lt unfolding step_ok_def same_local_def by blast
        then show ?thesis using mis False round_query [OF ta(1) tb(1) q] tb(1)
          by (auto simp: handleTrieResponse_def Let_def)
      qed
    qed
  next
    assume m: "m = EditSet (schannel b) p d (collectHashes tb p d)" and n: "n = work (queryQueue b) + 1"
    show ?thesis
      unfolding m round_set [OF ta(1)]
      using assms(4) pend n by (intro batch_ok [OF ta(1) tb(1) ta(2) tb(2)]) simp_all
  qed
qed

lemma converse_ok:
  assumes "hashes_ok a" "hashes_ok b" "no_collision (set (localHashes a)) (set (localHashes b))"
    and "account a b pend" "asks b m pend n" "n < fuel"
  shows "\<exists>b' r. converse fuel a b m = Ok (b', r) \<and> same_local b b' \<and> account a b' [] \<and>
     (r = Null \<or> r = Edits (receivedEdits b'))"
  using assms(2-)
proof (induction fuel arbitrary: b m pend n)
  case (Suc fuel)
  from round_ok [OF assms(1) Suc.prems(1-4)] obtain b1 r where r: "round a b m = Ok (b1, r)" "same_local b b1"
    "(\<exists>m pend k. r = Msg m \<and> account a b1 pend \<and> asks b1 m pend k \<and> k < n) \<or>
      account a b1 [] \<and> (r = Null \<or> r = Edits (receivedEdits b1))"
    unfolding step_ok_def by blast
  have l: "localHashes b1 = localHashes b" using r(2) by (simp add: same_local_def)
  from r(3) show ?case
  proof (elim disjE exE conjE)
    fix m' pend' k assume m': "r = Msg m'" "account a b1 pend'" "asks b1 m' pend' k" "k < n"
    have "\<exists>b' r. converse fuel a b1 m' = Ok (b', r) \<and> same_local b1 b' \<and> account a b' [] \<and>
     (r = Null \<or> r = Edits (receivedEdits b'))"
      using m' Suc.prems same_local_facts(4) [OF r(2)] l by (intro Suc.IH [of b1 pend' m' k]) simp_all
    then show ?thesis using r(1,2) m'(1) by (auto simp: same_local_def)
  qed (use r in auto)
qed simp

section \<open>The whole conversation\<close>

lemma queryPrefix_root: "queryPrefix t p 0 = (fingerprint t, editCount t)"
  by (cases t) (simp_all add: queryPrefix_def)

lemma start_ok:
  assumes "ensureTrie b = Ok tb" "\<not> (fp = localFingerprint b \<and> n = length (localHashes b))"
    and "n \<noteq> 0 \<or> localSnapshot b = None"
  shows "\<exists>m. receive b (ReconcileStart c fp n) = Ok (b, Msg m) \<and> query_for b (replicate 32 0) 0 = Ok m"
  using assms by (auto simp: handleReconcileStart_def query_for_ok queryPrefix_root split: option.splits)

lemma xor_all_mset: "mset xs = mset ys \<Longrightarrow> xor_all xs = xor_all ys"
proof -
  assume m: "mset xs = mset ys"
  have c: "xor32 x \<circ> xor32 y = xor32 y \<circ> xor32 x" for x y
    by (simp add: fun_eq_iff flip: xor32_assoc) (simp add: xor32_commute [of x y])
  have "fold xor32 xs = fold xor32 ys" by (rule fold_multiset_equiv [OF _ m]) (rule c)
  then show ?thesis unfolding xor_all_def using c by (simp add: foldr_fold)
qed

lemma same_set_same_query:
  assumes "trie_of S t" "trie_of T u" "range_of S p d = range_of T p d"
  shows "queryPrefix t p d = queryPrefix u p d"
proof -
  note q = queries_ok [OF assms(1), of p d] and r = queries_ok [OF assms(2), of p d]
  have "mset (collectHashes t p d) = mset (collectHashes u p d)"
    using mset_set_set [OF q(2)] mset_set_set [OF r(2)] q(1) r(1) assms(3) by (simp add: range_of_def)
  from xor_all_mset [OF this] mset_eq_length [OF this] show ?thesis unfolding q(3) r(3) by simp
qed

lemma query_count:
  assumes "trie_of S t"
  shows "snd (queryPrefix t p d) = card (range_of S p d)"
  using queries_ok [OF assms, of p d] by (simp add: range_of_def flip: distinct_card)

lemma account_start:
  "receivedEdits b = [] \<Longrightarrow> queryQueue b = [] \<Longrightarrow> account a b ((replicate 32 0, 0) # queryQueue b)"
  by (simp add: account_def)

definition fresh :: "session \<Rightarrow> bool" where
  "fresh s \<longleftrightarrow> hashes_ok s \<and> queryQueue s = [] \<and> receivedEdits s = []"

section \<open>Properties\<close>

text \<open>
  C1: unless the two sides look in sync at once, or the initiator is empty and is sent a snapshot, the
  conversation of an initiator and a responder ends after at most \<^verbatim>\<open>2^18\<close> rounds without an error, and the
  responder has then received exactly the hashes that the initiator has and it lacks, each once.  Its last
  answer is either all it received, or nothing.
\<close>

theorem reconcile_complete:
  assumes "fresh a" "fresh b" "no_collision (set (localHashes a)) (set (localHashes b))"
    and "\<not> (localFingerprint a = localFingerprint b \<and> length (localHashes a) = length (localHashes b))"
    and "localHashes a \<noteq> [] \<or> localSnapshot b = None" "2 ^ 18 \<le> fuel"
  shows "\<exists>b' r. reconcile fuel a b = Ok (b', r) \<and>
    mset (map fst (receivedEdits b')) = mset_set (set (localHashes a) - set (localHashes b)) \<and>
    (r = Null \<or> r = Edits (receivedEdits b'))"
proof -
  obtain tb where tb: "ensureTrie b = Ok tb" using ensureTrie_ok [of b] assms(2) by (auto simp: fresh_def)
  obtain m where m: "receive b (initiate a) = Ok (b, Msg m)" "query_for b (replicate 32 0) 0 = Ok m"
    using start_ok [OF tb, of "localFingerprint a" "length (localHashes a)" "schannel a"] assms(4,5)
    by (auto simp: initiate_def simp del: receive.simps)
  let ?pend = "(replicate 32 0, 0) # queryQueue b"
  have "asks b m ?pend (work ?pend)" using m(2) by (simp add: asks_def)
  moreover have "work ?pend < fuel" using assms(2,6) by (simp add: fresh_def)
  moreover have "account a b ?pend" using assms(2) by (intro account_start) (simp_all add: fresh_def)
  ultimately obtain b' r where c: "converse fuel a b m = Ok (b', r)" "account a b' []" "same_local b b'"
    and r: "r = Null \<or> r = Edits (receivedEdits b')"
    using converse_ok [of a b ?pend m "work ?pend" fuel] assms(1-3) unfolding fresh_def by blast
  have "mset (map fst (receivedEdits b')) = mset_set (set (localHashes a) - set (localHashes b))"
    using c(2) same_local_facts(2) [OF c(3), of a] by (simp add: account_def missing_def)
  moreover have "reconcile fuel a b = Ok (b', r)" using m(1) c(1) by (simp add: reconcile_def)
  ultimately show ?thesis using r by blast
qed

theorem reconcile_complete_witness:
  "\<exists>b' r. reconcile (2 ^ 18) (createSession [byte_hash 1] (byte_hash 1) ''c'' None)
       (createSession [] zero32 ''c'' None) = Ok (b', r) \<and>
     mset (map fst (receivedEdits b')) = {#byte_hash 1#}"
proof -
  let ?a = "createSession [byte_hash 1] (byte_hash 1) ''c'' None"
  let ?b = "createSession [] zero32 ''c'' None"
  have "no_collision (set (localHashes ?a)) (set (localHashes ?b))"
    by (auto simp: no_collision_def createSession_def range_of_def)
  then show ?thesis using reconcile_complete [of ?a ?b "2 ^ 18"]
    by (simp add: createSession_def fresh_def hashes_ok_def byte_hash_def) blast
qed

text \<open>
  C25: the received edits are lost when the last subtree explored is in sync.  For any responder with more
  than ten hashes, all with their first bit set, and an initiator that has the same and at least one hash
  with its first bit clear, the conversation ends with the responder's answer \<^verbatim>\<open>null\<close> while its buffer holds
  what it lacked; only a list of edits is ever applied.
\<close>

theorem received_edits_dropped:
  assumes "fresh a" "fresh b" "10 < card (set (localHashes b))" "\<forall>h \<in> set (localHashes b). getBit h 0"
    and "set (localHashes a) = set (localHashes b) \<union> L" "L \<noteq> {}" "\<forall>h \<in> L. \<not> getBit h 0"
    and "length (localHashes a) \<noteq> length (localHashes b)" "4 \<le> fuel"
  shows "\<exists>b'. reconcile fuel a b = Ok (b', Null) \<and> mset (map fst (receivedEdits b')) = mset_set L"
proof -
  obtain ta where ta: "ensureTrie a = Ok ta" "trie_of (set (localHashes a)) ta"
    using ensureTrie_ok [of a] assms(1) by (auto simp: fresh_def)
  obtain tb where tb: "ensureTrie b = Ok tb" "trie_of (set (localHashes b)) tb"
    using ensureTrie_ok [of b] assms(2) by (auto simp: fresh_def)
  define z :: bytes where "z = replicate 32 0"
  define l r where "l = childPrefix z 0 False" and "r = childPrefix z 0 True"
  have ag: "agree (Suc 0) h l \<longleftrightarrow> \<not> getBit h 0" "agree (Suc 0) h r \<longleftrightarrow> getBit h 0" for h
    by (simp_all add: l_def r_def z_def agree_childPrefix) (simp_all add: agree_def)
  have finL: "finite L" using assms(5) by (metis List.finite_set finite_Un)
  have sets: "range_of (set (localHashes b)) l 1 = {}" "range_of (set (localHashes a)) l 1 = L"
    "range_of (set (localHashes a)) r 1 = range_of (set (localHashes b)) r 1"
    "missing a b = L"
    using assms(4,5,7) by (auto simp: range_of_def ag missing_def)
  note cnt = query_count [OF ta(2)] query_count [OF tb(2)]
  have root: "queryPrefix ta z 0 \<noteq> queryPrefix tb z 0"
  proof
    assume "queryPrefix ta z 0 = queryPrefix tb z 0"
    then have "card (set (localHashes a)) = card (set (localHashes b))" using cnt by (metis range_of_root)
    moreover have "card (set (localHashes a)) = card (set (localHashes b)) + card L"
      unfolding assms(5) using assms(4,7) finL by (intro card_Un_disjoint) auto
    ultimately show False using assms(6) finL by simp
  qed
  have left: "queryPrefix ta l 1 \<noteq> queryPrefix tb l 1" "snd (queryPrefix tb l 1) = 0"
    using cnt sets(1,2) assms(6) finL by (metis card_0_eq card.empty)+
  have right: "queryPrefix ta r 1 = queryPrefix tb r 1"
    using same_set_same_query [OF ta(2) tb(2)] sets(3) by blast
  have big: "10 < snd (queryPrefix tb z 0)" using cnt(2) assms(3) by simp
  let ?b1 = "b\<lparr>queryQueue := [(r, 1)]\<rparr>"
  let ?b2 = "b\<lparr>queryQueue := [], receivedEdits := batch ta tb l 1\<rparr>"
  obtain m1 m2 m3 where ms: "query_for b z 0 = Ok m1" "query_for b l 1 = Ok m2" "query_for b r 1 = Ok m3"
    using query_for_ok [OF tb(1)] by blast
  have qf: "query_for ?b1 = query_for b" "query_for ?b2 = query_for b" "ensureTrie ?b1 = ensureTrie b"
    "ensureTrie ?b2 = ensureTrie b"
    by (simp_all add: fun_eq_iff query_for_def ensureTrie_def)
  let ?m2' = "EditSet (schannel b) l 1 (collectHashes tb l 1)"
  have q0: "queryQueue b = []" "receivedEdits b = []" using assms(2) by (simp_all add: fresh_def)
  have "round a b m1 = Ok (?b1, Msg m2)"
    using round_query [OF ta(1) tb(1) ms(1)] root big tb(1) ms(2) q0
    by (simp add: handleTrieResponse_def Let_def MAX_DEPTH_def EDIT_SET_THRESHOLD_def l_def r_def)
  moreover have "round a ?b1 m2 = Ok (?b1, Msg ?m2')"
    using round_query [OF ta(1), of ?b1 tb l 1 m2] qf tb(1) ms(2) left
    by (simp add: handleTrieResponse_def EDIT_SET_THRESHOLD_def)
  moreover have "query_for (b\<lparr>queryQueue := [(r, 1)], receivedEdits := receivedEdits b @ x\<rparr>) r 1 = Ok m3" for x
    using ms(3) by (simp add: query_for_def ensureTrie_def)
  then have "round a ?b1 ?m2' = Ok (?b2, Msg m3)"
    using round_set [OF ta(1)] q0 by (simp add: drainQueue_def Let_def)
  moreover have "round a ?b2 m3 = Ok (?b2, Null)"
    using round_query [OF ta(1), of ?b2 tb r 1 m3] qf tb(1) ms(3) right
    by (simp add: handleTrieResponse_def drainQueue_def)
  moreover have "localHashes a \<noteq> []" using assms(5,6) by auto
  then have "receive b (initiate a) = Ok (b, Msg m1)"
    using start_ok [OF tb(1), of "localFingerprint a" "length (localHashes a)" "schannel a"] assms(3,5,8) ms(1)
    by (auto simp: initiate_def z_def simp del: receive.simps)
  moreover obtain k where "fuel = Suc (Suc (Suc (Suc k)))" 
    using assms(9) that [of "fuel - 4"] by simp
  ultimately have "reconcile fuel a b = Ok (?b2, Null)" by (simp add: reconcile_def)
  moreover have "mset (map fst (batch ta tb l 1)) = mset_set L"
    using batch_mset [OF ta(2) tb(2)] sets(2,4) assms(7) by (simp add: range_of_def ag Collect_conj_eq Int_absorb2 subset_eq)
  ultimately show ?thesis by auto
qed

theorem received_edits_dropped_witness:
  "let hs = map byte_hash [128, 129, 130, 131, 132, 133, 134, 135, 136, 137, 138];
       a = createSession (byte_hash 1 # hs) (xor_all (byte_hash 1 # hs)) ''c'' None;
       b = createSession hs (xor_all hs) ''c'' None
   in \<exists>b'. reconcile 4 a b = Ok (b', Null) \<and> mset (map fst (receivedEdits b')) = {#byte_hash 1#}"
proof -
  let ?hs = "map byte_hash [128, 129, 130, 131, 132, 133, 134, 135, 136, 137, 138]"
  let ?a = "createSession (byte_hash 1 # ?hs) (xor_all (byte_hash 1 # ?hs)) ''c'' None"
  let ?b = "createSession ?hs (xor_all ?hs) ''c'' None"
  have "fresh ?a" "fresh ?b" by (auto simp: fresh_def hashes_ok_def createSession_def byte_hash_def)
  moreover have "distinct ?hs" by (simp add: byte_hash_def)
  then have "card (set ?hs) = 11" by (simp only: distinct_card) simp
  moreover have "\<forall>h \<in> set ?hs. getBit h 0" "\<not> getBit (byte_hash 1) 0"
    by (simp_all add: byte_hash_def getBit_def byte_at_def)
  ultimately show ?thesis using received_edits_dropped [of ?a ?b "{byte_hash 1}" 4]
    by (simp add: createSession_def Let_def)
qed

end
