(* ===== verification/Blocks.thy ===== *)
theory Blocks
  imports Wire
begin

text \<open>
  Snapshot blocks (\<open>packages/blocks/src/index.ts\<close>) and the symmetric encryption of their parts
  (\<open>packages/crypto/src/index.ts\<close>).  AES-GCM, Ed25519 and DAG-CBOR are not part of the repository: the record
  \<open>crypto\<close> stands for them, and \<open>crypto_ok\<close> states what they document.  DAG-CBOR stores the entries of a map in
  an order of its own, which is \<open>canonical\<close>; the random nonces are arguments.
\<close>

section \<open>Encryption and signatures\<close>

record keyPair =
  kpPublic :: bytes
  kpPrivate :: bytes

record payload =
  subdocs :: "(string, bytes) omap"
  snPrev :: "cid option"
  snSeq :: int
  snTs :: int
  publicKey :: bytes
  publisher :: "bytes option"
  publisherSig :: "bytes option"

record snapshotNode = payload +
  snSignature :: bytes

record crypto =
  aes_encrypt :: "bytes \<Rightarrow> bytes \<Rightarrow> bytes \<Rightarrow> bytes"
  aes_decrypt :: "bytes \<Rightarrow> bytes \<Rightarrow> bytes \<Rightarrow> bytes result"
  ed_sign :: "bytes \<Rightarrow> bytes \<Rightarrow> bytes"
  ed_verify :: "bytes \<Rightarrow> bytes \<Rightarrow> bytes \<Rightarrow> bool result"
  ed_public :: "bytes \<Rightarrow> bytes"
  cbor_payload :: "payload \<Rightarrow> bytes"
  cbor_publisher :: "bytes \<times> int \<times> int \<Rightarrow> bytes"
  cbor_node :: "snapshotNode \<Rightarrow> bytes"
  cbor_decode :: "bytes \<Rightarrow> snapshotNode result"
  canonical :: "(string, bytes) omap \<Rightarrow> (string, bytes) omap"

definition crypto_ok :: "crypto \<Rightarrow> bool" where
  "crypto_ok C \<longleftrightarrow>
     (\<forall>k iv d. length iv = 12 \<longrightarrow> aes_decrypt C k iv (aes_encrypt C k iv d) = Ok d) \<and>
     (\<forall>seed d. ed_verify C (ed_sign C d seed) d (ed_public C seed) = Ok True) \<and>
     (\<forall>n. distinct (map fst (subdocs n)) \<longrightarrow>
        cbor_decode C (cbor_node C n) = Ok (n\<lparr>subdocs := canonical C (subdocs n)\<rparr>)) \<and>
     (\<forall>p. distinct (map fst (subdocs p)) \<longrightarrow>
        cbor_payload C (p\<lparr>subdocs := canonical C (subdocs p)\<rparr>) = cbor_payload C p) \<and>
     (\<forall>es. distinct (map fst es) \<longrightarrow> distinct (map fst (canonical C es)) \<and> set (canonical C es) = set es)"

definition encryptSubdoc :: "crypto \<Rightarrow> bytes \<Rightarrow> bytes \<Rightarrow> bytes \<Rightarrow> bytes" where
  "encryptSubdoc C readKey data nonce = nonce @ aes_encrypt C readKey nonce data"

definition decryptSubdoc :: "crypto \<Rightarrow> bytes \<Rightarrow> bytes \<Rightarrow> bytes result" where
  "decryptSubdoc C readKey encrypted =
     (case aes_decrypt C readKey (take 12 encrypted) (drop 12 encrypted) of
        Inr plain \<Rightarrow> Ok plain
      | Inl _ \<Rightarrow> Throw ''decryptSubdoc failed: wrong key or corrupted data'')"

definition ed25519KeyPairFromSeed :: "crypto \<Rightarrow> bytes \<Rightarrow> keyPair" where
  "ed25519KeyPairFromSeed C seed = \<lparr>kpPublic = ed_public C seed, kpPrivate = seed\<rparr>"

definition signBytes :: "crypto \<Rightarrow> keyPair \<Rightarrow> bytes \<Rightarrow> bytes" where
  "signBytes C kp data = ed_sign C data (kpPrivate kp)"

definition verifyBytes :: "crypto \<Rightarrow> bytes \<Rightarrow> bytes \<Rightarrow> bytes \<Rightarrow> bool" where
  "verifyBytes C pub sig data = (case ed_verify C sig data pub of Inr b \<Rightarrow> b | Inl _ \<Rightarrow> False)"

section \<open>Encoding and validating a snapshot\<close>

definition payload_of :: "snapshotNode \<Rightarrow> payload" where
  "payload_of n = \<lparr>subdocs = subdocs n, snPrev = snPrev n, snSeq = snSeq n, snTs = snTs n, publicKey = publicKey n,
     publisher = publisher n, publisherSig = publisherSig n\<rparr>"

definition node_of :: "payload \<Rightarrow> bytes \<Rightarrow> snapshotNode" where
  "node_of p sig = \<lparr>subdocs = subdocs p, snPrev = snPrev p, snSeq = snSeq p, snTs = snTs p, publicKey = publicKey p,
     publisher = publisher p, publisherSig = publisherSig p, snSignature = sig\<rparr>"

definition encodeSnapshot :: "crypto \<Rightarrow> (string, bytes) omap \<Rightarrow> bytes list \<Rightarrow> bytes \<Rightarrow> cid option \<Rightarrow> int \<Rightarrow> int \<Rightarrow>
    keyPair \<Rightarrow> keyPair option \<Rightarrow> bytes" where
  "encodeSnapshot C plain nonces readKey prev sq ts signingKey identityKey =
     (let p = \<lparr>subdocs = map (\<lambda>((ns, d), iv). (ns, encryptSubdoc C readKey d iv)) (zip plain nonces),
               snPrev = prev, snSeq = sq, snTs = ts, publicKey = kpPublic signingKey,
               publisher = None, publisherSig = None\<rparr>;
          p1 = (case identityKey of
                  None \<Rightarrow> p
                | Some ik \<Rightarrow> p\<lparr>publisher := Some (kpPublic ik),
                    publisherSig := Some (signBytes C ik (cbor_publisher C (kpPublic signingKey, sq, ts)))\<rparr>)
      in cbor_node C (node_of p1 (signBytes C signingKey (cbor_payload C p1))))"

definition decodeSnapshot :: "crypto \<Rightarrow> bytes \<Rightarrow> snapshotNode result" where
  "decodeSnapshot C = cbor_decode C"

fun decryptEntries :: "crypto \<Rightarrow> bytes \<Rightarrow> (string, bytes) omap \<Rightarrow> (string, bytes) omap result" where
  "decryptEntries C readKey [] = Ok []"
| "decryptEntries C readKey (e # es) =
     and_then (decryptSubdoc C readKey (snd e)) (\<lambda>d.
     and_then (decryptEntries C readKey es) (\<lambda>r. Ok ((fst e, d) # r)))"

definition decryptSnapshot :: "crypto \<Rightarrow> snapshotNode \<Rightarrow> bytes \<Rightarrow> (string, bytes) omap result" where
  "decryptSnapshot C node readKey = decryptEntries C readKey (subdocs node)"

text \<open>A publisher without its signature is rejected, one with it is covered by the signature of the document.\<close>

definition validateSnapshot :: "crypto \<Rightarrow> bytes \<Rightarrow> bool" where
  "validateSnapshot C block =
     (case decodeSnapshot C block of
        Inl _ \<Rightarrow> False
      | Inr node \<Rightarrow>
          if publisher node \<noteq> None \<and> publisherSig node = None then False
          else let p = (if publisher node \<noteq> None then payload_of node
                        else payload_of (node\<lparr>publisher := None, publisherSig := None\<rparr>))
            in if \<not> verifyBytes C (publicKey node) (snSignature node) (cbor_payload C p) then False
               else case (publisher node, publisherSig node) of
                 (Some pub, Some sig) \<Rightarrow>
                   verifyBytes C pub sig (cbor_publisher C (publicKey node, snSeq node, snTs node))
               | _ \<Rightarrow> True)"

section \<open>A snapshot decodes, validates and decrypts\<close>

lemma decryptEntries_mem:
  "(\<And>e. e \<in> set es \<Longrightarrow> decryptSubdoc C k (snd e) = Ok (g (fst e))) \<Longrightarrow> decryptEntries C k es = Ok (map (\<lambda>e. (fst e, g (fst e))) es)"
  by (induction es) auto

lemma subdoc_roundtrip:
  "crypto_ok C \<Longrightarrow> length iv = 12 \<Longrightarrow> decryptSubdoc C k (encryptSubdoc C k d iv) = Ok d"
  by (simp add: crypto_ok_def decryptSubdoc_def encryptSubdoc_def)

lemma crypto_payload:
  "crypto_ok C \<Longrightarrow> distinct (map fst (subdocs p)) \<Longrightarrow>
     cbor_payload C (p\<lparr>subdocs := canonical C (subdocs p)\<rparr>) = cbor_payload C p"
  by (simp add: crypto_ok_def)

lemma verify_sign:
  "crypto_ok C \<Longrightarrow> kp = ed25519KeyPairFromSeed C seed \<Longrightarrow> verifyBytes C (kpPublic kp) (signBytes C kp d) d"
  by (simp add: crypto_ok_def verifyBytes_def signBytes_def ed25519KeyPairFromSeed_def)

lemma zip_keys: "length xs = length ys \<Longrightarrow> map fst (map (\<lambda>((k, d), iv). (k, f d iv)) (zip xs ys)) = map fst xs"
  by (induction xs ys rule: list_induct2) auto

definition snapshot_entries :: "crypto \<Rightarrow> bytes \<Rightarrow> (string, bytes) omap \<Rightarrow> bytes list \<Rightarrow> (string, bytes) omap" where
  "snapshot_entries C k plain nonces = map (\<lambda>((ns, d), iv). (ns, encryptSubdoc C k d iv)) (zip plain nonces)"

lemma snapshot_entries_decrypt:
  assumes "crypto_ok C" "length nonces = length plain" "\<forall>iv \<in> set nonces. length iv = 12" "distinct (map fst plain)"
    and "e \<in> set (snapshot_entries C k plain nonces)"
  shows "decryptSubdoc C k (snd e) = Ok (the (map_of plain (fst e))) \<and> fst e \<in> fst ` set plain"
proof -
  obtain d iv where e: "e = (fst e, encryptSubdoc C k d iv)" "((fst e, d), iv) \<in> set (zip plain nonces)"
    using assms(5) by (auto simp: snapshot_entries_def)
  then have "(fst e, d) \<in> set plain" "length iv = 12"
    using assms(3) by (auto dest: set_zip_leftD set_zip_rightD)
  moreover have "decryptSubdoc C k (snd e) = Ok d"
    by (subst e(1)) (simp add: subdoc_roundtrip [OF assms(1)] \<open>length iv = 12\<close>)
  moreover have "map_of plain (fst e) = Some d" using assms(4) calculation(1) by simp
  ultimately show ?thesis by (metis fst_conv imageI option.sel)
qed

lemma map_of_const: "map_of (map (\<lambda>e. (fst e, g (fst e))) es) k = (if k \<in> fst ` set es then Some (g k) else None)"
  by (induction es) auto

lemma map_of_restrict:
  assumes "fst ` set es = dom m"
  shows "map_of (map (\<lambda>e. (fst e, the (m (fst e)))) es) = m"
proof
  fix k
  show "map_of (map (\<lambda>e. (fst e, the (m (fst e)))) es) k = m k"
    unfolding map_of_const [where g = "\<lambda>k. the (m k)"] assms by (cases "m k") auto
qed

lemma snapshot_encodes:
  assumes "crypto_ok C" "distinct (map fst plain)" "length nonces = length plain" "\<forall>iv \<in> set nonces. length iv = 12"
    and "kp = ed25519KeyPairFromSeed C seed" "ik = map_option (ed25519KeyPairFromSeed C) iseed"
    and "block = encodeSnapshot C plain nonces readKey prev sq ts kp ik"
  shows "validateSnapshot C block \<and>
    (\<exists>node. decodeSnapshot C block = Ok node \<and> snPrev node = prev \<and> snSeq node = sq \<and> snTs node = ts \<and>
       publicKey node = kpPublic kp \<and> publisher node = map_option kpPublic ik \<and>
       (\<exists>pl. decryptSnapshot C node readKey = Ok pl \<and> map_of pl = map_of plain))"
proof -
  let ?es = "snapshot_entries C readKey plain nonces"
  define p1 where "p1 = \<lparr>subdocs = ?es, snPrev = prev, snSeq = sq, snTs = ts, publicKey = kpPublic kp,
      publisher = map_option kpPublic ik,
      publisherSig = map_option (\<lambda>ik. signBytes C ik (cbor_publisher C (kpPublic kp, sq, ts))) ik\<rparr>"
  define node where "node = (node_of p1 (signBytes C kp (cbor_payload C p1)))\<lparr>subdocs := canonical C ?es\<rparr>"
  have block: "block = cbor_node C (node_of p1 (signBytes C kp (cbor_payload C p1)))"
    unfolding assms(7) encodeSnapshot_def Let_def p1_def snapshot_entries_def by (cases ik) simp_all
  have d: "distinct (map fst ?es)" using assms(2,3) by (simp only: snapshot_entries_def zip_keys)
  have dec: "decodeSnapshot C block = Ok node"
    using assms(1) d by (simp add: block decodeSnapshot_def crypto_ok_def node_def node_of_def p1_def)
  have can: "set (canonical C ?es) = set ?es" using assms(1) d by (simp add: crypto_ok_def)
  have pay: "payload_of node = p1\<lparr>subdocs := canonical C (subdocs p1)\<rparr>"
    by (simp add: payload_of_def node_def node_of_def p1_def)
  have cp: "cbor_payload C (payload_of node) = cbor_payload C p1"
    unfolding pay by (rule crypto_payload [OF assms(1)]) (simp add: p1_def d)
  have sig: "verifyBytes C (kpPublic kp) (signBytes C kp x) x" for x by (rule verify_sign [OF assms(1,5)])
  have isig: "verifyBytes C (kpPublic k) (signBytes C k x) x" if "ik = Some k" for k x
    using that assms(6) verify_sign [OF assms(1) refl] by auto
  have fields: "publicKey node = kpPublic kp" "snSignature node = signBytes C kp (cbor_payload C p1)"
      "publisher node = map_option kpPublic ik" "snSeq node = sq" "snTs node = ts" "snPrev node = prev"
      "publisherSig node = map_option (\<lambda>ik. signBytes C ik (cbor_publisher C (kpPublic kp, sq, ts))) ik"
      "subdocs node = canonical C ?es"
    by (simp_all add: node_def node_of_def p1_def)
  have none: "node\<lparr>publisher := None, publisherSig := None\<rparr> = node" if "ik = None"
    using that fields by (cases node) simp
  have val: "validateSnapshot C block"
  proof (cases ik)
    case None
    then show ?thesis
      by (simp add: validateSnapshot_def dec fields none [OF None] cp sig)
  next
    case (Some k)
    then show ?thesis
      by (simp add: validateSnapshot_def dec fields cp sig isig [OF Some])
  qed
  have "decryptEntries C readKey (canonical C ?es) = Ok (map (\<lambda>e. (fst e, the (map_of plain (fst e)))) (canonical C ?es))"
    by (rule decryptEntries_mem) (use snapshot_entries_decrypt [OF assms(1,3,4,2)] can in blast)
  moreover have "map fst ?es = map fst plain"
    using assms(3) by (simp only: snapshot_entries_def zip_keys)
  then have "fst ` set (canonical C ?es) = fst ` set plain"
    unfolding can by (simp only: set_map [symmetric])
  then have "map_of (map (\<lambda>e. (fst e, the (map_of plain (fst e)))) (canonical C ?es)) = map_of plain"
    by (intro map_of_restrict) (simp only: dom_map_of_conv_image_fst)
  ultimately have "\<exists>pl. decryptSnapshot C node readKey = Ok pl \<and> map_of pl = map_of plain"
    by (simp add: decryptSnapshot_def fields)
  then show ?thesis using val dec fields by blast
qed

text \<open>
  C21: A snapshot encoded with any key pair at all decodes to a node with the given predecessor, number, time and
  public key, passes validation, and decrypts with the read key to the plaintexts of the channels.  Validation
  ties the block to the key named in the block itself and to no key of the document.
\<close>

theorem snapshot_roundtrip:
  assumes "crypto_ok C" "distinct (map fst plain)" "length nonces = length plain" "\<forall>iv \<in> set nonces. length iv = 12"
    and "kp = ed25519KeyPairFromSeed C seed" "ik = map_option (ed25519KeyPairFromSeed C) iseed"
    and "block = encodeSnapshot C plain nonces readKey prev sq ts kp ik"
  shows "validateSnapshot C block \<and>
    (\<exists>node. decodeSnapshot C block = Ok node \<and> snPrev node = prev \<and> snSeq node = sq \<and> snTs node = ts \<and>
       publicKey node = kpPublic kp \<and> publisher node = map_option kpPublic ik \<and>
       (\<exists>pl. decryptSnapshot C node readKey = Ok pl \<and> map_of pl = map_of plain))"
  using assms by (rule snapshot_encodes)

text \<open>An instance of the cryptography: the identity as a cipher, and a byte format in the place of DAG-CBOR.\<close>

definition opt_write :: "('x \<Rightarrow> bytes) \<Rightarrow> 'x option \<Rightarrow> bytes" where
  "opt_write f x = (case x of None \<Rightarrow> [0] | Some y \<Rightarrow> 1 # f y)"

definition opt_read :: "'x reader \<Rightarrow> 'x option reader" where
  "opt_read r bs = (case bs of
      [] \<Rightarrow> Throw ''end''
    | b # rest \<Rightarrow> if b = 0 then Ok (None, rest) else and_then (r rest) (\<lambda>(x, rest'). Ok (Some x, rest')))"

definition text_write :: "string \<Rightarrow> bytes" where "text_write s = array_write (chars_write s)"

definition text_read :: "string reader" where
  "text_read b = and_then (array_read b) (\<lambda>(x, r). Ok (chars_read x, r))"

definition int_write :: "int \<Rightarrow> bytes" where "int_write x = (if x < 0 then 1 else 0) # unary_write (nat \<bar>x\<bar>)"

definition int_read :: "int reader" where
  "int_read b = (case b of [] \<Rightarrow> Throw ''end''
     | s # b' \<Rightarrow> and_then (unary_read b') (\<lambda>(n, r). Ok (if s = 1 then - int n else int n, r)))"

definition node_write :: "snapshotNode \<Rightarrow> bytes" where
  "node_write n = unary_write (length (subdocs n)) @
     encode_list (\<lambda>(k, d). text_write k @ array_write d) (subdocs n) @
     opt_write text_write (snPrev n) @ int_write (snSeq n) @ int_write (snTs n) @ array_write (publicKey n) @
     opt_write array_write (publisher n) @ opt_write array_write (publisherSig n) @ array_write (snSignature n)"

definition node_read :: "bytes \<Rightarrow> snapshotNode result" where
  "node_read b =
     and_then (unary_read b) (\<lambda>(n, b).
     and_then (read_n (read_pair text_read array_read) n b) (\<lambda>(es, b).
     and_then (opt_read text_read b) (\<lambda>(prev, b).
     and_then (int_read b) (\<lambda>(sq, b).
     and_then (int_read b) (\<lambda>(ts, b).
     and_then (array_read b) (\<lambda>(pk, b).
     and_then (opt_read array_read b) (\<lambda>(pub, b).
     and_then (opt_read array_read b) (\<lambda>(psig, b).
     and_then (array_read b) (\<lambda>(sig, b).
     Ok \<lparr>subdocs = es, snPrev = prev, snSeq = sq, snTs = ts, publicKey = pk, publisher = pub,
         publisherSig = psig, snSignature = sig\<rparr>)))))))))"

lemma node_codecs:
  "text_read (text_write s @ rest) = Ok (s, rest)"
  "int_read (int_write x @ rest) = Ok (x, rest)"
  "opt_read text_read (opt_write text_write p @ rest) = Ok (p, rest)"
  "opt_read array_read (opt_write array_write q @ rest) = Ok (q, rest)"
  "read_n (read_pair text_read array_read) (length es)
     (encode_list (\<lambda>(k, d). text_write k @ array_write d) es @ rest) = Ok (es, rest)"
proof -
  show t: "text_read (text_write s @ rest) = Ok (s, rest)" for s rest
    by (simp add: text_read_def text_write_def array_read_write chars_read_write)
  show "int_read (int_write x @ rest) = Ok (x, rest)"
    by (simp add: int_read_def int_write_def unary_read_write)
  show "opt_read text_read (opt_write text_write p @ rest) = Ok (p, rest)"
    "opt_read array_read (opt_write array_write q @ rest) = Ok (q, rest)"
    by (simp_all add: opt_read_def opt_write_def t array_read_write split: option.split)
  have "codec_for text_write text_read (\<lambda>_. True)" "codec_for array_write array_read (\<lambda>_. True)"
    by (simp_all add: codec_for_def t array_read_write)
  from read_n_list [OF codec_for_pair [OF this], of es rest]
  show "read_n (read_pair text_read array_read) (length es)
     (encode_list (\<lambda>(k, d). text_write k @ array_write d) es @ rest) = Ok (es, rest)" by auto
qed

lemma node_read_write: "node_read (node_write n) = Ok n"
proof -
  have "array_read (array_write b) = Ok (b, [])" for b using array_read_write [of b "[]"] by simp
  then show ?thesis by (simp add: node_read_def node_write_def node_codecs unary_read_write array_read_write)
qed

definition sample_crypto :: crypto where
  "sample_crypto = \<lparr>aes_encrypt = (\<lambda>k iv d. d), aes_decrypt = (\<lambda>k iv d. Ok d), ed_sign = (\<lambda>d seed. seed @ d),
     ed_verify = (\<lambda>sig d pub. Ok (sig = pub @ d)), ed_public = (\<lambda>seed. seed),
     cbor_payload = (\<lambda>p. node_write (node_of p [])), cbor_publisher = (\<lambda>(k, s, t). k @ int_write s @ int_write t),
     cbor_node = node_write, cbor_decode = node_read, canonical = (\<lambda>es. es)\<rparr>"

lemma sample_crypto_ok: "crypto_ok sample_crypto"
  by (simp add: crypto_ok_def sample_crypto_def node_read_write)

definition twelve :: bytes where "twelve = replicate 12 0"

theorem snapshot_roundtrip_witness:
  "validateSnapshot sample_crypto (encodeSnapshot sample_crypto [(''content'', [1, 2])] [twelve] [7] (Some ''p'') 5 99
     (ed25519KeyPairFromSeed sample_crypto [3]) (Some (ed25519KeyPairFromSeed sample_crypto [4])))"
  using snapshot_roundtrip [OF sample_crypto_ok, where plain = "[(''content'', [1, 2])]" and nonces = "[twelve]"
      and iseed = "Some [4]" and seed = "[3]", OF _ _ _ refl refl refl]
  by (simp add: twelve_def)

text \<open>What validation establishes, on any block whatever.\<close>

lemma validateSnapshot_iff:
  "validateSnapshot C block \<longleftrightarrow>
     (\<exists>n. decodeSnapshot C block = Ok n \<and> (publisher n \<noteq> None \<longrightarrow> publisherSig n \<noteq> None) \<and>
        verifyBytes C (publicKey n) (snSignature n)
          (cbor_payload C (if publisher n = None then (payload_of n)\<lparr>publisherSig := None\<rparr> else payload_of n)) \<and>
        (\<forall>pub sig. publisher n = Some pub \<and> publisherSig n = Some sig \<longrightarrow>
           verifyBytes C pub sig (cbor_publisher C (publicKey n, snSeq n, snTs n))))"
proof (cases "decodeSnapshot C block")
  case (Inr n)
  have "payload_of (n\<lparr>publisher := None, publisherSig := None\<rparr>) = (payload_of n)\<lparr>publisherSig := None\<rparr>"
    if "publisher n = None" using that by (simp add: payload_of_def)
  then show ?thesis using Inr by (auto simp: validateSnapshot_def Let_def split: option.split)
qed (simp add: validateSnapshot_def)

section \<open>Walking the chain\<close>

datatype walkError = ChainCycle cid | ChainDepthExceeded nat | WalkFailed string

definition DEFAULT_MAX_CHAIN_DEPTH :: nat where "DEFAULT_MAX_CHAIN_DEPTH = 1000"

text \<open>
  The generator as the list of the nodes it yields and the error it ends with, if any; \<open>get\<close> is the caller's
  block getter and may throw.  The depth bounds the loop.
\<close>

function walk_from :: "crypto \<Rightarrow> (cid \<Rightarrow> bytes result) \<Rightarrow> nat \<Rightarrow> cid list \<Rightarrow> nat \<Rightarrow> cid option \<Rightarrow>
    snapshotNode list \<times> walkError option" where
  "walk_from C get maxDepth visited depth current =
     (case current of
        None \<Rightarrow> ([], None)
      | Some c \<Rightarrow>
          if c \<in> set visited then ([], Some (ChainCycle c))
          else if maxDepth \<le> depth then ([], Some (ChainDepthExceeded maxDepth))
          else case and_then (get c) (decodeSnapshot C) of
            Inl e \<Rightarrow> ([], Some (WalkFailed e))
          | Inr node \<Rightarrow>
              (let (nodes, err) = walk_from C get maxDepth (c # visited) (Suc depth) (snPrev node)
               in (node # nodes, err)))"
  by pat_completeness auto
termination
  by (relation "measure (\<lambda>(_, _, maxDepth, _, depth, _). maxDepth - depth)") auto

declare walk_from.simps [simp del]

definition walkChain :: "crypto \<Rightarrow> (cid \<Rightarrow> bytes result) \<Rightarrow> nat \<Rightarrow> cid \<Rightarrow> snapshotNode list \<times> walkError option" where
  "walkChain C get maxDepth tipCid = walk_from C get maxDepth [] 0 (Some tipCid)"

text \<open>The chain the blocks describe: the nodes met from a start, and the identifier left over after them.\<close>

fun chain_path :: "crypto \<Rightarrow> (cid \<Rightarrow> bytes result) \<Rightarrow> cid option \<Rightarrow> cid list \<Rightarrow> snapshotNode list \<Rightarrow> cid option \<Rightarrow> bool" where
  "chain_path C get start [] [] rest \<longleftrightarrow> rest = start"
| "chain_path C get start (c # cs) (n # ns) rest \<longleftrightarrow>
     start = Some c \<and> and_then (get c) (decodeSnapshot C) = Ok n \<and> chain_path C get (snPrev n) cs ns rest"
| "chain_path C get start _ _ rest \<longleftrightarrow> False"

definition walk_end :: "crypto \<Rightarrow> (cid \<Rightarrow> bytes result) \<Rightarrow> nat \<Rightarrow> cid list \<Rightarrow> nat \<Rightarrow> cid option \<Rightarrow> walkError option \<Rightarrow> bool" where
  "walk_end C get maxDepth seen depth rest err \<longleftrightarrow>
     (case rest of
        None \<Rightarrow> err = None
      | Some c \<Rightarrow>
          if c \<in> set seen then err = Some (ChainCycle c)
          else if maxDepth \<le> depth then err = Some (ChainDepthExceeded maxDepth)
          else \<exists>e. and_then (get c) (decodeSnapshot C) = Throw e \<and> err = Some (WalkFailed e))"

lemma walk_from_spec:
  "walk_from C get m visited depth cur = (nodes, err) \<Longrightarrow> distinct visited \<Longrightarrow>
     \<exists>cs rest. chain_path C get cur cs nodes rest \<and> distinct (rev cs @ visited) \<and> (nodes = [] \<or> depth + length nodes \<le> m) \<and>
       walk_end C get m (rev cs @ visited) (depth + length nodes) rest err"
proof (induction C get m visited depth cur arbitrary: nodes err rule: walk_from.induct)
  case (1 C get m visited depth cur)
  note step = walk_from.simps [of C get m visited depth cur]
  show ?case
  proof (cases cur)
    case None
    then show ?thesis using "1.prems" step by (intro exI [of _ "[]"] exI [of _ None]) (simp add: walk_end_def)
  next
    case (Some c)
    show ?thesis
    proof (cases "c \<in> set visited \<or> m \<le> depth \<or> (\<exists>e. and_then (get c) (decodeSnapshot C) = Inl e)")
      case True
      then show ?thesis using "1.prems" step Some
        by (intro exI [of _ "[]"] exI [of _ "Some c"]) (auto simp: walk_end_def split: if_splits)
    next
      case False
      then obtain n where n: "and_then (get c) (decodeSnapshot C) = Ok n" by (cases "and_then (get c) (decodeSnapshot C)") auto
      obtain ns e where rec: "walk_from C get m (c # visited) (Suc depth) (snPrev n) = (ns, e)" by force
      have "\<exists>cs rest. chain_path C get (snPrev n) cs ns rest \<and> distinct (rev cs @ c # visited) \<and>
          (ns = [] \<or> Suc depth + length ns \<le> m) \<and> walk_end C get m (rev cs @ c # visited) (Suc depth + length ns) rest e"
        using "1.IH" [OF Some _ _ n rec] False "1.prems"(2) by auto
      then obtain cs rest where r: "chain_path C get (snPrev n) cs ns rest" "distinct (rev cs @ c # visited)"
          "ns = [] \<or> Suc depth + length ns \<le> m" "walk_end C get m (rev cs @ c # visited) (Suc depth + length ns) rest e"
        by blast
      have "nodes = n # ns" "err = e" using "1.prems"(1) step Some False n rec by auto
      then show ?thesis using r n Some False
        by (intro exI [of _ "c # cs"] exI [of _ rest]) auto
    qed
  qed
qed

text \<open>
  C22: Walking the chain ends on every block store, cyclic and endless ones included, after at most \<open>maxDepth\<close>
  blocks, all of different identifiers.  The nodes yielded are those along the predecessor links from the tip, and
  the outcome is exact: no error when the chain ended, a cycle when the next identifier was seen, the depth error
  when \<open>maxDepth\<close> nodes were not enough, the thrown error when the next block cannot be had or decoded.
\<close>

theorem walkChain_exact:
  assumes "walkChain C get maxDepth tipCid = (nodes, err)"
  shows "length nodes \<le> maxDepth \<and>
    (\<exists>cs rest. chain_path C get (Some tipCid) cs nodes rest \<and> distinct cs \<and>
       walk_end C get maxDepth (rev cs) (length nodes) rest err)"
  using walk_from_spec [of C get maxDepth "[]" 0 "Some tipCid" nodes err] assms
  by (auto simp: walkChain_def)

definition loop_block :: "cid \<Rightarrow> bytes result" where
  "loop_block c = (if c = ''a'' then Ok (node_write (node_of \<lparr>subdocs = [], snPrev = Some ''a'', snSeq = 1, snTs = 0,
      publicKey = [], publisher = None, publisherSig = None\<rparr> [])) else Throw ''missing'')"

theorem walkChain_exact_witness:
  "\<exists>nodes. walkChain sample_crypto loop_block 5 ''a'' = (nodes, Some (ChainCycle ''a'')) \<and> length nodes = 1 \<and>
     length nodes \<le> 5"
proof -
  have "\<exists>nodes. walkChain sample_crypto loop_block 5 ''a'' = (nodes, Some (ChainCycle ''a'')) \<and> length nodes = 1"
    by (simp add: walkChain_def walk_from.simps loop_block_def decodeSnapshot_def sample_crypto_def node_read_write
        node_of_def)
  then show ?thesis using walkChain_exact by blast
qed

section \<open>Coalescing fetches\<close>

text \<open>The pending set keeps its insertion order.\<close>

record coalescer =
  coPending :: "cid list"
  inflight :: "cid list"
  resolved :: "(cid, bytes) omap"
  failed :: "cid list"

definition createFetchCoalescerState :: coalescer where
  "createFetchCoalescerState = \<lparr>coPending = [], inflight = [], resolved = [], failed = []\<rparr>"

definition COALESCER_CONCURRENCY :: nat where "COALESCER_CONCURRENCY = 3"

definition coalescerNext :: "coalescer \<Rightarrow> coalescer \<times> cid list" where
  "coalescerNext s =
     (let toFetch = take COALESCER_CONCURRENCY
            (filter (\<lambda>c. c \<notin> set (inflight s) \<and> map_of (resolved s) c = None \<and> c \<notin> set (failed s)) (coPending s))
      in (s\<lparr>coPending := filter (\<lambda>c. c \<notin> set toFetch) (coPending s),
            inflight := inflight s @ filter (\<lambda>c. c \<notin> set (inflight s)) toFetch\<rparr>, toFetch))"

definition coalescerResolve :: "coalescer \<Rightarrow> cid \<Rightarrow> bytes \<Rightarrow> coalescer" where
  "coalescerResolve s c b = s\<lparr>inflight := removeAll c (inflight s), resolved := AList.update c b (resolved s)\<rparr>"

definition coalescerFail :: "coalescer \<Rightarrow> cid \<Rightarrow> coalescer" where
  "coalescerFail s c = s\<lparr>inflight := removeAll c (inflight s), failed := List.insert c (failed s)\<rparr>"

lemma coalescer_once:
  "coalescerNext s = (s', cs) \<Longrightarrow> length cs \<le> 3 \<and>
     (\<forall>c \<in> set cs. c \<in> set (coPending s) \<and> c \<notin> set (inflight s) \<and> c \<notin> set (failed s) \<and> map_of (resolved s) c = None) \<and>
     set (inflight s') = set (inflight s) \<union> set cs"
  by (auto simp: coalescerNext_def Let_def COALESCER_CONCURRENCY_def dest: in_set_takeD)

end
