(* ===== verification/Coordinator.thy ===== *)
theory Coordinator
  imports Session Channel Blocks
begin

text \<open>
  Reconciling the channels of two peers: signed edit envelopes (\<open>packages/core/src/epoch/sign-edit.ts\<close>), the hashes
  of a channel (\<open>packages/sync/src/reconciliation/edit-resolver.ts\<close>), the coordinator of two sessions
  (\<open>coordinator.ts\<close>) and the sender and applier it is wired to (\<open>packages/core/src/reconciliation-wiring.ts\<close>).  What
  the code starts and does not await is a job of the peer, which a later step finishes.  Keys that are hex strings of
  bytes are the bytes.
\<close>

section \<open>Envelopes\<close>

definition ENVELOPE_VERSION :: "8 word" where "ENVELOPE_VERSION = 1"
definition HEADER_SIZE :: nat where "HEADER_SIZE = 97"

definition signEdit :: "crypto \<Rightarrow> bytes \<Rightarrow> keyPair \<Rightarrow> bytes" where
  "signEdit C pl kp = ENVELOPE_VERSION # kpPublic kp @ signBytes C kp pl @ pl"

definition verifyEdit :: "crypto \<Rightarrow> bytes \<Rightarrow> bytes set option \<Rightarrow> (bytes \<times> bytes) option" where
  "verifyEdit C envelope trustedKeys =
     (if length envelope < HEADER_SIZE then None
      else if hd envelope \<noteq> ENVELOPE_VERSION then None
      else let pubkey = take 32 (drop 1 envelope); sig = take 64 (drop 33 envelope); pl = drop HEADER_SIZE envelope in
        if (case trustedKeys of Some ks \<Rightarrow> pubkey \<notin> ks | None \<Rightarrow> False) then None
        else if \<not> verifyBytes C pubkey sig pl then None
        else Some (pl, pubkey))"

section \<open>The hashes of a channel\<close>

definition allEdits :: "'w channel \<Rightarrow> edit list result" where
  "allEdits ch = and_then (toArray (tree ch)) (concat_res (\<lambda>x. and_then (unleaf x) (\<lambda>ep. Ok (edits ep))))"

definition collectEditHashes :: "(bytes \<Rightarrow> bytes) \<Rightarrow> edit list \<Rightarrow> bytes list" where
  "collectEditHashes sha es = map (\<lambda>e. sha (payload e)) es"

definition buildEditIndex :: "(bytes \<Rightarrow> bytes) \<Rightarrow> edit list \<Rightarrow> bytes \<Rightarrow> edit option" where
  "buildEditIndex sha es = foldl (\<lambda>index e. index(sha (payload e) \<mapsto> e)) (\<lambda>_. None) es"

definition channelFingerprint :: "(bytes \<Rightarrow> bytes) \<Rightarrow> edit list \<Rightarrow> bytes" where
  "channelFingerprint sha es = foldl (\<lambda>fp e. xor32 fp (sha (payload e))) zero32 es"

section \<open>The coordinator\<close>

text \<open>What a peer is given: the hash, its identity and the keys it trusts, if any; and the time.\<close>

record penv =
  sha :: "bytes \<Rightarrow> bytes"
  pcrypto :: crypto
  identity :: "keyPair option"
  trustedKeys :: "bytes set option"
  now :: int

datatype job = CheckSig bytes | CheckEnvelope edit

record 'w peer =
  chan :: "'w channel"
  channelName :: string
  snapshot :: "bytes option"
  outSession :: "session option"
  inSession :: "session option"
  inDone :: bool
  snapshotApplied :: bool
  jobs :: "job list"

definition createCoordinator :: "'w channel \<Rightarrow> string \<Rightarrow> bytes option \<Rightarrow> 'w peer" where
  "createCoordinator ch n snap = \<lparr>chan = ch, channelName = n, snapshot = snap, outSession = None, inSession = None,
     inDone = False, snapshotApplied = False, jobs = []\<rparr>"

definition newSession :: "penv \<Rightarrow> 'w peer \<Rightarrow> session result" where
  "newSession E p = and_then (allEdits (chan p)) (\<lambda>es.
     Ok (createSession (collectEditHashes (sha E) es) (channelFingerprint (sha E) es) (channelName p) (snapshot p)))"

definition coordinator_start :: "penv \<Rightarrow> 'w peer \<Rightarrow> ('w peer \<times> message list) result" where
  "coordinator_start E p = and_then (newSession E p) (\<lambda>s. Ok (p\<lparr>outSession := Some s\<rparr>, [initiate s]))"

text \<open>The sender signs what it can sign.\<close>

fun wired_send :: "penv \<Rightarrow> message \<Rightarrow> message" where
  "wired_send E (EditBatch c es) = (case identity E of
      Some kp \<Rightarrow> EditBatch c (map (\<lambda>(pl, _). (pl, signEdit (pcrypto E) pl kp)) es)
    | None \<Rightarrow> EditBatch c es)"
| "wired_send E m = m"

definition resolve :: "(bytes \<Rightarrow> edit option) \<Rightarrow> wire_edit \<Rightarrow> wire_edit" where
  "resolve index e = (case index (fst e) of Some real \<Rightarrow> (payload real, signature real) | None \<Rightarrow> e)"

definition resolveAndSend :: "penv \<Rightarrow> 'w peer \<Rightarrow> string \<Rightarrow> wire_edit list \<Rightarrow> message result" where
  "resolveAndSend E p c es = and_then (allEdits (chan p)) (\<lambda>mine.
     Ok (wired_send E (EditBatch c (map (resolve (buildEditIndex (sha E) mine)) es))))"

definition append_edit :: "'w peer \<Rightarrow> edit \<Rightarrow> 'w peer result" where
  "append_edit p e = and_then (appendEdit (chan p) e) (\<lambda>(ch, _). Ok (p\<lparr>chan := ch\<rparr>))"

text \<open>The applier: an envelope is verified first, any other signature passes.\<close>

definition apply_edit :: "'w peer \<Rightarrow> edit \<Rightarrow> 'w peer result" where
  "apply_edit p e =
     (if HEADER_SIZE \<le> length (signature e) \<and> hd (signature e) = ENVELOPE_VERSION
      then Ok (p\<lparr>jobs := jobs p @ [CheckEnvelope e]\<rparr>)
      else append_edit p e)"

definition sync_edit :: "penv \<Rightarrow> 'w peer \<Rightarrow> bytes \<Rightarrow> bytes \<Rightarrow> edit" where
  "sync_edit E p pl sig =
     \<lparr>payload = pl, timestamp = now E, author = [], channel = channelName p, origin = Sync, signature = sig\<rparr>"

definition apply_one :: "penv \<Rightarrow> (bytes \<Rightarrow> edit option) \<Rightarrow> 'w peer \<Rightarrow> wire_edit \<Rightarrow> 'w peer result" where
  "apply_one E index p e = (case e of (pl, sig) \<Rightarrow>
     if sig = [] then
       and_then (appendSnapshot (chan p) pl (now E)) (\<lambda>(ch, _). Ok (p\<lparr>chan := ch, snapshotApplied := True\<rparr>))
     else if index (sha E pl) \<noteq> None then Ok p
     else if trustedKeys E \<noteq> None then Ok (p\<lparr>jobs := jobs p @ [CheckSig sig]\<rparr>)
     else apply_edit p (sync_edit E p pl sig))"

definition verifyAndApply :: "penv \<Rightarrow> 'w peer \<Rightarrow> wire_edit list \<Rightarrow> 'w peer result" where
  "verifyAndApply E p es =
     (if snapshotApplied p then Ok p
      else and_then (allEdits (chan p)) (\<lambda>mine. foldl_res (apply_one E (buildEditIndex (sha E) mine)) p es))"

definition processResult :: "penv \<Rightarrow> 'w peer \<Rightarrow> reply \<Rightarrow> bool \<Rightarrow> ('w peer \<times> message list) result" where
  "processResult E p r incoming = (case r of
      Null \<Rightarrow> Ok (if incoming then p\<lparr>inDone := True\<rparr> else p, [])
    | Edits es \<Rightarrow> and_then (verifyAndApply E p es) (\<lambda>p1. Ok (if incoming then p1\<lparr>inDone := True\<rparr> else p1, []))
    | Msg (EditBatch c es) \<Rightarrow> and_then (resolveAndSend E p c es) (\<lambda>m. Ok (p, [m]))
    | Msg m \<Rightarrow> Ok (p, [wired_send E m]))"

definition handleOutgoing :: "penv \<Rightarrow> 'w peer \<Rightarrow> message \<Rightarrow> ('w peer \<times> message list) result" where
  "handleOutgoing E p m = (case outSession p of
      None \<Rightarrow> Ok (p, [])
    | Some s \<Rightarrow> and_then (receive s m) (\<lambda>(s1, r). processResult E (p\<lparr>outSession := Some s1\<rparr>) r False))"

fun isStart :: "message \<Rightarrow> bool" where
  "isStart (ReconcileStart _ _ _) = True"
| "isStart _ = False"

definition handleIncoming :: "penv \<Rightarrow> 'w peer \<Rightarrow> message \<Rightarrow> ('w peer \<times> message list) result" where
  "handleIncoming E p m =
     and_then (if isStart m \<and> inSession p = None
               then and_then (newSession E p) (\<lambda>s. Ok (p\<lparr>inSession := Some s\<rparr>)) else Ok p) (\<lambda>p1.
     case inSession p1 of
       None \<Rightarrow> Ok (p1, [])
     | Some s \<Rightarrow> and_then (receive s m) (\<lambda>(s1, r). processResult E (p1\<lparr>inSession := Some s1\<rparr>) r True))"

fun coordinator_receive :: "penv \<Rightarrow> 'w peer \<Rightarrow> message \<Rightarrow> ('w peer \<times> message list) result" where
  "coordinator_receive E p (TrieQuery c pf d fp n) = handleOutgoing E p (TrieQuery c pf d fp n)"
| "coordinator_receive E p (EditSet c pf d hs) = handleOutgoing E p (EditSet c pf d hs)"
| "coordinator_receive E p (SnapshotCatalog es t) = Ok (p, [])"
| "coordinator_receive E p (SnapshotRequest cs) = Ok (p, [])"
| "coordinator_receive E p (SnapshotBlock c d off tot lst) = Ok (p, [])"
| "coordinator_receive E p m = handleIncoming E p m"

text \<open>What follows an awaited verification.  An applied edit is an envelope again, and verified again.\<close>

definition finish_job :: "penv \<Rightarrow> 'w peer \<Rightarrow> job \<Rightarrow> 'w peer result" where
  "finish_job E p j = (case j of
      CheckSig sig \<Rightarrow> (case verifyEdit (pcrypto E) sig (trustedKeys E) of
          None \<Rightarrow> Ok p | Some (pl, _) \<Rightarrow> apply_edit p (sync_edit E p pl sig))
    | CheckEnvelope e \<Rightarrow> (case verifyEdit (pcrypto E) (signature e) (trustedKeys E) of
          None \<Rightarrow> Ok p | Some _ \<Rightarrow> append_edit p (e\<lparr>origin := Sync\<rparr>)))"

text \<open>The verifications finish, the first one started first; \<open>settle\<close> waits for all.\<close>

fun settle :: "nat \<Rightarrow> penv \<Rightarrow> 'w peer \<Rightarrow> 'w peer result" where
  "settle 0 E p = Throw ''out of fuel''"
| "settle (Suc n) E p = (case jobs p of
      [] \<Rightarrow> Ok p
    | j # js \<Rightarrow> and_then (finish_job E (p\<lparr>jobs := js\<rparr>) j) (settle n E))"

section \<open>Envelopes come back\<close>

definition key_lengths :: "crypto \<Rightarrow> bool" where
  "key_lengths C \<longleftrightarrow> (\<forall>seed. length (ed_public C seed) = 32) \<and> (\<forall>d seed. length (ed_sign C d seed) = 64)"

lemma verify_sign_edit:
  assumes "crypto_ok C" "key_lengths C" "kp = ed25519KeyPairFromSeed C seed"
    "\<forall>ks. trusted = Some ks \<longrightarrow> kpPublic kp \<in> ks"
  shows "verifyEdit C (signEdit C pl kp) trusted = Some (pl, kpPublic kp)"
proof -
  let ?s = "signBytes C kp pl"
  have len: "length (kpPublic kp) = 32" "length ?s = 64"
    using assms(2,3) by (simp_all add: key_lengths_def ed25519KeyPairFromSeed_def signBytes_def)
  have "take 32 (drop 1 (signEdit C pl kp)) = kpPublic kp" "take 64 (drop 33 (signEdit C pl kp)) = ?s"
    "drop HEADER_SIZE (signEdit C pl kp) = pl" "\<not> length (signEdit C pl kp) < HEADER_SIZE"
    using len by (simp_all add: signEdit_def HEADER_SIZE_def)
  moreover have "verifyBytes C (kpPublic kp) ?s pl"
    using assms(1,3) by (simp add: crypto_ok_def verifyBytes_def signBytes_def ed25519KeyPairFromSeed_def)
  ultimately show ?thesis using assms(4)
    by (auto simp: verifyEdit_def Let_def signEdit_def [of C pl kp] split: option.split)
qed

lemma envelope_shape:
  assumes "key_lengths C" "kp = ed25519KeyPairFromSeed C seed"
  shows "HEADER_SIZE \<le> length (signEdit C pl kp)" "hd (signEdit C pl kp) = ENVELOPE_VERSION" "signEdit C pl kp \<noteq> []"
  using assms by (simp_all add: signEdit_def key_lengths_def HEADER_SIZE_def ed25519KeyPairFromSeed_def signBytes_def)

section \<open>Channels and their edits\<close>

definition abs_edits :: "achannel \<Rightarrow> edit list" where
  "abs_edits a = concat (map edits (fst a)) @ snd a"

lemma allEdits_sim: "chan_sim n ch a \<Longrightarrow> allEdits ch = Ok (abs_edits a)"
proof -
  assume "chan_sim n ch a"
  then have "toArray (tree ch) = Ok (map Leaf (aepochs a))" by (simp add: chan_sim_def hist_toArray)
  moreover have "concat_res (\<lambda>x. and_then (unleaf x) (\<lambda>ep. Ok (edits ep))) (map Leaf es :: (summary, epoch) elem list) =
      Ok (concat (map edits es))" for es by (induction es) simp_all
  moreover have "concat (map edits (aepochs a)) = abs_edits a"
    by (cases a) (simp add: abs_edits_def aepochs_def Epoch_create_def)
  ultimately show ?thesis by (simp only: allEdits_def and_then_simps)
qed

lemma append_edit_sim:
  assumes "chan_sim n (chan p) (cs, tip)"
  shows "\<exists>ch. append_edit p e = Ok (p\<lparr>chan := ch\<rparr>) \<and> chan_sim n ch (cs, tip @ [e])"
  using appendEdit_sim [OF assms, of e] by (auto simp: append_edit_def)

section \<open>A conversation of coordinators\<close>

text \<open>
  The messages of one direction of reconciliation, in which \<open>B\<close> asks and \<open>A\<close> answers, until \<open>B\<close> asks no more.
\<close>

fun pump :: "nat \<Rightarrow> penv \<Rightarrow> penv \<Rightarrow> 'a peer \<Rightarrow> 'b peer \<Rightarrow> message \<Rightarrow> ('a peer \<times> 'b peer) result" where
  "pump 0 EA EB A B m = Throw ''out of fuel''"
| "pump (Suc n) EA EB A B m =
     and_then (coordinator_receive EA A m) (\<lambda>(A1, answer). case answer of
       [] \<Rightarrow> Ok (A1, B)
     | m1 # _ \<Rightarrow> and_then (coordinator_receive EB B m1) (\<lambda>(B1, question). case question of
         [] \<Rightarrow> Ok (A1, B1)
       | m2 # _ \<Rightarrow> pump n EA EB A1 B1 m2))"

definition sync :: "nat \<Rightarrow> penv \<Rightarrow> penv \<Rightarrow> 'a peer \<Rightarrow> 'b peer \<Rightarrow> ('a peer \<times> 'b peer) result" where
  "sync fuel EA EB A B =
     and_then (coordinator_start EA A) (\<lambda>(A1, start).
     and_then (coordinator_receive EB B (hd start)) (\<lambda>(B1, question). case question of
       [] \<Rightarrow> Ok (A1, B1)
     | m # _ \<Rightarrow> pump fuel EA EB A1 B1 m))"

text \<open>A hash of a batch stands for the edit the answering side has for it.\<close>

definition lift :: "(wire_edit \<Rightarrow> wire_edit) \<Rightarrow> session \<Rightarrow> session" where
  "lift g s = s\<lparr>receivedEdits := map g (receivedEdits s)\<rparr>"

fun lift_msg :: "(wire_edit \<Rightarrow> wire_edit) \<Rightarrow> message \<Rightarrow> message" where
  "lift_msg g (EditBatch c es) = EditBatch c (map g es)"
| "lift_msg g m = m"

fun lift_reply :: "(wire_edit \<Rightarrow> wire_edit) \<Rightarrow> reply \<Rightarrow> reply" where
  "lift_reply g (Edits es) = Edits (map g es)"
| "lift_reply g r = r"

fun asking :: "message \<Rightarrow> bool" where
  "asking (TrieQuery _ _ _ _ _) = True"
| "asking (EditSet _ _ _ _) = True"
| "asking _ = False"

fun answering :: "message \<Rightarrow> bool" where
  "answering (ReconcileStart _ _ _) = True"
| "answering (TrieResponse _ _ _ _ _) = True"
| "answering (EditBatch _ _) = True"
| "answering _ = False"

lemma ensureTrie_lift [simp]: "ensureTrie (lift g s) = ensureTrie s" "queryQueue (lift g s) = queryQueue s"
    "schannel (lift g s) = schannel s" "query_for (lift g s) = query_for s"
  by (simp_all add: lift_def ensureTrie_def query_for_def fun_eq_iff)

lemma drainQueue_lift: "drainQueue s = Ok (s', r) \<Longrightarrow> drainQueue (lift g s) = Ok (lift g s', lift_reply g r)"
  by (auto simp: drainQueue_def lift_def and_then_Ok_iff query_for_def ensureTrie_def split: list.splits prod.splits)

lemma receive_lift:
  assumes "receive s m = Ok (s', r)" "answering m"
  shows "receive (lift g s) (lift_msg g m) = Ok (lift g s', lift_reply g r)"
proof (cases m)
  case (TrieResponse c p d fp mt)
  show ?thesis
  proof (cases mt)
    case True
    then show ?thesis using assms(1) drainQueue_lift by (simp add: TrieResponse handleTrieResponse_def)
  next
    case False
    obtain root where root: "ensureTrie s = Ok root"
      using assms(1) False by (auto simp: TrieResponse handleTrieResponse_def and_then_Ok_iff)
    have q: "lift g (s\<lparr>queryQueue := q\<rparr>) = (lift g s)\<lparr>queryQueue := q\<rparr>" for q by (simp add: lift_def)
    show ?thesis
    proof (cases "d < MAX_DEPTH \<and> EDIT_SET_THRESHOLD < snd (queryPrefix root p d)")
      case True
      then show ?thesis using assms(1) False root
        by (auto simp: TrieResponse handleTrieResponse_def and_then_Ok_iff Let_def q)
    next
      case big: False
      then show ?thesis using assms(1) False root
        by (auto simp: TrieResponse handleTrieResponse_def Let_def)
    qed
  qed
next
  case (EditBatch c es)
  let ?s = "s\<lparr>receivedEdits := receivedEdits s @ es\<rparr>"
  obtain s2 nxt where d: "drainQueue ?s = Ok (s2, nxt)" using assms(1) by (auto simp: EditBatch and_then_Ok_iff Let_def)
  have "drainQueue (lift g ?s) = Ok (lift g s2, lift_reply g nxt)" by (rule drainQueue_lift [OF d])
  moreover have "lift g ?s = (lift g s)\<lparr>receivedEdits := receivedEdits (lift g s) @ map g es\<rparr>" by (simp add: lift_def)
  moreover have "lift_reply g nxt = Null \<longleftrightarrow> nxt = Null" by (cases nxt) simp_all
  ultimately show ?thesis using assms(1) d by (auto simp: EditBatch Let_def split: if_splits) (simp_all add: lift_def)
qed (use assms in \<open>auto simp: and_then_Ok_iff handleReconcileStart_def lift_def ensureTrie_def split: if_splits option.splits\<close>)

lemma receive_questions: "receive s m = Ok (s', Msg m') \<Longrightarrow> answering m \<Longrightarrow> asking m' \<or> (\<exists>c x. m' = FullState c x)"
  by (cases m) (auto simp: and_then_Ok_iff handleReconcileStart_def handleTrieResponse_def drainQueue_def query_for_def Let_def
      split: if_splits option.splits list.splits)


definition wire_of :: "penv \<Rightarrow> edit list \<Rightarrow> wire_edit \<Rightarrow> wire_edit" where
  "wire_of E mine e = (let w = resolve (buildEditIndex (sha E) mine) e in
     case identity E of Some kp \<Rightarrow> (fst w, signEdit (pcrypto E) (fst w) kp) | None \<Rightarrow> w)"

lemma editSet_answer:
  assumes "receive a (EditSet c p d hs) = Ok (a', Msg m')"
  shows "\<exists>es. m' = EditBatch (schannel a) es \<and> a' = a"
  using assms by (cases "ensureTrie a") (simp_all add: handleEditSet_def Let_def, blast)

lemma answers:
  assumes "outSession A = Some a" "receive a m = Ok (a', Msg m')" "asking m" "allEdits (chan A) = Ok mine"
  shows "coordinator_receive EA A m = Ok (A, [lift_msg (wire_of EA mine) m']) \<and> answering m'"
proof (cases m)
  case (TrieQuery c p d fp n)
  then show ?thesis using assms
    by (auto simp: handleOutgoing_def handleTrieQuery_def and_then_Ok_iff Let_def processResult_def)
next
  case (EditSet c p d hs)
  have "receive a (EditSet c p d hs) = Ok (a', Msg m')" using assms(2) EditSet by simp
  from editSet_answer [OF this] obtain es where es: "m' = EditBatch (schannel a) es" "a' = a" by blast
  have "wired_send EA (EditBatch c' (map (resolve (buildEditIndex (sha EA) mine)) es)) = EditBatch c' (map (wire_of EA mine) es)" for c'
    by (auto simp: wire_of_def Let_def case_prod_beta split: option.split)
  then have "processResult EA A (Msg m') False = Ok (A, [lift_msg (wire_of EA mine) m'])"
    using assms(4) by (simp add: processResult_def resolveAndSend_def es)
  moreover have "coordinator_receive EA A m = processResult EA (A\<lparr>outSession := Some a\<rparr>) (Msg m') False"
    using assms(1,2) by (simp add: EditSet handleOutgoing_def es(2))
  moreover have same: "A\<lparr>outSession := Some a\<rparr> = A" using assms(1) by simp
  ultimately show ?thesis unfolding same es(1) by simp
qed (use assms(3) in simp_all)

lemma asks_on:
  assumes "inSession B = Some (lift g b)" "receive b m = Ok (b1, r)" "answering m"
  shows "coordinator_receive EB B (lift_msg g m) = processResult EB (B\<lparr>inSession := Some (lift g b1)\<rparr>) (lift_reply g r) True"
proof -
  have "receive (lift g b) (lift_msg g m) = Ok (lift g b1, lift_reply g r)" by (rule receive_lift [OF assms(2,3)])
  then have "handleIncoming EB B (lift_msg g m) = processResult EB (B\<lparr>inSession := Some (lift g b1)\<rparr>) (lift_reply g r) True"
    using assms(1) by (simp add: handleIncoming_def)
  then show ?thesis using assms(3) by (cases m) simp_all
qed

lemma question_sent: "asking m \<Longrightarrow> processResult EB B (Msg m) True = Ok (B, [m])"
  by (cases m) (simp_all add: processResult_def)

lemma pump_converse:
  assumes "converse n a b m = Ok (b', r)" "asking m" "outSession A = Some a" "allEdits (chan A) = Ok mine"
    and "inSession B = Some (lift (wire_of EA mine) b)"
  shows "pump n EA EB A B m =
    and_then (processResult EB (B\<lparr>inSession := Some (lift (wire_of EA mine) b')\<rparr>) (lift_reply (wire_of EA mine) r) True)
      (\<lambda>(B', _). Ok (A, B'))"
  using assms(1,2,5)
proof (induction n arbitrary: b B m)
  case (Suc n)
  let ?g = "wire_of EA mine"
  obtain b1 r1 where rd: "round a b m = Ok (b1, r1)"
    and rest: "(case r1 of Msg m2 \<Rightarrow> converse n a b1 m2 | _ \<Rightarrow> Ok (b1, r1)) = Ok (b', r)"
    using Suc.prems(1) by (auto simp: and_then_Ok_iff)
  obtain a' q where q: "receive a m = Ok (a', q)" "(case q of Msg m' \<Rightarrow> receive b m' | _ \<Rightarrow> Throw ''initiator has no answer'') = Ok (b1, r1)"
    using rd by (auto simp: round_def and_then_Ok_iff)
  obtain m1 where m1: "receive a m = Ok (a', Msg m1)" and b1: "receive b m1 = Ok (b1, r1)"
    using q by (cases q) simp_all
  note A = answers [OF assms(3) m1 Suc.prems(2) assms(4), of EA]
  have B: "coordinator_receive EB B (lift_msg ?g m1) = processResult EB (B\<lparr>inSession := Some (lift ?g b1)\<rparr>) (lift_reply ?g r1) True"
    by (rule asks_on [OF Suc.prems(3) b1]) (use A in blast)
  show ?case
  proof (cases r1)
    case (Msg m2)
    have "\<nexists>c x. m2 = FullState c x"
      using m1 b1 Msg Suc.prems(2)
      by (cases m) (auto simp: handleTrieQuery_def handleEditSet_def and_then_Ok_iff Let_def handleTrieResponse_def drainQueue_def
          query_for_def split: if_splits list.splits)
    then have ask: "asking m2" using receive_questions [of b m1 b1 m2] b1 A Msg by blast
    then have "pump (Suc n) EA EB A B m = pump n EA EB A (B\<lparr>inSession := Some (lift ?g b1)\<rparr>) m2"
      using A B by (simp add: Msg question_sent)
    then show ?thesis using Suc.IH [of b1 m2 "B\<lparr>inSession := Some (lift ?g b1)\<rparr>"] rest Msg ask by simp
  next
    case (Edits es)
    have "processResult EB (B\<lparr>inSession := Some (lift ?g b1)\<rparr>) (Edits (map ?g es)) True =
        and_then (verifyAndApply EB (B\<lparr>inSession := Some (lift ?g b1)\<rparr>) (map ?g es)) (\<lambda>p. Ok (p\<lparr>inDone := True\<rparr>, []))"
      by (simp add: processResult_def)
    then show ?thesis using A B rest
      by (cases "verifyAndApply EB (B\<lparr>inSession := Some (lift ?g b1)\<rparr>) (map ?g es)") (auto simp: Edits)
  next
    case Null
    then show ?thesis using A B rest by (auto simp: processResult_def)
  qed
qed simp


section \<open>What is applied\<close>

lemma sync_edit_update [simp]: "sync_edit E (p\<lparr>jobs := js\<rparr>) = sync_edit E p" "sync_edit E (p\<lparr>chan := ch\<rparr>) = sync_edit E p"
  "sync_edit E (p\<lparr>inDone := d\<rparr>) = sync_edit E p" "sync_edit E (p\<lparr>inSession := s\<rparr>) = sync_edit E p"
  by (simp_all add: fun_eq_iff sync_edit_def)

fun todo :: "penv \<Rightarrow> 'w peer \<Rightarrow> keyPair \<Rightarrow> bool \<times> bytes \<Rightarrow> job" where
  "todo E p kp (True, pl) = CheckSig (signEdit (pcrypto E) pl kp)"
| "todo E p kp (False, pl) = CheckEnvelope (sync_edit E p pl (signEdit (pcrypto E) pl kp))"

lemma todo_update [simp]: "todo E (p\<lparr>jobs := js\<rparr>) kp = todo E p kp" "todo E (p\<lparr>chan := ch\<rparr>) kp = todo E p kp"
  "todo E (p\<lparr>inDone := d\<rparr>) kp = todo E p kp"
proof -
  have "todo E (p\<lparr>jobs := js\<rparr>) kp x = todo E p kp x" "todo E (p\<lparr>chan := ch\<rparr>) kp x = todo E p kp x"
    "todo E (p\<lparr>inDone := d\<rparr>) kp x = todo E p kp x" for x
    by (cases "(E, p, kp, x)" rule: todo.cases; simp)+
  then show "todo E (p\<lparr>jobs := js\<rparr>) kp = todo E p kp" "todo E (p\<lparr>chan := ch\<rparr>) kp = todo E p kp"
    "todo E (p\<lparr>inDone := d\<rparr>) kp = todo E p kp" by blast+
qed

definition steps_left :: "(bool \<times> bytes) list \<Rightarrow> nat" where
  "steps_left jl = sum_list (map (\<lambda>(b, _). if b then 2 else 1) jl)"

definition trusts :: "penv \<Rightarrow> keyPair \<Rightarrow> bool" where
  "trusts E kp \<longleftrightarrow> crypto_ok (pcrypto E) \<and> key_lengths (pcrypto E) \<and>
     (\<exists>seed. kp = ed25519KeyPairFromSeed (pcrypto E) seed) \<and> (\<forall>ks. trustedKeys E = Some ks \<longrightarrow> kpPublic kp \<in> ks)"

lemma trusts_verifies: "trusts E kp \<Longrightarrow> verifyEdit (pcrypto E) (signEdit (pcrypto E) pl kp) (trustedKeys E) = Some (pl, kpPublic kp)"
  using verify_sign_edit unfolding trusts_def by blast

lemma trusts_applies:
  "trusts E kp \<Longrightarrow> apply_edit p (sync_edit E p pl (signEdit (pcrypto E) pl kp)) =
     Ok (p\<lparr>jobs := jobs p @ [todo E p kp (False, pl)]\<rparr>)"
  using envelope_shape unfolding trusts_def by (fastforce simp: apply_edit_def sync_edit_def)

lemma settle_ok:
  assumes "chan_sim n (chan p) (cs, tip)" "jobs p = map (todo E p kp) jl" "steps_left jl < fuel" "trusts E kp"
  shows "\<exists>p' new. settle fuel E p = Ok p' \<and> chan_sim n (chan p') (cs, tip @ new) \<and>
     mset (map payload new) = mset (map snd jl) \<and>
     (\<forall>e \<in> set new. e = sync_edit E p (payload e) (signEdit (pcrypto E) (payload e) kp))"
  using assms(1-3)
proof (induction fuel arbitrary: p jl tip)
  case (Suc fuel)
  show ?case
  proof (cases jl)
    case Nil
    then show ?thesis using Suc.prems by (intro exI [of _ p] exI [of _ "[]"]) simp
  next
    case (Cons j js)
    let ?p = "p\<lparr>jobs := map (todo E p kp) js\<rparr>"
    show ?thesis
    proof (cases j)
      case (Pair b pl)
      show ?thesis
      proof (cases b)
        case True
        let ?q = "p\<lparr>jobs := map (todo E p kp) (js @ [(False, pl)])\<rparr>"
        have "finish_job E ?p (todo E p kp j) = Ok ?q"
          using trusts_applies [OF assms(4), of ?p pl] by (simp add: Pair True finish_job_def trusts_verifies [OF assms(4)])
        then have "settle (Suc fuel) E p = settle fuel E ?q" using Suc.prems(2) Cons by simp
        moreover have "\<exists>p' new. settle fuel E ?q = Ok p' \<and> chan_sim n (chan p') (cs, tip @ new) \<and>
            mset (map payload new) = mset (map snd (js @ [(False, pl)])) \<and>
            (\<forall>e \<in> set new. e = sync_edit E ?q (payload e) (signEdit (pcrypto E) (payload e) kp))"
          using Suc.prems by (intro Suc.IH) (simp_all add: Cons Pair True steps_left_def)
        ultimately show ?thesis by (simp add: Cons Pair)
      next
        case False
        let ?e = "sync_edit E p pl (signEdit (pcrypto E) pl kp)"
        obtain ch where ch: "append_edit ?p ?e = Ok (?p\<lparr>chan := ch\<rparr>)" "chan_sim n ch (cs, tip @ [?e])"
          using append_edit_sim [of n ?p cs tip ?e] Suc.prems(1) by auto
        have "?e\<lparr>origin := Sync\<rparr> = ?e" "signature ?e = signEdit (pcrypto E) pl kp" by (simp_all add: sync_edit_def)
        then have "finish_job E ?p (todo E p kp j) = Ok (?p\<lparr>chan := ch\<rparr>)"
          using ch(1) by (simp add: Pair False finish_job_def trusts_verifies [OF assms(4)])
        then have "settle (Suc fuel) E p = settle fuel E (?p\<lparr>chan := ch\<rparr>)" using Suc.prems(2) Cons by simp
        moreover have "\<exists>p' new. settle fuel E (?p\<lparr>chan := ch\<rparr>) = Ok p' \<and> chan_sim n (chan p') (cs, (tip @ [?e]) @ new) \<and>
            mset (map payload new) = mset (map snd js) \<and>
            (\<forall>e \<in> set new. e = sync_edit E (?p\<lparr>chan := ch\<rparr>) (payload e) (signEdit (pcrypto E) (payload e) kp))"
          using Suc.prems ch(2) by (intro Suc.IH) (simp_all add: Cons Pair False steps_left_def)
        ultimately obtain p' new where fin: "settle (Suc fuel) E p = Ok p'" "chan_sim n (chan p') (cs, (tip @ [?e]) @ new)"
          "mset (map payload new) = mset (map snd js)"
          "\<forall>e \<in> set new. e = sync_edit E p (payload e) (signEdit (pcrypto E) (payload e) kp)" by auto
        have "payload ?e = pl" by (simp add: sync_edit_def)
        with fin show ?thesis by (intro exI [of _ p'] exI [of _ "?e # new"]) (simp add: Cons Pair)
      qed
    qed
  qed
qed simp


lemma apply_all:
  assumes "\<forall>(pl, sig) \<in> set es. sig = signEdit (pcrypto E) pl kp \<and> idx (sha E pl) = None" "trusts E kp"
  shows "foldl_res (apply_one E idx) p es =
    Ok (p\<lparr>jobs := jobs p @ map (\<lambda>(pl, _). todo E p kp (trustedKeys E \<noteq> None, pl)) es\<rparr>)"
  using assms(1)
proof (induction es arbitrary: p)
  case (Cons e es)
  obtain pl where e: "e = (pl, signEdit (pcrypto E) pl kp)" "idx (sha E pl) = None" using Cons.prems by (cases e) auto
  have "signEdit (pcrypto E) pl kp \<noteq> []" by (simp add: signEdit_def)
  then have "apply_one E idx p e = Ok (p\<lparr>jobs := jobs p @ [todo E p kp (trustedKeys E \<noteq> None, pl)]\<rparr>)"
    using e(2) trusts_applies [OF assms(2), of p pl] by (auto simp: apply_one_def e(1))
  then show ?case using Cons.IH [of "p\<lparr>jobs := jobs p @ [todo E p kp (trustedKeys E \<noteq> None, pl)]\<rparr>"] Cons.prems
    by (simp add: e(1))
qed simp

lemma buildEditIndex_dom: "buildEditIndex h es k \<noteq> None \<longleftrightarrow> k \<in> (\<lambda>e. h (payload e)) ` set es"
  and buildEditIndex_real: "buildEditIndex h es k = Some e \<Longrightarrow> e \<in> set es \<and> h (payload e) = k"
  by (induction es rule: rev_induct) (auto simp: buildEditIndex_def split: if_splits)

text \<open>A hash that the answering side sent stands for a payload of that hash, signed.\<close>

lemma wire_of_signed:
  assumes "identity E = Some kp" "fst w \<in> (\<lambda>e. sha E (payload e)) ` set mine"
  shows "\<exists>e \<in> set mine. wire_of E mine w = (payload e, signEdit (pcrypto E) (payload e) kp) \<and> sha E (payload e) = fst w"
proof -
  obtain e where "buildEditIndex (sha E) mine (fst w) = Some e" using assms(2) buildEditIndex_dom by (metis not_None_eq)
  with buildEditIndex_real [OF this] show ?thesis using assms(1) by (auto simp: wire_of_def resolve_def Let_def)
qed

lemma collectEditHashes_set: "set (collectEditHashes h es) = (\<lambda>e. h (payload e)) ` set es"
  by (simp add: collectEditHashes_def)

definition session_of :: "penv \<Rightarrow> 'w peer \<Rightarrow> edit list \<Rightarrow> session" where
  "session_of E p es = createSession (collectEditHashes (sha E) es) (channelFingerprint (sha E) es) (channelName p) (snapshot p)"

lemma session_of_fresh:
  assumes "\<forall>x. length (sha E x) = 32"
  shows "fresh (session_of E p es)" "localHashes (session_of E p es) = collectEditHashes (sha E) es"
  using assms by (auto simp: session_of_def createSession_def fresh_def hashes_ok_def collectEditHashes_def)

lemma lift_fresh: "fresh s \<Longrightarrow> lift g s = s"
  by (simp add: lift_def fresh_def)

lemma sync_pump:
  assumes "allEdits (chan A) = Ok ea" "allEdits (chan B) = Ok eb" "inSession B = None"
    and "receive (session_of EB B eb) (initiate (session_of EA A ea)) = Ok (b, Msg m)" "asking m"
  shows "sync fuel EA EB A B = pump fuel EA EB (A\<lparr>outSession := Some (session_of EA A ea)\<rparr>) (B\<lparr>inSession := Some b\<rparr>) m"
proof -
  obtain c fp n where i: "initiate (session_of EA A ea) = ReconcileStart c fp n" by (simp add: initiate_def)
  have "coordinator_receive EB B (initiate (session_of EA A ea)) = processResult EB (B\<lparr>inSession := Some b\<rparr>) (Msg m) True"
    using assms(2-4) unfolding i coordinator_receive.simps handleIncoming_def
    by (simp add: newSession_def flip: session_of_def)
  then show ?thesis using assms(1,5)
    by (simp add: sync_def coordinator_start_def newSession_def question_sent flip: session_of_def)
qed

text \<open>A responder of at most ten hashes sends them all at once, and nothing is lost.\<close>

lemma converse_small:
  assumes "fresh a" "fresh b" "card (set (localHashes b)) \<le> 10" "query_for b (replicate 32 0) 0 = Ok m" "2 \<le> fuel"
    and "converse fuel a b m = Ok (b', r)"
  shows "r = (if receivedEdits b' = [] then Null else Edits (receivedEdits b'))"
proof -
  obtain ta where ta: "ensureTrie a = Ok ta" using ensureTrie_ok [of a] assms(1) by (auto simp: fresh_def)
  obtain tb where tb: "ensureTrie b = Ok tb" "trie_of (set (localHashes b)) tb"
    using ensureTrie_ok [of b] assms(2) by (auto simp: fresh_def)
  let ?z = "replicate 32 0 :: bytes"
  have q0: "queryQueue b = []" "receivedEdits b = []" using assms(2) by (simp_all add: fresh_def)
  have small: "snd (queryPrefix tb ?z 0) \<le> 10" using query_count [OF tb(2)] assms(3) by simp
  obtain k where k: "fuel = Suc (Suc k)" using assms(5) that [of "fuel - 2"] by simp
  note rd = round_query [OF ta tb(1) assms(4)]
  show ?thesis
  proof (cases "queryPrefix ta ?z 0 = queryPrefix tb ?z 0")
    case True
    then have "round a b m = Ok (b, Null)" using rd q0 by (simp add: handleTrieResponse_def drainQueue_def)
    then show ?thesis using assms(6) q0 k by simp
  next
    case False
    then have "round a b m = Ok (b, Msg (EditSet (schannel b) ?z 0 (collectHashes tb ?z 0)))"
      using rd tb(1) small by (simp add: handleTrieResponse_def EDIT_SET_THRESHOLD_def Let_def)
    moreover have "round a b (EditSet (schannel b) ?z 0 (collectHashes tb ?z 0)) =
        Ok (b\<lparr>receivedEdits := batch ta tb ?z 0\<rparr>, if batch ta tb ?z 0 = [] then Null else Edits (batch ta tb ?z 0))"
      using round_set [OF ta] q0 by (simp add: drainQueue_def Let_def)
    ultimately have "converse fuel a b m =
        Ok (b\<lparr>receivedEdits := batch ta tb ?z 0\<rparr>, if batch ta tb ?z 0 = [] then Null else Edits (batch ta tb ?z 0))"
      by (simp add: k)
    then show ?thesis using assms(6) by auto
  qed
qed

text \<open>The session's last word, applied and verified.\<close>

lemma last_word:
  assumes "chan_sim n (chan B) (cs, tip)" "jobs B = []" "\<not> snapshotApplied B" "trusts EB kp"
    and "allEdits (chan B) = Ok eb"
    and "\<forall>(pl, sig) \<in> set es. sig = signEdit (pcrypto EB) pl kp \<and> sha EB pl \<notin> (\<lambda>e. sha EB (payload e)) ` set eb"
    and "r = Null \<and> ws = [] \<or> r = Edits es \<and> ws = es"
  shows "\<exists>B1 B2 new. processResult EB B r True = Ok (B1, []) \<and> inDone B1 \<and>
     settle (Suc (2 * length (jobs B1))) EB B1 = Ok B2 \<and> allEdits (chan B2) = Ok (eb @ new) \<and>
     mset (map payload new) = mset (map fst ws) \<and>
     (\<forall>e \<in> set new. e = sync_edit EB B (payload e) (signEdit (pcrypto EB) (payload e) kp))"
proof -
  have eb: "eb = abs_edits (cs, tip)" using allEdits_sim [OF assms(1)] assms(5) by simp
  define jl where "jl = map (\<lambda>(pl, _). (trustedKeys EB \<noteq> None, pl)) ws"
  let ?B1 = "B\<lparr>jobs := map (todo EB B kp) jl, inDone := True\<rparr>"
  have same: "sync_edit EB ?B1 = sync_edit EB B" "todo EB ?B1 kp = todo EB B kp" by simp_all
  have "\<forall>(pl, sig) \<in> set es. sig = signEdit (pcrypto EB) pl kp \<and> buildEditIndex (sha EB) eb (sha EB pl) = None"
    using assms(6) buildEditIndex_dom [of "sha EB" eb] by fastforce
  then have res: "processResult EB B r True = Ok (?B1, [])"
    using assms(2,3,5,7) apply_all [OF _ assms(4), of es "buildEditIndex (sha EB) eb" B]
    by (auto simp: processResult_def verifyAndApply_def jl_def case_prod_beta comp_def)
  have steps: "steps_left jl < Suc (2 * length jl)" by (rule le_imp_less_Suc)
    (induction jl, auto simp: steps_left_def)
  obtain B2 new where fin: "settle (Suc (2 * length jl)) EB ?B1 = Ok B2" "chan_sim n (chan B2) (cs, tip @ new)"
    "mset (map payload new) = mset (map snd jl)"
    "\<forall>e \<in> set new. e = sync_edit EB ?B1 (payload e) (signEdit (pcrypto EB) (payload e) kp)"
    using settle_ok [of n ?B1 cs tip EB kp jl "Suc (2 * length jl)"] assms(1,4) steps by (auto simp: same)
  have "map snd jl = map fst ws" by (simp add: jl_def case_prod_beta comp_def)
  moreover have "allEdits (chan B2) = Ok (eb @ new)" using allEdits_sim [OF fin(2)] by (simp add: eb abs_edits_def)
  ultimately show ?thesis using fin res by (intro exI [of _ ?B1] exI [of _ B2] exI [of _ new]) (simp add: same(1))
qed


section \<open>Anything can happen to a peer\<close>

text \<open>What a peer does and what befalls it: it starts, a message arrives, a verification finishes, in any order.\<close>

datatype peer_event = StartSync | Receive message | Finish nat

fun peer_step :: "penv \<Rightarrow> 'w peer \<Rightarrow> peer_event \<Rightarrow> 'w peer result" where
  "peer_step E p StartSync = and_then (coordinator_start E p) (\<lambda>(p1, _). Ok p1)"
| "peer_step E p (Receive m) = and_then (coordinator_receive E p m) (\<lambda>(p1, _). Ok p1)"
| "peer_step E p (Finish i) =
     (if i < length (jobs p) then finish_job E (p\<lparr>jobs := take i (jobs p) @ drop (Suc i) (jobs p)\<rparr>) (jobs p ! i) else Ok p)"

text \<open>All that a message does to the channel, the jobs and the flag it does by applying edits.\<close>

definition same_core :: "'w peer \<Rightarrow> 'w peer \<Rightarrow> bool" where
  "same_core p q \<longleftrightarrow> chan p = chan q \<and> jobs p = jobs q \<and> snapshotApplied p = snapshotApplied q"

definition touched :: "penv \<Rightarrow> 'w peer \<Rightarrow> 'w peer \<Rightarrow> bool" where
  "touched E p p' \<longleftrightarrow> same_core p p' \<or> (\<exists>es p0 p1. same_core p p0 \<and> verifyAndApply E p0 es = Ok p1 \<and> same_core p1 p')"

lemma same_core_simps [simp]:
  "same_core p p" "same_core p (q\<lparr>inSession := s\<rparr>) = same_core p q" "same_core p (q\<lparr>outSession := s\<rparr>) = same_core p q"
  "same_core p (q\<lparr>inDone := d\<rparr>) = same_core p q"
  by (simp_all add: same_core_def)

lemma touched_pre: "same_core p q \<Longrightarrow> touched E q p' \<Longrightarrow> touched E p p'"
  unfolding touched_def same_core_def by metis

lemma processResult_touched:
  assumes "processResult E p r inc = Ok (p', ms)"
  shows "touched E p p'"
proof (cases r)
  case (Msg m)
  then have "p' = p" using assms by (cases m) (auto simp: processResult_def and_then_Ok_iff)
  then show ?thesis by (simp add: touched_def)
next
  case (Edits es)
  then obtain p1 where "verifyAndApply E p es = Ok p1" "same_core p1 p'"
    using assms by (auto simp: processResult_def and_then_Ok_iff)
  then show ?thesis unfolding touched_def by (metis same_core_simps(1))
next
  case Null
  then show ?thesis using assms by (auto simp: processResult_def touched_def)
qed

lemma handleOutgoing_touched:
  assumes "handleOutgoing E p m = Ok (p', ms)"
  shows "touched E p p'"
proof (cases "outSession p")
  case None
  then show ?thesis using assms by (auto simp: handleOutgoing_def touched_def)
next
  case (Some s)
  then obtain s1 r where "processResult E (p\<lparr>outSession := Some s1\<rparr>) r False = Ok (p', ms)"
    using assms by (auto simp: handleOutgoing_def and_then_Ok_iff)
  from processResult_touched [OF this] show ?thesis by (rule touched_pre [rotated]) simp
qed

lemma handleIncoming_touched:
  assumes "handleIncoming E p m = Ok (p', ms)"
  shows "touched E p p'"
proof -
  define p0 where "p0 = (if isStart m \<and> inSession p = None
               then and_then (newSession E p) (\<lambda>s. Ok (p\<lparr>inSession := Some s\<rparr>)) else Ok p)"
  obtain q where q: "p0 = Ok q" "(case inSession q of None \<Rightarrow> Ok (q, [])
      | Some s \<Rightarrow> and_then (receive s m) (\<lambda>(s1, r). processResult E (q\<lparr>inSession := Some s1\<rparr>) r True)) = Ok (p', ms)"
    using assms unfolding handleIncoming_def p0_def [symmetric] by (cases p0) auto
  have core: "same_core p q" using q(1) by (auto simp: p0_def and_then_Ok_iff split: if_splits)
  show ?thesis
  proof (cases "inSession q")
    case None
    then show ?thesis using q(2) core by (simp add: touched_def)
  next
    case (Some s)
    then obtain s1 r where "processResult E (q\<lparr>inSession := Some s1\<rparr>) r True = Ok (p', ms)"
      using q(2) by (auto simp: and_then_Ok_iff)
    from processResult_touched [OF this] show ?thesis by (rule touched_pre [rotated]) (simp add: core)
  qed
qed

lemma receive_touched:
  assumes "coordinator_receive E p m = Ok (p', ms)"
  shows "touched E p p'"
  using assms handleIncoming_touched [of E p m p' ms] handleOutgoing_touched [of E p m p' ms]
  by (cases m) (simp_all add: touched_def)

text \<open>
  An invariant of the channel, the jobs and the flag that starting and sessions cannot break is kept by every event,
  when applying one edit and finishing one verification keep it.
\<close>

locale peer_inv =
  fixes E :: penv and I :: "'w channel \<Rightarrow> job list \<Rightarrow> bool \<Rightarrow> bool"
  assumes applies: "I (chan p) (jobs p) (snapshotApplied p) \<Longrightarrow> verifyAndApply E p es = Ok p' \<Longrightarrow>
      I (chan p') (jobs p') (snapshotApplied p')"
    and finishes: "I (chan p) (jobs p) (snapshotApplied p) \<Longrightarrow> i < length (jobs p) \<Longrightarrow>
      finish_job E (p\<lparr>jobs := take i (jobs p) @ drop (Suc i) (jobs p)\<rparr>) (jobs p ! i) = Ok p' \<Longrightarrow>
      I (chan p') (jobs p') (snapshotApplied p')"
begin

lemma same_core_keeps: "same_core p q \<Longrightarrow> I (chan p) (jobs p) (snapshotApplied p) \<Longrightarrow> I (chan q) (jobs q) (snapshotApplied q)"
  by (simp add: same_core_def)

lemma touched_keeps:
  assumes "touched E p p'" "I (chan p) (jobs p) (snapshotApplied p)"
  shows "I (chan p') (jobs p') (snapshotApplied p')"
  using assms(1) unfolding touched_def
proof (elim disjE exE conjE)
  fix es p0 p1 assume t: "same_core p p0" "verifyAndApply E p0 es = Ok p1" "same_core p1 p'"
  have "I (chan p1) (jobs p1) (snapshotApplied p1)" by (rule applies [OF same_core_keeps [OF t(1) assms(2)] t(2)])
  then show ?thesis by (rule same_core_keeps [OF t(3)])
qed (rule same_core_keeps [OF _ assms(2)])

lemma keeps:
  assumes "I (chan p) (jobs p) (snapshotApplied p)" "peer_step E p ev = Ok p'"
  shows "I (chan p') (jobs p') (snapshotApplied p')"
proof (cases ev)
  case StartSync
  then show ?thesis using assms by (auto simp: coordinator_start_def and_then_Ok_iff)
next
  case (Receive m)
  then obtain ms where "coordinator_receive E p m = Ok (p', ms)" using assms(2) by (auto simp: and_then_Ok_iff)
  from touched_keeps [OF receive_touched [OF this] assms(1)] show ?thesis .
next
  case (Finish i)
  then show ?thesis using assms finishes by (auto split: if_splits)
qed

end

sublocale peer_inv \<subseteq> safe_machine "peer_step E" "\<lambda>p. I (chan p) (jobs p) (snapshotApplied p)"
  by unfold_locales (rule keeps)

text \<open>With trusted keys an edit is applied only when one of them signed its payload; a snapshot needs no signature.\<close>

definition vouched :: "penv \<Rightarrow> edit \<Rightarrow> bool" where
  "vouched E e \<longleftrightarrow> (\<exists>k. verifyEdit (pcrypto E) (signature e) (trustedKeys E) = Some (payload e, k))"

definition is_snapshot :: "edit \<Rightarrow> bool" where
  "is_snapshot e \<longleftrightarrow> author e = ''snapshot'' \<and> signature e = []"

definition guarded :: "penv \<Rightarrow> edit set \<Rightarrow> 'w channel \<Rightarrow> job list \<Rightarrow> bool" where
  "guarded E old ch js \<longleftrightarrow> (trustedKeys E \<noteq> None \<longrightarrow>
     (\<exists>n a. chan_sim n ch a \<and> (\<forall>e \<in> set (abs_edits a). e \<in> old \<or> is_snapshot e \<or> vouched E e)) \<and>
     (\<forall>e. CheckEnvelope e \<in> set js \<longrightarrow> vouched E e))"

lemma abs_edits_simps [simp]:
  "abs_edits (cs, tip @ es) = abs_edits (cs, tip) @ es"
  "abs_edits (cs @ [Epoch_create tip Closed, Epoch_create es Closed], []) = abs_edits (cs, tip) @ es"
  by (simp_all add: abs_edits_def Epoch_create_def)

lemma guarded_append:
  assumes "guarded E old (chan p) js" "vouched E e" "append_edit p e = Ok p'"
  shows "guarded E old (chan p') js \<and> jobs p' = jobs p"
proof -
  have "guarded E old (chan p') js" if tk: "trustedKeys E \<noteq> None"
  proof -
    obtain n cs tip where a: "chan_sim n (chan p) (cs, tip)" "\<forall>e \<in> set (abs_edits (cs, tip)). e \<in> old \<or> is_snapshot e \<or> vouched E e"
      using assms(1) tk unfolding guarded_def by (metis surj_pair)
    have "chan_sim n (chan p') (cs, tip @ [e])" using append_edit_sim [OF a(1), of e] assms(3) by auto
    moreover have "\<forall>e' \<in> set (abs_edits (cs, tip @ [e])). e' \<in> old \<or> is_snapshot e' \<or> vouched E e'"
      using a(2) assms(2) by auto
    moreover have "\<forall>e. CheckEnvelope e \<in> set js \<longrightarrow> vouched E e" using assms(1) tk unfolding guarded_def by blast
    ultimately show ?thesis unfolding guarded_def by blast
  qed
  moreover have "jobs p' = jobs p" using assms(3) by (auto simp: append_edit_def and_then_Ok_iff)
  ultimately show ?thesis by (auto simp: guarded_def)
qed

lemma guarded_snapshot:
  assumes "guarded E old (chan p) js" "appendSnapshot (chan p) st t = Ok (ch, ev)"
  shows "guarded E old ch js"
proof -
  have "guarded E old ch js" if tk: "trustedKeys E \<noteq> None"
  proof -
    obtain n cs tip where a: "chan_sim n (chan p) (cs, tip)" "\<forall>e \<in> set (abs_edits (cs, tip)). e \<in> old \<or> is_snapshot e \<or> vouched E e"
      using assms(1) tk unfolding guarded_def by (metis surj_pair)
    have "chan_sim n ch (cs @ [Epoch_create tip Closed, Epoch_create [synthetic_edit n st t] Closed], [])"
      using appendSnapshot_sim [OF a(1), of st t] assms(2) by auto
    moreover have "is_snapshot (synthetic_edit n st t)" by (simp add: is_snapshot_def synthetic_edit_def)
    then have "\<forall>e \<in> set (abs_edits (cs @ [Epoch_create tip Closed, Epoch_create [synthetic_edit n st t] Closed], [])).
        e \<in> old \<or> is_snapshot e \<or> vouched E e" using a(2) by auto
    ultimately show ?thesis using assms(1) tk unfolding guarded_def by blast
  qed
  then show ?thesis by (auto simp: guarded_def)
qed

lemma guarded_job: "guarded E old ch js \<Longrightarrow> (\<And>e. j = CheckEnvelope e \<Longrightarrow> vouched E e) \<Longrightarrow> guarded E old ch (js @ [j])"
  by (auto simp: guarded_def)

lemma guarded_one:
  assumes "guarded E old (chan p) (jobs p)" "trustedKeys E \<noteq> None" "apply_one E idx p w = Ok p'"
  shows "guarded E old (chan p') (jobs p')"
proof (cases w)
  case (Pair pl sig)
  show ?thesis
  proof (cases "sig = []")
    case True
    then show ?thesis using assms(1,3) guarded_snapshot [of E old p "jobs p" pl "now E"]
      by (auto simp: apply_one_def Pair and_then_Ok_iff)
  next
    case False
    then have "p' = p \<or> p' = p\<lparr>jobs := jobs p @ [CheckSig sig]\<rparr>"
      using assms(2,3) by (auto simp: apply_one_def Pair split: if_splits)
    then show ?thesis using assms(1) guarded_job [of E old "chan p" "jobs p" "CheckSig sig"] by auto
  qed
qed

lemma guarded_all:
  "guarded E old (chan p) (jobs p) \<Longrightarrow> trustedKeys E \<noteq> None \<Longrightarrow> foldl_res (apply_one E idx) p es = Ok p' \<Longrightarrow>
    guarded E old (chan p') (jobs p')"
  by (induction es arbitrary: p) (auto simp: and_then_Ok_iff dest: guarded_one)

lemma verified_envelope:
  "verifyEdit C sig ks = Some r \<Longrightarrow> HEADER_SIZE \<le> length sig \<and> hd sig = ENVELOPE_VERSION"
  by (auto simp: verifyEdit_def split: if_splits)

lemma guarded_finish:
  assumes "guarded E old (chan p) (js @ [j])" "finish_job E (p\<lparr>jobs := js\<rparr>) j = Ok p'"
  shows "guarded E old (chan p') (jobs p')"
proof -
  have g: "guarded E old (chan p) js" "\<And>e. j = CheckEnvelope e \<Longrightarrow> trustedKeys E \<noteq> None \<Longrightarrow> vouched E e"
    using assms(1) by (auto simp: guarded_def)
  show ?thesis
  proof (cases "trustedKeys E = None")
    case False
    show ?thesis
    proof (cases j)
      case (CheckSig sig)
      show ?thesis
      proof (cases "verifyEdit (pcrypto E) sig (trustedKeys E)")
        case None
        then show ?thesis using assms(2) g(1) by (auto simp: CheckSig finish_job_def)
      next
        case (Some r)
        obtain pl k where r: "r = (pl, k)" by (cases r)
        have "vouched E (sync_edit E p pl sig)" using Some by (simp add: vouched_def sync_edit_def r)
        moreover have "p' = p\<lparr>jobs := js @ [CheckEnvelope (sync_edit E p pl sig)]\<rparr>"
          using assms(2) verified_envelope [OF Some] Some r
          by (auto simp: CheckSig finish_job_def apply_edit_def) (simp_all add: sync_edit_def)
        ultimately show ?thesis using guarded_job [OF g(1), of "CheckEnvelope (sync_edit E p pl sig)"] by simp
      qed
    next
      case (CheckEnvelope e)
      have v: "vouched E (e\<lparr>origin := Sync\<rparr>)" using g(2) [OF CheckEnvelope False] by (simp add: vouched_def)
      show ?thesis using assms(2) g(1) guarded_append [of E old "p\<lparr>jobs := js\<rparr>" js, OF _ v]
        by (auto simp: CheckEnvelope finish_job_def split: option.splits)
    qed
  qed (simp add: guarded_def)
qed

interpretation trusting: peer_inv E "\<lambda>ch js f. guarded E old ch js" for E old
proof unfold_locales
  fix p p' :: "'a peer" and es
  assume g: "guarded E old (chan p) (jobs p)" and v: "verifyAndApply E p es = Ok p'"
  show "guarded E old (chan p') (jobs p')"
  proof (cases "trustedKeys E = None")
    case False
    then show ?thesis using g v guarded_all [OF g False] by (auto simp: verifyAndApply_def and_then_Ok_iff split: if_splits)
  qed (simp add: guarded_def)
next
  fix p p' :: "'a peer" and i
  assume g: "guarded E old (chan p) (jobs p)" and i: "i < length (jobs p)"
    and f: "finish_job E (p\<lparr>jobs := take i (jobs p) @ drop (Suc i) (jobs p)\<rparr>) (jobs p ! i) = Ok p'"
  have "set ((take i (jobs p) @ drop (Suc i) (jobs p)) @ [jobs p ! i]) = set (jobs p)"
    using arg_cong [OF id_take_nth_drop [OF i], of set] by auto
  then have "guarded E old (chan p) ((take i (jobs p) @ drop (Suc i) (jobs p)) @ [jobs p ! i])"
    using g by (simp only: guarded_def)
  then show "guarded E old (chan p') (jobs p')" by (rule guarded_finish [OF _ f])
qed

text \<open>After a snapshot nothing more is applied.\<close>

interpretation deaf: peer_inv E "\<lambda>ch js f. ch = c0 \<and> js = [] \<and> f" for E c0
  by unfold_locales (auto simp: verifyAndApply_def)

section \<open>Properties\<close>

text \<open>What the answering and the asking peer bring to an exchange in one direction.\<close>

definition ready :: "penv \<Rightarrow> 'a peer \<Rightarrow> edit list \<Rightarrow> keyPair \<Rightarrow> penv \<Rightarrow> 'b peer \<Rightarrow> edit list \<Rightarrow> bool" where
  "ready EA A ea kp EB B eb \<longleftrightarrow> allEdits (chan A) = Ok ea \<and> allEdits (chan B) = Ok eb \<and> ea \<noteq> [] \<and>
     inSession B = None \<and> jobs B = [] \<and> \<not> snapshotApplied B \<and>
     identity EA = Some kp \<and> trusts EB kp \<and> pcrypto EA = pcrypto EB \<and> sha EA = sha EB \<and>
     \<not> (channelFingerprint (sha EA) ea = channelFingerprint (sha EB) eb \<and> length ea = length eb)"

definition hashes_of :: "(bytes \<Rightarrow> bytes) \<Rightarrow> edit list \<Rightarrow> bytes set" where
  "hashes_of h es = (\<lambda>e. h (payload e)) ` set es"

lemma ready_sessions:
  assumes "ready EA A ea kp EB B eb" "\<forall>x. length (sha EA x) = 32" "no_collision (hashes_of (sha EA) ea) (hashes_of (sha EA) eb)"
    and "2 ^ 18 \<le> fuel" "a = session_of EA A ea" "b = session_of EB B eb"
  shows "\<exists>m b' r. receive b (initiate a) = Ok (b, Msg m) \<and> asking m \<and> query_for b (replicate 32 0) 0 = Ok m \<and>
     converse fuel a b m = Ok (b', r) \<and>
     mset (map fst (receivedEdits b')) = mset_set (hashes_of (sha EA) ea - hashes_of (sha EA) eb) \<and>
     (r = Null \<or> r = Edits (receivedEdits b'))"
proof -
  have R: "ea \<noteq> []" "sha EA = sha EB" "\<not> (channelFingerprint (sha EA) ea = channelFingerprint (sha EB) eb \<and> length ea = length eb)"
    using assms(1) unfolding ready_def by blast+
  note fa = session_of_fresh [of EA A ea, OF assms(2), folded assms(5)]
    and fb = session_of_fresh [of EB B eb, OF assms(2) [unfolded R(2)], folded assms(6)]
  have lh: "set (localHashes a) = hashes_of (sha EA) ea" "set (localHashes b) = hashes_of (sha EA) eb"
    by (simp_all add: fa fb collectEditHashes_set hashes_of_def R(2))
  obtain tb where tb: "ensureTrie b = Ok tb" using ensureTrie_ok [of b] fb(1) by (auto simp: fresh_def)
  have n: "localHashes a \<noteq> []" "length (localHashes a) = length ea" "length (localHashes b) = length eb"
    "localFingerprint a = channelFingerprint (sha EA) ea" "localFingerprint b = channelFingerprint (sha EB) eb"
    using R(1) by (simp_all add: fa fb collectEditHashes_def) (simp_all add: assms(5,6) session_of_def createSession_def)
  obtain m where m: "receive b (initiate a) = Ok (b, Msg m)" "query_for b (replicate 32 0) 0 = Ok m"
    using start_ok [OF tb, of "localFingerprint a" "length (localHashes a)" "schannel a"] n R(1,3)
    by (auto simp: initiate_def simp del: receive.simps)
  let ?pend = "(replicate 32 0, 0) # queryQueue b"
  have "asks b m ?pend (work ?pend)" using m(2) by (simp add: asks_def)
  moreover have "work ?pend < fuel" using fb(1) assms(4) by (simp add: fresh_def)
  moreover have "account a b ?pend" using fb(1) by (intro account_start) (simp_all add: fresh_def)
  ultimately obtain b' r where c: "converse fuel a b m = Ok (b', r)" "account a b' []" "same_local b b'"
    "r = Null \<or> r = Edits (receivedEdits b')"
    using converse_ok [of a b ?pend m "work ?pend" fuel] fa(1) fb(1) assms(3) unfolding fresh_def lh by blast
  have "mset (map fst (receivedEdits b')) = mset_set (hashes_of (sha EA) ea - hashes_of (sha EA) eb)"
    using c(2) same_local_facts(2) [OF c(3), of a] by (simp add: account_def missing_def lh)
  moreover have "asking m" using m(2) tb by (auto simp: query_for_ok)
  ultimately show ?thesis using m c by blast
qed

lemma sync_result:
  assumes "chan_sim n (chan B) (cs, tip)" "ready EA A ea kp EB B eb" "\<forall>x. length (sha EA x) = 32"
    and "no_collision (hashes_of (sha EA) ea) (hashes_of (sha EA) eb)" "2 ^ 18 \<le> fuel"
  shows "\<exists>A1 B1 B2 new. sync fuel EA EB A B = Ok (A1, B1) \<and> inDone B1 \<and>
     settle (Suc (2 * length (jobs B1))) EB B1 = Ok B2 \<and> allEdits (chan B2) = Ok (eb @ new) \<and>
     (\<forall>e \<in> set new. payload e \<in> payload ` set ea \<and>
        e = sync_edit EB B (payload e) (signEdit (pcrypto EB) (payload e) kp)) \<and>
     (new = [] \<and> 10 < card (hashes_of (sha EA) eb) \<or>
      mset (map (sha EA \<circ> payload) new) = mset_set (hashes_of (sha EA) ea - hashes_of (sha EA) eb))"
proof -
  define a b where "a = session_of EA A ea" and "b = session_of EB B eb"
  have R: "allEdits (chan A) = Ok ea" "allEdits (chan B) = Ok eb" "inSession B = None" "jobs B = []" "\<not> snapshotApplied B"
    "identity EA = Some kp" "trusts EB kp" "pcrypto EA = pcrypto EB" "sha EA = sha EB"
    using assms(2) unfolding ready_def by blast+
  obtain m b' r where m: "receive b (initiate a) = Ok (b, Msg m)" "asking m" "query_for b (replicate 32 0) 0 = Ok m"
    and c: "converse fuel a b m = Ok (b', r)" "r = Null \<or> r = Edits (receivedEdits b')"
    and got: "mset (map fst (receivedEdits b')) = mset_set (hashes_of (sha EA) ea - hashes_of (sha EA) eb)"
    using ready_sessions [OF assms(2-5) a_def b_def] by blast
  note fa = session_of_fresh [of EA A ea, OF assms(3), folded a_def]
    and fb = session_of_fresh [of EB B eb, OF assms(3) [unfolded R(9)], folded b_def]
  let ?g = "wire_of EA ea"
  define es where "es = map ?g (receivedEdits b')"
  have "set (map fst (receivedEdits b')) = hashes_of (sha EA) ea - hashes_of (sha EA) eb"
    using arg_cong [OF got, of set_mset] by (simp add: hashes_of_def)
  then have old: "fst w \<in> hashes_of (sha EA) ea" "fst w \<notin> hashes_of (sha EA) eb" if "w \<in> set (receivedEdits b')" for w
    using that by (metis DiffD1 DiffD2 image_eqI set_map)+
  have sg: "\<exists>e \<in> set ea. ?g w = (payload e, signEdit (pcrypto EB) (payload e) kp) \<and> sha EA (payload e) = fst w"
    if "w \<in> set (receivedEdits b')" for w
    using wire_of_signed [OF R(6), of w ea] old(1) [OF that] by (simp add: hashes_of_def R(8))
  have ok: "\<forall>(pl, sig) \<in> set es. sig = signEdit (pcrypto EB) pl kp \<and> sha EB pl \<notin> (\<lambda>e. sha EB (payload e)) ` set eb"
    using sg old(2) by (fastforce simp: es_def hashes_of_def R(9))
  define A1 where "A1 = A\<lparr>outSession := Some a\<rparr>"
  define Bs where "Bs = B\<lparr>inSession := Some (lift ?g b')\<rparr>"
  obtain ws where ws: "lift_reply ?g r = Null \<and> ws = [] \<or> lift_reply ?g r = Edits es \<and> ws = es" "ws = [] \<or> ws = es"
    "r = Edits (receivedEdits b') \<longrightarrow> ws = es" "r = Null \<longrightarrow> ws = []"
    using c(2) by (auto simp: es_def)
  have sim: "chan_sim n (chan Bs) (cs, tip)" "jobs Bs = []" "\<not> snapshotApplied Bs" "allEdits (chan Bs) = Ok eb"
    "sync_edit EB Bs = sync_edit EB B"
    using assms(1) R by (simp_all add: Bs_def fun_eq_iff sync_edit_def)
  obtain B1 B2 new where fin: "processResult EB Bs (lift_reply ?g r) True = Ok (B1, [])" "inDone B1"
    "settle (Suc (2 * length (jobs B1))) EB B1 = Ok B2" "allEdits (chan B2) = Ok (eb @ new)"
    "mset (map payload new) = mset (map fst ws)"
    "\<forall>e \<in> set new. e = sync_edit EB B (payload e) (signEdit (pcrypto EB) (payload e) kp)"
    using last_word [OF sim(1-3) R(7) sim(4) ok ws(1)] unfolding sim(5) by blast
  have lift: "lift ?g b = b" using fb(1) by (rule lift_fresh)
  have "pump fuel EA EB A1 (B\<lparr>inSession := Some b\<rparr>) m = Ok (A1, B1)"
    using pump_converse [OF c(1) m(2), of A1 ea "B\<lparr>inSession := Some b\<rparr>" EA EB] R(1) fin(1)
    by (simp add: A1_def Bs_def lift)
  then have "sync fuel EA EB A B = Ok (A1, B1)"
    using sync_pump [OF R(1-3) _ m(2), of EB EA b fuel] m(1) by (simp add: a_def b_def A1_def)
  moreover have "payload e \<in> payload ` set ea" if "e \<in> set new" for e
  proof -
    have "payload e \<in># mset (map payload new)" using that by simp
    then have "payload e \<in> fst ` set ws" unfolding fin(5) by simp
    then show ?thesis using ws(2) sg by (fastforce simp: es_def)
  qed
  moreover have "new = [] \<and> 10 < card (hashes_of (sha EA) eb) \<or>
      mset (map (sha EA \<circ> payload) new) = mset_set (hashes_of (sha EA) ea - hashes_of (sha EA) eb)"
  proof -
    have "map (sha EA) (map fst es) = map fst (receivedEdits b')" using sg by (fastforce simp: es_def)
    then have full: "mset (map (sha EA \<circ> payload) new) = mset (map fst (receivedEdits b'))" if "ws = es"
      using arg_cong [OF fin(5), of "image_mset (sha EA)"] that by (simp flip: mset_map add: comp_def)
    have empty: "receivedEdits b' = []" if "r = Null" "card (hashes_of (sha EA) eb) \<le> 10"
      using converse_small [OF fa(1) fb(1) _ m(3) _ c(1)] that assms(5)
      by (auto simp: fb(2) collectEditHashes_set hashes_of_def R(9) split: if_splits)
    show ?thesis
    proof (cases "r = Null \<and> 10 < card (hashes_of (sha EA) eb)")
      case True
      then show ?thesis using ws(4) fin(5) by simp
    next
      case False
      then have "ws = es" using c(2) ws empty by (auto simp: es_def not_less)
      then show ?thesis using full got by simp
    qed
  qed
  ultimately show ?thesis using fin by blast
qed


text \<open>
  C2: one direction of reconciliation between a peer that can sign and a peer that trusts it, or trusts anyone, ends
  within \<^verbatim>\<open>2^18\<close> rounds, and its verifications finish.  The asking peer has then appended new edits, each
  carrying a payload of the other side and its signature, and, unless the session dropped what it had received, their
  hashes are exactly those it lacked, each once; a peer of at most ten different hashes loses nothing.
\<close>

theorem sync_delivers:
  assumes "chan_sim n (chan B) (cs, tip)" "ready EA A ea kp EB B eb" "\<forall>x. length (sha EA x) = 32"
    and "no_collision (hashes_of (sha EA) ea) (hashes_of (sha EA) eb)" "2 ^ 18 \<le> fuel"
  shows "\<exists>A1 B1 B2 new. sync fuel EA EB A B = Ok (A1, B1) \<and> inDone B1 \<and>
     settle (Suc (2 * length (jobs B1))) EB B1 = Ok B2 \<and> allEdits (chan B2) = Ok (eb @ new) \<and>
     (\<forall>e \<in> set new. payload e \<in> payload ` set ea \<and>
        e = sync_edit EB B (payload e) (signEdit (pcrypto EB) (payload e) kp)) \<and>
     (new = [] \<and> 10 < card (hashes_of (sha EA) eb) \<or>
      mset (map (sha EA \<circ> payload) new) = mset_set (hashes_of (sha EA) ea - hashes_of (sha EA) eb))"
  by (rule sync_result [OF assms])

text \<open>Keys and signatures of the lengths of Ed25519, and two peers.\<close>

definition long_crypto :: crypto where
  "long_crypto = sample_crypto\<lparr>ed_public := (\<lambda>_. replicate 32 0), ed_sign := (\<lambda>d _. replicate 64 (sum_list d)),
     ed_verify := (\<lambda>sig d _. Ok (sig = replicate 64 (sum_list d)))\<rparr>"

lemma long_crypto_ok: "crypto_ok long_crypto" "key_lengths long_crypto"
  using sample_crypto_ok by (simp_all add: long_crypto_def crypto_ok_def key_lengths_def sample_crypto_def)

definition sample_penv :: "keyPair option \<Rightarrow> penv" where
  "sample_penv kp = \<lparr>sha = (\<lambda>b. byte_hash (sum_list b)), pcrypto = long_crypto, identity = kp,
     trustedKeys = Some {replicate 32 0}, now = 7\<rparr>"

definition sample_edit :: edit where
  "sample_edit = \<lparr>payload = [5], timestamp = 1, author = ''a'', channel = ''c'', origin = Local, signature = []\<rparr>"

lemma sample_channels:
  obtains ch ch' :: "unit channel" where "Channel_create ''c'' = Ok ch" "chan_sim ''c'' ch ([], [])"
    "channel_step ch (AppendEdit sample_edit) = Ok ch'" "chan_sim ''c'' ch' ([], [sample_edit])"
proof -
  obtain ch :: "unit channel" where 0: "Channel_create ''c'' = Ok ch" "chan_sim ''c'' ch ([], [])"
    using Channel_create_sim by blast
  from channel_step_sim [OF 0(2), of "AppendEdit sample_edit"] 0 show thesis by (auto intro: that)
qed

theorem sync_delivers_witness:
  "\<exists>(A :: unit peer) (B :: unit peer) A1 B1 B2 e. sync (2 ^ 18) (sample_penv (Some (ed25519KeyPairFromSeed long_crypto []))) (sample_penv None) A B = Ok (A1, B1) \<and>
     settle (Suc (2 * length (jobs B1))) (sample_penv None) B1 = Ok B2 \<and>
     allEdits (chan B) = Ok [] \<and> allEdits (chan B2) = Ok [e] \<and> payload e = [5]"
proof -
  let ?kp = "ed25519KeyPairFromSeed long_crypto []"
  let ?EA = "sample_penv (Some ?kp)" and ?EB = "sample_penv None"
  obtain ch ch' :: "unit channel" where c: "chan_sim ''c'' ch ([], [])" "chan_sim ''c'' ch' ([], [sample_edit])"
    by (rule sample_channels)
  let ?A = "createCoordinator ch' ''c'' None" and ?B = "createCoordinator ch ''c'' None"
  have es: "allEdits (chan ?A) = Ok [sample_edit]" "allEdits (chan ?B) = Ok []" "chan_sim ''c'' (chan ?B) ([], [])"
    using c allEdits_sim by (fastforce simp: createCoordinator_def abs_edits_def)+
  have "trusts ?EB ?kp" using long_crypto_ok
    by (auto simp: trusts_def sample_penv_def ed25519KeyPairFromSeed_def long_crypto_def)
  then have "ready ?EA ?A [sample_edit] ?kp ?EB ?B []" using es(1,2)
    by (simp add: ready_def sample_penv_def) (simp add: createCoordinator_def)
  moreover have "\<forall>x. length (sha ?EA x) = 32" by (simp add: sample_penv_def byte_hash_def)
  moreover have "no_collision (hashes_of (sha ?EA) [sample_edit]) (hashes_of (sha ?EA) [])"
    by (auto simp: no_collision_def range_of_def hashes_of_def)
  ultimately obtain A1 B1 B2 new where r: "sync (2 ^ 18) ?EA ?EB ?A ?B = Ok (A1, B1)"
    "settle (Suc (2 * length (jobs B1))) ?EB B1 = Ok B2" "allEdits (chan B2) = Ok new" "set (map payload new) \<subseteq> {[5]}"
    "mset (map (sha ?EA \<circ> payload) new) = mset_set {byte_hash 5}"
    using sync_delivers [OF es(3), of ?EA ?A "[sample_edit]" ?kp ?EB "[]" "2 ^ 18"]
    by (fastforce simp: hashes_of_def sample_edit_def sample_penv_def)
  have "length new = 1" using arg_cong [OF r(5), of size] by simp
  then obtain e where "new = [e]" by (auto simp: length_Suc_conv)
  then show ?thesis using r es(2) by (intro exI [of _ ?A] exI [of _ ?B] exI [of _ A1] exI [of _ B1] exI [of _ B2] exI [of _ e]) simp
qed

text \<open>
  C5: with trusted keys, whatever messages arrive and in whatever order verifications finish, an edit that was not in
  the channel before is a snapshot, which needs no signature, or one of the trusted keys signed exactly its payload.
\<close>

theorem trusted_edits_only:
  assumes "chan_sim n (chan p) a" "jobs p = []" "trustedKeys E = Some ks"
    and "foldl_res (peer_step E) p events = Ok p'" "allEdits (chan p') = Ok es" "e \<in> set es" "e \<notin> set (abs_edits a)"
  shows "author e = ''snapshot'' \<and> signature e = [] \<or>
    (\<exists>k \<in> ks. verifyEdit (pcrypto E) (signature e) (Some ks) = Some (payload e, k))"
proof -
  have "guarded E (set (abs_edits a)) (chan p) (jobs p)" using assms(1,2) unfolding guarded_def
    by (intro impI conjI exI [of _ n] exI [of _ a]) auto
  from trusting.safe_run [OF this assms(4)] obtain m b where b: "chan_sim m (chan p') b"
    "\<forall>e \<in> set (abs_edits b). e \<in> set (abs_edits a) \<or> is_snapshot e \<or> vouched E e"
    using assms(3) by (auto simp: guarded_def)
  have "es = abs_edits b" using allEdits_sim [OF b(1)] assms(5) by simp
  then have "is_snapshot e \<or> vouched E e" using b(2) assms(6,7) by blast
  then show ?thesis using assms(3) by (auto simp: is_snapshot_def vouched_def verifyEdit_def Let_def split: if_splits)
qed

definition sample_sig :: bytes where
  "sample_sig = signEdit long_crypto [5] (ed25519KeyPairFromSeed long_crypto [])"

lemma sample_events:
  assumes "chan_sim ''c'' ch ([], [])"
  shows "\<exists>ch'. and_then (foldl_res (peer_step (sample_penv None)) (createCoordinator ch ''c'' None)
      [Receive (ReconcileStart ''c'' (byte_hash 9) 1), Receive (EditBatch ''c'' [([9], sample_sig)]), Finish 0, Finish 0])
      (\<lambda>p. Ok (chan p)) = Ok ch' \<and>
    chan_sim ''c'' ch' ([], [sync_edit (sample_penv None) (createCoordinator ch ''c'' None) [5] sample_sig])"
proof -
  let ?E = "sample_penv None" and ?p = "createCoordinator ch ''c'' None"
  have es: "allEdits ch = Ok []" using allEdits_sim [OF assms] by (simp add: abs_edits_def)
  let ?s = "createSession [] zero32 ''c'' None" and ?kp = "ed25519KeyPairFromSeed long_crypto []"
  let ?p1 = "?p\<lparr>inSession := Some ?s\<rparr>"
  let ?p2 = "?p1\<lparr>inSession := Some (?s\<lparr>receivedEdits := [([9], sample_sig)]\<rparr>), jobs := [CheckSig sample_sig], inDone := True\<rparr>"
  let ?e = "sync_edit ?E ?p [5] sample_sig"
  have sig: "sample_sig \<noteq> []" "trustedKeys ?E = Some {replicate 32 0}" "pcrypto ?E = long_crypto"
    by (simp_all add: sample_sig_def signEdit_def sample_penv_def)
  have "\<exists>m. coordinator_receive ?E ?p (ReconcileStart ''c'' (byte_hash 9) 1) = Ok (?p1, m)"
    using es
    by (simp add: createCoordinator_def handleIncoming_def newSession_def collectEditHashes_def channelFingerprint_def
        createSession_def handleReconcileStart_def ensureTrie_def processResult_def buildTrie_def query_for_def byte_hash_def)
  then have 1: "peer_step ?E ?p (Receive (ReconcileStart ''c'' (byte_hash 9) 1)) = Ok ?p1" by (auto simp: and_then_simps)
  have 2: "peer_step ?E ?p1 (Receive (EditBatch ''c'' [([9], sample_sig)])) = Ok ?p2"
    using es sig
    by (simp add: createCoordinator_def handleIncoming_def createSession_def drainQueue_def processResult_def
        verifyAndApply_def apply_one_def buildEditIndex_def)
  have tr: "trusts ?E ?kp" using long_crypto_ok
    by (auto simp: trusts_def sample_penv_def ed25519KeyPairFromSeed_def long_crypto_def)
  have v: "verifyEdit long_crypto sample_sig (Some {replicate 32 0}) = Some ([5], kpPublic ?kp)"
    using trusts_verifies [OF tr, of "[5]"] unfolding sig(2,3) sample_sig_def .
  have "apply_edit (?p2\<lparr>jobs := []\<rparr>) ?e = Ok (?p2\<lparr>jobs := [CheckEnvelope ?e]\<rparr>)"
    using verified_envelope [OF v] by (simp add: apply_edit_def sync_edit_def)
  then have 3: "peer_step ?E ?p2 (Finish 0) = Ok (?p2\<lparr>jobs := [CheckEnvelope ?e]\<rparr>)"
    using v by (simp add: finish_job_def sig)
  obtain ch' where ch': "append_edit (?p2\<lparr>jobs := []\<rparr>) ?e = Ok (?p2\<lparr>jobs := [], chan := ch'\<rparr>)" "chan_sim ''c'' ch' ([], [?e])"
    using append_edit_sim [of "''c''" "?p2\<lparr>jobs := []\<rparr>" "[]" "[]" ?e] assms by (auto simp: createCoordinator_def)
  have e: "?e\<lparr>origin := Sync\<rparr> = ?e" "signature ?e = sample_sig" by (simp_all add: sync_edit_def)
  have "peer_step ?E (?p2\<lparr>jobs := [CheckEnvelope ?e]\<rparr>) (Finish 0) = Ok (?p2\<lparr>jobs := [], chan := ch'\<rparr>)"
    using v ch'(1) by (simp add: finish_job_def sig e)
  then show ?thesis using 1 2 3 ch'(2) by (simp del: peer_step.simps)
qed

theorem trusted_edits_only_witness:
  "\<exists>(p :: unit peer) p' e. foldl_res (peer_step (sample_penv None)) p
      [Receive (ReconcileStart ''c'' (byte_hash 9) 1), Receive (EditBatch ''c'' [([9], sample_sig)]), Finish 0, Finish 0] = Ok p' \<and>
     allEdits (chan p') = Ok [e] \<and> payload e = [5] \<and>
     (\<exists>k \<in> {replicate 32 0}. verifyEdit long_crypto (signature e) (Some {replicate 32 0}) = Some (payload e, k))"
proof -
  obtain ch :: "unit channel" where ch: "chan_sim ''c'' ch ([], [])" by (rule sample_channels)
  let ?E = "sample_penv None" and ?p = "createCoordinator ch ''c'' None"
  let ?e = "sync_edit ?E ?p [5] sample_sig"
  obtain p' where p': "foldl_res (peer_step ?E) ?p [Receive (ReconcileStart ''c'' (byte_hash 9) 1),
      Receive (EditBatch ''c'' [([9], sample_sig)]), Finish 0, Finish 0] = Ok p'" "chan_sim ''c'' (chan p') ([], [?e])"
    using sample_events [OF ch] by (auto simp: and_then_Ok_iff simp del: foldl_res.simps)
  have es: "allEdits (chan p') = Ok [?e]" using allEdits_sim [OF p'(2)] by (simp add: abs_edits_def)
  have "chan_sim ''c'' (chan ?p) ([], [])" "jobs ?p = []" "trustedKeys ?E = Some {replicate 32 0}"
    using ch by (simp_all add: createCoordinator_def sample_penv_def)
  from trusted_edits_only [OF this p'(1) es, of ?e]
  have "\<exists>k \<in> {replicate 32 0}. verifyEdit long_crypto (signature ?e) (Some {replicate 32 0}) = Some (payload ?e, k)"
    by (simp add: abs_edits_def) (simp add: sync_edit_def sample_penv_def)
  moreover have "payload ?e = [5]" by (simp add: sync_edit_def)
  ultimately show ?thesis using p'(1) es by blast
qed

text \<open>
  C24: an edit without a signature, such as a peer without an identity sends, is taken for a snapshot: it is recorded as
  one, whatever keys are trusted, and from then on nothing that arrives is applied.
\<close>

theorem unsigned_edit_ends_sync:
  assumes "chan_sim n (chan p) a" "jobs p = []" "\<not> snapshotApplied p"
    and "processResult E p (Edits [(pl, [])]) True = Ok (p1, ms)" "foldl_res (peer_step E) p1 events = Ok p2"
  shows "allEdits (chan p2) = Ok (abs_edits a @ [synthetic_edit n pl (now E)])"
proof -
  obtain cs tip where a: "a = (cs, tip)" by (cases a)
  obtain ch where ch: "p1 = p\<lparr>chan := ch, snapshotApplied := True, inDone := True\<rparr>"
    "chan_sim n ch (cs @ [Epoch_create tip Closed, Epoch_create [synthetic_edit n pl (now E)] Closed], [])"
    using appendSnapshot_sim [of n "chan p" cs tip pl "now E"] allEdits_sim [OF assms(1)] assms(1,3,4) a
    by (auto simp: processResult_def verifyAndApply_def apply_one_def)
  have "chan p1 = ch \<and> jobs p1 = [] \<and> snapshotApplied p1" using assms(2) by (simp add: ch(1))
  from deaf.safe_run [OF this assms(5)] have "chan p2 = ch" by blast
  then show ?thesis using allEdits_sim [OF ch(2)] by (simp add: a)
qed


theorem unsigned_edit_ends_sync_witness:
  "\<exists>(p :: unit peer) p1 p2 ms. processResult (sample_penv None) p (Edits [([5], [])]) True = Ok (p1, ms) \<and>
     foldl_res (peer_step (sample_penv None)) p1 [Receive (FullState ''c'' [6])] = Ok p2 \<and>
     allEdits (chan p2) = Ok [synthetic_edit ''c'' [5] 7]"
proof -
  obtain ch :: "unit channel" where ch: "chan_sim ''c'' ch ([], [])" by (rule sample_channels)
  let ?E = "sample_penv None" and ?p = "(createCoordinator ch ''c'' None)\<lparr>inSession := Some (createSession [] zero32 ''c'' None)\<rparr>"
  obtain ch' ev where ch': "appendSnapshot ch [5] 7 = Ok (ch', ev)" using appendSnapshot_sim [OF ch] by blast
  let ?p1 = "?p\<lparr>chan := ch', snapshotApplied := True, inDone := True\<rparr>"
  have 1: "processResult ?E ?p (Edits [([5], [])]) True = Ok (?p1, [])"
    using allEdits_sim [OF ch] ch'
    by (simp add: processResult_def verifyAndApply_def apply_one_def sample_penv_def createCoordinator_def)
  have 2: "foldl_res (peer_step ?E) ?p1 [Receive (FullState ''c'' [6])] = Ok ?p1"
    by (simp add: handleIncoming_def processResult_def verifyAndApply_def createCoordinator_def)
  have "allEdits (chan ?p1) = Ok (abs_edits ([], []) @ [synthetic_edit ''c'' [5] (now ?E)])"
    by (rule unsigned_edit_ends_sync [OF _ _ _ 1 2]) (simp_all add: ch createCoordinator_def)
  then have "allEdits (chan ?p1) = Ok [synthetic_edit ''c'' [5] 7]" by (simp add: abs_edits_def sample_penv_def)
  then show ?thesis using 1 2 by (intro exI [of _ ?p] exI [of _ ?p1] exI [of _ "[]"]) simp
qed

text \<open>
  Without trusted keys the applier checks an envelope but not that it is about the edit: any edit whose signature is
  a valid envelope of some other payload is appended as it is.
\<close>

theorem envelope_of_another_payload:
  assumes "chan_sim n (chan p) (cs, tip)" "jobs p = []" "\<not> snapshotApplied p" "trustedKeys E = None" "trusts E kp"
    and "sha E pl \<notin> hashes_of (sha E) (abs_edits (cs, tip))" "sig = signEdit (pcrypto E) other kp"
  shows "\<exists>p1 p2. processResult E p (Edits [(pl, sig)]) True = Ok (p1, []) \<and> peer_step E p1 (Finish 0) = Ok p2 \<and>
    allEdits (chan p2) = Ok (abs_edits (cs, tip) @ [sync_edit E p pl sig]) \<and>
    verifyEdit (pcrypto E) sig None = Some (other, kpPublic kp)"
proof -
  let ?e = "sync_edit E p pl sig" and ?p1 = "p\<lparr>jobs := [CheckEnvelope (sync_edit E p pl sig)], inDone := True\<rparr>"
  note es = allEdits_sim [OF assms(1)]
  have v: "verifyEdit (pcrypto E) sig None = Some (other, kpPublic kp)"
    using trusts_verifies [OF assms(5), of other] assms(4,7) by simp
  have "sig \<noteq> []" using assms(7) by (simp add: signEdit_def)
  moreover have "buildEditIndex (sha E) (abs_edits (cs, tip)) (sha E pl) = None"
    using assms(6) buildEditIndex_dom [of "sha E" "abs_edits (cs, tip)" "sha E pl"] by (auto simp: hashes_of_def)
  moreover have "apply_edit p ?e = Ok (p\<lparr>jobs := [CheckEnvelope ?e]\<rparr>)"
    using verified_envelope [OF v] assms(2) by (simp add: apply_edit_def sync_edit_def)
  ultimately have 1: "processResult E p (Edits [(pl, sig)]) True = Ok (?p1, [])"
    using es assms(3,4) by (simp add: processResult_def verifyAndApply_def apply_one_def)
  obtain ch where ch: "append_edit (?p1\<lparr>jobs := []\<rparr>) ?e = Ok (?p1\<lparr>jobs := [], chan := ch\<rparr>)" "chan_sim n ch (cs, tip @ [?e])"
    using append_edit_sim [of n "?p1\<lparr>jobs := []\<rparr>" cs tip ?e] assms(1) by auto
  have "?e\<lparr>origin := Sync\<rparr> = ?e" "signature ?e = sig" by (simp_all add: sync_edit_def)
  then have "peer_step E ?p1 (Finish 0) = Ok (?p1\<lparr>jobs := [], chan := ch\<rparr>)"
    using v ch(1) assms(4) by (simp add: finish_job_def)
  then show ?thesis using 1 allEdits_sim [OF ch(2)] v by auto
qed

end
