(* ===== verification/Bounded_Store.thy ===== *)
theory Bounded_Store
  imports Prelude
begin

text \<open>
  The two stores with a byte budget: the LRU cache of blocks (\<open>packages/protocol/src/lru-cache.ts\<close>) and the
  first-in-first-out sideband of pending snapshots (\<open>packages/core/src/ingest-snapshot.ts\<close>).  Both keep their
  entries, a running total of bytes and an order of eviction; the locale \<open>bounded_store\<close> is what they share.
\<close>

section \<open>Totals over an association list\<close>

definition omap_sum :: "('v \<Rightarrow> int) \<Rightarrow> ('k, 'v) omap \<Rightarrow> int" where
  "omap_sum f es = sum_list (map (\<lambda>p. f (snd p)) es)"

lemma omap_sum_simps [simp]: "omap_sum f [] = 0" "omap_sum f (p # es) = f (snd p) + omap_sum f es"
    "omap_sum f (es @ es') = omap_sum f es + omap_sum f es'"
  by (simp_all add: omap_sum_def)

lemma omap_sum_update:
  "omap_sum f (AList.update k v es) = omap_sum f es + f v - (case map_of es k of Some w \<Rightarrow> f w | None \<Rightarrow> 0)"
  by (induction es) auto

lemma omap_sum_delete:
  "distinct (map fst es) \<Longrightarrow> omap_sum f (AList.delete k es) = omap_sum f es - (case map_of es k of Some w \<Rightarrow> f w | None \<Rightarrow> 0)"
proof (induction es)
  case (Cons p es)
  show ?case
  proof (cases "fst p = k")
    case True
    with Cons.prems have k: "k \<notin> fst ` set es" by auto
    then have "map_of es k = None" by (simp add: map_of_eq_None_iff)
    with True k show ?thesis by (cases p) simp
  next
    case False
    with Cons show ?thesis by (cases p) simp
  qed
qed simp

lemma map_of_None_keys: "map_of es k = None \<longleftrightarrow> k \<notin> set (map fst es)"
  by (simp add: map_of_eq_None_iff)

section \<open>A store with a byte budget\<close>

text \<open>
  Putting an entry may evict others, and even the entry itself: the operation returns the evicted keys in order.
\<close>

locale bounded_store =
  fixes contents :: "'s \<Rightarrow> string \<Rightarrow> bytes option" and used :: "'s \<Rightarrow> int" and inv :: "'s \<Rightarrow> bool"
    and put :: "string \<Rightarrow> bytes \<Rightarrow> 's \<Rightarrow> 's \<times> string list" and cap :: int
  assumes put_inv: "inv s \<Longrightarrow> inv (fst (put k v s))"
    and put_cap: "inv s \<Longrightarrow> used (fst (put k v s)) \<le> max cap 0"
    and put_dom: "inv s \<Longrightarrow> dom (contents (fst (put k v s))) = insert k (dom (contents s)) - set (snd (put k v s))"
    and put_other: "inv s \<Longrightarrow> k' \<noteq> k \<Longrightarrow> k' \<notin> set (snd (put k v s)) \<Longrightarrow> contents (fst (put k v s)) k' = contents s k'"
begin

fun put_all :: "(string \<times> bytes) list \<Rightarrow> 's \<Rightarrow> 's \<times> string list" where
  "put_all [] s = (s, [])"
| "put_all (p # ps) s =
     (let (s1, e1) = put (fst p) (snd p) s; (s2, e2) = put_all ps s1 in (s2, e1 @ e2))"

lemma put_all_inv: "inv s \<Longrightarrow> inv (fst (put_all ps s))"
proof (induction ps arbitrary: s)
  case (Cons p ps)
  have "inv (fst (put (fst p) (snd p) s))" using Cons.prems by (rule put_inv)
  then show ?case using Cons.IH by (simp add: Let_def split: prod.split) (metis fst_conv)
qed simp

text \<open>Nothing is lost without being reported.\<close>

lemma put_all_accounted:
  "inv s \<Longrightarrow> dom (contents s) \<union> fst ` set ps \<subseteq> dom (contents (fst (put_all ps s))) \<union> set (snd (put_all ps s))"
proof (induction ps arbitrary: s)
  case (Cons p ps)
  obtain s1 e1 where 1: "put (fst p) (snd p) s = (s1, e1)" by force
  obtain s2 e2 where 2: "put_all ps s1 = (s2, e2)" by force
  have "inv s1" using put_inv [OF Cons.prems, of "fst p" "snd p"] 1 by simp
  then have "dom (contents s1) \<union> fst ` set ps \<subseteq> dom (contents s2) \<union> set e2"
    using Cons.IH [of s1] 2 by simp
  moreover have "dom (contents s1) = insert (fst p) (dom (contents s)) - set e1"
    using put_dom [OF Cons.prems, of "fst p" "snd p"] 1 by simp
  ultimately show ?case by (simp add: 1 2) blast
qed simp

end

section \<open>The LRU cache\<close>

text \<open>
  The doubly linked list is the list of its keys from the most recent one, the \<^verbatim>\<open>Map\<close> of nodes an association
  list; a node carries the size it was stored with.  Eviction is the loop of the code.
\<close>

record lnode =
  lvalue :: bytes
  lsize :: int

record lru =
  nodes :: "(string, lnode) omap"
  order :: "string list"
  lbytes :: int

definition createLruCache :: lru where
  "createLruCache = \<lparr>nodes = [], order = [], lbytes = 0\<rparr>"

definition touch :: "string \<Rightarrow> string list \<Rightarrow> string list" where
  "touch k ks = k # remove1 k ks"

function evictToFit :: "int \<Rightarrow> lru \<Rightarrow> lru \<times> string list" where
  "evictToFit maxBytes c =
     (if maxBytes < lbytes c \<and> order c \<noteq> [] then
        let k = last (order c);
            c1 = c\<lparr>order := butlast (order c), nodes := AList.delete k (nodes c),
                   lbytes := lbytes c - (case map_of (nodes c) k of Some n \<Rightarrow> lsize n | None \<Rightarrow> 0)\<rparr>;
            (c2, ev) = evictToFit maxBytes c1
        in (c2, k # ev)
      else (c, []))"
  by pat_completeness auto
termination
  by (relation "measure (\<lambda>(_, c). length (order c))") auto

declare evictToFit.simps [simp del]

definition lru_get :: "string \<Rightarrow> lru \<Rightarrow> lru \<times> bytes option" where
  "lru_get k c = (case map_of (nodes c) k of
      None \<Rightarrow> (c, None)
    | Some n \<Rightarrow> (c\<lparr>order := touch k (order c)\<rparr>, Some (lvalue n)))"

definition lru_set :: "int \<Rightarrow> string \<Rightarrow> bytes \<Rightarrow> lru \<Rightarrow> lru \<times> string list" where
  "lru_set maxBytes k v c =
     (let n = \<lparr>lvalue = v, lsize = int (length v)\<rparr> in
      evictToFit maxBytes (case map_of (nodes c) k of
        Some old \<Rightarrow> c\<lparr>nodes := AList.update k n (nodes c), order := touch k (order c),
                       lbytes := lbytes c - lsize old + lsize n\<rparr>
      | None \<Rightarrow> c\<lparr>nodes := AList.update k n (nodes c), order := k # order c, lbytes := lbytes c + lsize n\<rparr>))"

definition lru_has :: "string \<Rightarrow> lru \<Rightarrow> bool" where
  "lru_has k c \<longleftrightarrow> map_of (nodes c) k \<noteq> None"

definition lru_delete :: "string \<Rightarrow> lru \<Rightarrow> lru \<times> bool" where
  "lru_delete k c = (case map_of (nodes c) k of
      None \<Rightarrow> (c, False)
    | Some n \<Rightarrow> (c\<lparr>order := remove1 k (order c), nodes := AList.delete k (nodes c), lbytes := lbytes c - lsize n\<rparr>, True))"

definition lru_inv :: "lru \<Rightarrow> bool" where
  "lru_inv c \<longleftrightarrow> distinct (map fst (nodes c)) \<and> distinct (order c) \<and> set (order c) = set (map fst (nodes c)) \<and>
     (\<forall>p \<in> set (nodes c). lsize (snd p) = int (length (lvalue (snd p)))) \<and> lbytes c = omap_sum lsize (nodes c)"

definition lru_contents :: "lru \<Rightarrow> string \<Rightarrow> bytes option" where
  "lru_contents c k = map_option lvalue (map_of (nodes c) k)"

lemma lru_inv_create: "lru_inv createLruCache"
  by (simp add: lru_inv_def createLruCache_def)

lemma keys_update: "set (map fst (AList.update k v es)) = insert k (set (map fst es))"
  by (induction es) auto

lemma keys_delete: "set (map fst (AList.delete k es)) = set (map fst es) - {k}"
  by (auto simp: AList.delete_eq)

lemma lru_inv_evict_one:
  assumes "lru_inv c" "order c \<noteq> []" "k = last (order c)"
  shows "lru_inv (c\<lparr>order := butlast (order c), nodes := AList.delete k (nodes c),
     lbytes := lbytes c - (case map_of (nodes c) k of Some n \<Rightarrow> lsize n | None \<Rightarrow> 0)\<rparr>)"
proof -
  have "order c = butlast (order c) @ [k]" using assms by simp
  then have "distinct (butlast (order c))" "set (butlast (order c)) = set (order c) - {k}"
    using assms(1) unfolding lru_inv_def
    by (metis distinct_butlast, metis (no_types, lifting) Diff_insert_absorb Un_insert_right distinct_append
        distinct.simps(2) list.simps(15) not_distinct_conv_prefix set_append sup_bot_right append_Nil2 empty_set)
  then show ?thesis
    using assms(1) by (auto simp: lru_inv_def keys_delete distinct_delete omap_sum_delete simp del: set_map
        dest: set_delete_subset [THEN subsetD])
qed


definition evict_one :: "lru \<Rightarrow> lru" where
  "evict_one c = (let k = last (order c) in c\<lparr>order := butlast (order c), nodes := AList.delete k (nodes c),
     lbytes := lbytes c - (case map_of (nodes c) k of Some n \<Rightarrow> lsize n | None \<Rightarrow> 0)\<rparr>)"

lemma evict_stop: "\<not> (m < lbytes c \<and> order c \<noteq> []) \<Longrightarrow> evictToFit m c = (c, [])"
  by (subst evictToFit.simps) auto

lemma evict_step: "m < lbytes c \<Longrightarrow> order c \<noteq> [] \<Longrightarrow>
    evictToFit m c = (fst (evictToFit m (evict_one c)), last (order c) # snd (evictToFit m (evict_one c)))"
  by (subst evictToFit.simps) (simp add: evict_one_def Let_def split: prod.split)

lemma lru_inv_evict_one': "lru_inv c \<Longrightarrow> order c \<noteq> [] \<Longrightarrow> lru_inv (evict_one c)"
  using lru_inv_evict_one by (simp add: evict_one_def Let_def)

lemma evict_induct [consumes 1, case_names stop step]:
  assumes "lru_inv c"
    and "\<And>c. lru_inv c \<Longrightarrow> \<not> (m < lbytes c \<and> order c \<noteq> []) \<Longrightarrow> P c (c, [])"
    and "\<And>c c' ev. lru_inv c \<Longrightarrow> lru_inv (evict_one c) \<Longrightarrow> m < lbytes c \<Longrightarrow> order c \<noteq> [] \<Longrightarrow>
      P (evict_one c) (c', ev) \<Longrightarrow> P c (c', last (order c) # ev)"
  shows "P c (evictToFit m c)"
  using assms(1)
proof (induction "length (order c)" arbitrary: c rule: less_induct)
  case less
  show ?case
  proof (cases "m < lbytes c \<and> order c \<noteq> []")
    case True
    then have "length (order (evict_one c)) < length (order c)" by (simp add: evict_one_def Let_def)
    then have "P (evict_one c) (fst (evictToFit m (evict_one c)), snd (evictToFit m (evict_one c)))"
      using less lru_inv_evict_one' True by simp
    then show ?thesis
      using assms(3) [OF less.prems lru_inv_evict_one'] True less.prems by (simp add: evict_step)
  next
    case False
    then show ?thesis using assms(2) [OF less.prems] by (simp add: evict_stop)
  qed
qed

lemma lru_inv_evict: "lru_inv c \<Longrightarrow> lru_inv (fst (evictToFit m c))"
  by (induction rule: evict_induct) simp_all

text \<open>
  What eviction does to the order: it keeps the longest prefix, the most recent entries, that fits the budget, and
  reports the rest from the least recent one.
\<close>

definition lru_sizes :: "lru \<Rightarrow> string list \<Rightarrow> int" where
  "lru_sizes c ks = sum_list (map (\<lambda>k. case map_of (nodes c) k of Some n \<Rightarrow> lsize n | None \<Rightarrow> 0) ks)"

lemma lru_bytes_order: "lru_inv c \<Longrightarrow> lbytes c = lru_sizes c (order c)"
proof -
  assume i: "lru_inv c"
  have d: "distinct (map fst (nodes c))" using i by (simp add: lru_inv_def)
  have "omap_sum lsize (nodes c) = sum_list (map (\<lambda>k. case map_of (nodes c) k of Some n \<Rightarrow> lsize n | None \<Rightarrow> 0) (map fst (nodes c)))"
    unfolding omap_sum_def map_map o_def
    by (rule arg_cong [where f = sum_list], rule map_cong) (use d in \<open>auto simp: map_of_eq_Some_iff\<close>)
  also have "\<dots> = lru_sizes c (order c)"
    unfolding lru_sizes_def using i d
    by (simp only: lru_inv_def sum_list_distinct_conv_sum_set)
  finally show ?thesis using i by (simp add: lru_inv_def)
qed


lemma lru_sizes_cong: "(\<And>k. k \<in> set ks \<Longrightarrow> map_of (nodes c) k = map_of (nodes d) k) \<Longrightarrow> lru_sizes c ks = lru_sizes d ks"
  unfolding lru_sizes_def by (rule arg_cong [where f = sum_list], rule map_cong) simp_all

definition evict_spec :: "int \<Rightarrow> lru \<Rightarrow> nat \<Rightarrow> lru \<times> string list \<Rightarrow> bool" where
  "evict_spec m c n r \<longleftrightarrow> n \<le> length (order c) \<and> order (fst r) = take n (order c) \<and> snd r = rev (drop n (order c)) \<and>
     (\<forall>k. map_of (nodes (fst r)) k = (if k \<in> set (take n (order c)) then map_of (nodes c) k else None)) \<and>
     lbytes (fst r) \<le> max m 0 \<and> (n < length (order c) \<longrightarrow> m < lru_sizes c (take (Suc n) (order c)))"

lemma evict_exact: "lru_inv c \<Longrightarrow> \<exists>n. evict_spec m c n (evictToFit m c)"
proof (induction rule: evict_induct [where m = m])
  case (stop c)
  have "map_of (nodes c) k = None" if "k \<notin> set (order c)" for k
    using stop(1) that by (simp add: lru_inv_def map_of_eq_None_iff)
  moreover have "lbytes c \<le> max m 0"
    using stop lru_bytes_order [OF stop(1)] by (auto simp: lru_sizes_def max_def)
  ultimately have "evict_spec m c (length (order c)) (c, [])" by (simp add: evict_spec_def)
  then show ?case by blast
next
  case (step c c' ev)
  obtain n where n: "evict_spec m (evict_one c) n (c', ev)" using step(5) by blast
  obtain os k where o: "order c = os @ [k]" using step(4) by (metis rev_exhaust)
  have ord: "order (evict_one c) = os" by (simp add: evict_one_def Let_def o)
  have k: "k \<notin> set os" using step(1) o by (simp add: lru_inv_def)
  have nd: "map_of (nodes (evict_one c)) j = (if j = k then None else map_of (nodes c) j)" for j
    by (simp add: evict_one_def Let_def o delete_conv')
  have le: "n \<le> length os" using n ord by (simp add: evict_spec_def)
  have "m < lru_sizes c (take (Suc n) (order c))" if "n < length (order c)"
  proof (cases "n = length os")
    case True
    then show ?thesis using step(3) lru_bytes_order [OF step(1)] o by simp
  next
    case False
    then have "m < lru_sizes (evict_one c) (take (Suc n) os)" using n ord le by (simp add: evict_spec_def)
    also have "\<dots> = lru_sizes c (take (Suc n) os)"
      by (rule lru_sizes_cong) (use k nd in \<open>auto dest: in_set_takeD\<close>)
    finally show ?thesis using False le o by simp
  qed
  moreover have "map_of (nodes c') j = (if j \<in> set (take n os) then map_of (nodes c) j else None)" for j
    using n k nd by (auto simp: evict_spec_def ord dest: in_set_takeD)
  ultimately have "evict_spec m c n (c', last (order c) # ev)"
    using n le by (simp add: evict_spec_def ord o)
  then show ?case by blast
qed

definition lru_put :: "string \<Rightarrow> bytes \<Rightarrow> lru \<Rightarrow> lru" where
  "lru_put k v c =
     (let n = \<lparr>lvalue = v, lsize = int (length v)\<rparr> in
      c\<lparr>nodes := AList.update k n (nodes c), order := touch k (order c),
        lbytes := lbytes c - (case map_of (nodes c) k of Some old \<Rightarrow> lsize old | None \<Rightarrow> 0) + lsize n\<rparr>)"

lemma lru_set_eq: "lru_inv c \<Longrightarrow> lru_set m k v c = evictToFit m (lru_put k v c)"
proof -
  assume "lru_inv c"
  then have "remove1 k (order c) = order c" if "map_of (nodes c) k = None"
    using that by (simp add: lru_inv_def map_of_eq_None_iff remove1_idem)
  then show ?thesis
    by (auto simp: lru_set_def lru_put_def Let_def touch_def split: option.split)
qed

lemma lru_inv_put: "lru_inv c \<Longrightarrow> lru_inv (lru_put k v c)"
proof -
  assume i: "lru_inv c"
  let ?n = "\<lparr>lvalue = v, lsize = int (length v)\<rparr>"
  have "\<forall>p \<in> set (AList.update k ?n (nodes c)). lsize (snd p) = int (length (lvalue (snd p)))"
    using i by (intro update_all) (simp_all add: lru_inv_def)
  moreover have "set (touch k (order c)) = insert k (set (order c))" "distinct (touch k (order c))"
    using i by (auto simp: touch_def lru_inv_def)
  ultimately show ?thesis using i
    by (simp add: lru_inv_def lru_put_def Let_def distinct_update keys_update omap_sum_update del: set_map)
qed

lemma lru_set_spec:
  assumes "lru_inv c" "lru_set m k v c = (c', ev)"
  shows "lru_inv c' \<and> lbytes c' \<le> max m 0 \<and>
    (\<exists>n \<le> length (touch k (order c)).
       order c' = take n (touch k (order c)) \<and> ev = rev (drop n (touch k (order c))) \<and>
       (\<forall>j. lru_contents c' j = (if j \<in> set (order c') then if j = k then Some v else lru_contents c j else None)) \<and>
       (n < length (touch k (order c)) \<longrightarrow> m < lru_sizes (lru_put k v c) (take (Suc n) (touch k (order c)))))"
proof -
  let ?c = "lru_put k v c"
  have i: "lru_inv ?c" by (rule lru_inv_put [OF assms(1)])
  have e: "evictToFit m ?c = (c', ev)" using assms by (simp add: lru_set_eq)
  obtain n where n: "evict_spec m ?c n (c', ev)" using evict_exact [OF i, of m] e by auto
  have o: "order ?c = touch k (order c)" by (simp add: lru_put_def Let_def)
  have con: "lru_contents ?c j = (if j = k then Some v else lru_contents c j)" for j
    by (simp add: lru_contents_def lru_put_def Let_def update_conv')
  have con': "lru_contents c' j = (if j \<in> set (order c') then lru_contents ?c j else None)" for j
    using n by (simp add: evict_spec_def lru_contents_def)
  have "lru_inv c'" using lru_inv_evict [OF i, of m] e by simp
  then show ?thesis using n unfolding con' con by (auto simp: evict_spec_def o)
qed

text \<open>
  Storing a block in the LRU cache makes it the most recent one, keeps the longest prefix of the order of
  recency that fits the byte budget with exactly its old values, evicts the rest from the least recent one and
  reports it; the byte counter stays exact and within the budget.
\<close>

theorem lru_set_exact:
  assumes "lru_inv c" "lru_set m k v c = (c', ev)"
  shows "lru_inv c' \<and> lbytes c' \<le> max m 0 \<and>
    (\<exists>n \<le> length (touch k (order c)).
       order c' = take n (touch k (order c)) \<and> ev = rev (drop n (touch k (order c))) \<and>
       (\<forall>j. lru_contents c' j = (if j \<in> set (order c') then if j = k then Some v else lru_contents c j else None)) \<and>
       (n < length (touch k (order c)) \<longrightarrow> m < lru_sizes (lru_put k v c) (take (Suc n) (touch k (order c)))))"
  by (rule lru_set_spec [OF assms])

theorem lru_set_exact_witness:
  "\<exists>c' ev. lru_set 3 ''c'' [1, 2] (fst (lru_set 3 ''b'' [2] (fst (lru_set 3 ''a'' [1, 1] createLruCache)))) = (c', ev) \<and>
     lbytes c' \<le> 3 \<and> ev = [''a''] \<and> lru_contents c' ''b'' = Some [2]"
proof -
  let ?c = "fst (lru_set 3 ''b'' [2] (fst (lru_set 3 ''a'' [1, 1] createLruCache)))"
  have c: "?c = \<lparr>nodes = [(''a'', \<lparr>lvalue = [1, 1], lsize = 2\<rparr>), (''b'', \<lparr>lvalue = [2], lsize = 1\<rparr>)],
      order = [''b'', ''a''], lbytes = 3\<rparr>"
    by (simp add: lru_set_def createLruCache_def evict_stop)
  have i: "lru_inv ?c" unfolding c by (auto simp: lru_inv_def)
  have s: "lru_set 3 ''c'' [1, 2] ?c = (\<lparr>nodes = [(''b'', \<lparr>lvalue = [2], lsize = 1\<rparr>), (''c'', \<lparr>lvalue = [1, 2], lsize = 2\<rparr>)],
      order = [''c'', ''b''], lbytes = 3\<rparr>, [''a''])"
    unfolding c by (simp add: lru_set_def evict_step evict_stop evict_one_def)
  show ?thesis using lru_set_exact [OF i s] s by (auto simp: lru_contents_def)
qed

lemma lru_dom: "lru_inv c \<Longrightarrow> dom (lru_contents c) = set (order c)"
proof -
  assume "lru_inv c"
  then have "set (order c) = dom (map_of (nodes c))" by (simp add: lru_inv_def dom_map_of_conv_image_fst)
  then show ?thesis by (auto simp: lru_contents_def)
qed


lemma lru_set_dom:
  assumes "lru_inv c" "lru_set m k v c = (c', ev)"
  shows "dom (lru_contents c') = insert k (dom (lru_contents c)) - set ev"
proof -
  obtain n where n: "order c' = take n (touch k (order c))" "ev = rev (drop n (touch k (order c)))" and i: "lru_inv c'"
    using lru_set_spec [OF assms] by blast
  have "distinct (touch k (order c))" "set (touch k (order c)) = insert k (set (order c))"
    using assms(1) by (auto simp: touch_def lru_inv_def)
  moreover have "set xs = set (take n xs) \<union> set (drop n xs)" for xs :: "string list"
    by (metis append_take_drop_id set_append)
  ultimately have "set (take n (touch k (order c))) = insert k (set (order c)) - set (drop n (touch k (order c)))"
    using set_take_disj_set_drop_if_distinct [of "touch k (order c)" n n] by blast
  then show ?thesis by (simp add: lru_dom [OF i] lru_dom [OF assms(1)] n)
qed

interpretation lru_store: bounded_store lru_contents lbytes lru_inv "lru_set m" m for m
proof
  fix s k v k'
  assume i: "lru_inv s"
  obtain c' ev where e: "lru_set m k v s = (c', ev)" by force
  note spec = lru_set_spec [OF i e]
  show "lru_inv (fst (lru_set m k v s))" "lbytes (fst (lru_set m k v s)) \<le> max m 0" using spec e by simp_all
  show d: "dom (lru_contents (fst (lru_set m k v s))) = insert k (dom (lru_contents s)) - set (snd (lru_set m k v s))"
    using lru_set_dom [OF i e] e by simp
  show "lru_contents (fst (lru_set m k v s)) k' = lru_contents s k'"
    if "k' \<noteq> k" "k' \<notin> set (snd (lru_set m k v s))"
  proof (cases "k' \<in> set (order c')")
    case True
    then show ?thesis using spec that(1) e by auto
  next
    case False
    then have "k' \<notin> dom (lru_contents c')" using spec lru_dom by blast
    moreover from this have "k' \<notin> dom (lru_contents s)" using that d e by auto
    ultimately show ?thesis using e by (simp add: domIff)
  qed
qed

section \<open>The sideband\<close>

text \<open>
  Entries in order of arrival; the cap on their number is a natural number.  The loop evicts from the front until
  both caps hold and may in the end evict the entry just added.
\<close>

record sideband =
  pending :: "(string, bytes) omap"
  sbytes :: int

definition createPendingSideband :: sideband where
  "createPendingSideband = \<lparr>pending = [], sbytes = 0\<rparr>"

fun evict_while :: "nat \<Rightarrow> int \<Rightarrow> (string, bytes) omap \<Rightarrow> int \<Rightarrow> sideband \<times> (string \<times> bytes) list" where
  "evict_while maxEntries maxBytes [] b = (\<lparr>pending = [], sbytes = b\<rparr>, [])"
| "evict_while maxEntries maxBytes (p # ps) b =
     (if maxEntries < length (p # ps) \<or> maxBytes < b then
        let (s, ev) = evict_while maxEntries maxBytes ps (b - int (length (snd p))) in (s, p # ev)
      else (\<lparr>pending = p # ps, sbytes = b\<rparr>, []))"

definition sideband_has :: "string \<Rightarrow> sideband \<Rightarrow> bool" where
  "sideband_has k s \<longleftrightarrow> map_of (pending s) k \<noteq> None"

definition sideband_add :: "nat \<Rightarrow> int \<Rightarrow> string \<Rightarrow> bytes \<Rightarrow> sideband \<Rightarrow> sideband \<times> (string \<times> bytes) list" where
  "sideband_add maxEntries maxBytes k d s =
     (if sideband_has k s then (s, [])
      else evict_while maxEntries maxBytes (AList.update k d (pending s)) (sbytes s + int (length d)))"

definition sideband_remove :: "string \<Rightarrow> sideband \<Rightarrow> sideband" where
  "sideband_remove k s = (case map_of (pending s) k of
      None \<Rightarrow> s
    | Some d \<Rightarrow> \<lparr>pending = AList.delete k (pending s), sbytes = sbytes s - int (length d)\<rparr>)"

definition bsize :: "bytes \<Rightarrow> int" where "bsize d = int (length d)"

definition sideband_inv :: "nat \<Rightarrow> int \<Rightarrow> sideband \<Rightarrow> bool" where
  "sideband_inv maxEntries maxBytes s \<longleftrightarrow> distinct (map fst (pending s)) \<and> sbytes s = omap_sum bsize (pending s) \<and>
     length (pending s) \<le> maxEntries \<and> sbytes s \<le> max maxBytes 0"

lemma omap_sum_nonneg: "0 \<le> omap_sum bsize es"
  by (induction es) (simp_all add: bsize_def)

lemma evict_while_spec:
  "b = omap_sum bsize ps \<Longrightarrow> distinct (map fst ps) \<Longrightarrow> \<exists>n. evict_while me mb ps b = (\<lparr>pending = drop n ps, sbytes = omap_sum bsize (drop n ps)\<rparr>, take n ps) \<and>
     n \<le> length ps \<and> sideband_inv me mb (fst (evict_while me mb ps b)) \<and>
     (\<forall>k < n. me < length (drop k ps) \<or> mb < omap_sum bsize (drop k ps))"
proof (induction ps arbitrary: b)
  case (Cons p ps)
  show ?case
  proof (cases "me < length (p # ps) \<or> mb < b")
    case True
    have b: "b - int (length (snd p)) = omap_sum bsize ps"
      using Cons.prems(1) bsize_def [of "snd p"] by simp
    obtain n where n: "evict_while me mb ps (b - int (length (snd p))) =
        (\<lparr>pending = drop n ps, sbytes = omap_sum bsize (drop n ps)\<rparr>, take n ps)" "n \<le> length ps"
        "sideband_inv me mb (fst (evict_while me mb ps (b - int (length (snd p)))))"
        "\<forall>k < n. me < length (drop k ps) \<or> mb < omap_sum bsize (drop k ps)"
      using Cons.IH [OF b] Cons.prems(2) by auto
    have "\<forall>k < Suc n. me < length (drop k (p # ps)) \<or> mb < omap_sum bsize (drop k (p # ps))"
      using n(4) True Cons.prems(1) by (auto simp: less_Suc_eq_0_disj)
    then show ?thesis using n True by (intro exI [of _ "Suc n"]) simp
  next
    case False
    then show ?thesis using Cons.prems by (intro exI [of _ 0]) (simp add: sideband_inv_def max_def)
  qed
qed (simp add: sideband_inv_def)

lemma sideband_add_spec:
  assumes "sideband_inv me mb s" "\<not> sideband_has k s"
  shows "\<exists>n. sideband_add me mb k d s =
      (\<lparr>pending = drop n (pending s @ [(k, d)]), sbytes = omap_sum bsize (drop n (pending s @ [(k, d)]))\<rparr>,
       take n (pending s @ [(k, d)])) \<and> n \<le> length (pending s @ [(k, d)]) \<and>
     sideband_inv me mb (fst (sideband_add me mb k d s)) \<and>
     (\<forall>j < n. me < length (drop j (pending s @ [(k, d)])) \<or> mb < omap_sum bsize (drop j (pending s @ [(k, d)])))"
proof -
  have k: "k \<notin> fst ` set (pending s)" using assms(2) by (simp add: sideband_has_def map_of_eq_None_iff)
  then have u: "AList.update k d (pending s) = pending s @ [(k, d)]" by (rule update_absent)
  have "sbytes s + int (length d) = omap_sum bsize (pending s @ [(k, d)])"
    using assms(1) bsize_def [of d] by (simp add: sideband_inv_def)
  moreover have "distinct (map fst (pending s @ [(k, d)]))" using assms(1) k by (simp add: sideband_inv_def)
  ultimately show ?thesis
    using evict_while_spec [of _ "pending s @ [(k, d)]" me mb] assms(2) by (simp add: sideband_add_def u)
qed


definition sideband_put :: "nat \<Rightarrow> int \<Rightarrow> string \<Rightarrow> bytes \<Rightarrow> sideband \<Rightarrow> sideband \<times> string list" where
  "sideband_put me mb k d s = (let (s', ev) = sideband_add me mb k d s in (s', map fst ev))"

lemma sideband_split:
  assumes "distinct (map fst es)"
  shows "dom (map_of (drop n es)) = dom (map_of es) - fst ` set (take n es)"
    and "k \<notin> fst ` set (take n es) \<Longrightarrow> map_of (drop n es) k = map_of es k"
proof -
  have es: "es = take n es @ drop n es" by simp
  then have "set (map fst (take n es)) \<inter> set (map fst (drop n es)) = {}"
    by (metis assms distinct_append map_append)
  then have "fst ` set (take n es) \<inter> fst ` set (drop n es) = {}" by simp
  moreover have "fst ` set es = fst ` set (take n es) \<union> fst ` set (drop n es)"
    by (subst es) (simp only: set_append image_Un)
  ultimately show "dom (map_of (drop n es)) = dom (map_of es) - fst ` set (take n es)"
    by (simp only: dom_map_of_conv_image_fst) blast
  show "map_of (drop n es) k = map_of es k" if "k \<notin> fst ` set (take n es)"
  proof -
    have "map_of (take n es) k = None" using that by (simp add: map_of_eq_None_iff)
    moreover have "map_of es k = (map_of (drop n es) ++ map_of (take n es)) k"
      by (simp only: map_of_append [symmetric] append_take_drop_id)
    ultimately show ?thesis by (simp add: map_add_def)
  qed
qed

interpretation sideband_store: bounded_store "\<lambda>s. map_of (pending s)" sbytes "sideband_inv me mb" "sideband_put me mb" mb
  for me mb
proof
  fix s k v k'
  assume i: "sideband_inv me mb s"
  have "sideband_inv me mb (fst (sideband_put me mb k v s)) \<and>
     dom (map_of (pending (fst (sideband_put me mb k v s)))) =
       insert k (dom (map_of (pending s))) - set (snd (sideband_put me mb k v s)) \<and>
     (k' \<noteq> k \<longrightarrow> k' \<notin> set (snd (sideband_put me mb k v s)) \<longrightarrow>
       map_of (pending (fst (sideband_put me mb k v s))) k' = map_of (pending s) k')"
  proof (cases "sideband_has k s")
    case True
    then have "k \<in> dom (map_of (pending s))" by (auto simp: sideband_has_def)
    then have "insert k (dom (map_of (pending s))) = dom (map_of (pending s))" by (rule insert_absorb)
    with True i show ?thesis by (simp add: sideband_put_def sideband_add_def)
  next
    case False
    define es where "es = pending s @ [(k, v)]"
    have d: "distinct (map fst es)"
      using False i by (simp add: sideband_has_def map_of_eq_None_iff sideband_inv_def es_def)
    obtain n where n: "sideband_add me mb k v s = (\<lparr>pending = drop n es, sbytes = omap_sum bsize (drop n es)\<rparr>, take n es)"
        "sideband_inv me mb (fst (sideband_add me mb k v s))"
      using sideband_add_spec [OF i False, of v] unfolding es_def by blast
    have "map_of es k' = map_of (pending s) k'" if "k' \<noteq> k"
      using that by (simp add: es_def map_add_def split: option.split)
    moreover have "dom (map_of es) = insert k (dom (map_of (pending s)))"
      by (simp add: es_def dom_map_of_conv_image_fst)
    ultimately show ?thesis
      using n sideband_split [OF d, where n = n] by (simp add: sideband_put_def)
  qed
  then show "sideband_inv me mb (fst (sideband_put me mb k v s))"
    "dom (map_of (pending (fst (sideband_put me mb k v s)))) =
       insert k (dom (map_of (pending s))) - set (snd (sideband_put me mb k v s))"
    "k' \<noteq> k \<Longrightarrow> k' \<notin> set (snd (sideband_put me mb k v s)) \<Longrightarrow>
       map_of (pending (fst (sideband_put me mb k v s))) k' = map_of (pending s) k'"
    by simp_all
  then show "sbytes (fst (sideband_put me mb k v s)) \<le> max mb 0" by (simp add: sideband_inv_def)
qed

lemma sideband_remove_inv: "sideband_inv me mb s \<Longrightarrow> sideband_inv me mb (sideband_remove k s)"
proof (cases "map_of (pending s) k")
  case (Some d)
  assume i: "sideband_inv me mb s"
  have "length (AList.delete k (pending s)) \<le> length (pending s)" by (rule length_delete_le)
  moreover have "sbytes s - int (length d) = omap_sum bsize (AList.delete k (pending s))"
    using i Some bsize_def [of d] by (simp add: sideband_inv_def omap_sum_delete)
  ultimately show ?thesis using i Some by (simp add: sideband_remove_def sideband_inv_def distinct_delete)
qed (simp add: sideband_remove_def)

end
