(* ===== verification/Facts.thy ===== *)
theory Facts
  imports Prelude
begin

text \<open>
  The fact stream of a document (\<open>packages/core/src/facts.ts\<close>): the facts, the state they are folded into,
  the initial state and the read-only views.  Sequence numbers and times are integers, \<^verbatim>\<open>undefined\<close> and
  \<^verbatim>\<open>null\<close> are \<open>None\<close>, a \<^verbatim>\<open>Map\<close> is an insertion-ordered association list, and the wall clock an argument.
\<close>

section \<open>Facts\<close>

datatype cidSource = Gossipsub | Ipns | HttpTip | Reannounce | ChainWalk | PinnerIndex | FromCache | Catalog

datatype syncStatus = SyncConnecting | SyncConnected | SyncDisconnected

datatype docStatus = DocConnecting | DocSynced | DocReceiving | DocOffline

datatype saveState = Saved | Unpublished | Saving | Dirty | SaveError

datatype docRole = Admin | Writer | Reader

datatype gossipActivity = Inactive | Subscribed | Receiving

datatype editOrigin = OriginLocal | OriginRemote

text \<open>
  The constructors carry the time stamp first and then the fields in the order of the source; of a changed
  node only the peer matters to the state.
\<close>

datatype fact =
    CidDiscovered int cid cidSource "bytes option" "int option" "int option"
  | BlockFetchStarted int cid
  | BlockFetched int cid bytes "cid option" "int option" "int option"
  | BlockFetchFailed int cid int string
  | TipAdvanced int cid int
  | Announced int cid int
  | AckReceived int cid string
  | GuaranteeReceived int string cid int int
  | GossipMessage int
  | GossipSubscribed int
  | NodeChange int string
  | SyncStatusChanged int syncStatus
  | AwarenessStatusChanged int bool
  | RelayConnected int string
  | RelayDisconnected int string
  | ContentDirty int int
  | PublishStarted int
  | PublishSucceeded int cid int
  | PublishFailed int string
  | EpochClosed int string int
  | ConvergenceDetected int string bytes
  | SnapshotMaterialized int string int cid int
  | EditReceived int string bytes editOrigin
  | EditVerified int string bytes bytes
  | ViewCacheLoaded int string int
  | ViewCacheWritten int string int
  | PinnerDiscovered int string
  | GuaranteeQuerySent int string
  | GuaranteeQueryResponded int string
  | IpnsResolveStarted int
  | IpnsResolveCompleted int "cid option"
  | BlockRetryReset int cid
  | ReannounceTick int
  | Tick int

section \<open>State\<close>

datatype blockStatus = Unknown | Fetching | Fetched | Applied | Failed

record guarantee =
  guaranteeUntil :: int
  retainUntil :: int

record chainEntry =
  ecid :: cid
  eseq :: "int option"
  ets :: "int option"
  discoveredVia :: "cidSource set"
  blockStatus :: blockStatus
  fetchAttempt :: int
  fetchStartedAt :: "int option"
  lastError :: "string option"
  eprev :: "cid option"
  guarantees :: "(string, guarantee) omap"
  ackedBy :: "string set"

record chainState =
  entries :: "(cid, chainEntry) omap"
  tip :: "cid option"
  applying :: "cid option"
  newestFetched :: "cid option"
  maxSeq :: int

record gossipState =
  activity :: gossipActivity
  subscribed :: bool
  lastMessageAt :: int

record connectivity =
  syncStatus :: syncStatus
  awarenessConnected :: bool
  gossip :: gossipState
  relayPeers :: "string set"
  knownPinnerPids :: "string set"
  createdAt :: "int option"

record contentState =
  clockSum :: int
  isDirty :: bool
  isSaving :: bool
  ipnsSeq :: "int option"
  lastSaveError :: "string option"

record announceState =
  lastAnnouncedCid :: "cid option"
  lastAnnounceAt :: int
  lastGuaranteeQueryAt :: int

record channelEpochState =
  openEpochCount :: int
  lastConvergenceHash :: "bytes option"
  dirty :: bool

record epochState =
  channels :: "(string, channelEpochState) omap"
  viewCacheStale :: "string set"
  pendingSnapshots :: "(string \<times> int) set"

record snapshotRecord =
  rcid :: cid
  rseq :: int
  rts :: int
  rchannel :: string
  repochIndex :: int

datatype ipnsStatus = IpnsIdle | IpnsResolving int | IpnsResolved cid int

record docIdentity =
  ipnsName :: string
  role :: docRole
  ichannels :: "string list"
  appId :: string

record docState =
  identity :: docIdentity
  chain :: chainState
  connectivity :: connectivity
  content :: contentState
  announce :: announceState
  epochs :: epochState
  pendingQueries :: "(string, int) omap"
  ipnsStatus :: ipnsStatus
  snapshotHistory :: "snapshotRecord list"
  status :: docStatus
  saveState :: saveState

section \<open>The initial state\<close>

definition INITIAL_GOSSIP :: gossipState where
  "INITIAL_GOSSIP = \<lparr>activity = Inactive, subscribed = False, lastMessageAt = 0\<rparr>"

definition INITIAL_CONNECTIVITY :: connectivity where
  "INITIAL_CONNECTIVITY = \<lparr>syncStatus = SyncDisconnected, awarenessConnected = False, gossip = INITIAL_GOSSIP,
     relayPeers = {}, knownPinnerPids = {}, createdAt = None\<rparr>"

definition INITIAL_CONTENT :: contentState where
  "INITIAL_CONTENT = \<lparr>clockSum = 0, isDirty = False, isSaving = False, ipnsSeq = None, lastSaveError = None\<rparr>"

definition INITIAL_CHAIN :: chainState where
  "INITIAL_CHAIN = \<lparr>entries = [], tip = None, applying = None, newestFetched = None, maxSeq = 0\<rparr>"

definition INITIAL_EPOCHS :: epochState where
  "INITIAL_EPOCHS = \<lparr>channels = [], viewCacheStale = {}, pendingSnapshots = {}\<rparr>"

definition initialDocState :: "docIdentity \<Rightarrow> docState" where
  "initialDocState i = \<lparr>identity = i, chain = INITIAL_CHAIN, connectivity = INITIAL_CONNECTIVITY,
     content = INITIAL_CONTENT,
     announce = \<lparr>lastAnnouncedCid = None, lastAnnounceAt = 0, lastGuaranteeQueryAt = 0\<rparr>,
     epochs = INITIAL_EPOCHS, pendingQueries = [], ipnsStatus = IpnsIdle, snapshotHistory = [],
     status = DocOffline, saveState = Unpublished\<rparr>"

section \<open>Views\<close>

record versionSummary =
  vcid :: cid
  vseq :: int
  vts :: int
  available :: bool

text \<open>\<^verbatim>\<open>Array.prototype.sort\<close> is stable: entries with the same number keep their order.\<close>

definition versionHistory :: "chainState \<Rightarrow> versionSummary list" where
  "versionHistory c =
     map (\<lambda>e. \<lparr>vcid = ecid e, vseq = the (eseq e), vts = (case ets e of Some t \<Rightarrow> t | None \<Rightarrow> 0),
               available = (blockStatus e = Fetched \<or> blockStatus e = Applied)\<rparr>)
       (sort_key (\<lambda>e. - the (eseq e)) (filter (\<lambda>e. eseq e \<noteq> None) (map snd (entries c))))"

datatype versionEntryStatus = Available | Loading | VFailed

record versionHistoryEntry =
  hcid :: cid
  hseq :: int
  hts :: int
  hstatus :: versionEntryStatus

fun entryStatus :: "blockStatus \<Rightarrow> versionEntryStatus" where
  "entryStatus Fetched = Available"
| "entryStatus Applied = Available"
| "entryStatus Failed = VFailed"
| "entryStatus _ = Loading"

definition history_entry :: "chainEntry \<Rightarrow> int \<Rightarrow> versionHistoryEntry" where
  "history_entry e s = \<lparr>hcid = ecid e, hseq = s, hts = (case ets e of Some t \<Rightarrow> t | None \<Rightarrow> 0),
     hstatus = entryStatus (blockStatus e)\<rparr>"

text \<open>\<open>overwrite\<close> is set for the interpreter's chain and not for the local one, which only fills in.\<close>

definition add_version :: "bool \<Rightarrow> (cid, versionHistoryEntry) omap \<times> bool \<Rightarrow> chainEntry \<Rightarrow>
    (cid, versionHistoryEntry) omap \<times> bool" where
  "add_version overwrite acc e = (case acc of (seen, walking) \<Rightarrow>
     (case eseq e of
        None \<Rightarrow> (seen, walking)
      | Some s \<Rightarrow>
          if \<not> overwrite \<and> map_of seen (ecid e) \<noteq> None then (seen, walking)
          else (AList.update (ecid e) (history_entry e s) seen,
                walking \<or> entryStatus (blockStatus e) = Loading)))"

definition deriveVersionHistory :: "chainState option \<Rightarrow> chainState option \<Rightarrow> versionHistoryEntry list \<times> bool" where
  "deriveVersionHistory c localChain =
     (let acc1 = (case c of None \<Rightarrow> ([], False)
                  | Some c \<Rightarrow> foldl (add_version True) ([], False) (map snd (entries c)));
          acc2 = (case localChain of None \<Rightarrow> acc1
                  | Some c \<Rightarrow> foldl (add_version False) acc1 (map snd (entries c)))
      in (sort_key (\<lambda>e. - hseq e) (map snd (fst acc2)), snd acc2))"

definition deriveVersionHistoryFromSnapshots :: "snapshotRecord list \<Rightarrow> versionHistoryEntry list \<times> bool" where
  "deriveVersionHistoryFromSnapshots records =
     (map (\<lambda>r. \<lparr>hcid = rcid r, hseq = rseq r, hts = rts r, hstatus = Available\<rparr>) records, False)"

definition bestGuarantee :: "chainState \<Rightarrow> guarantee" where
  "bestGuarantee c =
     foldl (\<lambda>best e. foldl (\<lambda>b g.
         \<lparr>guaranteeUntil = max (guaranteeUntil b) (guaranteeUntil g), retainUntil = max (retainUntil b) (retainUntil g)\<rparr>)
         best (map snd (guarantees e)))
       \<lparr>guaranteeUntil = 0, retainUntil = 0\<rparr> (map snd (entries c))"

definition CLOCK_SKEW_TOLERANCE_MS :: int where "CLOCK_SKEW_TOLERANCE_MS = 5 * 60 * 1000"

definition isGuaranteeActive :: "int \<Rightarrow> int \<Rightarrow> bool" where
  "isGuaranteeActive until now \<longleftrightarrow> until \<noteq> 0 \<and> now < until + CLOCK_SKEW_TOLERANCE_MS"

section \<open>doc-status.ts\<close>

definition MESH_GRACE_MS :: int where "MESH_GRACE_MS = 5000"

definition deriveStatus :: "int \<Rightarrow> connectivity \<Rightarrow> docStatus" where
  "deriveStatus now c =
     (if syncStatus c = SyncConnected then DocSynced
      else if syncStatus c = SyncConnecting then DocConnecting
      else if activity (gossip c) = Receiving then DocReceiving
      else if awarenessConnected c then DocConnecting
      else if activity (gossip c) = Subscribed then DocConnecting
      else case createdAt c of
        Some t \<Rightarrow> if now - t < MESH_GRACE_MS then DocConnecting else DocOffline
      | None \<Rightarrow> DocOffline)"

definition computeStatus :: "int \<Rightarrow> syncStatus \<Rightarrow> bool \<Rightarrow> gossipActivity \<Rightarrow> int option \<Rightarrow> docStatus" where
  "computeStatus now sync awareness act created =
     deriveStatus now \<lparr>syncStatus = sync, awarenessConnected = awareness,
       gossip = \<lparr>activity = act, subscribed = (act \<noteq> Inactive), lastMessageAt = 0\<rparr>,
       relayPeers = {}, knownPinnerPids = {}, createdAt = created\<rparr>"

text \<open>An error message counts as an error when it is a non-empty string.\<close>

definition truthy_str :: "string option \<Rightarrow> bool" where
  "truthy_str s \<longleftrightarrow> s \<noteq> None \<and> s \<noteq> Some ''''"

definition computeSaveState :: "bool \<Rightarrow> bool \<Rightarrow> string option \<Rightarrow> saveState" where
  "computeSaveState dirty' saving err =
     (if saving then Saving else if truthy_str err then SaveError else if dirty' then Dirty else Saved)"

datatype loadingState =
    LIdle
  | LResolving int
  | LFetching cid int
  | LRetrying cid int int
  | LFailed cid string

definition MAX_INTERPRETER_RETRIES :: int where "MAX_INTERPRETER_RETRIES = 3"
definition RETRY_BASE_MS :: int where "RETRY_BASE_MS = 2000"

text \<open>The exponent is at least -1, for an attempt number 0: a quarter of the base.\<close>

definition retry_delay :: "int \<Rightarrow> int" where
  "retry_delay attempt = (if 1 \<le> attempt then RETRY_BASE_MS * 4 ^ nat (attempt - 1) else RETRY_BASE_MS div 4 ^ nat (1 - attempt))"

definition is_fetching :: "chainEntry \<Rightarrow> bool" where
  "is_fetching e \<longleftrightarrow> blockStatus e = Fetching \<and> fetchStartedAt e \<noteq> None \<and> fetchStartedAt e \<noteq> Some 0"

definition deriveLoadingState :: "int \<Rightarrow> docState \<Rightarrow> loadingState" where
  "deriveLoadingState now s =
     (case ipnsStatus s of
        IpnsResolving t \<Rightarrow> LResolving t
      | _ \<Rightarrow>
        (let es = map snd (entries (chain s)) in
         case find is_fetching es of
           Some e \<Rightarrow> LFetching (ecid e) (the (fetchStartedAt e))
         | None \<Rightarrow>
           (case find (\<lambda>e. blockStatus e = Failed) es of
              Some e \<Rightarrow>
                if fetchAttempt e < MAX_INTERPRETER_RETRIES
                then LRetrying (ecid e) (fetchAttempt e) (now + retry_delay (fetchAttempt e))
                else LFailed (ecid e) (case lastError e of Some m \<Rightarrow> m | None \<Rightarrow> ''unknown'')
            | None \<Rightarrow>
              (case ipnsStatus s of
                 IpnsResolved c t \<Rightarrow> if find (\<lambda>e. blockStatus e = Unknown) es \<noteq> None then LResolving t else LIdle
               | _ \<Rightarrow> LIdle))))"

fun loading_tag :: "loadingState \<Rightarrow> nat" where
  "loading_tag LIdle = 0"
| "loading_tag (LResolving _) = 1"
| "loading_tag (LFetching _ _) = 2"
| "loading_tag (LRetrying _ _ _) = 3"
| "loading_tag (LFailed _ _) = 4"

fun loading_cid :: "loadingState \<Rightarrow> cid option" where
  "loading_cid (LFetching c _) = Some c"
| "loading_cid (LRetrying c _ _) = Some c"
| "loading_cid (LFailed c _) = Some c"
| "loading_cid _ = None"

definition loadingStateChanged :: "loadingState \<Rightarrow> loadingState \<Rightarrow> bool" where
  "loadingStateChanged a b \<longleftrightarrow>
     loading_tag a \<noteq> loading_tag b \<or>
     (loading_cid a \<noteq> None \<and> loading_cid b \<noteq> None \<and> loading_cid a \<noteq> loading_cid b) \<or>
     (case (a, b) of (LRetrying _ n _, LRetrying _ m _) \<Rightarrow> n \<noteq> m | _ \<Rightarrow> False)"

fun statusLabel :: "docStatus \<Rightarrow> string" where
  "statusLabel DocSynced = ''Live''"
| "statusLabel DocReceiving = ''Subscribed''"
| "statusLabel DocConnecting = ''Connecting''"
| "statusLabel DocOffline = ''Offline''"

end
