(* ===== verification/Reducers.thy ===== *)
theory Reducers
  imports Facts
begin

text \<open>
  The reducers of the fact stream (\<open>packages/core/src/reducers.ts\<close>).  A reducer that returns its argument
  untouched and one that returns a new object are told apart by the code, by reference: the type \<open>upd\<close> keeps
  that apart, whatever the new object holds.
\<close>

section \<open>Results by reference\<close>

datatype 'a upd = Same | New 'a

fun got :: "'a \<Rightarrow> 'a upd \<Rightarrow> 'a" where
  "got old Same = old"
| "got old (New x) = x"

definition or_else :: "'a option \<Rightarrow> 'a option \<Rightarrow> 'a option" where
  "or_else a b = (case a of Some x \<Rightarrow> Some x | None \<Rightarrow> b)"

definition max_opt :: "int \<Rightarrow> int option \<Rightarrow> int" where
  "max_opt m s = (case s of Some x \<Rightarrow> max m x | None \<Rightarrow> m)"

section \<open>The chain\<close>

definition updateEntry :: "chainState \<Rightarrow> cid \<Rightarrow> (chainEntry \<Rightarrow> chainEntry) \<Rightarrow> chainState upd" where
  "updateEntry s c f = (case map_of (entries s) c of
      None \<Rightarrow> Same
    | Some e \<Rightarrow> New (s\<lparr>entries := AList.update c (f e) (entries s)\<rparr>))"

definition newest_step :: "(cid \<times> int) option \<Rightarrow> chainEntry \<Rightarrow> (cid \<times> int) option" where
  "newest_step best e =
     (if blockStatus e \<noteq> Fetched then best
      else let s = (case eseq e of Some x \<Rightarrow> x | None \<Rightarrow> 0) in
        case best of
          None \<Rightarrow> Some (ecid e, s)
        | Some (c, b) \<Rightarrow> if b < s then Some (ecid e, s) else best)"

definition newest :: "chainState \<Rightarrow> cid option" where
  "newest s = map_option fst (foldl newest_step None (map snd (entries s)))"

definition withNewestFetched :: "chainState \<Rightarrow> chainState upd \<Rightarrow> chainState upd" where
  "withNewestFetched old u =
     (let s = got old u in
      if newest s = newestFetched s then u else New (s\<lparr>newestFetched := newest s\<rparr>))"

definition newEntry :: "cid \<Rightarrow> int option \<Rightarrow> int option \<Rightarrow> cidSource \<Rightarrow> blockStatus \<Rightarrow> chainEntry" where
  "newEntry c sq tm src st =
     \<lparr>ecid = c, eseq = sq, ets = tm, discoveredVia = {src}, blockStatus = st, fetchAttempt = 0,
      fetchStartedAt = None, lastError = None, eprev = None, guarantees = [], ackedBy = {}\<rparr>"

definition cidDiscovered :: "chainState \<Rightarrow> cid \<Rightarrow> cidSource \<Rightarrow> bytes option \<Rightarrow> int option \<Rightarrow> int option \<Rightarrow>
    chainState upd" where
  "cidDiscovered s c src block sq tm =
     (case map_of (entries s) c of
        Some e \<Rightarrow>
          if blockStatus e = Failed then
            withNewestFetched s (New (s\<lparr>entries := AList.update c
              (e\<lparr>blockStatus := Unknown, fetchAttempt := 0, lastError := None,
                 discoveredVia := insert src (discoveredVia e)\<rparr>) (entries s)\<rparr>))
          else
            (let newBlockStatus = (if block \<noteq> None then Fetched else blockStatus e);
                 changed = (newBlockStatus \<noteq> blockStatus e \<or> src \<notin> discoveredVia e \<or>
                            (sq \<noteq> None \<and> eseq e = None) \<or> (tm \<noteq> None \<and> ets e = None));
                 mergedSeq = or_else (eseq e) sq
             in if \<not> changed then Same
                else withNewestFetched s (New (s\<lparr>maxSeq := max_opt (maxSeq s) mergedSeq,
                  entries := AList.update c
                    (e\<lparr>discoveredVia := insert src (discoveredVia e), eseq := mergedSeq,
                       ets := or_else (ets e) tm, blockStatus := newBlockStatus\<rparr>) (entries s)\<rparr>)))
      | None \<Rightarrow>
          withNewestFetched s (New (s\<lparr>maxSeq := max_opt (maxSeq s) sq,
            entries := AList.update c (newEntry c sq tm src (if block \<noteq> None then Fetched else Unknown)) (entries s)\<rparr>)))"

definition blockFetched :: "chainState \<Rightarrow> cid \<Rightarrow> cid option \<Rightarrow> int option \<Rightarrow> int option \<Rightarrow> chainState upd" where
  "blockFetched s c prev sq tm =
     (case map_of (entries s) c of
        None \<Rightarrow> Same
      | Some e \<Rightarrow>
          let resolvedSeq = or_else (eseq e) sq;
              nxt = s\<lparr>maxSeq := max_opt (maxSeq s) resolvedSeq,
                      entries := AList.update c
                        (e\<lparr>blockStatus := Fetched, eprev := prev, eseq := resolvedSeq, ets := or_else (ets e) tm\<rparr>)
                        (entries s)\<rparr>;
              nxt' = (case prev of
                  None \<Rightarrow> nxt
                | Some p \<Rightarrow>
                    if map_of (entries nxt) p \<noteq> None then nxt
                    else let inferredSeq = (case resolvedSeq of
                             Some n \<Rightarrow> if 0 < n then Some (n - 1) else None | None \<Rightarrow> None)
                         in nxt\<lparr>maxSeq := max_opt (maxSeq nxt) inferredSeq,
                                entries := AList.update p (newEntry p inferredSeq None ChainWalk Unknown) (entries nxt)\<rparr>)
          in withNewestFetched s (New nxt'))"

definition tipAdvanced :: "chainState \<Rightarrow> cid \<Rightarrow> int \<Rightarrow> chainState upd" where
  "tipAdvanced s c sq =
     (let tipSeq = (case map_of (entries s) c of
                      Some e \<Rightarrow> (case eseq e of Some x \<Rightarrow> x | None \<Rightarrow> sq) | None \<Rightarrow> sq);
          s1 = got s (updateEntry s c (\<lambda>e. e\<lparr>blockStatus := Applied, eseq := or_else (eseq e) (Some sq)\<rparr>))
      in withNewestFetched s (New (s1\<lparr>tip := Some c, applying := None, maxSeq := max (maxSeq s) tipSeq\<rparr>)))"

definition reduceChain :: "chainState \<Rightarrow> fact \<Rightarrow> chainState upd" where
  "reduceChain s f = (case f of
      CidDiscovered _ c src block sq tm \<Rightarrow> cidDiscovered s c src block sq tm
    | BlockFetchStarted ts c \<Rightarrow>
        updateEntry s c (\<lambda>e. if blockStatus e = Fetched \<or> blockStatus e = Applied then e
          else e\<lparr>blockStatus := Fetching, fetchStartedAt := Some ts\<rparr>)
    | BlockFetched _ c _ prev sq tm \<Rightarrow> blockFetched s c prev sq tm
    | BlockFetchFailed _ c attempt err \<Rightarrow>
        withNewestFetched s (updateEntry s c (\<lambda>e. e\<lparr>blockStatus := Failed, fetchAttempt := attempt, lastError := Some err\<rparr>))
    | BlockRetryReset _ c \<Rightarrow>
        (case map_of (entries s) c of
           Some e \<Rightarrow> if blockStatus e \<noteq> Failed then Same else updateEntry s c (\<lambda>e. e\<lparr>blockStatus := Unknown\<rparr>)
         | None \<Rightarrow> Same)
    | TipAdvanced _ c sq \<Rightarrow> tipAdvanced s c sq
    | AckReceived _ c p \<Rightarrow>
        (case map_of (entries s) c of
           Some e \<Rightarrow> if p \<in> ackedBy e then Same else updateEntry s c (\<lambda>e. e\<lparr>ackedBy := insert p (ackedBy e)\<rparr>)
         | None \<Rightarrow> Same)
    | GuaranteeReceived _ p c g r \<Rightarrow>
        updateEntry s c (\<lambda>e. e\<lparr>guarantees := AList.update p \<lparr>guaranteeUntil = g, retainUntil = r\<rparr> (guarantees e)\<rparr>)
    | _ \<Rightarrow> Same)"

section \<open>Connectivity\<close>

definition GOSSIP_DECAY_MS :: int where "GOSSIP_DECAY_MS = 60000"

definition reduceGossip :: "gossipState \<Rightarrow> int \<Rightarrow> fact \<Rightarrow> gossipState upd" where
  "reduceGossip s ts f = (case f of
      GossipSubscribed _ \<Rightarrow> New (s\<lparr>subscribed := True,
        activity := (if activity s = Inactive then Subscribed else activity s)\<rparr>)
    | GossipMessage _ \<Rightarrow> New (s\<lparr>lastMessageAt := ts, activity := Receiving\<rparr>)
    | _ \<Rightarrow> if activity s = Receiving \<and> GOSSIP_DECAY_MS < ts - lastMessageAt s
        then New (s\<lparr>activity := (if subscribed s then Subscribed else Inactive)\<rparr>) else Same)"

definition with_gossip :: "connectivity \<Rightarrow> gossipState upd \<Rightarrow> connectivity upd" where
  "with_gossip s u = (case u of Same \<Rightarrow> Same | New g \<Rightarrow> New (s\<lparr>gossip := g\<rparr>))"

definition reduceConnectivity :: "connectivity \<Rightarrow> fact \<Rightarrow> connectivity upd" where
  "reduceConnectivity s f = (case f of
      SyncStatusChanged _ st \<Rightarrow> New (s\<lparr>syncStatus := st\<rparr>)
    | AwarenessStatusChanged _ b \<Rightarrow> New (s\<lparr>awarenessConnected := b\<rparr>)
    | GossipMessage ts \<Rightarrow> with_gossip s (reduceGossip (gossip s) ts f)
    | GossipSubscribed ts \<Rightarrow> with_gossip s (reduceGossip (gossip s) ts f)
    | Tick ts \<Rightarrow> with_gossip s (reduceGossip (gossip s) ts f)
    | RelayConnected _ p \<Rightarrow> if p \<in> relayPeers s then Same else New (s\<lparr>relayPeers := insert p (relayPeers s)\<rparr>)
    | RelayDisconnected _ p \<Rightarrow> if p \<notin> relayPeers s then Same else New (s\<lparr>relayPeers := relayPeers s - {p}\<rparr>)
    | PinnerDiscovered _ p \<Rightarrow> if p \<in> knownPinnerPids s then Same
        else New (s\<lparr>knownPinnerPids := insert p (knownPinnerPids s)\<rparr>)
    | _ \<Rightarrow> Same)"

section \<open>Content, announcements, queries, name resolution\<close>

definition reduceContent :: "contentState \<Rightarrow> fact \<Rightarrow> contentState upd" where
  "reduceContent s f = (case f of
      ContentDirty _ n \<Rightarrow> New (s\<lparr>clockSum := n, isDirty := True, lastSaveError := None\<rparr>)
    | PublishStarted _ \<Rightarrow> New (s\<lparr>isSaving := True\<rparr>)
    | PublishSucceeded _ c sq \<Rightarrow> New (s\<lparr>isSaving := False, isDirty := False, ipnsSeq := Some sq, lastSaveError := None\<rparr>)
    | PublishFailed _ err \<Rightarrow> New (s\<lparr>isSaving := False, lastSaveError := Some err\<rparr>)
    | _ \<Rightarrow> Same)"

definition reduceAnnounce :: "announceState \<Rightarrow> fact \<Rightarrow> announceState upd" where
  "reduceAnnounce s f = (case f of
      Announced ts c _ \<Rightarrow> New (s\<lparr>lastAnnouncedCid := Some c, lastAnnounceAt := ts\<rparr>)
    | RelayConnected _ _ \<Rightarrow> New (s\<lparr>lastAnnounceAt := 0\<rparr>)
    | GuaranteeQuerySent ts _ \<Rightarrow> New (s\<lparr>lastGuaranteeQueryAt := ts\<rparr>)
    | _ \<Rightarrow> Same)"

definition reducePendingQueries :: "(string, int) omap \<Rightarrow> fact \<Rightarrow> (string, int) omap upd" where
  "reducePendingQueries s f = (case f of
      GuaranteeQuerySent ts p \<Rightarrow> New (AList.update p ts s)
    | GuaranteeQueryResponded _ p \<Rightarrow> if map_of s p = None then Same else New (AList.delete p s)
    | _ \<Rightarrow> Same)"

definition reduceIpnsStatus :: "ipnsStatus \<Rightarrow> fact \<Rightarrow> ipnsStatus upd" where
  "reduceIpnsStatus s f = (case f of
      IpnsResolveStarted ts \<Rightarrow> New (IpnsResolving ts)
    | IpnsResolveCompleted ts (Some c) \<Rightarrow> New (IpnsResolved c ts)
    | IpnsResolveCompleted ts None \<Rightarrow> New IpnsIdle
    | _ \<Rightarrow> Same)"

definition deriveSaveState :: "contentState \<Rightarrow> chainState \<Rightarrow> saveState" where
  "deriveSaveState c ch =
     (if isSaving c then Saving
      else if truthy_str (lastSaveError c) then SaveError
      else if isDirty c then Dirty
      else if tip ch \<noteq> None then Saved
      else Unpublished)"

section \<open>Epochs and the snapshot history\<close>

definition INITIAL_CHANNEL_EPOCH :: channelEpochState where
  "INITIAL_CHANNEL_EPOCH = \<lparr>openEpochCount = 0, lastConvergenceHash = None, dirty = False\<rparr>"

definition ensureChannel :: "epochState \<Rightarrow> string \<Rightarrow> channelEpochState" where
  "ensureChannel s ch = (case map_of (channels s) ch of Some c \<Rightarrow> c | None \<Rightarrow> INITIAL_CHANNEL_EPOCH)"

definition withChannel :: "epochState \<Rightarrow> string \<Rightarrow> channelEpochState \<Rightarrow> epochState upd" where
  "withChannel s ch c = New (s\<lparr>channels := AList.update ch c (channels s)\<rparr>)"

definition reduceEpochs :: "epochState \<Rightarrow> fact \<Rightarrow> epochState upd" where
  "reduceEpochs s f = (case f of
      EpochClosed _ ch _ \<Rightarrow>
        (let c = ensureChannel s ch in
         withChannel s ch (c\<lparr>openEpochCount := openEpochCount c + 1, dirty := True\<rparr>))
    | ConvergenceDetected _ ch h \<Rightarrow>
        withChannel s ch ((ensureChannel s ch)\<lparr>lastConvergenceHash := Some h, dirty := False\<rparr>)
    | SnapshotMaterialized _ ch i _ _ \<Rightarrow> New (s\<lparr>pendingSnapshots := pendingSnapshots s - {(ch, i)}\<rparr>)
    | EditReceived _ ch _ _ \<Rightarrow>
        (let c = ensureChannel s ch in if dirty c then Same else withChannel s ch (c\<lparr>dirty := True\<rparr>))
    | ViewCacheLoaded _ n _ \<Rightarrow> New (s\<lparr>viewCacheStale := viewCacheStale s - {n}\<rparr>)
    | ViewCacheWritten _ n _ \<Rightarrow> New (s\<lparr>viewCacheStale := viewCacheStale s - {n}\<rparr>)
    | _ \<Rightarrow> Same)"

definition reduceSnapshotHistory :: "snapshotRecord list \<Rightarrow> fact \<Rightarrow> snapshotRecord list upd" where
  "reduceSnapshotHistory s f = (case f of
      SnapshotMaterialized ts ch i c sq \<Rightarrow>
        New (\<lparr>rcid = c, rseq = sq, rts = ts, rchannel = ch, repochIndex = i\<rparr> # s)
    | _ \<Rightarrow> Same)"

section \<open>The combined reducer\<close>

definition reduce :: "int \<Rightarrow> docState \<Rightarrow> fact \<Rightarrow> docState" where
  "reduce now s f =
     (let ch = reduceChain (chain s) f;
          cn = reduceConnectivity (connectivity s) f;
          co = reduceContent (content s) f;
          an = reduceAnnounce (announce s) f;
          ep = reduceEpochs (epochs s) f;
          sh = reduceSnapshotHistory (snapshotHistory s) f;
          pq = reducePendingQueries (pendingQueries s) f;
          ip = reduceIpnsStatus (ipnsStatus s) f
      in if ch = Same \<and> cn = Same \<and> co = Same \<and> an = Same \<and> ep = Same \<and> sh = Same \<and> pq = Same \<and> ip = Same
         then s
         else s\<lparr>chain := got (chain s) ch, connectivity := got (connectivity s) cn,
                content := got (content s) co, announce := got (announce s) an, epochs := got (epochs s) ep,
                snapshotHistory := got (snapshotHistory s) sh, pendingQueries := got (pendingQueries s) pq,
                ipnsStatus := got (ipnsStatus s) ip,
                status := deriveStatus now (got (connectivity s) cn),
                saveState := deriveSaveState (got (content s) co) (got (chain s) ch)\<rparr>)"

section \<open>The newest fetched entry\<close>

definition seq0 :: "chainEntry \<Rightarrow> int" where
  "seq0 e = (case eseq e of Some x \<Rightarrow> x | None \<Rightarrow> 0)"

definition best_of :: "(cid \<times> int) option \<Rightarrow> chainEntry list \<Rightarrow> bool" where
  "best_of b es \<longleftrightarrow> (case b of
      None \<Rightarrow> \<forall>e \<in> set es. blockStatus e \<noteq> Fetched
    | Some (c, n) \<Rightarrow> (\<exists>e \<in> set es. blockStatus e = Fetched \<and> ecid e = c \<and> seq0 e = n) \<and>
        (\<forall>e \<in> set es. blockStatus e = Fetched \<longrightarrow> seq0 e \<le> n))"

lemma newest_step_best: "best_of b es \<Longrightarrow> best_of (newest_step b e) (es @ [e])"
  by (cases b) (force simp: best_of_def newest_step_def Let_def seq0_def split: if_splits)+

lemma newest_step_cong:
  "ecid e' = ecid e \<Longrightarrow> eseq e' = eseq e \<Longrightarrow> blockStatus e' = blockStatus e \<Longrightarrow> newest_step b e' = newest_step b e"
  by (auto simp: newest_step_def split: option.splits)

lemma newest_fold_best: "best_of (foldl newest_step None es) es"
proof (induction es rule: rev_induct)
  case Nil
  then show ?case by (simp add: best_of_def)
next
  case (snoc e es)
  then show ?case using newest_step_best by simp
qed

definition newest_spec :: "chainState \<Rightarrow> bool" where
  "newest_spec s \<longleftrightarrow> (case newestFetched s of
      None \<Rightarrow> \<forall>e \<in> set (map snd (entries s)). blockStatus e \<noteq> Fetched
    | Some c \<Rightarrow> \<exists>e \<in> set (map snd (entries s)). ecid e = c \<and> blockStatus e = Fetched \<and>
        (\<forall>e' \<in> set (map snd (entries s)). blockStatus e' = Fetched \<longrightarrow> seq0 e' \<le> seq0 e))"

lemma newest_spec_newest: "newestFetched s = newest s \<Longrightarrow> newest_spec s"
proof -
  assume n: "newestFetched s = newest s"
  let ?es = "map snd (entries s)" and ?b = "foldl newest_step None (map snd (entries s))"
  have b: "best_of ?b ?es" by (rule newest_fold_best)
  show ?thesis
  proof (cases ?b)
    case None
    then show ?thesis using b n by (simp add: newest_spec_def newest_def best_of_def)
  next
    case (Some p)
    obtain c m where "p = (c, m)" by force
    with Some b n show ?thesis by (auto simp: newest_spec_def newest_def best_of_def)
  qed
qed

lemma newest_newestFetched [simp]: "newest (s\<lparr>newestFetched := x\<rparr>) = newest s"
  by (simp add: newest_def)

lemma newest_fields [simp]:
  "newest (s\<lparr>maxSeq := m\<rparr>) = newest s" "newest (s\<lparr>tip := t\<rparr>) = newest s" "newest (s\<lparr>applying := a\<rparr>) = newest s"
  by (simp_all add: newest_def)

lemma got_withNewestFetched:
  "got s (withNewestFetched s u) = (got s u)\<lparr>newestFetched := newest (got s u)\<rparr>"
  by (cases u) (auto simp: withNewestFetched_def Let_def intro!: chainState.equality)

text \<open>Replacing an entry by one that weighs the same leaves the newest fetched entry alone.\<close>

lemma foldl_update_same:
  assumes "map_of al k = Some e" "\<And>b. newest_step b e' = newest_step b e"
  shows "foldl newest_step b (map snd (AList.update k e' al)) = foldl newest_step b (map snd al)"
  using assms by (induction al arbitrary: b) (auto split: if_splits)

lemma newest_updateEntry:
  assumes "\<And>e b. map_of (entries s) c = Some e \<Longrightarrow> newest_step b (f e) = newest_step b e"
  shows "newest (got s (updateEntry s c f)) = newest s"
  using assms foldl_update_same [of "entries s" c _ "f _"]
  by (auto simp: updateEntry_def newest_def split: option.splits)

section \<open>The invariant of the chain\<close>

definition entries_ok :: "int \<Rightarrow> (cid, chainEntry) omap \<Rightarrow> bool" where
  "entries_ok m es \<longleftrightarrow> distinct (map fst es) \<and>
     (\<forall>(k, e) \<in> set es. ecid e = k \<and> (case eseq e of Some x \<Rightarrow> x \<le> m | None \<Rightarrow> True))"

definition chain_inv :: "chainState \<Rightarrow> bool" where
  "chain_inv s \<longleftrightarrow> entries_ok (maxSeq s) (entries s) \<and> newestFetched s = newest s"

lemma max_opt_bounds [simp]: "m \<le> max_opt m s" "s = Some x \<Longrightarrow> x \<le> max_opt m s"
  by (auto simp: max_opt_def split: option.splits)

lemma entries_ok_update:
  assumes "entries_ok m es" "m \<le> m'" "ecid e = k" "case eseq e of Some x \<Rightarrow> x \<le> m' | None \<Rightarrow> True"
  shows "entries_ok m' (AList.update k e es)"
proof -
  have "\<forall>p \<in> set es. case p of (k, e) \<Rightarrow> ecid e = k \<and> (case eseq e of Some x \<Rightarrow> x \<le> m' | None \<Rightarrow> True)"
    using assms(1,2) by (fastforce simp: entries_ok_def split: option.splits)
  then have "\<forall>p \<in> set (AList.update k e es). case p of (k, e) \<Rightarrow> ecid e = k \<and>
      (case eseq e of Some x \<Rightarrow> x \<le> m' | None \<Rightarrow> True)"
    using assms(3,4) by (intro update_all) auto
  then show ?thesis using assms(1) by (simp add: entries_ok_def distinct_update)
qed

lemma entries_ok_lookup:
  "entries_ok m es \<Longrightarrow> map_of es k = Some e \<Longrightarrow> ecid e = k \<and> (\<forall>x. eseq e = Some x \<longrightarrow> x \<le> m)"
  by (fastforce simp: entries_ok_def dest: map_of_SomeD split: option.splits)

text \<open>An entry update that leaves the identity and the number of the entry alone.\<close>

lemma entries_ok_updateEntry:
  assumes "entries_ok (maxSeq s) (entries s)" "\<And>e. ecid (f e) = ecid e \<and> eseq (f e) = eseq e"
  shows "entries_ok (maxSeq (got s (updateEntry s c f))) (entries (got s (updateEntry s c f)))"
proof (cases "map_of (entries s) c")
  case (Some e)
  have "entries_ok (maxSeq s) (AList.update c (f e) (entries s))"
    using entries_ok_lookup [OF assms(1) Some] assms(2) [of e]
    by (intro entries_ok_update [OF assms(1)]) (auto split: option.splits)
  then show ?thesis using Some by (simp add: updateEntry_def)
qed (simp add: updateEntry_def assms(1))

lemma chain_inv_withNewest:
  "entries_ok (maxSeq (got s u)) (entries (got s u)) \<Longrightarrow> chain_inv (got s (withNewestFetched s u))"
  by (simp add: chain_inv_def got_withNewestFetched)

lemma chain_inv_updateEntry:
  assumes "chain_inv s" "\<And>e. ecid (f e) = ecid e \<and> eseq (f e) = eseq e"
    and "\<And>e b. map_of (entries s) c = Some e \<Longrightarrow> newest_step b (f e) = newest_step b e"
  shows "chain_inv (got s (updateEntry s c f))"
proof -
  have "newestFetched (got s (updateEntry s c f)) = newestFetched s"
    by (simp add: updateEntry_def split: option.splits)
  then show ?thesis
    using assms entries_ok_updateEntry [of s f c] newest_updateEntry [of s c f] by (simp add: chain_inv_def)
qed

lemma cidDiscovered_inv:
  assumes "chain_inv s"
  shows "chain_inv (got s (cidDiscovered s c src block sq tm))"
proof (cases "map_of (entries s) c")
  case None
  have "entries_ok (max_opt (maxSeq s) sq) (AList.update c (newEntry c sq tm src st) (entries s))" for st
    using assms by (intro entries_ok_update [of "maxSeq s"]) (auto simp: chain_inv_def newEntry_def split: option.splits)
  then show ?thesis using None by (simp add: cidDiscovered_def chain_inv_withNewest)
next
  case (Some e)
  have e: "entries_ok (maxSeq s) (entries s)" "ecid e = c" "\<And>x. eseq e = Some x \<Longrightarrow> x \<le> maxSeq s"
    using assms entries_ok_lookup Some by (auto simp: chain_inv_def)
  have "entries_ok (maxSeq s) (AList.update c (e\<lparr>blockStatus := Unknown, fetchAttempt := 0, lastError := None,
      discoveredVia := insert src (discoveredVia e)\<rparr>) (entries s))"
    using e by (intro entries_ok_update [of "maxSeq s"]) (auto split: option.splits)
  moreover have "entries_ok (max_opt (maxSeq s) (or_else (eseq e) sq))
     (AList.update c (e\<lparr>discoveredVia := insert src (discoveredVia e), eseq := or_else (eseq e) sq,
                       ets := or_else (ets e) tm, blockStatus := st\<rparr>) (entries s))" for st
    using e by (intro entries_ok_update [of "maxSeq s"]) (auto split: option.splits)
  ultimately show ?thesis using Some assms by (auto simp: cidDiscovered_def Let_def chain_inv_withNewest)
qed

lemma blockFetched_inv:
  assumes "chain_inv s"
  shows "chain_inv (got s (blockFetched s c prev sq tm))"
proof (cases "map_of (entries s) c")
  case None
  then show ?thesis using assms by (simp add: blockFetched_def)
next
  case (Some e)
  have e: "entries_ok (maxSeq s) (entries s)" "ecid e = c" using assms entries_ok_lookup Some by (auto simp: chain_inv_def)
  let ?m = "max_opt (maxSeq s) (or_else (eseq e) sq)"
  let ?es = "AList.update c (e\<lparr>blockStatus := Fetched, eprev := prev, eseq := or_else (eseq e) sq,
      ets := or_else (ets e) tm\<rparr>) (entries s)"
  have es: "entries_ok ?m ?es"
    using e by (intro entries_ok_update [of "maxSeq s"]) (auto split: option.splits)
  have "entries_ok (max_opt ?m i) (AList.update p (newEntry p i None ChainWalk Unknown) ?es)" for p i
    by (intro entries_ok_update [OF es]) (auto simp: newEntry_def split: option.splits)
  then show ?thesis using Some es
    by (auto simp: blockFetched_def Let_def chain_inv_withNewest split: option.splits)
qed

lemma tipAdvanced_inv:
  assumes "chain_inv s"
  shows "chain_inv (got s (tipAdvanced s c sq))"
proof (cases "map_of (entries s) c")
  case None
  have "entries_ok (max (maxSeq s) sq) (entries s)"
    using assms by (fastforce simp: chain_inv_def entries_ok_def split: option.splits)
  then show ?thesis using None by (simp add: tipAdvanced_def updateEntry_def Let_def chain_inv_withNewest)
next
  case (Some e)
  let ?t = "case eseq e of Some x \<Rightarrow> x | None \<Rightarrow> sq"
  have "entries_ok (max (maxSeq s) ?t)
      (AList.update c (e\<lparr>blockStatus := Applied, eseq := or_else (eseq e) (Some sq)\<rparr>) (entries s))"
    using assms entries_ok_lookup [of "maxSeq s" "entries s" c e] Some
    by (intro entries_ok_update [of "maxSeq s"]) (auto simp: chain_inv_def or_else_def split: option.splits)
  then show ?thesis using Some by (simp add: tipAdvanced_def updateEntry_def Let_def chain_inv_withNewest)
qed

lemma reduceChain_inv:
  assumes "chain_inv s"
  shows "chain_inv (got s (reduceChain s f))"
proof (cases f)
  case (CidDiscovered ts c src block sq tm)
  then show ?thesis using cidDiscovered_inv [OF assms] by (simp add: reduceChain_def)
next
  case (BlockFetched ts c b prev sq tm)
  then show ?thesis using blockFetched_inv [OF assms] by (simp add: reduceChain_def)
next
  case (TipAdvanced ts c sq)
  then show ?thesis using tipAdvanced_inv [OF assms] by (simp add: reduceChain_def)
next
  case (BlockFetchStarted ts c)
  show ?thesis unfolding BlockFetchStarted reduceChain_def fact.case
    by (intro chain_inv_updateEntry assms) (simp_all add: newest_step_def)
next
  case (BlockFetchFailed ts c n err)
  have "entries_ok (maxSeq s) (entries s)" using assms by (simp add: chain_inv_def)
  then show ?thesis unfolding BlockFetchFailed reduceChain_def fact.case
    by (intro chain_inv_withNewest entries_ok_updateEntry) simp_all
next
  case (BlockRetryReset ts c)
  have "chain_inv (got s (updateEntry s c (\<lambda>e. e\<lparr>blockStatus := Unknown\<rparr>)))"
    if "map_of (entries s) c = Some e" "blockStatus e = Failed" for e
    using that by (intro chain_inv_updateEntry assms) (simp_all add: newest_step_def)
  then show ?thesis using assms by (auto simp: BlockRetryReset reduceChain_def split: option.splits)
next
  case (AckReceived ts c p)
  have "chain_inv (got s (updateEntry s c (\<lambda>e. e\<lparr>ackedBy := insert p (ackedBy e)\<rparr>)))"
    by (intro chain_inv_updateEntry assms newest_step_cong) simp_all
  then show ?thesis using assms by (auto simp: AckReceived reduceChain_def split: option.splits)
next
  case (GuaranteeReceived ts p c g r)
  show ?thesis unfolding GuaranteeReceived reduceChain_def fact.case
    by (intro chain_inv_updateEntry assms newest_step_cong) simp_all
qed (simp_all add: reduceChain_def assms)

definition chain_step :: "chainState \<Rightarrow> fact \<Rightarrow> chainState" where
  "chain_step s f = got s (reduceChain s f)"

lemma chain_inv_initial: "chain_inv INITIAL_CHAIN"
  by (simp add: chain_inv_def INITIAL_CHAIN_def entries_ok_def newest_def)

interpretation chain_machine: inv_machine INITIAL_CHAIN chain_step chain_inv
  by unfold_locales (simp_all add: chain_inv_initial chain_step_def reduceChain_inv)



end
