(* ===== verification/Ingest.thy ===== *)
theory Ingest
  imports Blocks Bounded_Store Reducers
begin

text \<open>
  The single way in for snapshot blocks: validation, placement, the sideband of blocks whose parent is unknown
  (\<open>packages/core/src/ingest-snapshot.ts\<close>), the state of the codec that applies them
  (\<open>packages/core/src/snapshot-codec.ts\<close>) and the shim the interpreter calls
  (\<open>packages/core/src/snapshot-ops.ts\<close>).  What the code does to the document and reports is kept in two logs.
  An attempt is cut where the code awaits, so that attempts can interleave.
\<close>

section \<open>State\<close>

datatype ingestSource = FromLocal | FromPeer

datatype rejectReason = InvalidSignature | CidMismatch | Duplicate | UnplaceableEpoch | PendingOverflow

datatype ingestOutcome = OutPlaced | OutPending rejectReason | OutRejected rejectReason

record pendingContext =
  source :: ingestSource
  peerId :: "string option"

record outcomeRecord =
  ocid :: cid
  ooutcome :: ingestOutcome
  octx :: pendingContext
  fromRescan :: bool

record scodec =
  cseq :: int
  cprev :: "cid option"
  lastIpnsSeq :: "int option"
  lastAppliedCid :: "cid option"

definition createSnapshotCodec :: scodec where
  "createSnapshotCodec = \<lparr>cseq = 1, cprev = None, lastIpnsSeq = None, lastAppliedCid = None\<rparr>"

record ingest =
  codec :: scodec
  store :: "(cid, bytes) omap"
  placedCids :: "string set"
  contexts :: "(string, pendingContext) omap"
  band :: sideband
  docLog :: "(cid \<times> (string, bytes) omap) list"
  outLog :: "outcomeRecord list"

definition createIngestSnapshot :: ingest where
  "createIngestSnapshot = \<lparr>codec = createSnapshotCodec, store = [], placedCids = {}, contexts = [],
     band = createPendingSideband, docLog = [], outLog = []\<rparr>"

text \<open>What the module is given: the hash, the cryptography, the keys, the clock sum and the caps.\<close>

record ienv =
  icrypto :: crypto
  sha256 :: "bytes \<Rightarrow> bytes result"
  cidDigest :: "cid \<Rightarrow> bytes"
  cidParses :: "string \<Rightarrow> bool"
  ireadKey :: bytes
  getClockSum :: int
  fetchRemote :: "cid \<Rightarrow> bytes option"
  maxEntries :: nat
  maxBytes :: int

section \<open>Gates\<close>

definition verifyCidIntegrity :: "ienv \<Rightarrow> cid \<Rightarrow> bytes \<Rightarrow> bool" where
  "verifyCidIntegrity E c d =
     (case sha256 E d of
        Inl _ \<Rightarrow> False
      | Inr h \<Rightarrow> length h = length (cidDigest E c) \<and> list_all2 (=) h (cidDigest E c))"

definition isPlaceable :: "ienv \<Rightarrow> bytes \<Rightarrow> chainState \<Rightarrow> bool" where
  "isPlaceable E block ch =
     (case decodeSnapshot (icrypto E) block of
        Inl _ \<Rightarrow> False
      | Inr n \<Rightarrow> (case snPrev n of None \<Rightarrow> True | Some p \<Rightarrow> map_of (entries ch) p \<noteq> None))"

definition store_put :: "cid \<Rightarrow> bytes \<Rightarrow> (cid, bytes) omap \<Rightarrow> (cid, bytes) omap" where
  "store_put c b st = (if b = [] then st else AList.update c b st)"

definition store_get :: "ienv \<Rightarrow> (cid, bytes) omap \<Rightarrow> cid \<Rightarrow> bytes option" where
  "store_get E st c = (case map_of st c of Some b \<Rightarrow> Some b | None \<Rightarrow> fetchRemote E c)"

datatype applyJob = NotEager | AlreadyApplied | Fetch "bytes option"

datatype phase = Done ingestOutcome | Waiting applyJob

definition applied_entry :: "chainState \<Rightarrow> cid \<Rightarrow> bool" where
  "applied_entry ch c \<longleftrightarrow> (case map_of (entries ch) c of Some e \<Rightarrow> blockStatus e = Applied | None \<Rightarrow> False)"

text \<open>Up to the point where the codec awaits the block it asked for.\<close>

definition startAttempt :: "ienv \<Rightarrow> chainState \<Rightarrow> ingest \<Rightarrow> cid \<Rightarrow> bytes \<Rightarrow> bool \<Rightarrow> ingest \<times> phase" where
  "startAttempt E ch s c d eagerApply =
     (if \<not> verifyCidIntegrity E c d then (s, Done (OutRejected CidMismatch))
      else if \<not> validateSnapshot (icrypto E) d then (s, Done (OutRejected InvalidSignature))
      else if c \<in> placedCids s then (s, Done (OutRejected Duplicate))
      else if applied_entry ch c then (s, Done (OutRejected Duplicate))
      else let s1 = s\<lparr>store := store_put c d (store s)\<rparr> in
        if \<not> isPlaceable E d ch then (s1, Done (OutPending UnplaceableEpoch))
        else (s1, Waiting (if \<not> eagerApply then NotEager
                           else if lastAppliedCid (codec s) = Some c then AlreadyApplied
                           else Fetch (store_get E (store s1) c))))"

definition setLastIpnsSeq :: "int \<Rightarrow> ingest \<Rightarrow> ingest" where
  "setLastIpnsSeq n s = s\<lparr>codec := (codec s)\<lparr>lastIpnsSeq := Some n\<rparr>\<rparr>"

definition place :: "cid \<Rightarrow> ingest \<Rightarrow> ingest \<times> ingestOutcome" where
  "place c s = (s\<lparr>placedCids := insert c (placedCids s)\<rparr>, OutPlaced)"

text \<open>The rest of \<^verbatim>\<open>applyRemote\<close>: an error, or the new state and the fact that something was applied.\<close>

definition applyRemote :: "ienv \<Rightarrow> ingest \<Rightarrow> cid \<Rightarrow> bytes option \<Rightarrow> ingest result" where
  "applyRemote E s c block =
     (case block of
        None \<Rightarrow> Ok s
      | Some b \<Rightarrow>
          if b = [] then Ok s
          else and_then (decodeSnapshot (icrypto E) b) (\<lambda>node.
               and_then (decryptSnapshot (icrypto E) node (ireadKey E)) (\<lambda>plaintext.
               Ok (s\<lparr>store := store_put c b (store s), docLog := docLog s @ [(c, plaintext)],
                     codec := (let k = codec s in
                       (if cseq k \<le> snSeq node then k\<lparr>cprev := Some c, cseq := snSeq node + 1\<rparr> else k)
                         \<lparr>lastAppliedCid := Some c\<rparr>)\<rparr>))))"

definition finishAttempt :: "ienv \<Rightarrow> ingest \<Rightarrow> cid \<Rightarrow> applyJob \<Rightarrow> ingest \<times> ingestOutcome" where
  "finishAttempt E s c job =
     (case job of
        NotEager \<Rightarrow> place c s
      | AlreadyApplied \<Rightarrow> place c (setLastIpnsSeq (getClockSum E) s)
      | Fetch block \<Rightarrow>
          (case applyRemote E s c block of
             Inl _ \<Rightarrow> (s, OutRejected InvalidSignature)
           | Inr s1 \<Rightarrow> place c (setLastIpnsSeq (getClockSum E) s1)))"

definition attempt :: "ienv \<Rightarrow> chainState \<Rightarrow> ingest \<Rightarrow> cid \<Rightarrow> bytes \<Rightarrow> bool \<Rightarrow> ingest \<times> ingestOutcome" where
  "attempt E ch s c d eagerApply =
     (case startAttempt E ch s c d eagerApply of
        (s1, Done out) \<Rightarrow> (s1, out)
      | (s1, Waiting job) \<Rightarrow> finishAttempt E s1 c job)"

section \<open>Bookkeeping\<close>

definition emit :: "cid \<Rightarrow> ingestOutcome \<Rightarrow> pendingContext \<Rightarrow> bool \<Rightarrow> ingest \<Rightarrow> ingest" where
  "emit c out ctx rescan s = s\<lparr>outLog := outLog s @ [\<lparr>ocid = c, ooutcome = out, octx = ctx, fromRescan = rescan\<rparr>]\<rparr>"

definition forget :: "string \<Rightarrow> ingest \<Rightarrow> ingest" where
  "forget c s = s\<lparr>band := sideband_remove c (band s), contexts := AList.delete c (contexts s)\<rparr>"

definition onEvict :: "ingest \<Rightarrow> string \<times> bytes \<Rightarrow> ingest" where
  "onEvict s p =
     emit (fst p) (OutRejected PendingOverflow)
       (case map_of (contexts s) (fst p) of
          Some ctx \<Rightarrow> ctx | None \<Rightarrow> \<lparr>source = FromPeer, peerId = None\<rparr>)
       False (s\<lparr>contexts := AList.delete (fst p) (contexts s)\<rparr>)"

definition quarantine :: "ienv \<Rightarrow> string \<Rightarrow> bytes \<Rightarrow> pendingContext \<Rightarrow> ingest \<Rightarrow> ingest" where
  "quarantine E c d ctx s =
     (let s1 = s\<lparr>contexts := AList.update c ctx (contexts s)\<rparr>;
          (b, ev) = sideband_add (maxEntries E) (maxBytes E) c d (band s1)
      in foldl onEvict (s1\<lparr>band := b\<rparr>) ev)"

definition settle :: "ienv \<Rightarrow> cid \<Rightarrow> bytes \<Rightarrow> pendingContext \<Rightarrow> ingest \<times> ingestOutcome \<Rightarrow> ingest \<times> ingestOutcome" where
  "settle E c d ctx r = (case r of (s, out) \<Rightarrow>
     (emit c out ctx False (case out of
        OutPlaced \<Rightarrow> if sideband_has c (band s) then forget c s else s
      | OutPending _ \<Rightarrow> quarantine E c d ctx s
      | OutRejected _ \<Rightarrow> s), out))"

definition ingestSnapshot :: "ienv \<Rightarrow> chainState \<Rightarrow> ingest \<Rightarrow> cid \<Rightarrow> bytes \<Rightarrow> pendingContext \<Rightarrow> ingest \<times> ingestOutcome" where
  "ingestSnapshot E ch s c d ctx = settle E c d ctx (attempt E ch s c d True)"

definition rescanOne :: "ienv \<Rightarrow> chainState \<Rightarrow> ingest \<Rightarrow> string \<times> bytes \<Rightarrow> ingest" where
  "rescanOne E ch s p = (case p of (c, d) \<Rightarrow>
     (case map_of (contexts s) c of
        None \<Rightarrow> s
      | Some ctx \<Rightarrow>
          if \<not> cidParses E c then forget c s
          else let (s1, out) = attempt E ch s c d False
            in emit c out ctx True (case out of OutPending _ \<Rightarrow> s1 | _ \<Rightarrow> forget c s1)))"

definition rescanPending :: "ienv \<Rightarrow> chainState \<Rightarrow> ingest \<Rightarrow> ingest" where
  "rescanPending E ch s = foldl (rescanOne E ch) s (pending (band s))"

section \<open>The shim for the interpreter\<close>

datatype applyError = SnapshotValidationError cid | PendingIngestError cid | DecodeError string

definition snapshotSeq :: "ienv \<Rightarrow> bytes \<Rightarrow> applyError + int" where
  "snapshotSeq E d = (case decodeSnapshot (icrypto E) d of Inl e \<Rightarrow> Inl (DecodeError e) | Inr n \<Rightarrow> Inr (snSeq n))"

definition applySnapshotOps :: "ienv \<Rightarrow> chainState \<Rightarrow> ingest \<Rightarrow> cid \<Rightarrow> bytes \<Rightarrow> ingestSource \<Rightarrow> ingest \<times> (applyError + int)" where
  "applySnapshotOps E ch s c d src =
     (let (s1, out) = ingestSnapshot E ch s c d \<lparr>source = src, peerId = None\<rparr> in
      (s1, case out of
         OutRejected CidMismatch \<Rightarrow> Inl (SnapshotValidationError c)
       | OutRejected InvalidSignature \<Rightarrow> Inl (SnapshotValidationError c)
       | OutPending _ \<Rightarrow> Inl (PendingIngestError c)
       | _ \<Rightarrow> snapshotSeq E d))"

section \<open>The invariant\<close>

datatype iop = Ingest chainState cid bytes pendingContext | Rescan chainState

fun istep :: "ienv \<Rightarrow> ingest \<Rightarrow> iop \<Rightarrow> ingest" where
  "istep E s (Ingest ch c d ctx) = fst (ingestSnapshot E ch s c d ctx)"
| "istep E s (Rescan ch) = rescanPending E ch s"

definition band_ok :: "ienv \<Rightarrow> ingest \<Rightarrow> bool" where
  "band_ok E s \<longleftrightarrow> sideband_inv (maxEntries E) (maxBytes E) (band s) \<and> distinct (map fst (contexts s)) \<and>
     fst ` set (contexts s) = fst ` set (pending (band s)) \<and> fst ` set (pending (band s)) \<inter> placedCids s = {}"

definition log_ok :: "ingest \<Rightarrow> bool" where
  "log_ok s \<longleftrightarrow> distinct (map fst (docLog s)) \<and> fst ` set (docLog s) \<subseteq> placedCids s"

definition ingest_inv :: "ienv \<Rightarrow> ingest \<Rightarrow> bool" where
  "ingest_inv E s \<longleftrightarrow> band_ok E s \<and> log_ok s"

text \<open>An attempt leaves the sideband alone and places at most its own identifier.\<close>

lemma setLastIpnsSeq_fields [simp]:
  "band (setLastIpnsSeq n s) = band s" "contexts (setLastIpnsSeq n s) = contexts s" "placedCids (setLastIpnsSeq n s) = placedCids s"
  "docLog (setLastIpnsSeq n s) = docLog s" "store (setLastIpnsSeq n s) = store s" "outLog (setLastIpnsSeq n s) = outLog s"
  by (simp_all add: setLastIpnsSeq_def)

lemma applyRemote_fields:
  "applyRemote E s c b = Ok s' \<Longrightarrow> band s' = band s \<and> contexts s' = contexts s \<and> placedCids s' = placedCids s \<and>
     (docLog s' = docLog s \<or> (\<exists>pl. docLog s' = docLog s @ [(c, pl)]))"
  by (auto simp: applyRemote_def and_then_def Let_def split: option.splits if_splits sum.splits)

lemma startAttempt_fields:
  "startAttempt E ch s c d eager = (s1, ph) \<Longrightarrow> band s1 = band s \<and> contexts s1 = contexts s \<and>
     placedCids s1 = placedCids s \<and> docLog s1 = docLog s \<and> (\<forall>job. ph = Waiting job \<longrightarrow> c \<notin> placedCids s) \<and>
     (\<forall>r. ph = Done (OutPending r) \<longrightarrow> c \<notin> placedCids s) \<and> ph \<noteq> Done OutPlaced"
  by (auto simp: startAttempt_def Let_def split: if_splits)

lemma finishAttempt_fields:
  "finishAttempt E s c job = (s', out) \<Longrightarrow> band s' = band s \<and> contexts s' = contexts s \<and>
     placedCids s' = (if out = OutPlaced then insert c (placedCids s) else placedCids s) \<and>
     (\<forall>r. out \<noteq> OutPending r) \<and>
     (docLog s' = docLog s \<or> out = OutPlaced \<and> (\<exists>pl. docLog s' = docLog s @ [(c, pl)]))"
  by (auto simp: finishAttempt_def place_def split: applyJob.splits sum.splits dest!: applyRemote_fields)

lemma attempt_fields:
  "attempt E ch s c d eager = (s', out) \<Longrightarrow> band s' = band s \<and> contexts s' = contexts s \<and>
     placedCids s' = (if out = OutPlaced then insert c (placedCids s) else placedCids s) \<and>
     (out = OutPlaced \<or> (\<exists>r. out = OutPending r) \<longrightarrow> c \<notin> placedCids s) \<and>
     (docLog s' = docLog s \<or> out = OutPlaced \<and> (\<exists>pl. docLog s' = docLog s @ [(c, pl)]))"
proof -
  assume a: "attempt E ch s c d eager = (s', out)"
  obtain s1 ph where s1: "startAttempt E ch s c d eager = (s1, ph)" by force
  note f1 = startAttempt_fields [OF s1]
  show ?thesis
  proof (cases ph)
    case (Done out1)
    then show ?thesis using a s1 f1 by (auto simp: attempt_def)
  next
    case (Waiting job)
    then have "finishAttempt E s1 c job = (s', out)" using a s1 by (simp add: attempt_def)
    note f2 = finishAttempt_fields [OF this]
    show ?thesis using f1 f2 Waiting by auto
  qed
qed

lemma attempt_log_ok: "attempt E ch s c d eager = (s', out) \<Longrightarrow> log_ok s \<Longrightarrow> log_ok s'"
proof -
  assume a: "attempt E ch s c d eager = (s', out)" and l: "log_ok s"
  note f = attempt_fields [OF a]
  then consider "docLog s' = docLog s" | pl where "out = OutPlaced" "docLog s' = docLog s @ [(c, pl)]" by blast
  then show ?thesis
  proof cases
    case 1
    moreover have "placedCids s \<subseteq> placedCids s'" using f by auto
    ultimately show ?thesis using l unfolding log_ok_def by auto
  next
    case 2
    then have "c \<notin> placedCids s" "placedCids s' = insert c (placedCids s)" using f by simp_all
    then show ?thesis using l 2 unfolding log_ok_def by auto
  qed
qed

lemma emit_fields [simp]:
  "band (emit c out ctx r s) = band s" "contexts (emit c out ctx r s) = contexts s"
  "placedCids (emit c out ctx r s) = placedCids s" "docLog (emit c out ctx r s) = docLog s" "codec (emit c out ctx r s) = codec s"
  by (simp_all add: emit_def)

lemma emit_inv [simp]: "band_ok E (emit c out ctx r s) = band_ok E s" "log_ok (emit c out ctx r s) = log_ok s"
  by (simp_all add: band_ok_def log_ok_def)

lemma forget_fields [simp]:
  "placedCids (forget c s) = placedCids s" "docLog (forget c s) = docLog s"
  by (simp_all add: forget_def)

lemma key_removed: "fst ` set (AList.delete k es) = fst ` set es - {k}"
  using keys_delete [of k es] by simp

lemma pending_remove: "fst ` set (pending (sideband_remove c b)) = fst ` set (pending b) - {c}"
proof (cases "map_of (pending b) c")
  case None
  then have "fst ` set (pending b) - {c} = fst ` set (pending b)" by (simp add: map_of_eq_None_iff)
  with None show ?thesis by (simp add: sideband_remove_def)
qed (simp add: sideband_remove_def key_removed)

text \<open>Once its entry is gone from the sideband an identifier may be placed.\<close>

lemma forget_band_ok:
  assumes "sideband_inv (maxEntries E) (maxBytes E) (band s)" "distinct (map fst (contexts s))"
    "fst ` set (contexts s) = fst ` set (pending (band s))" "(fst ` set (pending (band s)) - {c}) \<inter> placedCids s = {}"
  shows "band_ok E (forget c s)"
  using assms by (simp add: band_ok_def forget_def sideband_remove_inv pending_remove key_removed distinct_delete)

lemma onEvict_fold:
  "band (foldl onEvict s ev) = band s \<and> placedCids (foldl onEvict s ev) = placedCids s \<and> docLog (foldl onEvict s ev) = docLog s \<and>
   fst ` set (contexts (foldl onEvict s ev)) = fst ` set (contexts s) - fst ` set ev \<and>
   (distinct (map fst (contexts s)) \<longrightarrow> distinct (map fst (contexts (foldl onEvict s ev))))"
proof (induction ev arbitrary: s)
  case (Cons p ev)
  have "contexts (onEvict s p) = AList.delete (fst p) (contexts s)" "band (onEvict s p) = band s"
    "placedCids (onEvict s p) = placedCids s" "docLog (onEvict s p) = docLog s"
    by (simp_all add: onEvict_def)
  then show ?case using Cons [of "onEvict s p"] by (auto simp: key_removed distinct_delete)
qed simp

lemma quarantine_ok:
  assumes "band_ok E s" "c \<notin> placedCids s"
  shows "band_ok E (quarantine E c d ctx s) \<and> docLog (quarantine E c d ctx s) = docLog s \<and>
    placedCids (quarantine E c d ctx s) = placedCids s"
proof -
  let ?cs = "AList.update c ctx (contexts s)"
  obtain b ev where a: "sideband_add (maxEntries E) (maxBytes E) c d (band s) = (b, ev)" by force
  have inv: "sideband_inv (maxEntries E) (maxBytes E) (band s)" using assms(1) by (simp add: band_ok_def)
  have p: "sideband_put (maxEntries E) (maxBytes E) c d (band s) = (b, map fst ev)" by (simp add: sideband_put_def a)
  have b: "sideband_inv (maxEntries E) (maxBytes E) b"
    using sideband_store.put_inv [OF inv, of c d] p by simp
  have keys: "fst ` set (pending b) = insert c (fst ` set (pending (band s))) - fst ` set ev"
    using sideband_store.put_dom [OF inv, of c d] p by (simp add: dom_map_of_conv_image_fst)
  have ck: "fst ` set ?cs = insert c (fst ` set (contexts s))" "distinct (map fst ?cs)"
    using assms(1) by (simp_all add: dom_update band_ok_def distinct_update)
  let ?s = "s\<lparr>contexts := ?cs, band := b\<rparr>"
  have q: "quarantine E c d ctx s = foldl onEvict ?s ev" by (simp add: quarantine_def Let_def a)
  show ?thesis
    unfolding q using onEvict_fold [of ?s ev] assms b keys ck by (auto simp: band_ok_def)
qed

lemma ingestSnapshot_inv:
  assumes "ingest_inv E s"
  shows "ingest_inv E (fst (ingestSnapshot E ch s c d ctx))"
proof -
  obtain s1 out where a: "attempt E ch s c d True = (s1, out)" by force
  note f = attempt_fields [OF a]
  have l: "log_ok s1" using attempt_log_ok [OF a] assms by (simp add: ingest_inv_def)
  have i: "fst (ingestSnapshot E ch s c d ctx) = emit c out ctx False (case out of
        OutPlaced \<Rightarrow> if sideband_has c (band s1) then forget c s1 else s1
      | OutPending _ \<Rightarrow> quarantine E c d ctx s1 | OutRejected _ \<Rightarrow> s1)"
    by (simp add: ingestSnapshot_def settle_def a)
  have b: "band_ok E s" using assms by (simp add: ingest_inv_def)
  show ?thesis
  proof (cases out)
    case OutPlaced
    have fb: "band_ok E (forget c s1)"
      by (rule forget_band_ok) (use b f OutPlaced in \<open>auto simp: band_ok_def\<close>)
    have "band_ok E s1" if "\<not> sideband_has c (band s1)"
      using b f that OutPlaced by (auto simp: band_ok_def sideband_has_def map_of_eq_None_iff)
    then show ?thesis using l fb by (simp add: ingest_inv_def i OutPlaced log_ok_def)
  next
    case (OutPending r)
    then have "band_ok E s1" "c \<notin> placedCids s1" using b f by (auto simp: band_ok_def)
    from quarantine_ok [OF this, of d ctx] show ?thesis using l by (simp add: ingest_inv_def i OutPending log_ok_def)
  next
    case (OutRejected r)
    then have "band_ok E s1" using b f by (simp add: band_ok_def)
    then show ?thesis using l by (simp add: ingest_inv_def i OutRejected)
  qed
qed

lemma rescanOne_inv:
  assumes "ingest_inv E s"
  shows "ingest_inv E (rescanOne E ch s p)"
proof -
  obtain c d where p: "p = (c, d)" by force
  have b: "band_ok E s" and l: "log_ok s" using assms by (simp_all add: ingest_inv_def)
  have "band_ok E (forget c s)"
    by (rule forget_band_ok) (use b in \<open>auto simp: band_ok_def\<close>)
  then have forget_s: "ingest_inv E (forget c s)" using l by (simp add: ingest_inv_def log_ok_def)
  show ?thesis
  proof (cases "map_of (contexts s) c = None \<or> \<not> cidParses E c")
    case True
    then show ?thesis using assms forget_s by (auto simp: rescanOne_def p split: option.split)
  next
    case False
    then obtain ctx where ctx: "map_of (contexts s) c = Some ctx" by auto
    obtain s1 out where a: "attempt E ch s c d False = (s1, out)" by force
    note f = attempt_fields [OF a]
    have l1: "log_ok s1" by (rule attempt_log_ok [OF a l])
    have r: "rescanOne E ch s p = emit c out ctx True (case out of OutPending _ \<Rightarrow> s1 | _ \<Rightarrow> forget c s1)"
      using False ctx by (simp add: rescanOne_def p a)
    have fg: "band_ok E (forget c s1)"
      by (rule forget_band_ok) (use b f in \<open>auto simp: band_ok_def\<close>)
    have "band_ok E s1" if "out = OutPending x" for x using b f that by (simp add: band_ok_def)
    then show ?thesis using l1 fg by (cases out) (simp_all add: r ingest_inv_def log_ok_def)
  qed
qed

lemma rescanPending_inv: "ingest_inv E s \<Longrightarrow> ingest_inv E (rescanPending E ch s)"
proof -
  have "ingest_inv E s \<Longrightarrow> ingest_inv E (foldl (rescanOne E ch) s ps)" for ps
    by (induction ps arbitrary: s) (simp_all add: rescanOne_inv)
  then show "ingest_inv E s \<Longrightarrow> ingest_inv E (rescanPending E ch s)" by (simp add: rescanPending_def)
qed

lemma ingest_inv_create: "ingest_inv E createIngestSnapshot"
  by (simp add: ingest_inv_def band_ok_def log_ok_def createIngestSnapshot_def createPendingSideband_def sideband_inv_def)

interpretation ingest_machine: inv_machine createIngestSnapshot "istep E" "ingest_inv E" for E
proof
  fix s op
  assume i: "ingest_inv E s"
  show "ingest_inv E (istep E s op)"
    by (cases op) (simp_all add: ingestSnapshot_inv rescanPending_inv i)
qed (rule ingest_inv_create)

lemma quarantine_log: "docLog (quarantine E c d ctx s) = docLog s \<and> placedCids (quarantine E c d ctx s) = placedCids s"
  using onEvict_fold by (simp add: quarantine_def Let_def split: prod.split)

lemma attempt_not_eager: "docLog (fst (attempt E ch s c d False)) = docLog s"
proof -
  have "docLog (fst (finishAttempt E s' c NotEager)) = docLog s'" for s'
    by (simp add: finishAttempt_def place_def)
  then show ?thesis
    by (simp add: attempt_def startAttempt_def Let_def)
qed

lemma rescanOne_log:
  "docLog (rescanOne E ch s p) = docLog s \<and> placedCids s \<subseteq> placedCids (rescanOne E ch s p)"
proof -
  obtain c d where p: "p = (c, d)" by force
  obtain s1 out where a: "attempt E ch s c d False = (s1, out)" by force
  have "docLog s1 = docLog s" using attempt_not_eager [of E ch s c d] a by simp
  moreover have "placedCids s \<subseteq> placedCids s1" using attempt_fields [OF a] by auto
  ultimately show ?thesis
    by (cases out) (simp_all add: rescanOne_def p a split: option.split)
qed

lemma rescanPending_log:
  "docLog (rescanPending E ch s) = docLog s \<and> placedCids s \<subseteq> placedCids (rescanPending E ch s)"
proof -
  have "docLog (foldl (rescanOne E ch) s ps) = docLog s \<and> placedCids s \<subseteq> placedCids (foldl (rescanOne E ch) s ps)" for ps
  proof (induction ps arbitrary: s)
    case (Cons p ps)
    then show ?case using rescanOne_log [of E ch s p] by fastforce
  qed simp
  then show ?thesis by (simp add: rescanPending_def)
qed

text \<open>What the document is given was decoded and decrypted from a block that passed both gates.\<close>

definition genuine :: "ienv \<Rightarrow> cid \<times> (string, bytes) omap \<Rightarrow> bool" where
  "genuine E p \<longleftrightarrow> (\<exists>b node. verifyCidIntegrity E (fst p) b \<and> validateSnapshot (icrypto E) b \<and>
     decodeSnapshot (icrypto E) b = Ok node \<and> decryptSnapshot (icrypto E) node (ireadKey E) = Ok (snd p))"

lemma genuineI:
  "verifyCidIntegrity E c b \<Longrightarrow> validateSnapshot (icrypto E) b \<Longrightarrow> decodeSnapshot (icrypto E) b = Ok node \<Longrightarrow>
     decryptSnapshot (icrypto E) node (ireadKey E) = Ok pl \<Longrightarrow> genuine E (c, pl)"
  by (auto simp: genuine_def)

lemma startAttempt_job:
  assumes "startAttempt E ch s c d eager = (s1, Waiting (Fetch b))" "decodeSnapshot (icrypto E) [] = Inl e"
  shows "b = Some d \<and> verifyCidIntegrity E c d \<and> validateSnapshot (icrypto E) d"
proof -
  have v: "verifyCidIntegrity E c d" "validateSnapshot (icrypto E) d" and b: "b = store_get E (store_put c d (store s)) c"
    using assms(1) by (auto simp: startAttempt_def Let_def split: if_splits)
  have "d \<noteq> []" using v(2) assms(2) by (auto simp: validateSnapshot_def)
  then show ?thesis using v b by (simp add: store_put_def store_get_def update_conv')
qed

lemma applyRemote_genuine:
  assumes "applyRemote E s c (Some d) = Ok s'" "verifyCidIntegrity E c d" "validateSnapshot (icrypto E) d"
    "list_all (genuine E) (docLog s)"
  shows "list_all (genuine E) (docLog s')"
  using assms by (auto simp: applyRemote_def and_then_Ok_iff Let_def intro: genuineI split: if_splits)

lemma attempt_genuine:
  assumes "attempt E ch s c d eager = (s', out)" "decodeSnapshot (icrypto E) [] = Inl e" "list_all (genuine E) (docLog s)"
  shows "list_all (genuine E) (docLog s')"
proof -
  obtain s1 ph where s1: "startAttempt E ch s c d eager = (s1, ph)" by force
  have g: "list_all (genuine E) (docLog s1)" using startAttempt_fields [OF s1] assms(3) by simp
  show ?thesis
  proof (cases ph)
    case (Done out1)
    then show ?thesis using assms(1) s1 g by (simp add: attempt_def)
  next
    case (Waiting job)
    then have f: "finishAttempt E s1 c job = (s', out)" using assms(1) s1 by (simp add: attempt_def)
    show ?thesis
    proof (cases job)
      case (Fetch b)
      note job = startAttempt_job [OF s1 [unfolded Waiting Fetch] assms(2)]
      show ?thesis using f g applyRemote_genuine [of E s1 c d] job
        by (auto simp: Fetch finishAttempt_def place_def split: sum.splits)
    qed (use f g in \<open>auto simp: finishAttempt_def place_def\<close>)
  qed
qed

lemma istep_genuine:
  assumes "decodeSnapshot (icrypto E) [] = Inl e" "list_all (genuine E) (docLog s)"
  shows "list_all (genuine E) (docLog (istep E s op))"
proof (cases op)
  case (Ingest ch c d ctx)
  obtain s1 out where a: "attempt E ch s c d True = (s1, out)" by force
  have "docLog (fst (settle E c d ctx (s1, out))) = docLog s1"
    using quarantine_log [of E c d ctx s1] by (cases out) (simp_all add: settle_def)
  then show ?thesis using attempt_genuine [OF a assms] by (simp add: Ingest ingestSnapshot_def a)
next
  case (Rescan ch)
  then show ?thesis using rescanPending_log [of E ch s] assms(2) by simp
qed

lemma run_genuine:
  assumes "decodeSnapshot (icrypto E) [] = Inl e"
  shows "list_all (genuine E) (docLog (foldl (istep E) createIngestSnapshot ops))"
proof -
  have "list_all (genuine E) (docLog (foldl (istep E) s ops))" if "list_all (genuine E) (docLog s)" for s
    using that by (induction ops arbitrary: s) (simp_all add: istep_genuine [OF assms])
  then show ?thesis by (simp add: createIngestSnapshot_def)
qed


definition sample_ienv :: ienv where
  "sample_ienv = \<lparr>icrypto = sample_crypto, sha256 = (\<lambda>d. Ok []), cidDigest = (\<lambda>c. []), cidParses = (\<lambda>c. True),
     ireadKey = [7], getClockSum = 42, fetchRemote = (\<lambda>c. None), maxEntries = 10, maxBytes = 10485760\<rparr>"

definition sample_block :: "cid option \<Rightarrow> int \<Rightarrow> bytes" where
  "sample_block prev sq = encodeSnapshot sample_crypto [(''content'', [1])] [twelve] [7] prev sq 0
     (ed25519KeyPairFromSeed sample_crypto [3]) None"

lemma sample_block_valid: "validateSnapshot sample_crypto (sample_block prev sq)"
  unfolding sample_block_def
  using snapshot_encodes [OF sample_crypto_ok, where plain = "[(''content'', [1])]" and nonces = "[twelve]"
      and iseed = None and seed = "[3]", OF _ _ _ refl refl refl]
  by (simp add: twelve_def)

lemma sample_node_nonempty: "cbor_node sample_crypto n \<noteq> []"
  by (simp add: sample_crypto_def node_write_def unary_write_def)

lemma sample_block_decode:
  "\<exists>n. decodeSnapshot sample_crypto (sample_block prev sq) = Ok n \<and> snPrev n = prev \<and> snSeq n = sq \<and>
     decryptSnapshot sample_crypto n [7] = Ok [(''content'', [1])]"
  by (simp add: sample_block_def encodeSnapshot_def decodeSnapshot_def sample_crypto_def node_read_write node_of_def
      decryptSnapshot_def decryptSubdoc_def encryptSubdoc_def twelve_def)

lemma sample_integrity: "verifyCidIntegrity sample_ienv c d"
  by (simp add: verifyCidIntegrity_def sample_ienv_def)

definition sample_ctx :: pendingContext where
  "sample_ctx = \<lparr>source = FromPeer, peerId = Some ''peer''\<rparr>"

lemma sample_start:
  "startAttempt sample_ienv ch s c (sample_block prev sq) eager =
     (if c \<in> placedCids s \<or> applied_entry ch c then (s, Done (OutRejected Duplicate))
      else let s1 = s\<lparr>store := store_put c (sample_block prev sq) (store s)\<rparr> in
        if (case prev of None \<Rightarrow> False | Some p \<Rightarrow> map_of (entries ch) p = None) then (s1, Done (OutPending UnplaceableEpoch))
        else (s1, Waiting (if \<not> eager then NotEager else if lastAppliedCid (codec s) = Some c then AlreadyApplied
                           else Fetch (store_get sample_ienv (store s1) c))))"
proof -
  obtain n where n: "decodeSnapshot sample_crypto (sample_block prev sq) = Ok n" "snPrev n = prev"
    using sample_block_decode by blast
  have "icrypto sample_ienv = sample_crypto" by (simp add: sample_ienv_def)
  then have "isPlaceable sample_ienv (sample_block prev sq) ch \<longleftrightarrow>
      \<not> (case prev of None \<Rightarrow> False | Some p \<Rightarrow> map_of (entries ch) p = None)"
    using n by (simp add: isPlaceable_def split: option.split)
  then show ?thesis
    using sample_block_valid [of prev sq] \<open>icrypto sample_ienv = sample_crypto\<close>
    by (simp add: startAttempt_def sample_integrity)
qed

definition orphan :: bytes where "orphan = sample_block (Some ''p'') 6"

definition sample_pending :: ingest where
  "sample_pending = istep sample_ienv createIngestSnapshot (Ingest INITIAL_CHAIN ''c'' orphan sample_ctx)"

lemma sample_pending_eq:
  "pending (band sample_pending) = [(''c'', orphan)] \<and> map_of (contexts sample_pending) ''c'' = Some sample_ctx \<and>
   placedCids sample_pending = {} \<and> docLog sample_pending = []"
proof -
  have len: "length orphan < 1000"
    by (simp add: orphan_def sample_block_def encodeSnapshot_def sample_crypto_def node_write_def node_of_def twelve_def
        unary_write_def text_write_def array_write_def chars_write_def opt_write_def int_write_def encode_list_def
        encryptSubdoc_def ed25519KeyPairFromSeed_def signBytes_def)
  have a: "sideband_add 10 10485760 ''c'' orphan createPendingSideband =
      (\<lparr>pending = [(''c'', orphan)], sbytes = int (length orphan)\<rparr>, [])"
    using len by (simp add: sideband_add_def sideband_has_def createPendingSideband_def)
  have caps: "maxEntries sample_ienv = 10" "maxBytes sample_ienv = 10485760" by (simp_all add: sample_ienv_def)
  show ?thesis
    by (simp add: sample_pending_def ingestSnapshot_def attempt_def sample_start orphan_def [symmetric]
        createIngestSnapshot_def INITIAL_CHAIN_def applied_entry_def settle_def quarantine_def a caps
        sample_start [of _ _ _ "Some ''p''" 6, folded orphan_def])
qed


section \<open>Placed by a rescan, never applied\<close>

definition keeps_out :: "cid \<Rightarrow> ingest \<Rightarrow> bool" where
  "keeps_out c s \<longleftrightarrow> c \<in> placedCids s \<and> c \<notin> fst ` set (docLog s)"

lemma keeps_out_attempt: "keeps_out c s \<Longrightarrow> keeps_out c (fst (attempt E ch s c' d eager))"
proof -
  assume k: "keeps_out c s"
  obtain s1 out where a: "attempt E ch s c' d eager = (s1, out)" by force
  show ?thesis using attempt_fields [OF a] k a by (auto simp: keeps_out_def)
qed

lemma keeps_out_ingest: "keeps_out c s \<Longrightarrow> keeps_out c (fst (ingestSnapshot E ch s c' d ctx))"
proof -
  assume k: "keeps_out c s"
  obtain s1 out where a: "attempt E ch s c' d True = (s1, out)" by force
  have k1: "keeps_out c s1" using keeps_out_attempt [OF k, of E ch c' d True] a by simp
  then show ?thesis
    using quarantine_log [of E c' d ctx s1]
    by (cases out) (simp_all add: ingestSnapshot_def settle_def a keeps_out_def)
qed

lemma keeps_out_run: "keeps_out c s \<Longrightarrow> keeps_out c (foldl (istep E) s ops)"
proof (induction ops arbitrary: s)
  case (Cons op ops)
  have "keeps_out c (istep E s op)"
  proof (cases op)
    case (Ingest ch c' d ctx)
    then show ?thesis using keeps_out_ingest [OF Cons.prems] by simp
  next
    case (Rescan ch)
    then show ?thesis using rescanPending_log [of E ch s] Cons.prems by (auto simp: keeps_out_def)
  qed
  then show ?case using Cons.IH by simp
qed simp

lemma duplicate_reported_applied:
  assumes "c \<in> placedCids s" "verifyCidIntegrity E c d" "validateSnapshot (icrypto E) d" "decodeSnapshot (icrypto E) d = Ok n"
  shows "snd (applySnapshotOps E ch s c d src) = Inr (snSeq n) \<and> docLog (fst (applySnapshotOps E ch s c d src)) = docLog s"
proof -
  have "attempt E ch s c d True = (s, OutRejected Duplicate)"
    using assms(1-3) by (simp add: attempt_def startAttempt_def)
  then show ?thesis
    by (simp add: applySnapshotOps_def ingestSnapshot_def settle_def snapshotSeq_def assms(4))
qed

text \<open>
  A block that a rescan of the sideband places is never given to the document: whatever is ingested and
  rescanned afterwards its content is not applied, and when the interpreter asks for it to be applied it is told
  that it was, with the number to advance the tip to.
\<close>

theorem rescan_placed_never_applied:
  assumes "c \<notin> fst ` set (docLog s)" "c \<in> placedCids (rescanPending E ch s)"
    and "s' = foldl (istep E) (rescanPending E ch s) ops"
    and "verifyCidIntegrity E c d" "validateSnapshot (icrypto E) d" "decodeSnapshot (icrypto E) d = Ok n"
  shows "c \<notin> fst ` set (docLog s') \<and> snd (applySnapshotOps E ch' s' c d src) = Inr (snSeq n) \<and>
    docLog (fst (applySnapshotOps E ch' s' c d src)) = docLog s'"
proof -
  have "keeps_out c (rescanPending E ch s)"
    using assms(1,2) rescanPending_log by (simp add: keeps_out_def)
  then have "keeps_out c s'" unfolding assms(3) by (rule keeps_out_run)
  then show ?thesis using duplicate_reported_applied [OF _ assms(4-6)] by (simp add: keeps_out_def)
qed

definition with_parent :: chainState where
  "with_parent = INITIAL_CHAIN\<lparr>entries := [(''p'', newEntry ''p'' (Some 5) None Gossipsub Fetched)]\<rparr>"

theorem rescan_placed_never_applied_witness:
  "placedCids (rescanPending sample_ienv with_parent sample_pending) = {''c''} \<and>
   snd (applySnapshotOps sample_ienv with_parent (rescanPending sample_ienv with_parent sample_pending) ''c'' orphan FromPeer) = Inr 6 \<and>
   docLog (fst (applySnapshotOps sample_ienv with_parent (rescanPending sample_ienv with_parent sample_pending) ''c'' orphan FromPeer)) = []"
proof -
  let ?r = "rescanPending sample_ienv with_parent sample_pending"
  note p = sample_pending_eq
  have w: "map_of (entries with_parent) ''p'' = Some (newEntry ''p'' (Some 5) None Gossipsub Fetched)" "\<not> applied_entry with_parent ''c''" "cidParses sample_ienv ''c''"
    by (simp_all add: with_parent_def applied_entry_def sample_ienv_def)
  have placed: "placedCids ?r = {''c''}"
    using p w by (simp add: rescanPending_def rescanOne_def attempt_def finishAttempt_def place_def Let_def
        sample_start [of _ _ _ "Some ''p''" 6, folded orphan_def])
  have log: "docLog ?r = []" using rescanPending_log p by simp
  obtain n where n: "decodeSnapshot (icrypto sample_ienv) orphan = Ok n" "snSeq n = 6"
    using sample_block_decode [of "Some ''p''" 6] by (auto simp: orphan_def sample_ienv_def)
  have "validateSnapshot (icrypto sample_ienv) orphan"
    using sample_block_valid by (simp add: orphan_def sample_ienv_def)
  from rescan_placed_never_applied [of "''c''" sample_pending sample_ienv with_parent ?r "[]" orphan n with_parent FromPeer,
      OF _ _ _ sample_integrity this n(1)]
  show ?thesis using placed log p n(2) by simp
qed

section \<open>Interleaved attempts\<close>

text \<open>
  Attempts run concurrently: a step starts an attempt, up to the point where it waits, or finishes one that waits.
\<close>

record system =
  ing :: ingest
  jobs :: "(cid \<times> bytes \<times> pendingContext \<times> applyJob) list"

inductive concurrent :: "ienv \<Rightarrow> chainState \<Rightarrow> system \<Rightarrow> system \<Rightarrow> bool" for E ch where
  starts: "startAttempt E ch (ing S) c d True = (s1, Waiting job) \<Longrightarrow>
     concurrent E ch S \<lparr>ing = s1, jobs = jobs S @ [(c, d, ctx, job)]\<rparr>"
| refused: "startAttempt E ch (ing S) c d True = (s1, Done out) \<Longrightarrow>
     concurrent E ch S (S\<lparr>ing := fst (settle E c d ctx (s1, out))\<rparr>)"
| finishes: "jobs S = js1 @ (c, d, ctx, job) # js2 \<Longrightarrow>
     concurrent E ch S \<lparr>ing = fst (settle E c d ctx (finishAttempt E (ing S) c job)), jobs = js1 @ js2\<rparr>"

inductive_cases concurrentE: "concurrent E ch S T"

definition idle :: "ingest \<Rightarrow> system" where "idle s = \<lparr>ing = s, jobs = []\<rparr>"

lemma sequential_is_concurrent:
  "(concurrent E ch)\<^sup>*\<^sup>* (idle s) (idle (fst (ingestSnapshot E ch s c d ctx)))"
proof (cases "startAttempt E ch s c d True")
  case (Pair s1 ph)
  show ?thesis
  proof (cases ph)
    case (Done out)
    have "concurrent E ch (idle s) ((idle s)\<lparr>ing := fst (settle E c d ctx (s1, out))\<rparr>)"
      by (rule concurrent.refused) (simp add: idle_def Pair Done)
    then show ?thesis by (simp add: idle_def ingestSnapshot_def attempt_def Pair Done)
  next
    case (Waiting job)
    let ?m = "\<lparr>ing = s1, jobs = [(c, d, ctx, job)]\<rparr>"
    have "concurrent E ch (idle s) \<lparr>ing = s1, jobs = jobs (idle s) @ [(c, d, ctx, job)]\<rparr>"
      by (rule concurrent.starts) (simp add: idle_def Pair Waiting)
    then have 1: "concurrent E ch (idle s) ?m" by (simp add: idle_def)
    have 2: "concurrent E ch ?m \<lparr>ing = fst (settle E c d ctx (finishAttempt E (ing ?m) c job)), jobs = [] @ []\<rparr>"
      by (rule concurrent.finishes) simp
    show ?thesis using 1 2
      by (simp add: idle_def ingestSnapshot_def attempt_def Pair Waiting converse_rtranclp_into_rtranclp r_into_rtranclp)
  qed
qed

lemma apply_logs:
  assumes "decodeSnapshot (icrypto E) b = Ok n" "decryptSnapshot (icrypto E) n (ireadKey E) = Ok pl" "b \<noteq> []"
  shows "\<exists>s1. finishAttempt E s c (Fetch (Some b)) = (s1, OutPlaced) \<and> docLog s1 = docLog s @ [(c, pl)]"
  using assms by (simp add: finishAttempt_def applyRemote_def place_def)

lemma settle_placed_log: "docLog (fst (settle E c d ctx (s, OutPlaced))) = docLog s"
  by (simp add: settle_def)

text \<open>
  The duplicate gate does not hold across concurrent attempts: a valid block that arrives twice before the
  first attempt has finished, on the catalog path and on the gossip path, is applied to the document twice.
\<close>

theorem concurrent_double_apply:
  assumes "verifyCidIntegrity E c d" "validateSnapshot (icrypto E) d" "isPlaceable E d ch" "d \<noteq> []"
    and "decodeSnapshot (icrypto E) d = Ok n" "decryptSnapshot (icrypto E) n (ireadKey E) = Ok pl"
    and "c \<notin> placedCids s" "\<not> applied_entry ch c" "lastAppliedCid (codec s) \<noteq> Some c"
  shows "\<exists>T. (concurrent E ch)\<^sup>*\<^sup>* (idle s) T \<and> jobs T = [] \<and> docLog (ing T) = docLog s @ [(c, pl), (c, pl)]"
proof -
  let ?s1 = "s\<lparr>store := store_put c d (store s)\<rparr>" and ?job = "Fetch (Some d)"
  have start: "startAttempt E ch s' c d True = (s'\<lparr>store := store_put c d (store s')\<rparr>, Waiting ?job)"
    if "placedCids s' = placedCids s" "codec s' = codec s" for s'
    using assms that by (simp add: startAttempt_def store_get_def store_put_def update_conv')
  let ?s2 = "?s1\<lparr>store := store_put c d (store ?s1)\<rparr>"
  let ?A = "\<lparr>ing = ?s1, jobs = [(c, d, sample_ctx, ?job)]\<rparr>"
  have 1: "concurrent E ch (idle s) \<lparr>ing = ?s1, jobs = jobs (idle s) @ [(c, d, sample_ctx, ?job)]\<rparr>"
    by (rule concurrent.starts) (simp add: idle_def start)
  have 2: "concurrent E ch ?A \<lparr>ing = ?s2, jobs = jobs ?A @ [(c, d, sample_ctx, ?job)]\<rparr>"
    by (rule concurrent.starts) (simp only: system.simps, rule start, simp_all)
  obtain s3 where s3: "finishAttempt E ?s2 c ?job = (s3, OutPlaced)" "docLog s3 = docLog s @ [(c, pl)]"
    using apply_logs [OF assms(5,6,4), of ?s2 c] by auto
  define s3' where "s3' = fst (settle E c d sample_ctx (s3, OutPlaced))"
  obtain s4 where s4: "finishAttempt E s3' c ?job = (s4, OutPlaced)" "docLog s4 = docLog s3' @ [(c, pl)]"
    using apply_logs [OF assms(5,6,4), of s3' c] by auto
  have l3: "docLog s3' = docLog s @ [(c, pl)]" using s3(2) by (simp add: s3'_def settle_placed_log)
  let ?B = "\<lparr>ing = ?s2, jobs = [(c, d, sample_ctx, ?job), (c, d, sample_ctx, ?job)]\<rparr>"
  let ?C = "\<lparr>ing = s3', jobs = [(c, d, sample_ctx, ?job)]\<rparr>"
  let ?D = "\<lparr>ing = fst (settle E c d sample_ctx (s4, OutPlaced)), jobs = []\<rparr>"
  have 3: "concurrent E ch ?B ?C"
    using concurrent.finishes [of ?B "[]" c d sample_ctx ?job "[(c, d, sample_ctx, ?job)]" E ch] s3(1)
    by (simp add: s3'_def)
  have 4: "concurrent E ch ?C ?D"
    using concurrent.finishes [of ?C "[]" c d sample_ctx ?job "[]" E ch] s4(1) by simp
  have "(concurrent E ch)\<^sup>*\<^sup>* (idle s) ?D"
    using 1 2 3 4 by (simp add: idle_def converse_rtranclp_into_rtranclp)
  moreover have "docLog (ing ?D) = docLog s @ [(c, pl), (c, pl)]" using s4(2) l3 by (simp add: settle_placed_log)
  ultimately show ?thesis by (intro exI [of _ ?D]) simp
qed

theorem concurrent_double_apply_witness:
  "\<exists>T. (concurrent sample_ienv INITIAL_CHAIN)\<^sup>*\<^sup>* (idle createIngestSnapshot) T \<and>
     docLog (ing T) = [(''c'', [(''content'', [1])]), (''c'', [(''content'', [1])])]"
proof -
  obtain n where n: "decodeSnapshot (icrypto sample_ienv) (sample_block None 1) = Ok n" "snPrev n = None"
      "decryptSnapshot (icrypto sample_ienv) n (ireadKey sample_ienv) = Ok [(''content'', [1])]"
    using sample_block_decode [of None 1] by (auto simp: sample_ienv_def)
  have "validateSnapshot (icrypto sample_ienv) (sample_block None 1)"
    using sample_block_valid by (simp add: sample_ienv_def)
  moreover have "isPlaceable sample_ienv (sample_block None 1) INITIAL_CHAIN" using n by (simp add: isPlaceable_def)
  moreover have "sample_block None 1 \<noteq> []"
    by (simp add: sample_block_def encodeSnapshot_def Let_def sample_node_nonempty)
  moreover have "\<not> applied_entry INITIAL_CHAIN ''c''" by (simp add: applied_entry_def INITIAL_CHAIN_def)
  ultimately show ?thesis
    using concurrent_double_apply [of sample_ienv "''c''" "sample_block None 1" INITIAL_CHAIN n "[(''content'', [1])]"
        createIngestSnapshot, OF sample_integrity _ _ _ n(1) n(3)]
    by (auto simp: createIngestSnapshot_def createSnapshotCodec_def)
qed

end
