(* ===== verification/Snapshot_Exchange.thy ===== *)
theory Snapshot_Exchange
  imports Wire "HOL-Library.Multiset"
begin

text \<open>
  The exchange of snapshot blocks between two peers (\<open>packages/sync/src/reconciliation/snapshot-exchange.ts\<close>):
  catalogs, requests, chunked blocks and their reassembly.  Identifiers are keyed by their bytes, of which the
  code's keys are the hexadecimal text.  Verification is awaited: a completed reassembly is a job whose
  outcome a later step reports.  A chunk size of zero, with which the code would loop, sends nothing.
\<close>

section \<open>Selection\<close>

type_synonym catalogEntry = "bytes \<times> nat \<times> int"

definition seq_of :: "catalogEntry \<Rightarrow> int" where "seq_of e = int (fst (snd e))"

fun take_budget :: "nat \<Rightarrow> bytes option \<Rightarrow> catalogEntry list \<Rightarrow> bytes list \<Rightarrow> bytes list" where
  "take_budget budget t [] out = out"
| "take_budget budget t (e # es) out =
     (if budget \<le> length out then out
      else if t = Some (fst e) then take_budget budget t es out
      else take_budget budget t es (out @ [fst e]))"

definition selectCidsToRequest :: "catalogEntry list \<Rightarrow> bytes option \<Rightarrow> (bytes \<Rightarrow> bytes option) \<Rightarrow> nat \<Rightarrow> bytes list" where
  "selectCidsToRequest es t get budget =
     (let out = (case t of Some c \<Rightarrow> if get c = None then [c] else [] | None \<Rightarrow> []);
          missing = sort_key (\<lambda>e. - seq_of e) (filter (\<lambda>e. get (fst e) = None) es)
      in take_budget budget t missing out)"

section \<open>State\<close>

record reassembly =
  total :: nat
  chunks :: "(nat \<times> bytes) list"
  bytesReceived :: nat

record exchange =
  reassemblies :: "(bytes, reassembly) omap"
  requested :: "bytes set"
  stopped :: bool

definition createSnapshotExchange :: exchange where
  "createSnapshotExchange = \<lparr>reassemblies = [], requested = {}, stopped = False\<rparr>"

definition advertise :: "exchange \<Rightarrow> catalogEntry list \<Rightarrow> bytes option \<Rightarrow> message option" where
  "advertise s es t = (if stopped s then None else Some (SnapshotCatalog es t))"

fun fresh_cids :: "bytes set \<Rightarrow> bytes list \<Rightarrow> bytes set \<times> bytes list" where
  "fresh_cids req [] = (req, [])"
| "fresh_cids req (c # cs) =
     (if c \<in> req then fresh_cids req cs
      else let (req', out) = fresh_cids (insert c req) cs in (req', c # out))"

definition handleCatalog :: "nat \<Rightarrow> (bytes \<Rightarrow> bytes option) \<Rightarrow> exchange \<Rightarrow> catalogEntry list \<Rightarrow> bytes option \<Rightarrow>
    exchange \<times> message list" where
  "handleCatalog budget get s es t =
     (let (req, fresh) = fresh_cids (requested s) (selectCidsToRequest es t get budget)
      in (s\<lparr>requested := req\<rparr>, if fresh = [] then [] else [SnapshotRequest fresh]))"

function chunks_of :: "nat \<Rightarrow> bytes \<Rightarrow> nat \<Rightarrow> (nat \<times> bytes) list" where
  "chunks_of sz block offset =
     (if offset < length block \<and> 0 < sz
      then (offset, take sz (drop offset block)) # chunks_of sz block (offset + sz) else [])"
  by pat_completeness auto
termination
  by (relation "measure (\<lambda>(_, block, offset). length block - offset)") auto

declare chunks_of.simps [simp del]

text \<open>A block that is missing or empty is refused with an empty chunk of total 0.\<close>

definition serve_cid :: "nat \<Rightarrow> (bytes \<Rightarrow> bytes option) \<Rightarrow> bytes \<Rightarrow> message list" where
  "serve_cid sz get c = (case get c of
      None \<Rightarrow> [SnapshotBlock c [] 0 0 False]
    | Some block \<Rightarrow>
        if block = [] then [SnapshotBlock c [] 0 0 False]
        else map (\<lambda>(off, d). SnapshotBlock c d off (length block) False) (chunks_of sz block 0))"

fun mark_last :: "message \<Rightarrow> message" where
  "mark_last (SnapshotBlock c d off tot lst) = SnapshotBlock c d off tot True"
| "mark_last m = m"

definition handleRequest :: "nat \<Rightarrow> (bytes \<Rightarrow> bytes option) \<Rightarrow> bytes list \<Rightarrow> message list" where
  "handleRequest sz get cids =
     (let ms = concat (map (serve_cid sz get) cids)
      in if ms = [] then [] else butlast ms @ [mark_last (last ms)])"

section \<open>Reassembly\<close>

text \<open>\<^verbatim>\<open>full.set(data, offset)\<close> on a buffer of the total length.\<close>

definition write_at :: "bytes \<Rightarrow> nat \<times> bytes \<Rightarrow> bytes" where
  "write_at buf p = (case p of (off, d) \<Rightarrow> take off buf @ d @ drop (off + length d) buf)"

definition assemble :: "nat \<Rightarrow> (nat \<times> bytes) list \<Rightarrow> bytes" where
  "assemble tot cs = foldl write_at (replicate tot 0) (sort_key fst cs)"

text \<open>The part of the handler before verification: the new state and the block to verify, if one is complete.\<close>

definition handleBlock :: "exchange \<Rightarrow> bytes \<Rightarrow> bytes \<Rightarrow> nat \<Rightarrow> nat \<Rightarrow> exchange \<times> (bytes \<times> bytes) option" where
  "handleBlock s c block offset tot =
     (if tot = 0 then
        (s\<lparr>reassemblies := AList.delete c (reassemblies s), requested := requested s - {c}\<rparr>, None)
      else if tot < offset + length block then
        (s\<lparr>reassemblies := AList.delete c (reassemblies s)\<rparr>, None)
      else let r = (case map_of (reassemblies s) c of
                      None \<Rightarrow> \<lparr>total = tot, chunks = [], bytesReceived = 0\<rparr> | Some r \<Rightarrow> r)
        in if total r \<noteq> tot then
             (s\<lparr>reassemblies := AList.delete c (reassemblies s), requested := requested s - {c}\<rparr>, None)
           else let r1 = r\<lparr>chunks := chunks r @ [(offset, block)], bytesReceived := bytesReceived r + length block\<rparr>
             in if bytesReceived r1 < total r1 then (s\<lparr>reassemblies := AList.update c r1 (reassemblies s)\<rparr>, None)
                else (s\<lparr>reassemblies := AList.delete c (reassemblies s)\<rparr>, Some (c, assemble (total r1) (chunks r1))))"

text \<open>The part after it: what is handed to the caller.\<close>

definition verified :: "exchange \<Rightarrow> bytes \<times> bytes \<Rightarrow> bool \<Rightarrow> exchange \<times> (bytes \<times> bytes) option" where
  "verified s job ok =
     (if stopped s then (s, None)
      else if \<not> ok then (s\<lparr>requested := requested s - {fst job}\<rparr>, None)
      else (s, Some job))"

text \<open>\<^verbatim>\<open>defaultVerify\<close>, over the decoder of identifiers, the hash and the validation of snapshots.\<close>

definition defaultVerify :: "(bytes \<Rightarrow> bytes result) \<Rightarrow> (bytes \<Rightarrow> bytes) \<Rightarrow> (bytes \<Rightarrow> bool) \<Rightarrow> bytes \<Rightarrow> bytes \<Rightarrow> bool" where
  "defaultVerify digestOf hash validate c d =
     (case digestOf c of Inl _ \<Rightarrow> False | Inr h \<Rightarrow> h = hash d \<and> validate d)"

datatype exchange_out = SendMessage message | VerifyBlock bytes bytes

definition exchange_receive :: "nat \<Rightarrow> nat \<Rightarrow> (bytes \<Rightarrow> bytes option) \<Rightarrow> exchange \<Rightarrow> message \<Rightarrow> exchange \<times> exchange_out list" where
  "exchange_receive sz budget get s msg =
     (if stopped s then (s, [])
      else case msg of
        SnapshotCatalog es t \<Rightarrow> (let (s', ms) = handleCatalog budget get s es t in (s', map SendMessage ms))
      | SnapshotRequest cids \<Rightarrow> (s, map SendMessage (handleRequest sz get cids))
      | SnapshotBlock c d off tot lst \<Rightarrow>
          (let (s', job) = handleBlock s c d off tot
           in (s', case job of None \<Rightarrow> [] | Some (c', b) \<Rightarrow> [VerifyBlock c' b]))
      | _ \<Rightarrow> (s, []))"

definition destroy_exchange :: "exchange \<Rightarrow> exchange" where
  "destroy_exchange s = s\<lparr>reassemblies := [], requested := {}, stopped := True\<rparr>"

section \<open>Chunks\<close>

lemma chunks_of_step: "offset < length block \<Longrightarrow> 0 < sz \<Longrightarrow>
    chunks_of sz block offset = (offset, take sz (drop offset block)) # chunks_of sz block (offset + sz)"
  by (subst chunks_of.simps) simp

lemma chunks_of_stop: "length block \<le> offset \<Longrightarrow> chunks_of sz block offset = []"
  by (subst chunks_of.simps) simp

lemma chunks_induct [consumes 1, case_names stop step]:
  fixes block :: bytes
  assumes "0 < sz"
    and "\<And>off. length block \<le> off \<Longrightarrow> P off []"
    and "\<And>off. off < length block \<Longrightarrow> P (off + sz) (chunks_of sz block (off + sz)) \<Longrightarrow>
      P off ((off, take sz (drop off block)) # chunks_of sz block (off + sz))"
  shows "P off (chunks_of sz block off)"
proof (induction "length block - off" arbitrary: off rule: less_induct)
  case less
  show ?case
  proof (cases "off < length block")
    case True
    then show ?thesis using assms(1,3) less by (simp add: chunks_of_step)
  qed (simp add: chunks_of_stop assms(2))
qed

lemma chunks_offsets:
  assumes "0 < sz"
  shows "sorted_wrt (<) (map fst (chunks_of sz block off)) \<and> (\<forall>p \<in> set (chunks_of sz block off). off \<le> fst p)"
  using assms
proof (rule chunks_induct [where block = block and off = off and
      P = "\<lambda>off cs. sorted_wrt (<) (map fst cs) \<and> (\<forall>p \<in> set cs. off \<le> fst p)"])
  fix off
  assume "sorted_wrt (<) (map fst (chunks_of sz block (off + sz))) \<and> (\<forall>p \<in> set (chunks_of sz block (off + sz)). off + sz \<le> fst p)"
  then show "sorted_wrt (<) (map fst ((off, take sz (drop off block)) # chunks_of sz block (off + sz))) \<and>
      (\<forall>p \<in> set ((off, take sz (drop off block)) # chunks_of sz block (off + sz)). off \<le> fst p)"
    using assms by fastforce
qed simp

lemma chunks_lengths:
  "0 < sz \<Longrightarrow> sum_list (map (\<lambda>p. length (snd p)) (chunks_of sz block off)) = length block - off"
  by (rule chunks_induct [where block = block and off = off and
      P = "\<lambda>off cs. sum_list (map (\<lambda>p. length (snd p)) cs) = length block - off"]) auto

lemma chunks_bounds:
  "0 < sz \<Longrightarrow> \<forall>p \<in> set (chunks_of sz block off). 0 < length (snd p) \<and> fst p + length (snd p) \<le> length block"
  by (rule chunks_induct [where block = block and off = off and
      P = "\<lambda>off cs. \<forall>p \<in> set cs. 0 < length (snd p) \<and> fst p + length (snd p) \<le> length block"]) auto

lemma write_at_next:
  assumes "length buf = length block" "take off buf = take off block" "off < length block"
  shows "take (off + sz) (write_at buf (off, take sz (drop off block))) = take (off + sz) block \<and>
    length (write_at buf (off, take sz (drop off block))) = length block"
proof (cases "off + sz \<le> length block")
  case True
  then show ?thesis using assms by (simp add: write_at_def take_add)
next
  case False
  then have "take sz (drop off block) = drop off block" by simp
  then show ?thesis using assms False by (simp add: write_at_def)
qed

lemma chunks_assemble:
  "0 < sz \<Longrightarrow> \<forall>buf. length buf = length block \<longrightarrow> take off buf = take off block \<longrightarrow>
     foldl write_at buf (chunks_of sz block off) = block"
  by (rule chunks_induct [where block = block and off = off and
      P = "\<lambda>off cs. \<forall>buf. length buf = length block \<longrightarrow> take off buf = take off block \<longrightarrow> foldl write_at buf cs = block"])
    (simp_all add: write_at_next)

lemma assemble_chunks:
  assumes "0 < sz" "mset cs = mset (chunks_of sz block 0)"
  shows "assemble (length block) cs = block"
proof -
  let ?ch = "chunks_of sz block 0"
  have so: "sorted (map fst ?ch)" "distinct (map fst ?ch)"
    using chunks_offsets [OF assms(1), of block 0] by (simp_all add: strict_sorted_iff)
  have "mset (map fst cs) = mset (map fst ?ch)" using assms(2) by simp
  then have d: "distinct (map fst cs)" using so(2) by (metis mset_eq_imp_distinct_iff)
  have st: "set cs = set ?ch" using assms(2) by (rule mset_eq_setD)
  have "sort_key fst cs = ?ch"
  proof (rule map_sorted_distinct_set_unique)
    show "inj_on fst (set (sort_key fst cs) \<union> set ?ch)" using so(2) st by (simp add: distinct_map)
    show "distinct (map fst (sort_key fst cs))" using d by (simp add: distinct_map)
  qed (simp_all add: so st)
  then show ?thesis using chunks_assemble [OF assms(1), of block 0] by (simp add: assemble_def)
qed

section \<open>Any order of arrival\<close>

fun receive_all :: "nat \<Rightarrow> nat \<Rightarrow> (bytes \<Rightarrow> bytes option) \<Rightarrow> exchange \<Rightarrow> message list \<Rightarrow> exchange \<times> exchange_out list" where
  "receive_all sz budget get s [] = (s, [])"
| "receive_all sz budget get s (m # ms) =
     (let (s1, o1) = exchange_receive sz budget get s m; (s2, o2) = receive_all sz budget get s1 ms in (s2, o1 @ o2))"

lemma receive_all_snd:
  "exchange_receive sz budget get s m = (s1, o1) \<Longrightarrow>
     snd (receive_all sz budget get s (m # ms)) = o1 @ snd (receive_all sz budget get s1 ms)"
  by (simp split: prod.split)

fun about :: "bytes \<Rightarrow> message \<Rightarrow> bool" where
  "about c (SnapshotBlock c' _ _ _ _) = (c' = c)"
| "about c _ = False"

fun chunk :: "message \<Rightarrow> nat \<times> bytes \<times> nat" where
  "chunk (SnapshotBlock _ d off tot _) = (off, d, tot)"
| "chunk _ = (0, [], 0)"

fun verifies :: "bytes \<Rightarrow> exchange_out \<Rightarrow> bool" where
  "verifies c (VerifyBlock c' _) = (c' = c)"
| "verifies c _ = False"

lemma verifies_send [simp]: "filter (verifies c) (map SendMessage ms) = []"
  by (induction ms) simp_all

lemma receive_other:
  assumes "exchange_receive sz budget get s m = (s1, os)" "\<not> about c m"
  shows "map_of (reassemblies s1) c = map_of (reassemblies s) c \<and> stopped s1 = stopped s \<and> filter (verifies c) os = []"
  using assms
  by (cases m)
    (auto simp: exchange_receive_def handleCatalog_def handleBlock_def Let_def delete_conv' update_conv'
      split: if_splits prod.splits option.splits)

definition partial :: "bytes \<Rightarrow> exchange \<Rightarrow> nat \<Rightarrow> (nat \<times> bytes) list \<Rightarrow> bool" where
  "partial c s tot cs \<longleftrightarrow> \<not> stopped s \<and>
     map_of (reassemblies s) c = (if cs = [] then None
       else Some \<lparr>total = tot, chunks = cs, bytesReceived = sum_list (map (\<lambda>p. length (snd p)) cs)\<rparr>)"

lemma receive_chunk:
  assumes "partial c s tot cs" "0 < tot" "off + length d \<le> tot"
    and "exchange_receive sz budget get s (SnapshotBlock c d off tot lst) = (s1, os)"
  shows "if sum_list (map (\<lambda>p. length (snd p)) (cs @ [(off, d)])) < tot
    then partial c s1 tot (cs @ [(off, d)]) \<and> os = []
    else partial c s1 tot [] \<and> os = [VerifyBlock c (assemble tot (cs @ [(off, d)]))]"
  using assms
  by (auto simp: partial_def exchange_receive_def handleBlock_def Let_def delete_conv' update_conv' split: if_splits)

lemma receive_all_permuted:
  assumes "0 < sz" "block \<noteq> []" "partial c s (length block) cs"
    and "mset cs + mset rest = mset (chunks_of sz block 0)" "rest \<noteq> []"
    and "map chunk (filter (about c) ms) = map (\<lambda>p. (fst p, snd p, length block)) rest"
  shows "filter (verifies c) (snd (receive_all sz' budget get s ms)) = [VerifyBlock c block]"
  using assms(3-6)
proof (induction ms arbitrary: s cs rest)
  case (Cons m ms)
  obtain s1 o1 where r: "exchange_receive sz' budget get s m = (s1, o1)" by force
  show ?case
  proof (cases "about c m")
    case False
    have "partial c s1 (length block) cs" using receive_other [OF r False] Cons.prems(1) by (simp add: partial_def)
    then have "filter (verifies c) (snd (receive_all sz' budget get s1 ms)) = [VerifyBlock c block]"
      using Cons.IH Cons.prems False by simp
    then show ?thesis using receive_other [OF r False] by (simp only: receive_all_snd [OF r] filter_append) simp
  next
    case True
    then obtain d off tot lst where m: "m = SnapshotBlock c d off tot lst" by (cases m) auto
    obtain p rest' where rest: "rest = p # rest'" using Cons.prems(3) by (cases rest) auto
    have p: "p = (off, d)" "tot = length block" and ms: "map chunk (filter (about c) ms) = map (\<lambda>p. (fst p, snd p, length block)) rest'"
      using Cons.prems(4) True m rest by (auto simp: prod_eq_iff)
    have mem: "set (cs @ rest) = set (chunks_of sz block 0)"
      using mset_eq_setD [of "cs @ rest" "chunks_of sz block 0"] Cons.prems(2) by simp
    have len: "sum_list (map (\<lambda>p. length (snd p)) (cs @ rest)) = length block"
    proof -
      have "mset (map (\<lambda>p. length (snd p)) (cs @ rest)) = mset (map (\<lambda>p. length (snd p)) (chunks_of sz block 0))"
        using Cons.prems(2) by (metis mset_append mset_map)
      then show ?thesis using chunks_lengths [OF assms(1), of block 0] by (metis diff_zero sum_mset_sum_list)
    qed
    have in_chunks: "set rest \<subseteq> set (chunks_of sz block 0)" using mem by auto
    then have "(off, d) \<in> set (chunks_of sz block 0)" using rest p by simp
    then have b: "off + length d \<le> length block" using chunks_bounds [OF assms(1), of block 0] by fastforce
    have pos: "0 < length (snd q)" if "q \<in> set rest'" for q
      using that in_chunks rest chunks_bounds [OF assms(1), of block 0] by (meson list.set_intros(2) subsetD)
    have lt: "sum_list (map (\<lambda>p. length (snd p)) (cs @ [(off, d)])) < length block \<longleftrightarrow> rest' \<noteq> []"
    proof -
      have "rest' \<noteq> [] \<longleftrightarrow> 0 < sum_list (map (\<lambda>p. length (snd p)) rest')"
      proof (cases rest')
        case (Cons q qs)
        then have "0 < length (snd q)" by (intro pos) simp
        then show ?thesis using Cons by simp
      qed simp
      then show ?thesis using len rest p by simp linarith
    qed
    note st = receive_chunk [OF Cons.prems(1) _ b r [unfolded m p(2)]]
    show ?thesis
    proof (cases "rest' = []")
      case True
      then have o1: "o1 = [VerifyBlock c (assemble (length block) (cs @ [(off, d)]))]" "partial c s1 (length block) []"
        using st lt assms(2) by simp_all
      have "mset (cs @ [(off, d)]) = mset (chunks_of sz block 0)" using Cons.prems(2) rest p True by simp
      then have a: "assemble (length block) (cs @ [(off, d)]) = block" by (rule assemble_chunks [OF assms(1)])
      have none: "filter (about c) ms = []" using ms True by simp
      have "filter (verifies c) (snd (receive_all sz' budget get s1 ms)) = []" using none
      proof (induction ms arbitrary: s1)
        case (Cons m ms)
        obtain s2 o2 where r2: "exchange_receive sz' budget get s1 m = (s2, o2)" by force
        have "\<not> about c m" "filter (about c) ms = []" using Cons.prems by (auto split: if_splits)
        then show ?case using receive_other [OF r2] Cons.IH by (simp only: receive_all_snd [OF r2] filter_append) simp
      qed simp
      then show ?thesis using o1 a by (simp only: receive_all_snd [OF r] filter_append) simp
    next
      case False
      then have o1: "o1 = []" "partial c s1 (length block) (cs @ [(off, d)])" using st lt assms(2) by simp_all
      have "filter (verifies c) (snd (receive_all sz' budget get s1 ms)) = [VerifyBlock c block]"
        using Cons.IH [OF o1(2) _ False ms] Cons.prems(2) rest p by simp
      then show ?thesis using o1 by (simp only: receive_all_snd [OF r] filter_append) simp
    qed
  qed
qed simp

lemma retag:
  "(\<And>q. q \<in> set cs \<Longrightarrow> snd (snd q) = n) \<Longrightarrow>
     map (\<lambda>p. (fst p, snd p, n)) (map (\<lambda>q. (fst q, fst (snd q))) cs) = cs"
  by (induction cs) (auto simp: prod_eq_iff)

lemma serve_about: "filter (about c) (serve_cid sz get c') = (if c' = c then serve_cid sz get c else [])"
  by (auto simp: serve_cid_def filter_empty_conv filter_id_conv split: option.split)

lemma chunk_mark_last [simp]: "chunk (mark_last m) = chunk m" "about c (mark_last m) = about c m"
  by (cases m; simp)+

lemma handleRequest_chunks:
  assumes "distinct cids" "c \<in> set cids"
  shows "map chunk (filter (about c) (handleRequest sz get cids)) = map chunk (serve_cid sz get c)"
proof -
  let ?ms = "concat (map (serve_cid sz get) cids)"
  have 1: "filter (about c) ?ms = serve_cid sz get c"
    using assms by (induction cids) (auto simp: serve_about filter_concat)
  have 2: "map chunk (filter (about c) (butlast xs @ [mark_last (last xs)])) = map chunk (filter (about c) xs)" if "xs \<noteq> []" for xs
    by (subst (3) append_butlast_last_id [OF that, symmetric]) simp
  show ?thesis
  proof (cases "?ms = []")
    case True
    then have "serve_cid sz get c = []" using 1 by (simp only: filter.simps)
    then show ?thesis unfolding handleRequest_def Let_def if_P [OF True] by simp
  next
    case False
    then show ?thesis using 2 [OF False] by (simp only: handleRequest_def Let_def 1 if_False)
  qed
qed

text \<open>
  C20: A block requested from a peer arrives whole: whatever order the chunks come in and whatever catalogs,
  requests and chunks of other blocks come between them, exactly one block is reassembled for the identifier, when
  the last chunk is there, and it is the block the peer has.
\<close>

theorem block_arrives_in_any_order:
  assumes "0 < sz" "distinct cids" "c \<in> set cids" "get c = Some block" "block \<noteq> []"
    and "mset (map chunk (filter (about c) ms)) = mset (map chunk (filter (about c) (handleRequest sz get cids)))"
    and "\<not> stopped s" "map_of (reassemblies s) c = None"
  shows "filter (verifies c) (snd (receive_all sz' budget get' s ms)) = [VerifyBlock c block]"
proof -
  have serve: "map chunk (serve_cid sz get c) = map (\<lambda>p. (fst p, snd p, length block)) (chunks_of sz block 0)"
    using assms(4,5) by (simp add: serve_cid_def case_prod_unfold)
  let ?cs = "map chunk (filter (about c) ms)"
  have m: "mset ?cs = mset (map (\<lambda>p. (fst p, snd p, length block)) (chunks_of sz block 0))"
    using assms(6) by (simp only: handleRequest_chunks [OF assms(2,3)] serve)
  let ?rest = "map (\<lambda>q. (fst q, fst (snd q))) ?cs"
  have "set ?cs = set (map (\<lambda>p. (fst p, snd p, length block)) (chunks_of sz block 0))" using m by (rule mset_eq_setD)
  then have "snd (snd q) = length block" if "q \<in> set ?cs" for q using that by (metis (no_types, lifting) imageE list.set_map snd_conv)
  then have shape: "map (\<lambda>p. (fst p, snd p, length block)) ?rest = ?cs"
    by (intro retag) blast
  have "mset ?rest = image_mset (\<lambda>q. (fst q, fst (snd q))) (mset ?cs)" by (simp add: multiset.map_comp)
  also have "\<dots> = mset (chunks_of sz block 0)" unfolding m by (simp add: multiset.map_comp o_def)
  finally have rest: "mset ?rest = mset (chunks_of sz block 0)" .
  have "chunks_of sz block 0 \<noteq> []" using assms(1,5) by (simp add: chunks_of_step)
  then have "?rest \<noteq> []" using rest by (metis mset_zero_iff)
  moreover have "partial c s (length block) []" using assms(7,8) by (simp add: partial_def)
  moreover have "mset [] + mset ?rest = mset (chunks_of sz block 0)" using rest by simp
  ultimately show ?thesis
    by (intro receive_all_permuted [where cs = "[]" and rest = ?rest, OF assms(1,5)]) (simp_all only: shape not_False_eq_True)
qed


theorem block_arrives_in_any_order_witness:
  "filter (verifies [1]) (snd (receive_all 2 8 (\<lambda>_. None) createSnapshotExchange
     [SnapshotBlock [1] [7] 2 3 True, SnapshotRequest [[9]], SnapshotBlock [1] [5, 6] 0 3 False]))
   = [VerifyBlock [1] [5, 6, 7]]"
proof (rule block_arrives_in_any_order [where sz = 2 and cids = "[[1]]" and get = "[[1] \<mapsto> [5, 6, 7]]"])
  have "handleRequest 2 [[1] \<mapsto> [5, 6, 7]] [[1]] = [SnapshotBlock [1] [5, 6] 0 3 False, SnapshotBlock [1] [7] 2 3 True]"
    by (simp add: handleRequest_def serve_cid_def chunks_of.simps)
  then show "mset (map chunk (filter (about [1])
      [SnapshotBlock [1] [7] 2 3 True, SnapshotRequest [[9]], SnapshotBlock [1] [5, 6] 0 3 False])) =
    mset (map chunk (filter (about [1]) (handleRequest 2 [[1] \<mapsto> [5, 6, 7]] [[1]])))" by simp
qed (simp_all add: createSnapshotExchange_def)

section \<open>What is requested\<close>

lemma take_budget_spec:
  "take_budget budget t es out = out @ take (budget - length out) (map fst (filter (\<lambda>e. t \<noteq> Some (fst e)) es))"
  by (induction es arbitrary: out) (auto simp: take_Cons')

definition tip_wanted :: "bytes option \<Rightarrow> (bytes \<Rightarrow> bytes option) \<Rightarrow> bytes list" where
  "tip_wanted t get = (case t of Some c \<Rightarrow> if get c = None then [c] else [] | None \<Rightarrow> [])"

definition wanted :: "catalogEntry list \<Rightarrow> bytes option \<Rightarrow> (bytes \<Rightarrow> bytes option) \<Rightarrow> catalogEntry list" where
  "wanted es t get = filter (\<lambda>e. t \<noteq> Some (fst e)) (sort_key (\<lambda>e. - seq_of e) (filter (\<lambda>e. get (fst e) = None) es))"

lemma select_spec:
  "selectCidsToRequest es t get budget =
     tip_wanted t get @ map fst (take (budget - length (tip_wanted t get)) (wanted es t get))"
  by (simp add: selectCidsToRequest_def Let_def take_budget_spec take_map wanted_def flip: tip_wanted_def)

lemma set_wanted: "set (wanted es t get) = {e \<in> set es. get (fst e) = None \<and> t \<noteq> Some (fst e)}"
  by (auto simp: wanted_def)

lemma wanted_newest:
  assumes "e \<in> set (drop k (wanted es t get))" "e' \<in> set (take k (wanted es t get))"
  shows "seq_of e \<le> seq_of e'"
proof -
  have "sorted (map (\<lambda>e. - seq_of e) (wanted es t get))" unfolding wanted_def by (rule sorted_filter) simp
  then have "sorted (map (\<lambda>e. - seq_of e) (take k (wanted es t get)) @ map (\<lambda>e. - seq_of e) (drop k (wanted es t get)))"
    by (simp flip: map_append)
  then have "- seq_of e' \<le> - seq_of e" unfolding sorted_append using assms by simp
  then show ?thesis by simp
qed

text \<open>
  The policy of selection.  Only blocks that are not held are asked for, the announced tip first and the
  others named by the catalog; the budget is exceeded only by the tip; and a missing entry is left out only when the
  budget is used up, by entries none of which is older than it.
\<close>

theorem selection_policy:
  "set (selectCidsToRequest es t get budget) \<subseteq> {c. get c = None \<and> (t = Some c \<or> c \<in> fst ` set es)}
   \<and> length (selectCidsToRequest es t get budget) \<le> max budget (length (tip_wanted t get))
   \<and> tip_wanted t get = take (length (tip_wanted t get)) (selectCidsToRequest es t get budget)
   \<and> (\<forall>e \<in> set es. get (fst e) = None \<longrightarrow> fst e \<notin> set (selectCidsToRequest es t get budget) \<longrightarrow>
        budget \<le> length (selectCidsToRequest es t get budget) \<and>
        (\<forall>c \<in> set (selectCidsToRequest es t get budget). t \<noteq> Some c \<longrightarrow>
           (\<exists>e' \<in> set es. fst e' = c \<and> seq_of e \<le> seq_of e')))"
proof (intro conjI ballI impI)
  let ?k = "budget - length (tip_wanted t get)"
  let ?w = "wanted es t get"
  have tip: "set (tip_wanted t get) = {c. t = Some c \<and> get c = None}" by (auto simp: tip_wanted_def split: option.split)
  have sub: "set (take ?k ?w) \<subseteq> {e \<in> set es. get (fst e) = None \<and> t \<noteq> Some (fst e)}"
    using set_take_subset [of ?k ?w] by (simp add: set_wanted)
  show "set (selectCidsToRequest es t get budget) \<subseteq> {c. get c = None \<and> (t = Some c \<or> c \<in> fst ` set es)}"
    using sub by (auto simp: select_spec tip)
  show "length (selectCidsToRequest es t get budget) \<le> max budget (length (tip_wanted t get))"
    by (auto simp: select_spec)
  show "tip_wanted t get = take (length (tip_wanted t get)) (selectCidsToRequest es t get budget)"
    by (simp add: select_spec)
  fix e
  assume e: "e \<in> set es" "get (fst e) = None" "fst e \<notin> set (selectCidsToRequest es t get budget)"
  have "t \<noteq> Some (fst e)" using e(2,3) by (simp add: select_spec tip)
  then have "e \<in> set (take ?k ?w @ drop ?k ?w)" using e by (simp add: set_wanted)
  moreover have "e \<notin> set (take ?k ?w)" using e(3) by (auto simp: select_spec)
  ultimately have drop: "e \<in> set (drop ?k ?w)" by (simp only: set_append Un_iff) blast
  then have "?k < length ?w" by (cases "?k < length ?w") simp_all
  then show "budget \<le> length (selectCidsToRequest es t get budget)" by (simp add: select_spec)
  fix c
  assume c: "c \<in> set (selectCidsToRequest es t get budget)" "t \<noteq> Some c"
  then obtain e' where e': "e' \<in> set (take ?k ?w)" "c = fst e'" by (auto simp: select_spec tip)
  then show "\<exists>e' \<in> set es. fst e' = c \<and> seq_of e \<le> seq_of e'"
    using wanted_newest [OF drop e'(1)] sub by blast
qed


theorem selection_policy_witness:
  "selectCidsToRequest [([1], 4, 0), ([2], 9, 0), ([3], 6, 0)] (Some [5]) [[3] \<mapsto> [0]] 2 = [[5], [2]]
   \<and> (2::nat) \<le> length (selectCidsToRequest [([1], 4, 0), ([2], 9, 0), ([3], 6, 0)] (Some [5]) [[3] \<mapsto> [0]] 2)"
proof
  let ?es = "[([1], 4, 0), ([2], 9, 0), ([3], 6, 0)] :: catalogEntry list"
  show s: "selectCidsToRequest ?es (Some [5]) [[3] \<mapsto> [0]] 2 = [[5], [2]]"
    by (simp add: selectCidsToRequest_def seq_of_def)
  have "([1], 4, 0) \<in> set ?es" "[[3] \<mapsto> [0 :: 8 word]] (fst ([1 :: 8 word], 4 :: nat, 0 :: int)) = None"
    "fst ([1], 4 :: nat, 0 :: int) \<notin> set (selectCidsToRequest ?es (Some [5]) [[3] \<mapsto> [0]] 2)" by (simp_all add: s)
  then show "2 \<le> length (selectCidsToRequest ?es (Some [5]) [[3] \<mapsto> [0]] 2)"
    using selection_policy [of ?es "Some [5]" "[[3] \<mapsto> [0]]" 2] by blast
qed

section \<open>A refused chunk\<close>

lemma fresh_cids_spec:
  "fst (fresh_cids req cs) = req \<union> set cs \<and> set (snd (fresh_cids req cs)) = set cs - req \<and> distinct (snd (fresh_cids req cs))"
proof (induction cs arbitrary: req)
  case (Cons c cs)
  then show ?case using Cons.IH [of req] Cons.IH [of "insert c req"]
    by (cases "fresh_cids (insert c req) cs") auto
qed simp

fun requests :: "bytes \<Rightarrow> exchange_out \<Rightarrow> bool" where
  "requests c (SendMessage (SnapshotRequest cs)) = (c \<in> set cs)"
| "requests c _ = False"

lemma requests_blocks: "m \<in> set (handleRequest sz get cids) \<Longrightarrow> \<not> requests c (SendMessage m)"
proof -
  assume m: "m \<in> set (handleRequest sz get cids)"
  have "\<exists>c' d off tot lst. m = SnapshotBlock c' d off tot lst" if "m \<in> set (serve_cid sz get c1)" for m c1
    using that by (auto simp: serve_cid_def split: option.splits if_splits)
  moreover have "\<exists>m0 \<in> set xs. m = m0 \<or> m = mark_last m0" if "m \<in> set (if xs = [] then [] else butlast xs @ [mark_last (last xs)])" for xs
    using that by (cases "xs = []") (auto dest: in_set_butlastD intro: bexI [OF _ last_in_set])
  note this [OF m [unfolded handleRequest_def Let_def]]
  ultimately obtain c' d off tot lst where "m = SnapshotBlock c' d off tot lst" by fastforce
  then show ?thesis by simp
qed

lemma receive_keeps_requested:
  assumes "exchange_receive sz budget get s m = (s1, os)" "c \<in> requested s" "\<not> about c m"
  shows "c \<in> requested s1 \<and> (\<forall>out \<in> set os. \<not> requests c out)"
proof (cases m)
  case (SnapshotCatalog es t)
  have "c \<notin> set (snd (fresh_cids (requested s) (selectCidsToRequest es t get budget)))"
    "c \<in> fst (fresh_cids (requested s) (selectCidsToRequest es t get budget))"
    using fresh_cids_spec [of "requested s" "selectCidsToRequest es t get budget"] assms(2) by auto
  then show ?thesis using assms(1,2) SnapshotCatalog
    by (auto simp: exchange_receive_def handleCatalog_def split: if_splits prod.splits)
qed (use assms in \<open>auto simp: exchange_receive_def handleBlock_def Let_def dest: requests_blocks split: if_splits prod.splits option.splits\<close>)

lemma requested_stays:
  assumes "c \<in> requested s" "\<forall>m \<in> set ms. \<not> about c m"
  shows "\<forall>out \<in> set (snd (receive_all sz budget get s ms)). \<not> requests c out"
  using assms
proof (induction ms arbitrary: s)
  case (Cons m ms)
  obtain s1 o1 where r: "exchange_receive sz budget get s m = (s1, o1)" by force
  have k: "c \<in> requested s1 \<and> (\<forall>out \<in> set o1. \<not> requests c out)"
    using receive_keeps_requested [OF r] Cons.prems by simp
  then have "\<forall>out \<in> set (snd (receive_all sz budget get s1 ms)). \<not> requests c out"
    using Cons.IH [of s1] Cons.prems by simp
  then show ?case using k by (simp only: receive_all_snd [OF r] set_append ball_Un) simp
qed simp

text \<open>
  Error behaviour of a malformed chunk.  A chunk that reaches past the announced total drops the reassembly of
  its block, like the other refusals, but not the mark that the block is requested: until a chunk of it comes
  unasked, the block is never asked for again, whatever the later catalogs announce.  A chunk of total 0 drops both,
  so that the next catalog asks again.
\<close>

theorem oversized_chunk_never_requested_again:
  assumes "c \<in> requested s" "0 < tot" "\<forall>m \<in> set ms. \<not> about c m"
  shows "(tot < off + length d \<longrightarrow>
      (\<forall>out \<in> set (snd (receive_all sz budget get s (SnapshotBlock c d off tot lst # ms))). \<not> requests c out))
    \<and> c \<notin> requested (fst (handleBlock s c d off 0))"
proof (intro conjI impI)
  assume over: "tot < off + length d"
  obtain s1 o1 where r: "exchange_receive sz budget get s (SnapshotBlock c d off tot lst) = (s1, o1)" by force
  then have "c \<in> requested s1 \<and> o1 = []"
    using assms(1,2) over by (auto simp: exchange_receive_def handleBlock_def split: if_splits)
  then show "\<forall>out \<in> set (snd (receive_all sz budget get s (SnapshotBlock c d off tot lst # ms))). \<not> requests c out"
    using requested_stays [of c s1 ms] assms(3) by (simp only: receive_all_snd [OF r]) simp
qed (simp add: handleBlock_def)

theorem oversized_chunk_never_requested_again_witness:
  "filter (requests [1]) (snd (receive_all 2 8 (\<lambda>_. None) (createSnapshotExchange\<lparr>requested := {[1]}\<rparr>)
      [SnapshotBlock [1] [5, 6] 0 1 True, SnapshotCatalog [([1], 3, 0)] (Some [1])])) = []"
  using oversized_chunk_never_requested_again
    [where c = "[1]" and s = "createSnapshotExchange\<lparr>requested := {[1]}\<rparr>" and tot = 1 and off = 0 and d = "[5, 6]"
      and ms = "[SnapshotCatalog [([1], 3, 0)] (Some [1])]" and lst = True and sz = 2 and budget = 8 and get = "\<lambda>_. None"]
  by (simp add: filter_empty_conv)

end
