(* ===== verification/Doc_State.thy ===== *)
theory Doc_State
  imports Reducers
begin

text \<open>
  What the fact stream of a document guarantees: the properties of the chain, of the combined state and of the
  views (\<open>packages/core/src/reducers.ts\<close>, \<open>facts.ts\<close>, \<open>doc-status.ts\<close>) after any sequence of facts.
\<close>

section \<open>The chain only grows\<close>

definition opt_le :: "'a option \<Rightarrow> 'a option \<Rightarrow> bool" where
  "opt_le a b \<longleftrightarrow> a = None \<or> a = b"

definition entry_le :: "chainEntry \<Rightarrow> chainEntry \<Rightarrow> bool" where
  "entry_le e e' \<longleftrightarrow> ecid e' = ecid e \<and> opt_le (eseq e) (eseq e') \<and> opt_le (ets e) (ets e') \<and>
     discoveredVia e \<subseteq> discoveredVia e' \<and> ackedBy e \<subseteq> ackedBy e' \<and>
     dom (map_of (guarantees e)) \<subseteq> dom (map_of (guarantees e'))"

definition entries_le :: "(cid, chainEntry) omap \<Rightarrow> (cid, chainEntry) omap \<Rightarrow> bool" where
  "entries_le es es' \<longleftrightarrow> (\<forall>c e. map_of es c = Some e \<longrightarrow> (\<exists>e'. map_of es' c = Some e' \<and> entry_le e e'))"

definition chain_le :: "chainState \<Rightarrow> chainState \<Rightarrow> bool" where
  "chain_le s s' \<longleftrightarrow> entries_le (entries s) (entries s') \<and> maxSeq s \<le> maxSeq s' \<and> (tip s \<noteq> None \<longrightarrow> tip s' \<noteq> None)"

lemma opt_le_simps [simp]: "opt_le a a" "opt_le None b" "opt_le a (or_else a b)"
  by (auto simp: opt_le_def or_else_def split: option.splits)

lemma opt_le_trans: "opt_le a b \<Longrightarrow> opt_le b c \<Longrightarrow> opt_le a c"
  by (auto simp: opt_le_def)

lemma entry_le_refl [simp]: "entry_le e e"
  by (simp add: entry_le_def)

lemma entry_le_trans: "entry_le a b \<Longrightarrow> entry_le b c \<Longrightarrow> entry_le a c"
  unfolding entry_le_def by (elim conjE, intro conjI) (simp, (erule (1) opt_le_trans subset_trans)+)

lemma entries_le_refl [simp]: "entries_le es es"
  by (simp add: entries_le_def)

lemma entries_le_trans: "entries_le a b \<Longrightarrow> entries_le b c \<Longrightarrow> entries_le a c"
  unfolding entries_le_def by (meson entry_le_trans)

lemma chain_le_refl [simp]: "chain_le s s"
  by (simp add: chain_le_def)

lemma chain_le_trans: "chain_le a b \<Longrightarrow> chain_le b c \<Longrightarrow> chain_le a c"
  unfolding chain_le_def using entries_le_trans by force

lemma entries_le_update:
  "(\<And>e. map_of es c = Some e \<Longrightarrow> entry_le e e') \<Longrightarrow> entries_le es (AList.update c e' es)"
  by (auto simp: entries_le_def update_conv')

lemma chain_le_updateEntry:
  "(\<And>e. entry_le e (f e)) \<Longrightarrow> chain_le s (got s (updateEntry s c f))"
  by (auto simp: updateEntry_def chain_le_def intro!: entries_le_update split: option.splits)

lemma chain_le_withNewest [simp]: "chain_le s (got t (withNewestFetched t u)) \<longleftrightarrow> chain_le s (got t u)"
  by (simp add: got_withNewestFetched chain_le_def)

lemma guarantee_keys: "dom (map_of es) \<subseteq> dom (map_of (AList.update k v es))"
  by (simp add: update_conv' subset_insertI)

lemma chain_le_put:
  "maxSeq s \<le> m \<Longrightarrow> (\<And>e. map_of (entries s) c = Some e \<Longrightarrow> entry_le e e') \<Longrightarrow>
     chain_le s (s\<lparr>maxSeq := m, entries := AList.update c e' (entries s)\<rparr>)"
  by (simp add: chain_le_def entries_le_update)

lemma chain_le_put':
  "(\<And>e. map_of (entries s) c = Some e \<Longrightarrow> entry_le e e') \<Longrightarrow>
     chain_le s (s\<lparr>entries := AList.update c e' (entries s)\<rparr>)"
  by (simp add: chain_le_def entries_le_update)

lemma chain_le_cidDiscovered: "chain_le s (got s (cidDiscovered s c src block sq tm))"
proof (cases "map_of (entries s) c")
  case (Some e)
  have 1: "chain_le s (s\<lparr>entries := AList.update c (e\<lparr>blockStatus := Unknown, fetchAttempt := 0, lastError := None,
      discoveredVia := insert src (discoveredVia e)\<rparr>) (entries s)\<rparr>)"
    using Some by (intro chain_le_put') (auto simp: entry_le_def)
  have 2: "chain_le s (s\<lparr>maxSeq := max_opt (maxSeq s) q, entries := AList.update c
      (e\<lparr>discoveredVia := insert src (discoveredVia e), eseq := or_else (eseq e) sq,
         ets := or_else (ets e) tm, blockStatus := st\<rparr>) (entries s)\<rparr>)" for st q
    using Some by (intro chain_le_put) (auto simp: entry_le_def)
  show ?thesis unfolding cidDiscovered_def Some option.case Let_def
    by (simp only: got.simps chain_le_withNewest chain_le_refl 1 2 split: if_split) simp
next
  case None
  have "chain_le s (s\<lparr>maxSeq := max_opt (maxSeq s) sq, entries := AList.update c (newEntry c sq tm src st) (entries s)\<rparr>)" for st
    by (intro chain_le_put) (simp_all add: None)
  then show ?thesis unfolding cidDiscovered_def None option.case by (simp only: got.simps chain_le_withNewest)
qed

lemma chain_le_blockFetched: "chain_le s (got s (blockFetched s c prev sq tm))"
proof (cases "map_of (entries s) c")
  case (Some e)
  let ?s = "\<lambda>q. s\<lparr>maxSeq := max_opt (maxSeq s) (or_else (eseq e) sq), entries := AList.update c
      (e\<lparr>blockStatus := Fetched, eprev := q, eseq := or_else (eseq e) sq, ets := or_else (ets e) tm\<rparr>) (entries s)\<rparr>"
  have 1: "chain_le s (?s q)" for q
    using Some by (intro chain_le_put) (auto simp: entry_le_def)
  have 2: "chain_le s ((?s q)\<lparr>maxSeq := max_opt (maxSeq (?s q)) i, entries := AList.update p x (entries (?s q))\<rparr>)"
    if "map_of (entries (?s q)) p = None" for p i x q
    by (rule chain_le_trans [OF 1 chain_le_put]) (use that in simp_all)
  note unf = blockFetched_def Some option.case Let_def got.simps chain_le_withNewest
  show ?thesis
  proof (cases prev)
    case None
    show ?thesis unfolding unf None by (simp only: option.case 1)
  next
    case (Some p)
    show ?thesis
    proof (cases "map_of (entries (?s (Some p))) p = None")
      case True
      show ?thesis unfolding unf Some
        by (subst if_not_P) (use True in \<open>simp_all only: not_not, rule 2\<close>)
    next
      case False
      show ?thesis unfolding unf Some by (subst if_P) (use False 1 in simp_all)
    qed
  qed
qed (simp add: blockFetched_def)

lemma chain_le_tipAdvanced: "chain_le s (got s (tipAdvanced s c sq))"
proof -
  have "chain_le s (got s (updateEntry s c (\<lambda>e. e\<lparr>blockStatus := Applied, eseq := or_else (eseq e) (Some sq)\<rparr>)))"
    by (rule chain_le_updateEntry) (simp add: entry_le_def)
  then show ?thesis
    unfolding tipAdvanced_def Let_def chain_le_withNewest by (simp add: chain_le_def)
qed

lemma chain_le_step: "chain_le s (chain_step s f)"
proof -
  have "chain_le s (got s (reduceChain s f))"
    by (cases f) (auto simp: reduceChain_def chain_le_cidDiscovered chain_le_blockFetched chain_le_tipAdvanced
        entry_le_def guarantee_keys intro!: chain_le_updateEntry split: option.split)
  then show ?thesis by (simp add: chain_step_def)
qed

lemma chain_le_run: "chain_le s (foldl chain_step s fs)"
  by (induction fs arbitrary: s) (simp, metis chain_le_step chain_le_trans foldl_Cons)

text \<open>
  C4: After any sequence of facts from the initial chain, the entries have distinct keys, each the text of the
  identifier of its entry, no known sequence number exceeds \<open>maxSeq\<close>, and \<open>newestFetched\<close> points to a fetched
  entry of greatest sequence number, or to nothing exactly when no entry is fetched.
\<close>

theorem chain_invariant:
  assumes "s = foldl chain_step INITIAL_CHAIN fs"
  shows "distinct (map fst (entries s)) \<and>
    (\<forall>(k, e) \<in> set (entries s). ecid e = k \<and> (\<forall>n. eseq e = Some n \<longrightarrow> n \<le> maxSeq s)) \<and> newest_spec s"
proof -
  have "chain_inv s" using chain_machine.inv_run [of fs] assms by simp
  then show ?thesis
    by (fastforce simp: chain_inv_def entries_ok_def intro: newest_spec_newest split: option.splits)
qed

definition sample_facts :: "fact list" where
  "sample_facts =
     [CidDiscovered 1 ''a'' Gossipsub None (Some 7) (Some 100), BlockFetchStarted 2 ''a'',
      BlockFetched 3 ''a'' [9, 9] (Some ''b'') (Some 7) (Some 100), AckReceived 4 ''a'' ''p'',
      GuaranteeReceived 5 ''p'' ''a'' 500 900, BlockFetchFailed 6 ''b'' 1 ''gone'', TipAdvanced 7 ''a'' 7]"

lemmas chain_eval = chain_step_def reduceChain_def cidDiscovered_def blockFetched_def tipAdvanced_def updateEntry_def
  withNewestFetched_def newest_def newest_step_def newEntry_def max_opt_def or_else_def INITIAL_CHAIN_def

theorem chain_invariant_witness:
  "newest_spec (foldl chain_step INITIAL_CHAIN (take 3 sample_facts)) \<and>
   newestFetched (foldl chain_step INITIAL_CHAIN (take 3 sample_facts)) = Some ''a'' \<and>
   map fst (entries (foldl chain_step INITIAL_CHAIN (take 3 sample_facts))) = [''a'', ''b'']"
proof (intro conjI)
  show "newest_spec (foldl chain_step INITIAL_CHAIN (take 3 sample_facts))"
    using chain_invariant [OF refl, of "take 3 sample_facts"] by blast
qed (simp_all add: sample_facts_def chain_eval)

text \<open>
  The chain only grows: whatever facts arrive, no entry disappears, a known sequence number or time of
  creation never changes, the ways an entry was found, its acknowledgements and its guarantees are only added to,
  \<open>maxSeq\<close> never decreases and a tip, once there, stays.
\<close>

theorem chain_monotone: "chain_le s (foldl chain_step s fs)"
  by (rule chain_le_run)

section \<open>The combined state\<close>

text \<open>Every fact is reduced at a time of the wall clock, which need not be the time stamp it carries.\<close>

definition doc_run :: "docState \<Rightarrow> (int \<times> fact) list \<Rightarrow> docState" where
  "doc_run = foldl (\<lambda>s (now, f). reduce now s f)"

definition content_step :: "contentState \<Rightarrow> fact \<Rightarrow> contentState" where
  "content_step s f = got s (reduceContent s f)"

definition connectivity_step :: "connectivity \<Rightarrow> fact \<Rightarrow> connectivity" where
  "connectivity_step s f = got s (reduceConnectivity s f)"

lemma reduce_fields:
  "chain (reduce now s f) = chain_step (chain s) f"
  "connectivity (reduce now s f) = connectivity_step (connectivity s) f"
  "content (reduce now s f) = content_step (content s) f"
  "announce (reduce now s f) = got (announce s) (reduceAnnounce (announce s) f)"
  "epochs (reduce now s f) = got (epochs s) (reduceEpochs (epochs s) f)"
  "snapshotHistory (reduce now s f) = got (snapshotHistory s) (reduceSnapshotHistory (snapshotHistory s) f)"
  "pendingQueries (reduce now s f) = got (pendingQueries s) (reducePendingQueries (pendingQueries s) f)"
  "ipnsStatus (reduce now s f) = got (ipnsStatus s) (reduceIpnsStatus (ipnsStatus s) f)"
  "identity (reduce now s f) = identity s"
  by (simp_all add: reduce_def Let_def chain_step_def content_step_def connectivity_step_def)

lemma reduce_saveState:
  "saveState s = deriveSaveState (content s) (chain s) \<Longrightarrow>
     saveState (reduce now s f) = deriveSaveState (content (reduce now s f)) (chain (reduce now s f))"
  by (simp add: reduce_def Let_def)

lemma doc_run_slices:
  "chain (doc_run s fs) = foldl chain_step (chain s) (map snd fs) \<and>
   content (doc_run s fs) = foldl content_step (content s) (map snd fs) \<and>
   connectivity (doc_run s fs) = foldl connectivity_step (connectivity s) (map snd fs) \<and>
   identity (doc_run s fs) = identity s \<and>
   (saveState s = deriveSaveState (content s) (chain s) \<longrightarrow>
      saveState (doc_run s fs) = deriveSaveState (content (doc_run s fs)) (chain (doc_run s fs)))"
  by (induction fs arbitrary: s) (simp_all add: doc_run_def reduce_fields reduce_saveState split: prod.splits)

text \<open>What the save indicator should show, read off the facts: the last fact of each group decides.\<close>

definition latest :: "(fact \<Rightarrow> bool) \<Rightarrow> fact list \<Rightarrow> fact option" where
  "latest P fs = find P (rev fs)"

fun is_publish :: "fact \<Rightarrow> bool" where
  "is_publish (PublishStarted _) = True"
| "is_publish (PublishSucceeded _ _ _) = True"
| "is_publish (PublishFailed _ _) = True"
| "is_publish _ = False"

fun sets_dirty :: "fact \<Rightarrow> bool" where
  "sets_dirty (ContentDirty _ _) = True"
| "sets_dirty (PublishSucceeded _ _ _) = True"
| "sets_dirty _ = False"

fun sets_error :: "fact \<Rightarrow> bool" where
  "sets_error (PublishFailed _ _) = True"
| "sets_error f = sets_dirty f"

fun is_tip :: "fact \<Rightarrow> bool" where
  "is_tip (TipAdvanced _ _ _) = True"
| "is_tip _ = False"

definition save_indicator :: "fact list \<Rightarrow> saveState" where
  "save_indicator fs =
     (if (case latest is_publish fs of Some (PublishStarted _) \<Rightarrow> True | _ \<Rightarrow> False) then Saving
      else if (case latest sets_error fs of Some (PublishFailed _ e) \<Rightarrow> e \<noteq> '''' | _ \<Rightarrow> False) then SaveError
      else if (case latest sets_dirty fs of Some (ContentDirty _ _) \<Rightarrow> True | _ \<Rightarrow> False) then Dirty
      else if latest is_tip fs \<noteq> None then Saved else Unpublished)"

lemma latest_snoc [simp]: "latest P [] = None" "latest P (fs @ [f]) = (if P f then Some f else latest P fs)"
  by (simp_all add: latest_def)

lemma content_run:
  "isSaving (foldl content_step INITIAL_CONTENT fs) = (case latest is_publish fs of Some (PublishStarted _) \<Rightarrow> True | _ \<Rightarrow> False)"
  "lastSaveError (foldl content_step INITIAL_CONTENT fs) = (case latest sets_error fs of Some (PublishFailed _ e) \<Rightarrow> Some e | _ \<Rightarrow> None)"
  "isDirty (foldl content_step INITIAL_CONTENT fs) = (case latest sets_dirty fs of Some (ContentDirty _ _) \<Rightarrow> True | _ \<Rightarrow> False)"
proof (induction fs rule: rev_induct)
  case Nil
  {
    case 1 show ?case by (simp add: INITIAL_CONTENT_def)
  next
    case 2 show ?case by (simp add: INITIAL_CONTENT_def)
  next
    case 3 show ?case by (simp add: INITIAL_CONTENT_def)
  }
next
  case (snoc f fs)
  {
    case 1 show ?case using snoc(1) by (cases f) (simp_all add: content_step_def reduceContent_def)
  next
    case 2 show ?case using snoc(2) by (cases f) (simp_all add: content_step_def reduceContent_def)
  next
    case 3 show ?case using snoc(3) by (cases f) (simp_all add: content_step_def reduceContent_def)
  }
qed

lemma tip_updateEntry [simp]: "tip (got s (updateEntry s c g)) = tip s"
  by (simp add: updateEntry_def split: option.split)

lemma tip_withNewest [simp]: "tip (got s (withNewestFetched s u)) = tip (got s u)"
  by (simp add: got_withNewestFetched)

lemma tip_step: "tip (chain_step s f) = (case f of TipAdvanced _ c _ \<Rightarrow> Some c | _ \<Rightarrow> tip s)"
  by (cases f) (simp_all add: chain_step_def reduceChain_def cidDiscovered_def blockFetched_def tipAdvanced_def Let_def
      split: option.split)

lemma tip_run: "(tip (foldl chain_step INITIAL_CHAIN fs) \<noteq> None) = (latest is_tip fs \<noteq> None)"
proof (induction fs rule: rev_induct)
  case Nil
  show ?case by (simp add: INITIAL_CHAIN_def)
next
  case (snoc f fs)
  then show ?case by (cases f) (simp_all add: tip_step)
qed

text \<open>
  The save indicator is exactly what the facts say, whatever the interleaving: a publish in flight shows as
  saving, else a failure with a message that no edit or success followed as an error, else an edit no success
  followed as dirty, else a document with a tip as saved and one without as unpublished.
\<close>

theorem saveState_exact: "saveState (doc_run (initialDocState i) fs) = save_indicator (map snd fs)"
proof -
  let ?s = "doc_run (initialDocState i) fs"
  have "saveState ?s = deriveSaveState (content ?s) (chain ?s)"
    using doc_run_slices [of "initialDocState i" fs]
    by (simp add: initialDocState_def deriveSaveState_def INITIAL_CONTENT_def INITIAL_CHAIN_def truthy_str_def)
  moreover have "content ?s = foldl content_step INITIAL_CONTENT (map snd fs)"
      "chain ?s = foldl chain_step INITIAL_CHAIN (map snd fs)"
    using doc_run_slices [of "initialDocState i" fs] by (simp_all add: initialDocState_def)
  moreover have "truthy_str (lastSaveError (foldl content_step INITIAL_CONTENT F)) =
      (case latest sets_error F of Some (PublishFailed _ e) \<Rightarrow> e \<noteq> '''' | _ \<Rightarrow> False)" for F
    by (simp add: content_run truthy_str_def split: option.split fact.split)
  ultimately show ?thesis
    unfolding deriveSaveState_def save_indicator_def by (simp only: content_run tip_run)
qed

section \<open>Version histories\<close>

lemma sorted_desc: "sorted (map (\<lambda>x. - f x) (sort_key (\<lambda>x. - f x) xs))" for f :: "'a \<Rightarrow> int"
  by (rule sorted_sort_key)

lemma chain_entries_of_run:
  assumes "s = foldl chain_step INITIAL_CHAIN fs"
  shows "distinct (map fst (entries s)) \<and> (\<forall>p \<in> set (entries s). ecid (snd p) = fst p)"
proof -
  have "chain_inv s" using chain_machine.inv_run [of fs] assms by simp
  then show ?thesis by (fastforce simp: chain_inv_def entries_ok_def)
qed

lemma map_ecid_snd: "\<forall>p \<in> set es. ecid (snd p) = fst p \<Longrightarrow> map ecid (map snd es) = map fst es"
  by (induction es) simp_all

lemma distinct_ecids_of_run:
  "s = foldl chain_step INITIAL_CHAIN fs \<Longrightarrow> distinct (map ecid (map snd (entries s)))"
  using chain_entries_of_run [of s fs] map_ecid_snd [of "entries s"] by metis

lemma distinct_map_sort: "distinct (map f (sort_key k xs)) \<longleftrightarrow> distinct (map f xs)"
  by (simp only: distinct_map distinct_sort set_sort)

lemma distinct_map_filter_map: "distinct (map f xs) \<Longrightarrow> distinct (map f (filter P xs))"
  by (induction xs) auto

text \<open>
  After any facts the list of versions is in descending order of sequence number, names no version twice
  and names exactly the entries whose number is known, available exactly when the block is there.
\<close>

theorem versionHistory_correct:
  assumes "s = foldl chain_step INITIAL_CHAIN fs"
  shows "sorted (map (\<lambda>v. - vseq v) (versionHistory s)) \<and> distinct (map vcid (versionHistory s)) \<and>
    (\<forall>v. v \<in> set (versionHistory s) \<longleftrightarrow>
      (\<exists>e \<in> snd ` set (entries s). eseq e = Some (vseq v) \<and> vcid v = ecid e \<and>
         vts v = (case ets e of Some t \<Rightarrow> t | None \<Rightarrow> 0) \<and>
         available v = (blockStatus e = Fetched \<or> blockStatus e = Applied)))"
proof -
  let ?g = "\<lambda>e. \<lparr>vcid = ecid e, vseq = the (eseq e), vts = (case ets e of Some t \<Rightarrow> t | None \<Rightarrow> 0),
               available = (blockStatus e = Fetched \<or> blockStatus e = Applied)\<rparr>"
  let ?es = "filter (\<lambda>e. eseq e \<noteq> None) (map snd (entries s))"
  have vh: "versionHistory s = map ?g (sort_key (\<lambda>e. - the (eseq e)) ?es)" by (simp add: versionHistory_def)
  have "map (\<lambda>v. - vseq v) (versionHistory s) = map (\<lambda>e. - the (eseq e)) (sort_key (\<lambda>e. - the (eseq e)) ?es)"
    by (simp add: vh)
  then have 1: "sorted (map (\<lambda>v. - vseq v) (versionHistory s))" by (simp only: sorted_desc)
  have "map vcid (versionHistory s) = map ecid (sort_key (\<lambda>e. - the (eseq e)) ?es)" by (simp add: vh)
  moreover have "distinct (map ecid ?es)"
    by (rule distinct_map_filter_map [OF distinct_ecids_of_run [OF assms]])
  ultimately have 2: "distinct (map vcid (versionHistory s))" by (simp add: distinct_map)
  have 3: "v \<in> set (versionHistory s) \<longleftrightarrow> (\<exists>e \<in> snd ` set (entries s). eseq e \<noteq> None \<and> v = ?g e)" for v
    by (auto simp: vh)
  have 4: "eseq e \<noteq> None \<and> v = ?g e \<longleftrightarrow> eseq e = Some (vseq v) \<and> vcid v = ecid e \<and>
         vts v = (case ets e of Some t \<Rightarrow> t | None \<Rightarrow> 0) \<and>
         available v = (blockStatus e = Fetched \<or> blockStatus e = Applied)" for v :: versionSummary and e
    by (cases v) auto
  show ?thesis using 1 2 by (simp only: 3 4 simp_thms)
qed

theorem versionHistory_correct_witness:
  "sorted (map (\<lambda>v. - vseq v) (versionHistory (foldl chain_step INITIAL_CHAIN sample_facts))) \<and>
   map vcid (versionHistory (foldl chain_step INITIAL_CHAIN sample_facts)) = [''a'', ''b'']"
proof (intro conjI)
  show "sorted (map (\<lambda>v. - vseq v) (versionHistory (foldl chain_step INITIAL_CHAIN sample_facts)))"
    using versionHistory_correct [OF refl, of sample_facts] by blast
qed (simp add: sample_facts_def chain_eval versionHistory_def)

text \<open>What the two passes of the derivation add to the map of versions.\<close>

lemma add_version_map:
  "map_of (fst (add_version ow acc e)) k =
     (if ecid e = k \<and> eseq e \<noteq> None \<and> (ow \<or> map_of (fst acc) k = None) then Some (history_entry e (the (eseq e)))
      else map_of (fst acc) k)"
  by (cases acc) (auto simp: add_version_def update_conv' split: option.split)

lemma add_version_distinct:
  "distinct (map fst (fst acc)) \<Longrightarrow> distinct (map fst (fst (add_version ow acc e)))"
  by (cases acc) (auto simp: add_version_def distinct_update split: option.split)

lemma add_versions_distinct:
  "distinct (map fst (fst acc)) \<Longrightarrow> distinct (map fst (fst (foldl (add_version ow) acc es)))"
  by (induction es arbitrary: acc) (simp_all add: add_version_distinct)

definition version_of :: "chainEntry list \<Rightarrow> cid \<Rightarrow> versionHistoryEntry option" where
  "version_of es k = (case find (\<lambda>e. ecid e = k \<and> eseq e \<noteq> None) es of
     Some e \<Rightarrow> Some (history_entry e (the (eseq e))) | None \<Rightarrow> None)"

lemma add_versions_map:
  "distinct (map ecid es) \<Longrightarrow> map_of (fst (foldl (add_version ow) acc es)) k =
     (if ow then or_else (version_of es k) (map_of (fst acc) k) else or_else (map_of (fst acc) k) (version_of es k))"
proof (induction es arbitrary: acc)
  case Nil
  show ?case by (simp add: version_of_def or_else_def split: option.split)
next
  case (Cons e es)
  have "version_of es k = None" if "ecid e = k"
    using Cons.prems that by (auto simp: version_of_def find_None_iff image_iff split: option.split)
  with Cons show ?case
    by (auto simp: add_version_map version_of_def or_else_def split: option.splits)
qed

definition walking_in :: "(cid, versionHistoryEntry) omap \<Rightarrow> bool" where
  "walking_in m \<longleftrightarrow> (\<exists>v \<in> ran (map_of m). hstatus v = Loading)"

text \<open>As long as no entry is overwritten the walking flag records whether any version is still loading.\<close>

lemma add_version_walking:
  assumes "snd acc = walking_in (fst acc)" "ow \<Longrightarrow> map_of (fst acc) (ecid e) = None"
  shows "snd (add_version ow acc e) = walking_in (fst (add_version ow acc e))"
proof (cases "eseq e = None \<or> map_of (fst acc) (ecid e) \<noteq> None")
  case True
  then have "add_version ow acc e = acc"
    using assms(2) by (cases acc) (auto simp: add_version_def split: option.split)
  then show ?thesis using assms(1) by simp
next
  case False
  then obtain n where n: "eseq e = Some n" and k: "map_of (fst acc) (ecid e) = None" by auto
  have "add_version ow acc e = (AList.update (ecid e) (history_entry e n) (fst acc),
      snd acc \<or> entryStatus (blockStatus e) = Loading)"
    using n k by (cases acc) (simp add: add_version_def)
  then show ?thesis using assms(1) k
    by (simp add: walking_in_def update_conv' ran_map_upd history_entry_def disj_commute)
qed

lemma add_versions_walking:
  assumes "snd acc = walking_in (fst acc)" "distinct (map ecid es)"
    and "ow \<Longrightarrow> \<forall>e \<in> set es. map_of (fst acc) (ecid e) = None"
  shows "snd (foldl (add_version ow) acc es) = walking_in (fst (foldl (add_version ow) acc es))"
  using assms
proof (induction es arbitrary: acc)
  case (Cons e es)
  have "\<forall>e' \<in> set es. map_of (fst (add_version ow acc e)) (ecid e') = None" if ow
    using Cons.prems(2,3) that by (auto simp: add_version_map)
  then show ?case using Cons add_version_walking [of acc ow e] by simp
qed simp

lemma add_versions_hcid:
  assumes "\<forall>(k, v) \<in> set (fst acc). hcid v = k"
  shows "\<forall>(k, v) \<in> set (fst (foldl (add_version ow) acc es)). hcid v = k"
  using assms
proof (induction es arbitrary: acc)
  case (Cons e es)
  have "\<forall>p \<in> set (fst (add_version ow acc e)). case p of (k, v) \<Rightarrow> hcid v = k"
    using Cons.prems
    by (cases acc) (auto simp: add_version_def history_entry_def split: option.split
        dest!: set_update_subset [THEN subsetD])
  then show ?case using Cons.IH by simp
qed simp

text \<open>
  The history shown to the user, derived from the interpreter's chain and the local one, is in descending
  order, names no version twice and holds for every version the entry of the interpreter's chain if that one knows
  its number, and otherwise the entry of the local chain; it is reported as still walking exactly when a version
  shown is loading.
\<close>

theorem deriveVersionHistory_correct:
  assumes "c = foldl chain_step INITIAL_CHAIN fs" "l = foldl chain_step INITIAL_CHAIN gs"
    "deriveVersionHistory (Some c) (Some l) = (h, w)"
  shows "sorted (map (\<lambda>v. - hseq v) h) \<and> distinct (map hcid h) \<and>
    (\<forall>v. v \<in> set h \<longleftrightarrow> or_else (version_of (map snd (entries c)) (hcid v))
                           (version_of (map snd (entries l)) (hcid v)) = Some v) \<and>
    (w \<longleftrightarrow> (\<exists>v \<in> set h. hstatus v = Loading))"
proof -
  let ?a = "foldl (add_version True) ([], False) (map snd (entries c))"
  let ?b = "foldl (add_version False) ?a (map snd (entries l))"
  have h: "h = sort_key (\<lambda>v. - hseq v) (map snd (fst ?b))" and w: "w = snd ?b"
    using assms(3) by (simp_all add: deriveVersionHistory_def Let_def)
  have dc: "distinct (map ecid (map snd (entries c)))" and dl: "distinct (map ecid (map snd (entries l)))"
    by (rule distinct_ecids_of_run [OF assms(1)], rule distinct_ecids_of_run [OF assms(2)])
  have db: "distinct (map fst (fst ?b))" by (simp add: add_versions_distinct)
  have ha: "\<forall>(k, v) \<in> set (fst ?a). hcid v = k" by (intro add_versions_hcid) simp
  have hb: "\<forall>(k, v) \<in> set (fst ?b). hcid v = k" by (intro add_versions_hcid ha)
  have mb: "map_of (fst ?b) k = or_else (version_of (map snd (entries c)) k) (version_of (map snd (entries l)) k)" for k
    by (simp add: add_versions_map [OF dc] add_versions_map [OF dl] or_else_def split: option.split)
  have sh: "set h = snd ` set (fst ?b)" by (simp add: h)
  have mem: "v \<in> set h \<longleftrightarrow> map_of (fst ?b) (hcid v) = Some v" for v
  proof
    assume "v \<in> set h"
    then obtain k where "(k, v) \<in> set (fst ?b)" by (auto simp: sh)
    moreover from this have "hcid v = k" using hb by auto
    ultimately show "map_of (fst ?b) (hcid v) = Some v" using db by simp
  qed (force simp: sh dest: map_of_SomeD)
  have "walking_in (fst ?b) \<longleftrightarrow> (\<exists>v \<in> set h. hstatus v = Loading)"
    by (simp add: walking_in_def sh ran_distinct [OF db])
  moreover have "snd ?a = walking_in (fst ?a)"
    by (rule add_versions_walking [OF _ dc]) (simp_all add: walking_in_def)
  then have "snd ?b = walking_in (fst ?b)" by (rule add_versions_walking [OF _ dl]) simp
  moreover have "map hcid (map snd (fst ?b)) = map fst (fst ?b)"
    using hb by (auto simp: o_def intro!: map_cong)
  then have "distinct (map hcid h)" using db by (simp only: h distinct_map_sort)
  moreover have "sorted (map (\<lambda>v. - hseq v) h)" by (simp only: h sorted_desc)
  ultimately show ?thesis by (simp only: mem mb w simp_thms)
qed

theorem deriveVersionHistory_correct_witness:
  "deriveVersionHistory (Some (foldl chain_step INITIAL_CHAIN sample_facts))
     (Some (foldl chain_step INITIAL_CHAIN [CidDiscovered 1 ''c'' FromCache None (Some 8) None])) =
     ([\<lparr>hcid = ''c'', hseq = 8, hts = 0, hstatus = Loading\<rparr>, \<lparr>hcid = ''a'', hseq = 7, hts = 100, hstatus = Available\<rparr>,
       \<lparr>hcid = ''b'', hseq = 6, hts = 0, hstatus = VFailed\<rparr>], True) \<and>
   (\<exists>h w. deriveVersionHistory (Some (foldl chain_step INITIAL_CHAIN sample_facts))
     (Some (foldl chain_step INITIAL_CHAIN [CidDiscovered 1 ''c'' FromCache None (Some 8) None])) = (h, w) \<and>
     distinct (map hcid h))"
proof
  show "deriveVersionHistory (Some (foldl chain_step INITIAL_CHAIN sample_facts))
     (Some (foldl chain_step INITIAL_CHAIN [CidDiscovered 1 ''c'' FromCache None (Some 8) None])) =
     ([\<lparr>hcid = ''c'', hseq = 8, hts = 0, hstatus = Loading\<rparr>, \<lparr>hcid = ''a'', hseq = 7, hts = 100, hstatus = Available\<rparr>,
       \<lparr>hcid = ''b'', hseq = 6, hts = 0, hstatus = VFailed\<rparr>], True)"
    by (simp add: sample_facts_def chain_eval deriveVersionHistory_def add_version_def history_entry_def)
  then show "\<exists>h w. deriveVersionHistory (Some (foldl chain_step INITIAL_CHAIN sample_facts))
     (Some (foldl chain_step INITIAL_CHAIN [CidDiscovered 1 ''c'' FromCache None (Some 8) None])) = (h, w) \<and>
     distinct (map hcid h)"
    using deriveVersionHistory_correct [OF refl refl] by blast
qed

section \<open>Guarantees\<close>

lemma Max_insert_max: "finite S \<Longrightarrow> Max (insert (max a b) S) = max b (Max (insert a S))" for a b :: int
  by (cases "S = {}") (simp_all add: ac_simps)

lemma foldl_max_guarantee:
  "guaranteeUntil (foldl (\<lambda>b g. \<lparr>guaranteeUntil = max (guaranteeUntil b) (guaranteeUntil g), retainUntil = max (retainUntil b) (retainUntil g)\<rparr>) b gs)
     = Max (insert (guaranteeUntil b) (guaranteeUntil ` set gs))"
  "retainUntil (foldl (\<lambda>b g. \<lparr>guaranteeUntil = max (guaranteeUntil b) (guaranteeUntil g), retainUntil = max (retainUntil b) (retainUntil g)\<rparr>) b gs)
     = Max (insert (retainUntil b) (retainUntil ` set gs))"
  by (induction gs arbitrary: b) (simp_all add: insert_commute Max_insert_max)

definition all_guarantees :: "chainState \<Rightarrow> guarantee list" where
  "all_guarantees s = concat (map (\<lambda>e. map snd (guarantees e)) (map snd (entries s)))"

lemma bestGuarantee_all:
  "bestGuarantee s = foldl (\<lambda>b g. \<lparr>guaranteeUntil = max (guaranteeUntil b) (guaranteeUntil g),
     retainUntil = max (retainUntil b) (retainUntil g)\<rparr>) \<lparr>guaranteeUntil = 0, retainUntil = 0\<rparr> (all_guarantees s)"
proof -
  have "foldl (\<lambda>best e. foldl F best (map snd (guarantees e))) b es = foldl F b (concat (map (\<lambda>e. map snd (guarantees e)) es))"
    for F :: "guarantee \<Rightarrow> guarantee \<Rightarrow> guarantee" and b es
    by (induction es arbitrary: b) simp_all
  then show ?thesis by (simp only: bestGuarantee_def all_guarantees_def)
qed

text \<open>
  The best guarantee promises the latest times any pinner promised for any version, and nothing (time 0)
  when none promised anything.
\<close>

theorem bestGuarantee_correct:
  "guaranteeUntil (bestGuarantee s) = Max (insert 0 (guaranteeUntil ` set (all_guarantees s))) \<and>
   retainUntil (bestGuarantee s) = Max (insert 0 (retainUntil ` set (all_guarantees s)))"
  by (simp add: bestGuarantee_all foldl_max_guarantee)

section \<open>Gossip activity\<close>

fun fact_ts :: "fact \<Rightarrow> int" where
  "fact_ts (GossipMessage t) = t"
| "fact_ts (GossipSubscribed t) = t"
| "fact_ts (Tick t) = t"
| "fact_ts _ = 0"

definition gossip_fact :: "fact \<Rightarrow> bool" where
  "gossip_fact f \<longleftrightarrow> (case f of GossipMessage _ \<Rightarrow> True | GossipSubscribed _ \<Rightarrow> True | Tick _ \<Rightarrow> True | _ \<Rightarrow> False)"

fun is_msg :: "fact \<Rightarrow> bool" where
  "is_msg (GossipMessage _) = True"
| "is_msg _ = False"

fun is_sub :: "fact \<Rightarrow> bool" where
  "is_sub (GossipSubscribed _) = True"
| "is_sub _ = False"

fun is_tick :: "fact \<Rightarrow> bool" where
  "is_tick (Tick _) = True"
| "is_tick _ = False"

text \<open>The activity as the facts have it: a message counts until the first tick a decay period later.\<close>

definition gossip_spec :: "fact list \<Rightarrow> gossipActivity" where
  "gossip_spec fs =
     (case latest is_msg fs of
        Some m \<Rightarrow>
          if \<exists>f \<in> set fs. is_tick f \<and> GOSSIP_DECAY_MS < fact_ts f - fact_ts m
          then (if latest is_sub fs \<noteq> None then Subscribed else Inactive) else Receiving
      | None \<Rightarrow> if latest is_sub fs \<noteq> None then Subscribed else Inactive)"

lemma latest_ts: "latest P fs = Some m \<Longrightarrow> m \<in> set fs \<and> P m"
  by (auto simp: latest_def find_Some_iff) (metis nth_mem set_rev length_rev)

lemma gossip_step:
  "gossip (connectivity_step c f) = (if gossip_fact f then got (gossip c) (reduceGossip (gossip c) (fact_ts f) f) else gossip c)"
  by (cases f) (simp_all add: connectivity_step_def reduceConnectivity_def with_gossip_def gossip_fact_def split: upd.split)

definition gossip_ok :: "gossipState \<Rightarrow> fact list \<Rightarrow> bool" where
  "gossip_ok g fs \<longleftrightarrow> activity g = gossip_spec fs \<and> subscribed g = (latest is_sub fs \<noteq> None) \<and>
     (\<forall>m. latest is_msg fs = Some m \<longrightarrow> lastMessageAt g = fact_ts m)"

lemma gossip_ok_snoc:
  assumes "gossip_ok g fs" "\<forall>f' \<in> set fs. gossip_fact f' \<longrightarrow> fact_ts f' \<le> fact_ts f" "gossip_fact f"
  shows "gossip_ok (got g (reduceGossip g (fact_ts f) f)) (fs @ [f])"
proof (cases f)
  case (GossipMessage t)
  have "\<not> (\<exists>f' \<in> set fs. is_tick f' \<and> GOSSIP_DECAY_MS < fact_ts f' - t)"
  proof
    assume "\<exists>f' \<in> set fs. is_tick f' \<and> GOSSIP_DECAY_MS < fact_ts f' - t"
    then obtain f' where f': "f' \<in> set fs" "is_tick f'" "GOSSIP_DECAY_MS < fact_ts f' - t" by blast
    from f'(2) have "gossip_fact f'" by (cases f') (simp_all add: gossip_fact_def)
    with assms(2) f' show False by (force simp: GossipMessage GOSSIP_DECAY_MS_def)
  qed
  then show ?thesis using assms(1) unfolding GossipMessage
    by (simp add: gossip_ok_def reduceGossip_def gossip_spec_def)
next
  case (GossipSubscribed t)
  then show ?thesis using assms(1)
    by (auto simp: gossip_ok_def reduceGossip_def gossip_spec_def split: option.splits if_splits)
next
  case (Tick t)
  show ?thesis
  proof (cases "latest is_msg fs")
    case None
    then show ?thesis using assms(1) unfolding Tick
      by (simp add: gossip_ok_def reduceGossip_def gossip_spec_def split: if_split)
  next
    case (Some m)
    then show ?thesis using assms(1) unfolding Tick
      by (simp add: gossip_ok_def reduceGossip_def gossip_spec_def split: if_split)
  qed
qed (use assms(3) in \<open>simp_all add: gossip_fact_def\<close>)

lemma gossip_spec_other: "\<not> gossip_fact f \<Longrightarrow> gossip_ok g (fs @ [f]) = gossip_ok g fs"
proof -
  assume "\<not> gossip_fact f"
  then have f: "\<not> is_msg f" "\<not> is_sub f" "\<not> is_tick f" by (cases f; simp add: gossip_fact_def)+
  then have "gossip_spec (fs @ [f]) = gossip_spec fs"
    by (cases "latest is_msg fs") (simp_all add: gossip_spec_def)
  with f show ?thesis by (simp add: gossip_ok_def)
qed

lemma gossip_run:
  "sorted (map fact_ts (filter gossip_fact fs)) \<Longrightarrow>
     gossip_ok (gossip (foldl connectivity_step INITIAL_CONNECTIVITY fs)) fs"
proof (induction fs rule: rev_induct)
  case Nil
  show ?case by (simp add: gossip_ok_def INITIAL_CONNECTIVITY_def INITIAL_GOSSIP_def gossip_spec_def)
next
  case (snoc f fs)
  show ?case
  proof (cases "gossip_fact f")
    case True
    with snoc have "\<forall>f' \<in> set fs. gossip_fact f' \<longrightarrow> fact_ts f' \<le> fact_ts f"
      by (simp add: sorted_append)
    with True snoc show ?thesis by (simp add: gossip_step gossip_ok_snoc sorted_append)
  next
    case False
    with snoc show ?thesis by (simp add: gossip_step gossip_spec_other)
  qed
qed

text \<open>
  With time stamps in order the gossip activity is exactly: receiving from a message until the first tick
  more than the decay period after the last message, and otherwise subscribed once the topic was subscribed.
\<close>

theorem gossip_activity_exact:
  assumes "sorted (map fact_ts (filter gossip_fact (map snd fs)))"
  shows "activity (gossip (connectivity (doc_run (initialDocState i) fs))) = gossip_spec (map snd fs)"
  using gossip_run [OF assms] doc_run_slices [of "initialDocState i" fs]
  by (simp add: initialDocState_def gossip_ok_def)

definition sample_identity :: docIdentity where
  "sample_identity = \<lparr>ipnsName = ''n'', role = Reader, ichannels = [], appId = ''a''\<rparr>"

theorem gossip_activity_exact_witness:
  "activity (gossip (connectivity (doc_run (initialDocState sample_identity)
     [(0, GossipSubscribed 0), (5, GossipMessage 5), (60006, Tick 60006)]))) = Subscribed"
  using gossip_activity_exact [of "[(0, GossipSubscribed 0), (5, GossipMessage 5), (60006, Tick 60006)]" sample_identity]
  by (simp add: gossip_fact_def gossip_spec_def latest_def GOSSIP_DECAY_MS_def)

end
