(* ===== verification/Interpreter.thy ===== *)
theory Interpreter
  imports Doc_State
begin

text \<open>
  The interpreter of the fact stream (\<open>packages/core/src/interpreter.ts\<close>): one turn of its loop takes the states
  before and after a fact and yields, in order, what it does.  Handlers are fields of an environment where they
  answer at once and outputs where they do not; facts pushed into the feedback queue are outputs too, and a fetch
  and a timer are outputs whose completion is a later fact.  The clock is a field of the environment.
\<close>

section \<open>The environment\<close>

record blockMeta =
  mprev :: "cid option"
  mseq :: "int option"
  mts :: "int option"

datatype applyResult = Placed int | Invalid cid string | PendingIngest string | ApplyError string

record env =
  clock :: int
  decodeBlock :: "bytes \<Rightarrow> blockMeta"
  getBlock :: "cid \<Rightarrow> bytes option"
  applySnapshot :: "cid \<Rightarrow> bytes \<Rightarrow> applyResult"
  writesViewCache :: bool
  materializes :: bool
  populates :: bool

datatype out =
    Push fact
  | Fetch cid int
  | StartRetry cid int
  | ClearRetry cid
  | ApplyBlock cid bytes
  | EmitValidationError cid string
  | AnnounceBlock cid bytes int
  | MarkReady
  | EmitSnapshotApplied cid int
  | EmitAck cid "string set"
  | EmitGuarantee cid "(string, guarantee) omap"
  | EmitGossipActivity gossipActivity
  | WriteViewCache string int
  | MaterializeSnapshot string int
  | PopulateViewCache string int
  | StartGossipTimer int
  | ClearGossipTimer
  | StartGuaranteeTimer int

record timers =
  gossipDecay :: bool
  guaranteeRequery :: bool
  blockRetries :: "cid set"

definition noTimers :: timers where
  "noTimers = \<lparr>gossipDecay = False, guaranteeRequery = False, blockRetries = {}\<rparr>"

section \<open>Fetching\<close>

definition AUTO_FETCH_SOURCES :: "cidSource set" where
  "AUTO_FETCH_SOURCES = {Gossipsub, Ipns, HttpTip, Reannounce, ChainWalk}"

definition shouldAutoFetch :: "chainEntry \<Rightarrow> bool" where
  "shouldAutoFetch e \<longleftrightarrow> (\<exists>src \<in> discoveredVia e. src \<in> AUTO_FETCH_SOURCES)"

definition block_fetched :: "env \<Rightarrow> cid \<Rightarrow> bytes \<Rightarrow> fact" where
  "block_fetched en c b = (let d = decodeBlock en b in BlockFetched (clock en) c b (mprev d) (mseq d) (mts d))"

definition dispatchFetch :: "env \<Rightarrow> cid \<Rightarrow> chainEntry \<Rightarrow> out list" where
  "dispatchFetch en c e = [Push (BlockFetchStarted (clock en) c), Fetch c (fetchAttempt e)]"

text \<open>What a dispatched fetch pushes when it completes: with a block, with nothing, or with an error.\<close>

fun fetch_completed :: "env \<Rightarrow> cid \<Rightarrow> int \<Rightarrow> bytes option result \<Rightarrow> fact" where
  "fetch_completed en c n (Inr (Some b)) = block_fetched en c b"
| "fetch_completed en c n (Inr None) = BlockFetchFailed (clock en) c (n + 1) ''not found''"
| "fetch_completed en c n (Inl err) = BlockFetchFailed (clock en) c (n + 1) err"

definition status_of :: "chainState \<Rightarrow> cid \<Rightarrow> blockStatus option" where
  "status_of s c = map_option blockStatus (map_of (entries s) c)"

definition wanted :: "chainState \<Rightarrow> chainState \<Rightarrow> chainEntry \<Rightarrow> bool" where
  "wanted prev next e \<longleftrightarrow>
     blockStatus e = Unknown \<and> status_of prev (ecid e) \<noteq> Some Unknown \<and>
     (shouldAutoFetch e \<or> (FromCache \<in> discoveredVia e \<and> eseq e = Some (maxSeq next)))"

definition fetch_unknown :: "env \<Rightarrow> chainState \<Rightarrow> chainState \<Rightarrow> out list" where
  "fetch_unknown en prev next =
     concat (map (\<lambda>e. if \<not> wanted prev next e then []
        else case getBlock en (ecid e) of
          Some b \<Rightarrow> [Push (block_fetched en (ecid e) b)]
        | None \<Rightarrow> dispatchFetch en (ecid e) e) (map snd (entries next)))"

section \<open>Retries\<close>

definition schedule_retry :: "timers \<Rightarrow> chainState \<Rightarrow> fact \<Rightarrow> timers \<times> out list" where
  "schedule_retry T next f = (case f of
      BlockFetchFailed _ c _ _ \<Rightarrow>
        (case map_of (entries next) c of
           Some e \<Rightarrow>
             if fetchAttempt e < MAX_INTERPRETER_RETRIES \<and> c \<notin> blockRetries T
             then (T\<lparr>blockRetries := insert c (blockRetries T)\<rparr>, [StartRetry c (retry_delay (fetchAttempt e))])
             else (T, [])
         | None \<Rightarrow> (T, []))
    | _ \<Rightarrow> (T, []))"

definition clear_retry :: "timers \<Rightarrow> cid \<Rightarrow> timers \<times> out list" where
  "clear_retry T c =
     (if c \<in> blockRetries T then (T\<lparr>blockRetries := blockRetries T - {c}\<rparr>, [ClearRetry c]) else (T, []))"

definition cancel_retry :: "timers \<Rightarrow> fact \<Rightarrow> timers \<times> out list" where
  "cancel_retry T f = (case f of
      BlockFetched _ c _ _ _ _ \<Rightarrow> clear_retry T c
    | TipAdvanced _ c _ \<Rightarrow> clear_retry T c
    | _ \<Rightarrow> (T, []))"

text \<open>The callback of a retry timer.\<close>

definition retry_fires :: "int \<Rightarrow> timers \<Rightarrow> cid \<Rightarrow> timers \<times> fact" where
  "retry_fires now T c = (T\<lparr>blockRetries := blockRetries T - {c}\<rparr>, BlockRetryReset now c)"

section \<open>Inline blocks and the tip\<close>

definition decode_inline :: "env \<Rightarrow> fact \<Rightarrow> out list" where
  "decode_inline en f = (case f of
      CidDiscovered _ c _ (Some b) _ _ \<Rightarrow>
        (let d = decodeBlock en b in
         if mprev d \<noteq> None \<or> (mts d \<noteq> None \<and> mts d \<noteq> Some 0) then [Push (block_fetched en c b)] else [])
    | _ \<Rightarrow> [])"

text \<open>The second component is the error that ends the loop.\<close>

definition apply_newest :: "env \<Rightarrow> chainState \<Rightarrow> chainState \<Rightarrow> out list \<times> string option" where
  "apply_newest en prev next =
     (case newestFetched next of
        None \<Rightarrow> ([], None)
      | Some c \<Rightarrow>
          if applying next \<noteq> None \<or> tip next = Some c \<or> status_of prev c = Some Fetched then ([], None)
          else case getBlock en c of
            None \<Rightarrow> ([], None)
          | Some b \<Rightarrow>
              (case applySnapshot en c b of
                 Placed sq \<Rightarrow> ([ApplyBlock c b, Push (TipAdvanced (clock en) c sq)], None)
               | Invalid c' msg \<Rightarrow> ([ApplyBlock c b, EmitValidationError c' msg], None)
               | PendingIngest _ \<Rightarrow> ([ApplyBlock c b], None)
               | ApplyError err \<Rightarrow> ([ApplyBlock c b], Some err)))"

definition DEFAULT_PREFETCH_DEPTH :: nat where "DEFAULT_PREFETCH_DEPTH = 3"

fun prefetch :: "env \<Rightarrow> (cid, chainEntry) omap \<Rightarrow> nat \<Rightarrow> cid \<Rightarrow> out list" where
  "prefetch en es 0 c = []"
| "prefetch en es (Suc n) c =
     (case map_of es c of
        None \<Rightarrow> []
      | Some e \<Rightarrow>
          (case eprev e of
             None \<Rightarrow> []
           | Some p \<Rightarrow>
               (case map_of es p of
                  Some pe \<Rightarrow> if blockStatus pe = Unknown \<and> getBlock en p = None then dispatchFetch en p pe else []
                | None \<Rightarrow> []) @ prefetch en es n p))"

definition prefetch_parents :: "env \<Rightarrow> nat \<Rightarrow> chainState \<Rightarrow> fact \<Rightarrow> out list" where
  "prefetch_parents en depth next f = (case f of TipAdvanced _ c _ \<Rightarrow> prefetch en (entries next) depth c | _ \<Rightarrow> [])"

section \<open>Announcements and feeds\<close>

definition entry_seq :: "chainState \<Rightarrow> cid \<Rightarrow> int" where
  "entry_seq s c = (case map_of (entries s) c of
      Some e \<Rightarrow> (case eseq e of Some n \<Rightarrow> n | None \<Rightarrow> 0) | None \<Rightarrow> 0)"

definition announce_outs :: "env \<Rightarrow> docState \<Rightarrow> fact \<Rightarrow> out list" where
  "announce_outs en next f = (case f of
      PublishSucceeded _ c sq \<Rightarrow>
        (case getBlock en c of
           Some b \<Rightarrow> [AnnounceBlock c b sq, Push (Announced (clock en) c sq)] | None \<Rightarrow> [])
    | ReannounceTick _ \<Rightarrow>
        (case lastAnnouncedCid (announce next) of
           Some c \<Rightarrow>
             (case getBlock en c of
                Some b \<Rightarrow> [AnnounceBlock c b (entry_seq (chain next) c),
                           Push (Announced (clock en) c (entry_seq (chain next) c))]
              | None \<Rightarrow> [])
         | None \<Rightarrow> [])
    | RelayConnected _ _ \<Rightarrow>
        (case lastAnnouncedCid (announce next) of
           Some c \<Rightarrow> (case getBlock en c of Some b \<Rightarrow> [AnnounceBlock c b (entry_seq (chain next) c)] | None \<Rightarrow> [])
         | None \<Rightarrow> [])
    | _ \<Rightarrow> [])"

definition ready_outs :: "chainState \<Rightarrow> chainState \<Rightarrow> out list" where
  "ready_outs prev next = (if tip prev = None \<and> tip next \<noteq> None then [MarkReady] else [])"

text \<open>
  The code compares the sets of acknowledgements and the maps of guarantees by reference: the reducer makes a new
  set only when it adds a peer, but a new map for every guarantee received.
\<close>

definition tip_outs :: "chainState \<Rightarrow> chainState \<Rightarrow> fact \<Rightarrow> out list" where
  "tip_outs prev next f = (case tip next of
      None \<Rightarrow> []
    | Some c \<Rightarrow>
        (if tip prev = Some c then [] else [EmitSnapshotApplied c (entry_seq next c)]) @
        (case map_of (entries next) c of
           None \<Rightarrow> []
         | Some e \<Rightarrow>
             (if map_option ackedBy (map_of (entries prev) c) = Some (ackedBy e) then [] else [EmitAck c (ackedBy e)]) @
             (if map_of (entries prev) c = None \<or> (case f of GuaranteeReceived _ _ c' _ _ \<Rightarrow> c' = c | _ \<Rightarrow> False)
              then [EmitGuarantee c (guarantees e)] else [])))"

definition gossip_outs :: "connectivity \<Rightarrow> connectivity \<Rightarrow> out list" where
  "gossip_outs prev next =
     (if activity (gossip prev) = activity (gossip next) then [] else [EmitGossipActivity (activity (gossip next))])"

definition epoch_outs :: "env \<Rightarrow> docState \<Rightarrow> fact \<Rightarrow> out list" where
  "epoch_outs en next f = (case f of
      ConvergenceDetected _ ch _ \<Rightarrow>
        [Push (EpochClosed (clock en) ch
           (case map_of (channels (epochs next)) ch of Some e \<Rightarrow> openEpochCount e | None \<Rightarrow> 0))]
    | EpochClosed _ ch i \<Rightarrow>
        (if writesViewCache en then [WriteViewCache ch i] else []) @
        (if materializes en then [MaterializeSnapshot ch i] else [])
    | SnapshotMaterialized _ ch i c _ \<Rightarrow>
        (case getBlock en c of Some b \<Rightarrow> [AnnounceBlock c b i] | None \<Rightarrow> [])
    | ViewCacheLoaded _ n k \<Rightarrow> if populates en then [PopulateViewCache n k] else []
    | _ \<Rightarrow> [])"

text \<open>What the epoch handlers push when they complete.\<close>

definition view_cache_written :: "int \<Rightarrow> (string \<times> int) list option \<Rightarrow> fact list" where
  "view_cache_written now r = (case r of None \<Rightarrow> [] | Some rs \<Rightarrow> map (\<lambda>(n, k). ViewCacheWritten now n k) rs)"

definition snapshot_materialized :: "int \<Rightarrow> string \<Rightarrow> int \<Rightarrow> cid option \<Rightarrow> fact list" where
  "snapshot_materialized now ch i r = (case r of None \<Rightarrow> [] | Some c \<Rightarrow> [SnapshotMaterialized now ch i c 0])"

section \<open>Wake-ups\<close>

definition GUARANTEE_REQUERY_MS :: int where "GUARANTEE_REQUERY_MS = 5 * 60000"

definition schedule_gossip :: "int \<Rightarrow> docState \<Rightarrow> timers \<Rightarrow> timers \<times> out list" where
  "schedule_gossip now s T =
     (if activity (gossip (connectivity s)) = Receiving then
        (let remaining = GOSSIP_DECAY_MS - (now - lastMessageAt (gossip (connectivity s))) in
         if 0 < remaining \<and> \<not> gossipDecay T then (T\<lparr>gossipDecay := True\<rparr>, [StartGossipTimer remaining]) else (T, []))
      else if gossipDecay T then (T\<lparr>gossipDecay := False\<rparr>, [ClearGossipTimer])
      else (T, []))"

definition schedule_requery :: "int \<Rightarrow> docState \<Rightarrow> timers \<Rightarrow> timers \<times> out list" where
  "schedule_requery now s T =
     (if lastAnnouncedCid (announce s) \<noteq> None then
        (let remaining = GUARANTEE_REQUERY_MS - (now - lastGuaranteeQueryAt (announce s)) in
         if 0 < remaining \<and> \<not> guaranteeRequery T then (T\<lparr>guaranteeRequery := True\<rparr>, [StartGuaranteeTimer remaining])
         else (T, []))
      else (T, []))"

definition scheduleWakeups :: "int \<Rightarrow> docState \<Rightarrow> timers \<Rightarrow> timers \<times> out list" where
  "scheduleWakeups now s T =
     (let (T1, o1) = schedule_gossip now s T; (T2, o2) = schedule_requery now s T1 in (T2, o1 @ o2))"

section \<open>One turn of the loop\<close>

record turn =
  tTimers :: timers
  tOuts :: "out list"
  tError :: "string option"

definition interpretTurn :: "env \<Rightarrow> nat \<Rightarrow> timers \<Rightarrow> docState \<Rightarrow> docState \<Rightarrow> fact \<Rightarrow> turn" where
  "interpretTurn en depth T prev next f =
     (let p = chain prev; n = chain next;
          o1 = fetch_unknown en p n;
          (T1, o2) = schedule_retry T n f;
          (T2, o3) = cancel_retry T1 f;
          o4 = decode_inline en f;
          (o5, err) = apply_newest en p n
      in case err of
           Some e \<Rightarrow> \<lparr>tTimers = T2, tOuts = o1 @ o2 @ o3 @ o4 @ o5, tError = Some e\<rparr>
         | None \<Rightarrow>
             (let o6 = prefetch_parents en depth n f;
                  o7 = announce_outs en next f;
                  o8 = ready_outs p n @ tip_outs p n f @ gossip_outs (connectivity prev) (connectivity next);
                  o9 = epoch_outs en next f;
                  (T3, o10) = scheduleWakeups (clock en) next T2
              in \<lparr>tTimers = T3, tOuts = o1 @ o2 @ o3 @ o4 @ o5 @ o6 @ o7 @ o8 @ o9 @ o10, tError = None\<rparr>))"

section \<open>What a turn fetches\<close>

definition turn_outs :: "env \<Rightarrow> nat \<Rightarrow> timers \<Rightarrow> docState \<Rightarrow> docState \<Rightarrow> fact \<Rightarrow> out list" where
  "turn_outs en depth T prev next f = tOuts (interpretTurn en depth T prev next f)"

fun is_fetch :: "out \<Rightarrow> bool" where
  "is_fetch (Fetch _ _) = True"
| "is_fetch _ = False"

fun is_apply :: "out \<Rightarrow> bool" where
  "is_apply (ApplyBlock _ _) = True"
| "is_apply _ = False"

lemma retry_outs:
  "snd (schedule_retry T n f) \<noteq> [] \<Longrightarrow> \<exists>c d. snd (schedule_retry T n f) = [StartRetry c d]"
  "snd (cancel_retry T f) \<noteq> [] \<Longrightarrow> \<exists>c. snd (cancel_retry T f) = [ClearRetry c]"
  by (auto simp: schedule_retry_def cancel_retry_def clear_retry_def split: fact.splits option.splits if_splits)

lemma quiet_outs [simp]:
  assumes "is_fetch x \<or> is_apply x"
  shows "x \<notin> set (snd (schedule_retry T n f))" "x \<notin> set (snd (cancel_retry T f))" "x \<notin> set (decode_inline en f)"
    "x \<notin> set (announce_outs en s f)" "x \<notin> set (ready_outs p n)" "x \<notin> set (tip_outs p n f)"
    "x \<notin> set (gossip_outs c d)" "x \<notin> set (epoch_outs en s f)" "x \<notin> set (snd (scheduleWakeups now s T))"
  using assms
  by (cases x; auto simp: schedule_retry_def cancel_retry_def clear_retry_def decode_inline_def announce_outs_def
      ready_outs_def tip_outs_def gossip_outs_def epoch_outs_def scheduleWakeups_def schedule_gossip_def
      schedule_requery_def Let_def split: fact.splits option.splits if_splits prod.splits)+

lemma turn_outs_eq:
  "turn_outs en depth T prev next f =
     (let p = chain prev; n = chain next; T1 = fst (schedule_retry T n f); T2 = fst (cancel_retry T1 f)
      in fetch_unknown en p n @ snd (schedule_retry T n f) @ snd (cancel_retry T1 f) @ decode_inline en f @
         fst (apply_newest en p n) @
         (if snd (apply_newest en p n) \<noteq> None then []
          else prefetch_parents en depth n f @ announce_outs en next f @
            (ready_outs p n @ tip_outs p n f @ gossip_outs (connectivity prev) (connectivity next)) @
            epoch_outs en next f @ snd (scheduleWakeups (clock en) next T2)))"
  by (simp add: turn_outs_def interpretTurn_def Let_def split: prod.split option.split)

lemma apply_no_fetch: "is_fetch x \<Longrightarrow> x \<notin> set (fst (apply_newest en p n))"
  by (cases x) (auto simp: apply_newest_def split: option.splits if_splits applyResult.splits)

lemma fetch_no_apply: "is_apply x \<Longrightarrow> x \<notin> set (fetch_unknown en p n)"
  by (cases x) (auto simp: fetch_unknown_def dispatchFetch_def split: option.splits if_splits)

lemma prefetch_no_apply: "is_apply x \<Longrightarrow> x \<notin> set (prefetch en es k c)"
  by (induction k arbitrary: c) (auto simp: dispatchFetch_def split: option.splits if_splits)

lemma prefetch_parents_no_apply: "is_apply x \<Longrightarrow> x \<notin> set (prefetch_parents en k n f)"
  by (auto simp: prefetch_parents_def prefetch_no_apply split: fact.split)

lemma fetch_unknown_in_turn:
  "set (fetch_unknown en (chain prev) (chain next)) \<subseteq> set (turn_outs en depth T prev next f)"
  unfolding turn_outs_eq Let_def set_append by (rule Un_upper1)

lemma turn_fetches:
  "Fetch c k \<in> set (turn_outs en depth T prev next f) \<longleftrightarrow>
     Fetch c k \<in> set (fetch_unknown en (chain prev) (chain next)) \<or>
     snd (apply_newest en (chain prev) (chain next)) = None \<and> Fetch c k \<in> set (prefetch_parents en depth (chain next) f)"
  by (auto simp: turn_outs_eq Let_def apply_no_fetch)

lemma turn_applies:
  "ApplyBlock c b \<in> set (turn_outs en depth T prev next f) \<longleftrightarrow>
     ApplyBlock c b \<in> set (fst (apply_newest en (chain prev) (chain next)))"
  by (simp add: turn_outs_eq Let_def fetch_no_apply prefetch_parents_no_apply)

lemma fetch_unknown_mem:
  "Fetch c k \<in> set (fetch_unknown en p n) \<longleftrightarrow>
     (\<exists>e \<in> snd ` set (entries n). wanted p n e \<and> ecid e = c \<and> fetchAttempt e = k \<and> getBlock en c = None)"
  by (auto simp: fetch_unknown_def dispatchFetch_def split: option.splits if_splits; blast)

lemma prefetch_fetches:
  "Fetch c k \<in> set (prefetch en es n t) \<Longrightarrow>
     \<exists>e. map_of es c = Some e \<and> blockStatus e = Unknown \<and> fetchAttempt e = k \<and> getBlock en c = None"
proof (induction n arbitrary: t)
  case (Suc n)
  show ?case
  proof (cases "\<exists>p. Fetch c k \<in> set (prefetch en es n p)")
    case True
    then show ?thesis using Suc.IH by blast
  next
    case False
    with Suc.prems show ?thesis
      by (auto simp: dispatchFetch_def split: option.splits if_splits) (metis option.inject)+
  qed
qed simp

lemma concat_map_mem: "x \<in> set xs \<Longrightarrow> set (F x) \<subseteq> set (concat (map F xs))"
  by auto

text \<open>
  What a turn fetches.  A fetch is only ever dispatched for an entry of the chain whose block is unknown and
  not cached, with the number of attempts made so far; and every entry that has just become unknown and that the
  policy wants is either fetched or, when its block is cached, reported as fetched at once.
\<close>

theorem turn_fetches_exactly:
  assumes "chain next = foldl chain_step INITIAL_CHAIN fs"
  shows "(\<forall>c k. Fetch c k \<in> set (turn_outs en depth T prev next f) \<longrightarrow>
      (\<exists>e. map_of (entries (chain next)) c = Some e \<and> blockStatus e = Unknown \<and> fetchAttempt e = k \<and> getBlock en c = None)) \<and>
    (\<forall>c e. map_of (entries (chain next)) c = Some e \<and> wanted (chain prev) (chain next) e \<longrightarrow>
      (case getBlock en c of
         None \<Rightarrow> Push (BlockFetchStarted (clock en) c) \<in> set (turn_outs en depth T prev next f) \<and>
                 Fetch c (fetchAttempt e) \<in> set (turn_outs en depth T prev next f)
       | Some b \<Rightarrow> Push (block_fetched en c b) \<in> set (turn_outs en depth T prev next f)))"
proof -
  let ?es = "entries (chain next)"
  have inv: "distinct (map fst ?es)" "\<forall>p \<in> set ?es. ecid (snd p) = fst p"
    using chain_entries_of_run [OF assms] by auto
  have look: "map_of ?es (ecid e) = Some e" if "e \<in> snd ` set ?es" for e
    using that inv by force
  have 1: "\<exists>e. map_of ?es c = Some e \<and> blockStatus e = Unknown \<and> fetchAttempt e = k \<and> getBlock en c = None"
    if "Fetch c k \<in> set (turn_outs en depth T prev next f)" for c k
  proof (cases "Fetch c k \<in> set (fetch_unknown en (chain prev) (chain next))")
    case True
    then obtain e where e: "e \<in> snd ` set ?es" "wanted (chain prev) (chain next) e" "ecid e = c" "fetchAttempt e = k"
        "getBlock en c = None"
      unfolding fetch_unknown_mem by blast
    then show ?thesis using look [OF e(1)] by (simp add: wanted_def)
  next
    case False
    then have "Fetch c k \<in> set (prefetch_parents en depth (chain next) f)"
      using that unfolding turn_fetches by blast
    then obtain t where "Fetch c k \<in> set (prefetch en ?es depth t)"
      by (auto simp: prefetch_parents_def split: fact.splits)
    then show ?thesis by (rule prefetch_fetches)
  qed
  have 2: "case getBlock en c of
         None \<Rightarrow> Push (BlockFetchStarted (clock en) c) \<in> set (turn_outs en depth T prev next f) \<and>
                 Fetch c (fetchAttempt e) \<in> set (turn_outs en depth T prev next f)
       | Some b \<Rightarrow> Push (block_fetched en c b) \<in> set (turn_outs en depth T prev next f)"
    if "map_of ?es c = Some e" "wanted (chain prev) (chain next) e" for c e
  proof -
    have e: "e \<in> snd ` set ?es" "ecid e = c" using that(1) inv by (force dest: map_of_SomeD)+
    then have "set (case getBlock en c of Some b \<Rightarrow> [Push (block_fetched en c b)] | None \<Rightarrow> dispatchFetch en c e)
        \<subseteq> set (fetch_unknown en (chain prev) (chain next))"
      unfolding fetch_unknown_def
      by (intro order_trans [OF _ concat_map_mem [of e]]) (simp_all add: that(2) cong: option.case_cong)
    then have "set (case getBlock en c of Some b \<Rightarrow> [Push (block_fetched en c b)] | None \<Rightarrow> dispatchFetch en c e)
        \<subseteq> set (turn_outs en depth T prev next f)"
      by (rule order_trans [OF _ fetch_unknown_in_turn])
    then show ?thesis by (cases "getBlock en c") (simp_all add: dispatchFetch_def)
  qed
  show ?thesis using 1 2 by blast
qed

definition sample_env :: env where
  "sample_env = \<lparr>clock = 50, decodeBlock = (\<lambda>b. \<lparr>mprev = None, mseq = None, mts = None\<rparr>),
     getBlock = (\<lambda>c. if c = ''good'' \<or> c = ''bad'' then Some [1] else None),
     applySnapshot = (\<lambda>c b. if c = ''bad'' then Invalid c ''forged'' else Placed 5),
     writesViewCache = False, materializes = False, populates = False\<rparr>"

definition sample_doc :: "fact list \<Rightarrow> docState" where
  "sample_doc fs = doc_run (initialDocState sample_identity) (map (\<lambda>f. (50, f)) fs)"

lemma sample_doc_chain: "chain (sample_doc fs) = foldl chain_step INITIAL_CHAIN fs"
  using doc_run_slices [of "initialDocState sample_identity" "map (\<lambda>f. (50, f)) fs"]
  by (simp add: sample_doc_def initialDocState_def o_def)

theorem turn_fetches_exactly_witness:
  "Fetch ''c'' 0 \<in> set (turn_outs sample_env 3 noTimers (sample_doc []) (sample_doc [CidDiscovered 1 ''c'' Ipns None None None])
     (CidDiscovered 1 ''c'' Ipns None None None))"
proof -
  have "map_of (entries (chain (sample_doc [CidDiscovered 1 ''c'' Ipns None None None]))) ''c'' =
      Some (newEntry ''c'' None None Ipns Unknown)"
    "wanted (chain (sample_doc [])) (chain (sample_doc [CidDiscovered 1 ''c'' Ipns None None None]))
      (newEntry ''c'' None None Ipns Unknown)"
    by (simp_all add: sample_doc_chain chain_eval wanted_def status_of_def shouldAutoFetch_def AUTO_FETCH_SOURCES_def)
  moreover have "getBlock sample_env ''c'' = None" "fetchAttempt (newEntry ''c'' None None Ipns Unknown) = 0"
    by (simp_all add: sample_env_def newEntry_def)
  ultimately show ?thesis
    using turn_fetches_exactly [OF sample_doc_chain, of sample_env 3 noTimers "sample_doc []"
        "[CidDiscovered 1 ''c'' Ipns None None None]" "CidDiscovered 1 ''c'' Ipns None None None"]
    by force
qed

section \<open>What a turn applies\<close>

lemma apply_newest_mem:
  "ApplyBlock c b \<in> set (fst (apply_newest en p n)) \<longleftrightarrow>
     newestFetched n = Some c \<and> applying n = None \<and> tip n \<noteq> Some c \<and> status_of p c \<noteq> Some Fetched \<and> getBlock en c = Some b"
  by (auto simp: apply_newest_def split: option.splits applyResult.splits)

text \<open>
  C9: A turn applies a block exactly when its entry is the fetched one of greatest number, is not the tip, has
  become fetched with this very fact and has its block cached.
\<close>

theorem turn_applies_newest:
  assumes "chain next = foldl chain_step INITIAL_CHAIN fs"
  shows "(ApplyBlock c b \<in> set (turn_outs en depth T prev next f) \<longleftrightarrow>
      newestFetched (chain next) = Some c \<and> applying (chain next) = None \<and> tip (chain next) \<noteq> Some c \<and>
      status_of (chain prev) c \<noteq> Some Fetched \<and> getBlock en c = Some b) \<and>
    (ApplyBlock c b \<in> set (turn_outs en depth T prev next f) \<longrightarrow>
      (\<exists>e. map_of (entries (chain next)) c = Some e \<and> blockStatus e = Fetched \<and>
        (\<forall>e' \<in> snd ` set (entries (chain next)). blockStatus e' = Fetched \<longrightarrow> seq0 e' \<le> seq0 e)))"
proof -
  have inv: "chain_inv (chain next)" using chain_machine.inv_run [of fs] assms by simp
  then have "newest_spec (chain next)" by (simp add: chain_inv_def newest_spec_newest)
  moreover have "map_of (entries (chain next)) (ecid e) = Some e" if "e \<in> snd ` set (entries (chain next))" for e
    using that chain_entries_of_run [OF assms] by force
  ultimately have "newestFetched (chain next) = Some c \<Longrightarrow> (\<exists>e. map_of (entries (chain next)) c = Some e \<and>
      blockStatus e = Fetched \<and> (\<forall>e' \<in> snd ` set (entries (chain next)). blockStatus e' = Fetched \<longrightarrow> seq0 e' \<le> seq0 e))"
    by (auto simp: newest_spec_def)
  then show ?thesis unfolding turn_applies apply_newest_mem by blast
qed

theorem turn_applies_newest_witness:
  "ApplyBlock ''good'' [1] \<in> set (turn_outs sample_env 3 noTimers (sample_doc [])
     (sample_doc [CidDiscovered 1 ''good'' Gossipsub (Some [1]) (Some 5) None])
     (CidDiscovered 1 ''good'' Gossipsub (Some [1]) (Some 5) None))"
proof -
  have "newestFetched (chain (sample_doc [CidDiscovered 1 ''good'' Gossipsub (Some [1]) (Some 5) None])) = Some ''good''"
    "applying (chain (sample_doc [CidDiscovered 1 ''good'' Gossipsub (Some [1]) (Some 5) None])) = None"
    "tip (chain (sample_doc [CidDiscovered 1 ''good'' Gossipsub (Some [1]) (Some 5) None])) = None"
    "status_of (chain (sample_doc [])) ''good'' = None" "getBlock sample_env ''good'' = Some [1]"
    by (simp_all add: sample_doc_chain chain_eval status_of_def sample_env_def)
  then show ?thesis using turn_applies_newest [OF sample_doc_chain] by simp
qed

text \<open>
  A block that fails validation stays the newest fetched one.  As long as it does, whatever else arrives no
  turn applies anything: a forged snapshot with a high number keeps every genuine snapshot with a lower one from
  ever being tried.
\<close>

theorem rejected_block_blocks_all:
  assumes "chain prev = foldl chain_step INITIAL_CHAIN fs" "newestFetched (chain next) = newestFetched (chain prev)"
  shows "ApplyBlock c b \<notin> set (turn_outs en depth T prev next f)"
proof
  assume "ApplyBlock c b \<in> set (turn_outs en depth T prev next f)"
  then have c: "newestFetched (chain prev) = Some c" "status_of (chain prev) c \<noteq> Some Fetched"
    unfolding turn_applies apply_newest_mem using assms(2) by auto
  have "chain_inv (chain prev)" using chain_machine.inv_run [of fs] assms(1) by simp
  then have "newest_spec (chain prev)" by (simp add: chain_inv_def newest_spec_newest)
  then obtain e where e: "e \<in> snd ` set (entries (chain prev))" "ecid e = c" "blockStatus e = Fetched"
    using c(1) by (auto simp: newest_spec_def)
  then have "map_of (entries (chain prev)) c = Some e" using chain_entries_of_run [OF assms(1)] by force
  with e c(2) show False by (simp add: status_of_def)
qed

definition bad_then_good :: "fact list" where
  "bad_then_good = [CidDiscovered 1 ''bad'' Gossipsub (Some [1]) (Some 100) None,
                    CidDiscovered 2 ''good'' Gossipsub (Some [1]) (Some 5) None]"

theorem rejected_block_blocks_all_witness:
  "EmitValidationError ''bad'' ''forged'' \<in> set (turn_outs sample_env 3 noTimers (sample_doc [])
      (sample_doc (take 1 bad_then_good)) (bad_then_good ! 0)) \<and>
   status_of (chain (sample_doc bad_then_good)) ''good'' = Some Fetched \<and>
   ApplyBlock ''good'' [1] \<notin> set (turn_outs sample_env 3 noTimers (sample_doc (take 1 bad_then_good))
      (sample_doc bad_then_good) (bad_then_good ! 1))"
proof (intro conjI)
  have "EmitValidationError ''bad'' ''forged'' \<in>
      set (fst (apply_newest sample_env (chain (sample_doc [])) (chain (sample_doc (take 1 bad_then_good)))))"
    by (simp add: sample_doc_chain bad_then_good_def chain_eval apply_newest_def status_of_def sample_env_def)
  then show "EmitValidationError ''bad'' ''forged'' \<in> set (turn_outs sample_env 3 noTimers (sample_doc [])
      (sample_doc (take 1 bad_then_good)) (bad_then_good ! 0))"
    by (simp add: turn_outs_eq Let_def)
  show "status_of (chain (sample_doc bad_then_good)) ''good'' = Some Fetched"
    by (simp add: sample_doc_chain bad_then_good_def chain_eval status_of_def)
  have "newestFetched (chain (sample_doc bad_then_good)) = newestFetched (chain (sample_doc (take 1 bad_then_good)))"
    by (simp add: sample_doc_chain bad_then_good_def chain_eval)
  then show "ApplyBlock ''good'' [1] \<notin> set (turn_outs sample_env 3 noTimers (sample_doc (take 1 bad_then_good))
      (sample_doc bad_then_good) (bad_then_good ! 1))"
    by (rule rejected_block_blocks_all [OF sample_doc_chain])
qed

end
