(* ===== verification/Block_Resolver.thy ===== *)
theory Block_Resolver
  imports Bounded_Store Interpreter
begin

text \<open>
  Where blocks come from: the layered resolver of \<open>packages/protocol/src/doc-block-resolver.ts\<close> over the LRU cache,
  and the layered fetch of \<open>packages/core/src/fetch-block.ts\<close>.  The block store, the pinners and the exchange of
  blocks are not part of the repository: what they answer is an argument.  Operations are cut where the code
  awaits; the step function runs the pieces in any order.
\<close>

section \<open>Fetching a block\<close>

text \<open>What one fetch sees: the answers of the local block store, of every pinner and of every exchange attempt.\<close>

record net =
  heliaUp :: bool
  offline :: "cid \<Rightarrow> bytes result"
  httpGet :: "string \<Rightarrow> cid \<Rightarrow> (bool \<times> bytes) result"
  verifiedCid :: "cid \<Rightarrow> bytes \<Rightarrow> cid"
  bitswap :: "cid \<Rightarrow> nat \<Rightarrow> bytes result"
  httpUrls :: "string list"

definition tryOffline :: "net \<Rightarrow> cid \<Rightarrow> bytes option" where
  "tryOffline N c = (case offline N c of Inl _ \<Rightarrow> None | Inr b \<Rightarrow> if b = [] then None else Some b)"

fun tryHttp :: "net \<Rightarrow> cid \<Rightarrow> string list \<Rightarrow> bytes option" where
  "tryHttp N c [] = None"
| "tryHttp N c (url # urls) =
     (case httpGet N url c of
        Inl _ \<Rightarrow> tryHttp N c urls
      | Inr (ok, b) \<Rightarrow>
          if \<not> ok then tryHttp N c urls
          else if b = [] then tryHttp N c urls
          else if verifiedCid N c b \<noteq> c then tryHttp N c urls
          else Some b)"

definition bitswap_once :: "net \<Rightarrow> cid \<Rightarrow> nat \<Rightarrow> bytes result" where
  "bitswap_once N c i = and_then (bitswap N c i) (\<lambda>b. if b = [] then Throw ''empty block from blockstore'' else Ok b)"

text \<open>The loop from attempt \<open>i\<close>, with the delays it waits; the last error is thrown.\<close>

function bitswap_from :: "net \<Rightarrow> cid \<Rightarrow> nat \<Rightarrow> int \<Rightarrow> nat \<Rightarrow> bytes result \<times> int list" where
  "bitswap_from N c retries baseMs i =
     (case bitswap_once N c i of
        Inr b \<Rightarrow> (Ok b, [])
      | Inl e \<Rightarrow>
          if i < retries then
            (let (r, ds) = bitswap_from N c retries baseMs (Suc i) in (r, baseMs * 2 ^ i # ds))
          else (Throw e, []))"
  by pat_completeness auto
termination
  by (relation "measure (\<lambda>(_, _, retries, _, i). retries - i)") auto

declare bitswap_from.simps [simp del]

definition fetchBlock :: "net \<Rightarrow> cid \<Rightarrow> nat \<Rightarrow> int \<Rightarrow> bytes result \<times> int list" where
  "fetchBlock N c retries baseMs =
     (case tryOffline N c of
        Some b \<Rightarrow> (Ok b, [])
      | None \<Rightarrow>
          (case (if httpUrls N \<noteq> [] then tryHttp N c (httpUrls N) else None) of
             Some b \<Rightarrow> (Ok b, [])
           | None \<Rightarrow> bitswap_from N c retries baseMs 0))"

section \<open>The resolver\<close>

definition NEGATIVE_CACHE_TTL_MS :: int where "NEGATIVE_CACHE_TTL_MS = 60000"

record resolver =
  rlru :: lru
  knownCids :: "cid set"
  memoryOnlyCids :: "cid set"
  negativeCache :: "(cid, int) omap"
  hydrated :: bool

definition createDocBlockResolver :: resolver where
  "createDocBlockResolver = \<lparr>rlru = createLruCache, knownCids = {}, memoryOnlyCids = {}, negativeCache = [], hydrated = False\<rparr>"

text \<open>\<^verbatim>\<open>lru.set\<close> with the hook on eviction.\<close>

definition remember :: "int \<Rightarrow> cid \<Rightarrow> bytes \<Rightarrow> resolver \<Rightarrow> resolver" where
  "remember lruBytes c b s =
     (let (l, ev) = lru_set lruBytes c b (rlru s)
      in s\<lparr>rlru := l, memoryOnlyCids := memoryOnlyCids s - set ev\<rparr>)"

definition persist_ok :: "cid \<Rightarrow> resolver \<Rightarrow> resolver" where
  "persist_ok c s = s\<lparr>memoryOnlyCids := memoryOnlyCids s - {c}, knownCids := insert c (knownCids s)\<rparr>"

definition persist_failed :: "cid \<Rightarrow> resolver \<Rightarrow> resolver" where
  "persist_failed c s = s\<lparr>memoryOnlyCids := insert c (memoryOnlyCids s), knownCids := knownCids s - {c}\<rparr>"

datatype putCall = HeliaThrows | NoPut | PutStarted

definition persistToIdb :: "putCall \<Rightarrow> cid \<Rightarrow> resolver \<Rightarrow> resolver" where
  "persistToIdb p c s = (case p of HeliaThrows \<Rightarrow> persist_failed c s | NoPut \<Rightarrow> s | PutStarted \<Rightarrow> s)"

definition resolver_put :: "int \<Rightarrow> putCall \<Rightarrow> cid \<Rightarrow> bytes \<Rightarrow> resolver \<Rightarrow> resolver" where
  "resolver_put lruBytes p c b s = (if b = [] then s else persistToIdb p c (remember lruBytes c b s))"

definition getCached :: "cid \<Rightarrow> resolver \<Rightarrow> resolver \<times> bytes option" where
  "getCached c s = (let (l, r) = lru_get c (rlru s) in (s\<lparr>rlru := l\<rparr>, r))"

definition resolver_has :: "cid \<Rightarrow> resolver \<Rightarrow> bool" where
  "resolver_has c s \<longleftrightarrow> lru_has c (rlru s) \<or> c \<in> knownCids s"

datatype lookup = Found bytes | Missing | MustFetch

definition startGet :: "int \<Rightarrow> cid \<Rightarrow> resolver \<Rightarrow> resolver \<times> lookup" where
  "startGet now c s =
     (case lru_get c (rlru s) of
        (l, Some b) \<Rightarrow> (s\<lparr>rlru := l\<rparr>, Found b)
      | (l, None) \<Rightarrow>
          (case map_of (negativeCache s) c of
             None \<Rightarrow> (s, MustFetch)
           | Some missAt \<Rightarrow>
               if now - missAt < NEGATIVE_CACHE_TTL_MS then (s, Missing)
               else (s\<lparr>negativeCache := AList.delete c (negativeCache s)\<rparr>, MustFetch)))"

text \<open>What follows the awaited fetch.\<close>

definition finishGet :: "int \<Rightarrow> int \<Rightarrow> cid \<Rightarrow> bytes result \<Rightarrow> resolver \<Rightarrow> resolver \<times> bytes option" where
  "finishGet lruBytes now c r s =
     (let missed = (s\<lparr>negativeCache := AList.update c now (negativeCache s)\<rparr>, None) in
      case r of
        Inl _ \<Rightarrow> missed
      | Inr b \<Rightarrow>
          if b = [] then missed
          else let s1 = remember lruBytes c b s in (s1\<lparr>negativeCache := AList.delete c (negativeCache s1)\<rparr>, Some b))"

definition resolver_fetch :: "net \<Rightarrow> cid \<Rightarrow> bytes result" where
  "resolver_fetch N c = (if heliaUp N then fst (fetchBlock N c 2 1000) else Throw ''Helia not available'')"

text \<open>The whole of \<^verbatim>\<open>get\<close> with nothing in between; it begins at \<open>now\<close> and a fetch is over at \<open>end_at\<close>.\<close>

definition resolver_get :: "int \<Rightarrow> net \<Rightarrow> int \<Rightarrow> int \<Rightarrow> cid \<Rightarrow> resolver \<Rightarrow> resolver \<times> bytes option" where
  "resolver_get lruBytes N now end_at c s =
     (case startGet now c s of
        (s1, Found b) \<Rightarrow> (s1, Some b)
      | (s1, Missing) \<Rightarrow> (s1, None)
      | (s1, MustFetch) \<Rightarrow> finishGet lruBytes end_at c (resolver_fetch N c) s1)"

section \<open>The resolver and its block store\<close>

text \<open>The writes that are under way and what the block store has acknowledged, which it keeps.\<close>

record rsystem =
  res :: resolver
  writes :: "(cid \<times> bytes) list"
  idb :: "cid \<Rightarrow> bytes option"

datatype revent = Put putCall cid bytes | PutDone nat | PutFailed nat | Hydrate cid | HydrateEnd
  | GetCached cid | StartGet int cid | FinishGet int cid "bytes result"

definition at_write :: "nat \<Rightarrow> rsystem \<Rightarrow> (cid \<times> bytes \<Rightarrow> rsystem \<Rightarrow> rsystem) \<Rightarrow> rsystem" where
  "at_write i S f = (if i < length (writes S)
     then f (writes S ! i) (S\<lparr>writes := take i (writes S) @ drop (Suc i) (writes S)\<rparr>) else S)"

fun rstep :: "int \<Rightarrow> rsystem \<Rightarrow> revent \<Rightarrow> rsystem" where
  "rstep m S (Put p c b) = S\<lparr>res := resolver_put m p c b (res S),
     writes := (if b \<noteq> [] \<and> p = PutStarted then writes S @ [(c, b)] else writes S)\<rparr>"
| "rstep m S (PutDone i) = at_write i S (\<lambda>(c, b) T. T\<lparr>idb := (idb T)(c \<mapsto> b), res := persist_ok c (res T)\<rparr>)"
| "rstep m S (PutFailed i) = at_write i S (\<lambda>(c, b) T. T\<lparr>res := persist_failed c (res T)\<rparr>)"
| "rstep m S (Hydrate c) = (if idb S c \<noteq> None then S\<lparr>res := (res S)\<lparr>knownCids := insert c (knownCids (res S))\<rparr>\<rparr> else S)"
| "rstep m S HydrateEnd = S\<lparr>res := (res S)\<lparr>hydrated := True\<rparr>\<rparr>"
| "rstep m S (GetCached c) = S\<lparr>res := fst (getCached c (res S))\<rparr>"
| "rstep m S (StartGet now c) = S\<lparr>res := fst (startGet now c (res S))\<rparr>"
| "rstep m S (FinishGet now c r) = S\<lparr>res := fst (finishGet m now c r (res S))\<rparr>"

definition resolver_start :: "(cid \<Rightarrow> bytes option) \<Rightarrow> rsystem" where
  "resolver_start stored = \<lparr>res = createDocBlockResolver, writes = [], idb = stored\<rparr>"


section \<open>What the resolver promises\<close>

definition no_empty :: "(cid \<Rightarrow> bytes option) \<Rightarrow> bool" where
  "no_empty f \<longleftrightarrow> (\<forall>c. f c \<noteq> Some [])"

definition lru_ok :: "lru \<Rightarrow> bool" where
  "lru_ok l \<longleftrightarrow> lru_inv l \<and> no_empty (lru_contents l)"

definition resolver_inv :: "rsystem \<Rightarrow> bool" where
  "resolver_inv S \<longleftrightarrow> lru_ok (rlru (res S)) \<and> knownCids (res S) \<subseteq> dom (idb S) \<and> no_empty (idb S) \<and>
     (\<forall>p \<in> set (writes S). snd p \<noteq> [])"

lemma lru_get_ok:
  assumes "lru_inv l"
  shows "lru_inv (fst (lru_get c l))"
proof (cases "map_of (nodes l) c")
  case (Some n)
  then have "c \<in> set (order l)" using assms map_of_None_keys [of "nodes l" c] by (simp add: lru_inv_def)
  then have "set (touch c (order l)) = set (order l)" "distinct (touch c (order l))"
    using assms by (auto simp: touch_def lru_inv_def)
  then show ?thesis using assms Some by (simp add: lru_get_def lru_inv_def)
qed (simp add: lru_get_def assms)

lemma lru_contents_get [simp]: "lru_contents (fst (lru_get c l)) = lru_contents l"
  by (auto simp: lru_get_def lru_contents_def fun_eq_iff split: option.split)

lemma lru_get_keeps [simp]: "lru_ok l \<Longrightarrow> lru_ok (fst (lru_get c l))"
  by (simp add: lru_ok_def lru_get_ok)

lemma lru_get_has: "snd (lru_get c l) = lru_contents l c"
  by (simp add: lru_get_def lru_contents_def split: option.split)

lemma lru_has_contents: "lru_has c l \<longleftrightarrow> lru_contents l c \<noteq> None"
  by (simp add: lru_has_def lru_contents_def)

lemma lru_set_contents:
  assumes "lru_inv l" "lru_set m c b l = (l', ev)" "lru_contents l' k = Some d"
  shows "if k = c then d = b else lru_contents l k = Some d"
proof -
  have "\<forall>j. lru_contents l' j = (if j \<in> set (order l') then if j = c then Some b else lru_contents l j else None)"
    using lru_set_spec [OF assms(1,2)] by blast
  then show ?thesis using assms(3) by (auto split: if_splits)
qed

lemma remember_fields [simp]:
  "knownCids (remember m c b s) = knownCids s" "negativeCache (remember m c b s) = negativeCache s"
  "rlru (remember m c b s) = fst (lru_set m c b (rlru s))"
  by (simp_all add: remember_def split: prod.split)

lemma lru_set_ok: "lru_ok l \<Longrightarrow> b \<noteq> [] \<Longrightarrow> lru_ok (fst (lru_set m c b l))"
proof -
  assume a: "lru_ok l" "b \<noteq> []"
  obtain l' ev where e: "lru_set m c b l = (l', ev)" by force
  have "lru_inv l'" using a(1) e lru_store.put_inv [of l m c b] by (simp add: lru_ok_def)
  moreover have "no_empty (lru_contents l')"
    using lru_set_contents [OF _ e] a by (fastforce simp: lru_ok_def no_empty_def split: if_splits)
  ultimately show ?thesis by (simp add: lru_ok_def e)
qed

lemma persist_fields [simp]:
  "rlru (persist_ok c s) = rlru s" "rlru (persist_failed c s) = rlru s" "rlru (persistToIdb p c s) = rlru s"
  "negativeCache (persist_ok c s) = negativeCache s" "negativeCache (persist_failed c s) = negativeCache s"
  "negativeCache (persistToIdb p c s) = negativeCache s"
  "knownCids (persist_ok c s) = insert c (knownCids s)" "knownCids (persist_failed c s) = knownCids s - {c}"
  "knownCids (persistToIdb p c s) \<subseteq> knownCids s"
  by (auto simp: persist_ok_def persist_failed_def persistToIdb_def split: putCall.split)

lemma startGet_fields [simp]:
  "rlru (fst (startGet now c s)) = fst (lru_get c (rlru s))" "knownCids (fst (startGet now c s)) = knownCids s"
  by (auto simp: startGet_def lru_get_def split: option.split prod.split)

lemma at_write_inv:
  assumes "resolver_inv S" "\<And>c b T. resolver_inv T \<Longrightarrow> b \<noteq> [] \<Longrightarrow> resolver_inv (f (c, b) T)"
  shows "resolver_inv (at_write i S f)"
proof (cases "i < length (writes S)")
  case True
  let ?T = "S\<lparr>writes := take i (writes S) @ drop (Suc i) (writes S)\<rparr>"
  have "set (writes ?T) \<subseteq> set (writes S)"
    using set_take_subset [of i "writes S"] set_drop_subset [of "Suc i" "writes S"] by simp
  then have "resolver_inv ?T" using assms(1) by (simp add: resolver_inv_def) blast
  moreover have "snd (writes S ! i) \<noteq> []" using assms(1) True by (simp add: resolver_inv_def)
  ultimately have "resolver_inv (f (fst (writes S ! i), snd (writes S ! i)) ?T)" by (rule assms(2))
  then show ?thesis using True by (simp add: at_write_def)
qed (simp add: at_write_def assms(1))

lemma resolver_inv_step: "resolver_inv S \<Longrightarrow> resolver_inv (rstep m S ev)"
proof (cases ev)
  case (Put p c b)
  assume "resolver_inv S"
  then show ?thesis using Put persist_fields(9) [of p c "remember m c b (res S)"]
    by (auto simp: resolver_inv_def resolver_put_def lru_set_ok)
next
  case (PutDone i)
  assume "resolver_inv S"
  then show ?thesis unfolding PutDone rstep.simps
    by (rule at_write_inv) (auto simp: resolver_inv_def no_empty_def)
next
  case (PutFailed i)
  assume "resolver_inv S"
  then show ?thesis unfolding PutFailed rstep.simps
    by (rule at_write_inv) (auto simp: resolver_inv_def)
next
  case (FinishGet now c r)
  assume i: "resolver_inv S"
  show ?thesis
  proof (cases "\<exists>b. r = Inr b \<and> b \<noteq> []")
    case True
    then obtain b where "r = Inr b" "b \<noteq> []" by blast
    then show ?thesis using i FinishGet by (simp add: resolver_inv_def finishGet_def Let_def lru_set_ok)
  next
    case False
    then have "fst (finishGet m now c r (res S)) = (res S)\<lparr>negativeCache := AList.update c now (negativeCache (res S))\<rparr>"
      by (cases r) (auto simp: finishGet_def)
    then show ?thesis using i FinishGet by (simp add: resolver_inv_def)
  qed
next
  case (GetCached c)
  assume "resolver_inv S"
  then show ?thesis using GetCached lru_get_keeps [of "rlru (res S)" c]
    by (cases "lru_get c (rlru (res S))") (simp add: resolver_inv_def getCached_def)
qed (auto simp: resolver_inv_def)

lemma resolver_inv_start: "no_empty stored \<Longrightarrow> resolver_inv (resolver_start stored)"
  using lru_inv_create
  by (auto simp: resolver_inv_def resolver_start_def createDocBlockResolver_def lru_ok_def no_empty_def lru_contents_def
      createLruCache_def)

lemma no_empty_none [simp]: "no_empty (\<lambda>_. None)"
  by (simp add: no_empty_def)

interpretation resolver_machine: inv_machine "resolver_start (\<lambda>_. None)" "rstep m" resolver_inv for m
  by unfold_locales (simp_all add: resolver_inv_start resolver_inv_step)

lemma resolver_inv_run: "no_empty stored \<Longrightarrow> resolver_inv (foldl (rstep m) (resolver_start stored) evs)"
  by (rule resolver_machine.inv_run_from) (rule resolver_inv_start)


lemma fetchBlock_waits:
  assumes "fst (fetchBlock N c retries baseMs) = Inl e" "0 \<le> baseMs"
  shows "sum_list (snd (fetchBlock N c retries baseMs)) \<le> baseMs * (2 ^ retries - 1)"
proof -
  have "sum_list (snd (bitswap_from N c retries baseMs i)) \<le> baseMs * (2 ^ retries - 2 ^ i)" if "i \<le> retries" for i
    using that
  proof (induction "retries - i" arbitrary: i)
    case 0
    then show ?case by (subst bitswap_from.simps) (auto split: sum.split)
  next
    case (Suc k)
    then have "sum_list (snd (bitswap_from N c retries baseMs (Suc i))) \<le> baseMs * (2 ^ retries - 2 ^ Suc i)"
      using Suc.hyps(1) [of "Suc i"] by simp
    moreover have "0 \<le> baseMs * (2 ^ retries - 2 ^ i)" using assms(2) Suc.prems by (simp add: power_increasing)
    ultimately show ?case using Suc by (subst bitswap_from.simps) (auto simp: algebra_simps split: sum.split prod.split)
  qed
  from this [of 0] show ?thesis using assms by (auto simp: fetchBlock_def split: option.splits)
qed

lemma tryHttp_verified: "tryHttp N c urls = Some b \<Longrightarrow> b \<noteq> [] \<and> verifiedCid N c b = c"
  by (induction N c urls rule: tryHttp.induct) (auto split: sum.splits if_splits)

text \<open>
  C15: What the resolver claims to have it delivers.  After any interleaving of stores, of their acknowledgements and
  failures, of hydration and of fetches, a block for which \<open>has\<close> answers yes is in the cache or acknowledged by
  the block store, and \<open>get\<close> returns it, whatever the network, as long as the block store answers for what it has
  acknowledged and no failed fetch of the block is younger than a minute.
\<close>

theorem resolver_delivers:
  assumes "no_empty stored" "S = foldl (rstep m) (resolver_start stored) evs" "resolver_has c (res S)"
  shows "(lru_contents (rlru (res S)) c \<noteq> None \<or> idb S c \<noteq> None) \<and>
    (heliaUp N \<longrightarrow> (\<forall>b. idb S c = Some b \<longrightarrow> offline N c = Ok b) \<longrightarrow>
     (\<forall>t. map_of (negativeCache (res S)) c = Some t \<longrightarrow> t + 60000 \<le> now) \<longrightarrow>
     (\<exists>b. snd (resolver_get m N now end_at c (res S)) = Some b \<and> b \<noteq> [] \<and>
        (lru_contents (rlru (res S)) c = Some b \<or> lru_contents (rlru (res S)) c = None \<and> idb S c = Some b)))"
proof (intro conjI impI)
  have i: "resolver_inv S" using resolver_inv_run [OF assms(1)] assms(2) by simp
  then show held: "lru_contents (rlru (res S)) c \<noteq> None \<or> idb S c \<noteq> None"
    using assms(3) by (auto simp: resolver_has_def lru_has_contents resolver_inv_def)
  assume up: "heliaUp N" and off: "\<forall>b. idb S c = Some b \<longrightarrow> offline N c = Ok b"
    and fresh: "\<forall>t. map_of (negativeCache (res S)) c = Some t \<longrightarrow> t + 60000 \<le> now"
  show "\<exists>b. snd (resolver_get m N now end_at c (res S)) = Some b \<and> b \<noteq> [] \<and>
      (lru_contents (rlru (res S)) c = Some b \<or> lru_contents (rlru (res S)) c = None \<and> idb S c = Some b)"
  proof (cases "lru_contents (rlru (res S)) c")
    case (Some b)
    then have "snd (resolver_get m N now end_at c (res S)) = Some b"
      using lru_get_has [of c "rlru (res S)"] by (cases "lru_get c (rlru (res S))") (simp add: resolver_get_def startGet_def)
    moreover have "b \<noteq> []" using i Some by (auto simp: resolver_inv_def lru_ok_def no_empty_def)
    ultimately show ?thesis using Some by simp
  next
    case None
    then obtain b where b: "idb S c = Some b" using held by auto
    have "b \<noteq> []" using i b by (auto simp: resolver_inv_def no_empty_def)
    moreover have "resolver_fetch N c = Ok b"
      using up off b \<open>b \<noteq> []\<close> by (simp add: resolver_fetch_def fetchBlock_def tryOffline_def)
    moreover have "snd (startGet now c (res S)) = MustFetch"
      using None fresh lru_get_has [of c "rlru (res S)"]
      by (cases "lru_get c (rlru (res S))") (auto simp: startGet_def NEGATIVE_CACHE_TTL_MS_def split: option.split)
    ultimately have "snd (resolver_get m N now end_at c (res S)) = Some b"
      by (cases "startGet now c (res S)") (simp add: resolver_get_def finishGet_def Let_def)
    then show ?thesis using b \<open>b \<noteq> []\<close> None by simp
  qed
qed


section \<open>The negative cache\<close>

text \<open>Nothing in a minute after \<open>t\<close> supplies the block: gets of it start in that time and end with a miss.\<close>

fun no_supply :: "int \<Rightarrow> cid \<Rightarrow> revent \<Rightarrow> bool" where
  "no_supply t c (StartGet t' c') = (c' = c \<longrightarrow> t' < t + NEGATIVE_CACHE_TTL_MS)"
| "no_supply t c (FinishGet t' c' r) = (c' = c \<longrightarrow> t \<le> t' \<and> (case r of Inr b \<Rightarrow> b = [] | Inl _ \<Rightarrow> True))"
| "no_supply t c _ = True"

definition missed_since :: "int \<Rightarrow> cid \<Rightarrow> resolver \<Rightarrow> bool" where
  "missed_since t c s \<longleftrightarrow> (\<exists>t0 \<ge> t. map_of (negativeCache s) c = Some t0)"

lemma missed_startGet:
  assumes "missed_since t c s" "c' = c \<longrightarrow> t' < t + NEGATIVE_CACHE_TTL_MS"
  shows "missed_since t c (fst (startGet t' c' s))"
proof (cases "c' = c")
  case True
  obtain t0 where "t \<le> t0" "map_of (negativeCache s) c = Some t0" using assms(1) by (auto simp: missed_since_def)
  moreover from this have "t' - t0 < NEGATIVE_CACHE_TTL_MS" using assms(2) True by simp
  ultimately show ?thesis using True assms(1)
    by (auto simp: startGet_def missed_since_def split: prod.split option.split)
next
  case False
  then show ?thesis using assms(1)
    by (auto simp: startGet_def missed_since_def delete_conv' split: prod.split option.split)
qed

lemma missed_finishGet:
  assumes "missed_since t c s" "no_supply t c (FinishGet t' c' r)"
  shows "missed_since t c (fst (finishGet m t' c' r s))"
proof (cases "\<exists>b. r = Inr b \<and> b \<noteq> []")
  case True
  then obtain b where "r = Inr b" "b \<noteq> []" by blast
  then show ?thesis using assms by (auto simp: finishGet_def Let_def missed_since_def delete_conv')
next
  case False
  then have "fst (finishGet m t' c' r s) = s\<lparr>negativeCache := AList.update c' t' (negativeCache s)\<rparr>"
    by (cases r) (auto simp: finishGet_def)
  then show ?thesis using assms by (auto simp: missed_since_def update_conv')
qed

lemma missed_step:
  assumes "missed_since t c (res S)" "no_supply t c ev"
  shows "missed_since t c (res (rstep m S ev))"
proof (cases ev)
  case (StartGet t' c')
  then show ?thesis using missed_startGet [OF assms(1)] assms(2) by simp
next
  case (FinishGet t' c' r)
  then show ?thesis using missed_finishGet [OF assms(1)] assms(2) by simp
qed (use assms(1) in \<open>auto simp: missed_since_def at_write_def resolver_put_def getCached_def split: prod.split\<close>)

lemma missed_run:
  "missed_since t c (res S) \<Longrightarrow> list_all (no_supply t c) evs \<Longrightarrow> missed_since t c (res (foldl (rstep m) S evs))"
  by (induction evs arbitrary: S) (simp_all add: missed_step)

lemma missed_now:
  assumes "missed_since t c s" "\<not> lru_has c (rlru s)" "now < t + NEGATIVE_CACHE_TTL_MS"
  shows "startGet now c s = (s, Missing)"
proof -
  obtain t0 where t0: "t \<le> t0" "map_of (negativeCache s) c = Some t0" using assms(1) by (auto simp: missed_since_def)
  moreover have "lru_get c (rlru s) = (rlru s, None)" using assms(2) by (simp add: lru_has_def lru_get_def)
  ultimately show ?thesis using assms(3) by (simp add: startGet_def)
qed

text \<open>
  A failed fetch hides the block for a minute, and that minute holds every retry of the interpreter.  Whatever
  happens after a fetch that failed at \<open>t\<close>, short of another fetch that succeeds, a \<open>get\<close> of the block before
  \<open>t\<close> plus a minute returns nothing without asking anyone, unless the block is in the cache: even when it has been stored
  and acknowledged meanwhile and \<open>has\<close> answers yes.  The delays of all retries together are shorter.
\<close>

theorem failed_fetch_defeats_retries:
  assumes "case r of Inr b \<Rightarrow> b = [] | Inl _ \<Rightarrow> True" "list_all (no_supply t c) evs"
    and "S' = foldl (rstep m) (rstep m S (FinishGet t c r)) evs" "\<not> lru_has c (rlru (res S'))"
    and "now < t + NEGATIVE_CACHE_TTL_MS"
  shows "resolver_get m N now end_at c (res S') = (res S', None)
    \<and> t + sum_list (map retry_delay [1..MAX_INTERPRETER_RETRIES - 1]) < t + NEGATIVE_CACHE_TTL_MS"
proof
  have "missed_since t c (res (rstep m S (FinishGet t c r)))"
    using assms(1) by (cases r) (auto simp: finishGet_def missed_since_def Let_def update_conv')
  then have "missed_since t c (res S')" using assms(2,3) by (simp add: missed_run)
  from missed_now [OF this assms(4,5)] show "resolver_get m N now end_at c (res S') = (res S', None)"
    by (simp add: resolver_get_def)
  show "t + sum_list (map retry_delay [1..MAX_INTERPRETER_RETRIES - 1]) < t + NEGATIVE_CACHE_TTL_MS"
    by (simp add: MAX_INTERPRETER_RETRIES_def retry_delay_def RETRY_BASE_MS_def NEGATIVE_CACHE_TTL_MS_def upto.simps)
qed


definition sample_stores :: "revent list" where
  "sample_stores = [Put PutStarted ''c'' [1, 2], PutDone 0, Put PutStarted ''d'' [3, 4]]"

definition sample_net :: net where
  "sample_net = \<lparr>heliaUp = True, offline = (\<lambda>c. if c = ''c'' then Ok [1, 2] else Throw ''not found''),
     httpGet = (\<lambda>_ _. Throw ''offline''), verifiedCid = (\<lambda>c _. c), bitswap = (\<lambda>_ _. Throw ''offline''), httpUrls = []\<rparr>"

lemmas run_simps = sample_stores_def resolver_put_def persistToIdb_def remember_def lru_set_def touch_def at_write_def
  persist_ok_def finishGet_def evictToFit.simps Let_def

text \<open>Two stores in a cache of two bytes: the second one evicts the first, which the block store has.\<close>

lemma sample_system:
  assumes "rlru (res S) = createLruCache" "writes S = []"
  shows "lru_contents (rlru (res (foldl (rstep 2) S sample_stores))) ''c'' = None"
    and "idb (foldl (rstep 2) S sample_stores) ''c'' = Some [1, 2]"
    and "''c'' \<in> knownCids (res (foldl (rstep 2) S sample_stores))"
    and "negativeCache (res (foldl (rstep 2) S sample_stores)) = negativeCache (res S)"
  using assms by (simp_all add: run_simps createLruCache_def lru_contents_def)

theorem resolver_delivers_witness:
  "snd (resolver_get 2 sample_net 0 0 ''c'' (res (foldl (rstep 2) (resolver_start (\<lambda>_. None)) sample_stores))) = Some [1, 2]"
proof -
  let ?S = "foldl (rstep 2) (resolver_start (\<lambda>_. None)) sample_stores"
  have s: "lru_contents (rlru (res ?S)) ''c'' = None" "idb ?S ''c'' = Some [1, 2]" "''c'' \<in> knownCids (res ?S)"
    "negativeCache (res ?S) = []"
    using sample_system [of "resolver_start (\<lambda>_. None)"] by (simp_all add: resolver_start_def createDocBlockResolver_def)
  have "resolver_has ''c'' (res ?S)" using s(3) by (simp add: resolver_has_def)
  then show ?thesis
    using resolver_delivers [OF no_empty_none refl, where m = 2 and evs = sample_stores and c = "''c''" and N = sample_net
        and now = 0 and end_at = 0] s(1,2,4)
    by (auto simp: sample_net_def)
qed

theorem failed_fetch_defeats_retries_witness:
  "let S' = foldl (rstep 2) (rstep 2 (resolver_start (\<lambda>_. None)) (FinishGet 0 ''c'' (Throw ''offline''))) sample_stores in
   resolver_has ''c'' (res S') \<and> snd (resolver_get 2 sample_net 10000 10000 ''c'' (res S')) = None"
proof -
  let ?S0 = "rstep 2 (resolver_start (\<lambda>_. None)) (FinishGet 0 ''c'' (Throw ''offline''))"
  let ?S = "foldl (rstep 2) ?S0 sample_stores"
  have "lru_contents (rlru (res ?S)) ''c'' = None" "''c'' \<in> knownCids (res ?S)"
    by (rule sample_system; simp add: resolver_start_def createDocBlockResolver_def finishGet_def)+
  then have s: "\<not> lru_has ''c'' (rlru (res ?S))" "resolver_has ''c'' (res ?S)"
    by (simp_all add: lru_has_contents resolver_has_def)
  have "resolver_get 2 sample_net 10000 10000 ''c'' (res ?S) = (res ?S, None)"
    using failed_fetch_defeats_retries [OF _ _ refl s(1), where now = 10000 and N = sample_net and end_at = 10000]
    by (simp add: sample_stores_def NEGATIVE_CACHE_TTL_MS_def)
  then show ?thesis using s(2) by (simp add: Let_def)
qed

section \<open>Two sets that overlap\<close>

text \<open>
  The module says \<^verbatim>\<open>knownCids\<close> and \<^verbatim>\<open>memoryOnlyCids\<close> are disjoint.  A write that fails before the hydration reaches its
  block, stored in an earlier session, puts the block in both.
\<close>

lemma known_and_memory_only:
  "let S = foldl (rstep 10) (resolver_start [''c'' \<mapsto> [1]]) [Put PutStarted ''c'' [1], PutFailed 0, Hydrate ''c''] in
   ''c'' \<in> knownCids (res S) \<inter> memoryOnlyCids (res S)"
  by (simp add: run_simps resolver_start_def createDocBlockResolver_def createLruCache_def persist_failed_def)

text \<open>A write that fails after its block has left the cache leaves the block in \<^verbatim>\<open>memoryOnlyCids\<close>, in no store at all.\<close>

lemma memory_only_nowhere:
  "let S = foldl (rstep 1) (resolver_start (\<lambda>_. None)) [Put PutStarted ''c'' [1], Put PutStarted ''d'' [2], PutFailed 0] in
   ''c'' \<in> memoryOnlyCids (res S) \<and> \<not> lru_has ''c'' (rlru (res S)) \<and> idb S ''c'' = None"
  by (simp add: run_simps resolver_start_def createDocBlockResolver_def createLruCache_def persist_failed_def lru_has_def)

end
