(* ===== verification/Capability_Url.thy ===== *)
theory Capability_Url
  imports Prelude "HOL-Library.List_Lexorder"
begin

text \<open>
  Capabilities as they travel in the fragment of a URL: the credential and what it permits
  (\<open>packages/document/src/capability/capability.ts\<close>), its encoding (\<open>packages/capability/src/index.ts\<close>) and base64url
  (\<open>packages/crypto/src/index.ts\<close>).  Text that may hold any character is a list of code points; URLs and fragments
  are strings.  Of the platform \<^verbatim>\<open>TextEncoder\<close>, \<^verbatim>\<open>TextDecoder\<close>, \<^verbatim>\<open>btoa\<close> and \<^verbatim>\<open>atob\<close> are modelled as their
  standards define them; the import of a key is a parameter, and a key is the bytes it exports.
\<close>

type_synonym utext = "nat list"

definition ascii :: "string \<Rightarrow> utext" where "ascii s = map of_char s"

section \<open>UTF-8\<close>

definition utf8_char :: "nat \<Rightarrow> nat list" where
  "utf8_char c =
     (if c < 128 then [c]
      else if c < 2048 then [192 + c div 64, 128 + c mod 64]
      else if c < 65536 then [224 + c div 4096, 128 + c div 64 mod 64, 128 + c mod 64]
      else [240 + c div 262144, 128 + c div 4096 mod 64, 128 + c div 64 mod 64, 128 + c mod 64])"

text \<open>A lone surrogate is encoded as the replacement character.\<close>

definition utf8_encode :: "utext \<Rightarrow> bytes" where
  "utf8_encode s = map of_nat (concat (map (\<lambda>c. utf8_char (if 55296 \<le> c \<and> c < 57344 then 65533 else c)) s))"

text \<open>The state of the decoder: bytes still needed, the range of the next one, and the code point so far.\<close>

type_synonym utf8_state = "(nat \<times> nat \<times> nat \<times> nat) option"

fun utf8_lead :: "nat \<Rightarrow> utf8_state \<times> utext" where
  "utf8_lead b =
     (if b < 128 then (None, [b])
      else if 194 \<le> b \<and> b \<le> 223 then (Some (1, 128, 191, b - 192), [])
      else if 224 \<le> b \<and> b \<le> 239 then
        (Some (2, if b = 224 then 160 else 128, if b = 237 then 159 else 191, b - 224), [])
      else if 240 \<le> b \<and> b \<le> 244 then
        (Some (3, if b = 240 then 144 else 128, if b = 244 then 143 else 191, b - 240), [])
      else (None, [65533]))"

definition utf8_step :: "utf8_state \<Rightarrow> nat \<Rightarrow> utf8_state \<times> utext" where
  "utf8_step st b = (case st of
      None \<Rightarrow> utf8_lead b
    | Some (n, lo, hi, acc) \<Rightarrow>
        if lo \<le> b \<and> b \<le> hi then
          (if n = 1 then (None, [acc * 64 + (b - 128)]) else (Some (n - 1, 128, 191, acc * 64 + (b - 128)), []))
        else (let (st', out) = utf8_lead b in (st', 65533 # out)))"

fun utf8_run :: "utf8_state \<Rightarrow> bytes \<Rightarrow> utext" where
  "utf8_run st [] = (if st = None then [] else [65533])"
| "utf8_run st (b # bs) = (let (st', out) = utf8_step st (unat b) in out @ utf8_run st' bs)"

text \<open>A byte order mark at the start is dropped.\<close>

definition utf8_decode :: "bytes \<Rightarrow> utext" where
  "utf8_decode bs = (case utf8_run None bs of [] \<Rightarrow> [] | c # cs \<Rightarrow> if c = 65279 then cs else c # cs)"

definition scalar :: "nat \<Rightarrow> bool" where
  "scalar c \<longleftrightarrow> c < 1114112 \<and> \<not> (55296 \<le> c \<and> c < 57344)"

text \<open>The order of JavaScript strings compares UTF-16 code units.\<close>

definition utf16 :: "utext \<Rightarrow> nat list" where
  "utf16 s = concat (map (\<lambda>c. if c < 65536 then [c] else [55296 + (c - 65536) div 1024, 56320 + (c - 65536) mod 1024]) s)"

section \<open>Base 64\<close>

definition b64_alphabet :: string where
  "b64_alphabet = ''ABCDEFGHIJKLMNOPQRSTUVWXYZabcdefghijklmnopqrstuvwxyz0123456789+/''"

definition b64_char :: "nat \<Rightarrow> char" where
  "b64_char n = b64_alphabet ! n"

definition b64_val :: "char \<Rightarrow> nat option" where
  "b64_val c = (if c \<in> set b64_alphabet then Some (length (takeWhile (\<lambda>x. x \<noteq> c) b64_alphabet)) else None)"

fun btoa :: "bytes \<Rightarrow> string" where
  "btoa [] = []"
| "btoa [a] = [b64_char (unat a div 4), b64_char (unat a mod 4 * 16), CHR ''='', CHR ''='']"
| "btoa [a, b] = [b64_char (unat a div 4), b64_char (unat a mod 4 * 16 + unat b div 16), b64_char (unat b mod 16 * 4), CHR ''='']"
| "btoa (a # b # c # r) =
     [b64_char (unat a div 4), b64_char (unat a mod 4 * 16 + unat b div 16),
      b64_char (unat b mod 16 * 4 + unat c div 64), b64_char (unat c mod 64)] @ btoa r"

fun from_sextets :: "nat list \<Rightarrow> bytes" where
  "from_sextets (a # b # c # d # r) =
     [of_nat (a * 4 + b div 16), of_nat (b mod 16 * 16 + c div 4), of_nat (c mod 4 * 64 + d)] @ from_sextets r"
| "from_sextets [a, b, c] = [of_nat (a * 4 + b div 16), of_nat (b mod 16 * 16 + c div 4)]"
| "from_sextets [a, b] = [of_nat (a * 4 + b div 16)]"
| "from_sextets _ = []"

definition b64_space :: "char \<Rightarrow> bool" where
  "b64_space c \<longleftrightarrow> c \<in> set [CHR 0x09, CHR 0x0A, CHR 0x0C, CHR 0x0D, CHR 0x20]"

definition drop_pad :: "string \<Rightarrow> string" where
  "drop_pad s = (if s \<noteq> [] \<and> last s = CHR ''='' then butlast s else s)"

definition atob :: "string \<Rightarrow> bytes result" where
  "atob s =
     (let s1 = filter (\<lambda>c. \<not> b64_space c) s;
          s2 = (if length s1 mod 4 = 0 then drop_pad (drop_pad s1) else s1)
      in if length s2 mod 4 = 1 then Throw ''InvalidCharacterError''
         else if \<exists>c \<in> set s2. b64_val c = None then Throw ''InvalidCharacterError''
         else Ok (from_sextets (map (\<lambda>c. the (b64_val c)) s2)))"

definition url_char :: "char \<Rightarrow> char" where
  "url_char c = (if c = CHR ''+'' then CHR ''-'' else if c = CHR ''/'' then CHR ''_'' else c)"

definition std_char :: "char \<Rightarrow> char" where
  "std_char c = (if c = CHR ''-'' then CHR ''+'' else if c = CHR ''_'' then CHR ''/'' else c)"

definition base64urlEncode :: "bytes \<Rightarrow> string" where
  "base64urlEncode bs = rev (dropWhile (\<lambda>c. c = CHR ''='') (rev (map url_char (btoa bs))))"

definition base64urlDecode :: "string \<Rightarrow> bytes result" where
  "base64urlDecode s = atob (map std_char (s @ replicate ((4 - length s mod 4) mod 4) (CHR ''='')))"

section \<open>Credentials and capabilities\<close>

text \<open>
  A record of channel keys is an object of JavaScript: \<^verbatim>\<open>in\<close> and reading also see what every object inherits, and
  setting \<^verbatim>\<open>__proto__\<close> makes no entry.  An inherited function stands for the bytes it is copied as: as many
  zeros as it has parameters.
\<close>

type_synonym obj = "(utext, bytes) omap"

definition inherited :: "(utext \<times> nat) list" where
  "inherited = map (\<lambda>(s, n). (ascii s, n))
     [(''constructor'', 1), (''hasOwnProperty'', 1), (''isPrototypeOf'', 1), (''propertyIsEnumerable'', 1),
      (''toLocaleString'', 0), (''toString'', 0), (''valueOf'', 0), (''__defineGetter__'', 2), (''__defineSetter__'', 2),
      (''__lookupGetter__'', 1), (''__lookupSetter__'', 1), (''__proto__'', 0)]"

definition obj_in :: "utext \<Rightarrow> obj \<Rightarrow> bool" where
  "obj_in k ob \<longleftrightarrow> map_of ob k \<noteq> None \<or> map_of inherited k \<noteq> None"

definition obj_get :: "obj \<Rightarrow> utext \<Rightarrow> bytes" where
  "obj_get ob k = (case map_of ob k of
      Some v \<Rightarrow> v | None \<Rightarrow> (case map_of inherited k of Some n \<Rightarrow> replicate n 0 | None \<Rightarrow> []))"

definition obj_set :: "utext \<Rightarrow> bytes \<Rightarrow> obj \<Rightarrow> obj" where
  "obj_set k v ob = (if k = ascii ''__proto__'' then ob else AList.update k v ob)"

record credential =
  readKey :: "bytes option"
  ipnsKeyBytes :: "bytes option"
  rotationKey :: "bytes option"
  awarenessRoomPassword :: "utext option"
  channelKeys :: "obj option"

definition no_keys :: credential where
  "no_keys = \<lparr>readKey = None, ipnsKeyBytes = None, rotationKey = None, awarenessRoomPassword = None, channelKeys = None\<rparr>"

record capability =
  channels :: "utext set"
  canPushSnapshots :: bool
  isAdmin :: bool

record grant =
  gchannels :: "utext list option"
  gcanPush :: bool

definition infer :: "credential \<Rightarrow> utext list \<Rightarrow> capability" where
  "infer K chans =
     \<lparr>channels = (case channelKeys K of None \<Rightarrow> {} | Some ob \<Rightarrow> set (filter (\<lambda>ch. obj_in ch ob) chans)),
      canPushSnapshots = (ipnsKeyBytes K \<noteq> None), isAdmin = (rotationKey K \<noteq> None)\<rparr>"

definition truthy :: "utext option \<Rightarrow> utext option" where
  "truthy p = (if p = Some [] then None else p)"

definition narrow :: "credential \<Rightarrow> grant \<Rightarrow> credential result" where
  "narrow K g =
     (let r = no_keys\<lparr>readKey := readKey K, awarenessRoomPassword := truthy (awarenessRoomPassword K),
                ipnsKeyBytes := (if gcanPush g then ipnsKeyBytes K else None)\<rparr>
      in case gchannels g of
           None \<Rightarrow> Ok (r\<lparr>channelKeys := channelKeys K\<rparr>)
         | Some [] \<Rightarrow> Ok r
         | Some chs \<Rightarrow>
             (case channelKeys K of
                None \<Rightarrow> Throw ''Capability.narrow: grant requests channels not in source keys''
              | Some ob \<Rightarrow>
                  if filter (\<lambda>ch. \<not> obj_in ch ob) chs \<noteq> [] then
                    Throw ''Capability.narrow: grant requests channels not in source keys''
                  else Ok (r\<lparr>channelKeys := Some (foldl (\<lambda>n ch. obj_set ch (obj_get ob ch) n) [] chs)\<rparr>)))"

section \<open>The fragment\<close>

definition VERSION :: "8 word" where "VERSION = 0"

definition label_channel :: "utext \<Rightarrow> utext" where "label_channel name = ascii ''n:'' @ name"

definition fragment_entries :: "credential \<Rightarrow> (utext \<times> bytes) list" where
  "fragment_entries K =
     sort_key (\<lambda>e. utf16 (fst e))
       ((case readKey K of Some k \<Rightarrow> [(ascii ''r'', k)] | None \<Rightarrow> [])
        @ (case ipnsKeyBytes K of Some k \<Rightarrow> [(ascii ''i'', k)] | None \<Rightarrow> [])
        @ (case rotationKey K of Some k \<Rightarrow> [(ascii ''k'', k)] | None \<Rightarrow> [])
        @ (case truthy (awarenessRoomPassword K) of Some p \<Rightarrow> [(ascii ''a'', utf8_encode p)] | None \<Rightarrow> [])
        @ (case channelKeys K of Some ob \<Rightarrow> map (\<lambda>(name, k). (label_channel name, k)) ob | None \<Rightarrow> []))"

definition entry_bytes :: "utext \<times> bytes \<Rightarrow> bytes result" where
  "entry_bytes e =
     (let lb = utf8_encode (fst e) in
      if 255 < length lb then Throw ''Label too long''
      else if 255 < length (snd e) then Throw ''Value too long for label''
      else Ok (of_nat (length lb) # lb @ of_nat (length (snd e)) # snd e))"

definition encodeFragment :: "credential \<Rightarrow> string result" where
  "encodeFragment K =
     and_then (concat_res entry_bytes (fragment_entries K)) (\<lambda>bs. Ok (base64urlEncode (VERSION # bs)))"

definition decode_entry :: "(bytes \<Rightarrow> bytes result) \<Rightarrow> credential \<times> obj \<Rightarrow> utext \<times> bytes \<Rightarrow> (credential \<times> obj) result" where
  "decode_entry importKey s e = (case (s, e) of ((K, chans), (lbl, v)) \<Rightarrow>
     if lbl = ascii ''r'' then and_then (importKey v) (\<lambda>k. Ok (K\<lparr>readKey := Some k\<rparr>, chans))
     else if lbl = ascii ''i'' then Ok (K\<lparr>ipnsKeyBytes := Some v\<rparr>, chans)
     else if lbl = ascii ''k'' then Ok (K\<lparr>rotationKey := Some v\<rparr>, chans)
     else if lbl = ascii ''a'' then Ok (K\<lparr>awarenessRoomPassword := Some (utf8_decode v)\<rparr>, chans)
     else if take 2 lbl = ascii ''n:'' then Ok (K, obj_set (drop 2 lbl) v chans)
     else Ok (K, chans))"

text \<open>The loop on what is left of the buffer; the check for a missing label length cannot fail.\<close>

function decode_from :: "(bytes \<Rightarrow> bytes result) \<Rightarrow> credential \<times> obj \<Rightarrow> bytes \<Rightarrow> (credential \<times> obj) result" where
  "decode_from importKey s [] = Ok s"
| "decode_from importKey s (n # r) =
     (if length r < unat n then Throw ''Truncated capability fragment: label''
      else case drop (unat n) r of
        [] \<Rightarrow> Throw ''Truncated capability fragment: missing value length''
      | vn # r1 \<Rightarrow>
          if length r1 < unat vn then Throw ''Truncated capability fragment: value''
          else and_then (decode_entry importKey s (utf8_decode (take (unat n) r), take (unat vn) r1))
                 (\<lambda>s1. decode_from importKey s1 (drop (unat vn) r1)))"
  by pat_completeness auto
termination
proof (relation "measure (\<lambda>(_, _, r). length r)", simp)
  have "length (drop n r) \<le> length r" for n and r :: bytes by simp
  then have "length r1 < length r" if "drop n r = vn # r1" for n vn r1 and r :: bytes
    using that by (metis Suc_le_lessD length_Cons)
  then show "((importKey, s1, drop (unat vn) r1), importKey, s, n # r) \<in> measure (\<lambda>(_, _, r). length r)"
    if "drop (unat n) r = vn # r1" for importKey :: "bytes \<Rightarrow> bytes result" and s s1 :: "credential \<times> obj" and n vn :: "8 word" and r r1
    using that by (simp add: less_Suc_eq le_less_trans [OF diff_le_self])
qed

definition decodeFragment :: "(bytes \<Rightarrow> bytes result) \<Rightarrow> string \<Rightarrow> credential result" where
  "decodeFragment importKey fragment =
     and_then (base64urlDecode fragment) (\<lambda>buf.
       case buf of
         [] \<Rightarrow> Throw ''Fragment too short''
       | v # r \<Rightarrow>
           if v \<noteq> VERSION then Throw ''Unknown fragment version''
           else and_then (decode_from importKey (no_keys, []) r) (\<lambda>(K, chans).
                  Ok (if chans \<noteq> [] then K\<lparr>channelKeys := Some chans\<rparr> else K)))"

section \<open>The URL\<close>

record parsedUrl =
  base :: string
  ipnsName :: string
  keys :: credential

definition trim_slash :: "string \<Rightarrow> string" where
  "trim_slash b = (if b \<noteq> [] \<and> last b = CHR ''/'' then butlast b else b)"

definition buildUrl :: "string \<Rightarrow> string \<Rightarrow> credential \<Rightarrow> string result" where
  "buildUrl b name K =
     and_then (encodeFragment K) (\<lambda>fragment.
       Ok (trim_slash b @ ''/doc/'' @ name @ ''#'' @ fragment))"

text \<open>\<^verbatim>\<open>indexOf\<close>: the first position at which the word begins.\<close>

fun indexOf :: "string \<Rightarrow> string \<Rightarrow> nat option" where
  "indexOf w [] = (if w = [] then Some 0 else None)"
| "indexOf w (c # s) = (if take (length w) (c # s) = w then Some 0 else map_option Suc (indexOf w s))"

definition parseUrl :: "(bytes \<Rightarrow> bytes result) \<Rightarrow> string \<Rightarrow> parsedUrl result" where
  "parseUrl importKey url =
     (case indexOf ''#'' url of
        None \<Rightarrow> Throw ''URL has no fragment''
      | Some h \<Rightarrow>
          (case indexOf ''/doc/'' (take h url) of
             None \<Rightarrow> Throw ''URL missing /doc/ path segment''
           | Some d \<Rightarrow>
               (let afterDoc = drop (d + 5) (take h url);
                    name = (case indexOf ''?'' afterDoc of None \<Rightarrow> afterDoc | Some q \<Rightarrow> take q afterDoc)
                in and_then (decodeFragment importKey (drop (h + 1) url)) (\<lambda>K.
                     Ok \<lparr>base = take d (take h url), ipnsName = name, keys = K\<rparr>))))"


section \<open>Base 64 comes back\<close>

fun sextets :: "bytes \<Rightarrow> nat list" where
  "sextets [] = []"
| "sextets [a] = [unat a div 4, unat a mod 4 * 16]"
| "sextets [a, b] = [unat a div 4, unat a mod 4 * 16 + unat b div 16, unat b mod 16 * 4]"
| "sextets (a # b # c # r) =
     [unat a div 4, unat a mod 4 * 16 + unat b div 16, unat b mod 16 * 4 + unat c div 64, unat c mod 64] @ sextets r"

lemma byte_lt: "unat (a :: 8 word) < 256"
  using unsigned_less [of a] by simp

lemma of_nat_byte: "unat (a :: 8 word) = n \<Longrightarrow> of_nat n = a"
  by auto

lemma sextets_lt: "n \<in> set (sextets bs) \<Longrightarrow> n < 64"
proof (induction bs rule: sextets.induct)
  case (2 a)
  then show ?case using byte_lt [of a] by auto
next
  case (3 a b)
  then show ?case using byte_lt [of a] byte_lt [of b] by auto
next
  case (4 a b c r)
  then show ?case using byte_lt [of a] byte_lt [of b] byte_lt [of c] by auto
qed simp

lemma from_sextets: "from_sextets (sextets bs) = bs"
proof (induction bs rule: sextets.induct)
  case (2 a)
  have "unat a div 4 * 4 + unat a mod 4 * 16 div 16 = unat a" by simp
  then show ?case using byte_lt [of a] by (simp add: of_nat_byte)
next
  case (3 a b)
  have "unat a div 4 * 4 + (unat a mod 4 * 16 + unat b div 16) div 16 = unat a"
    "(unat a mod 4 * 16 + unat b div 16) mod 16 * 16 + unat b mod 16 * 4 div 4 = unat b"
    using byte_lt [of b] by simp_all
  then show ?case by (simp add: of_nat_byte)
next
  case (4 a b c r)
  have "unat a div 4 * 4 + (unat a mod 4 * 16 + unat b div 16) div 16 = unat a"
    "(unat a mod 4 * 16 + unat b div 16) mod 16 * 16 + (unat b mod 16 * 4 + unat c div 64) div 4 = unat b"
    "(unat b mod 16 * 4 + unat c div 64) mod 4 * 64 + unat c mod 64 = unat c"
    using byte_lt [of b] byte_lt [of c] by simp_all
  then show ?case using 4 by (simp add: of_nat_byte)
qed simp

lemma length_sextets: "length (sextets bs) mod 4 \<noteq> 1"
  by (induction bs rule: sextets.induct) simp_all

lemma btoa_sextets:
  "btoa bs = map b64_char (sextets bs) @ replicate ((4 - length (sextets bs) mod 4) mod 4) (CHR ''='')"
  by (induction bs rule: sextets.induct) (simp_all add: numeral_2_eq_2)

lemma takeWhile_nth:
  assumes "distinct xs" "n < length xs"
  shows "length (takeWhile (\<lambda>x. x \<noteq> xs ! n) xs) = n"
  using assms
proof (induction xs arbitrary: n)
  case (Cons x xs)
  then show ?case by (cases n) auto
qed simp

lemma alphabet_chars:
  "list_all (\<lambda>c. c \<noteq> CHR ''='' \<and> \<not> b64_space c \<and> std_char (url_char c) = c \<and> url_char c \<noteq> CHR ''='') b64_alphabet"
  by (simp add: b64_alphabet_def b64_space_def std_char_def url_char_def)

lemma alphabet_distinct: "distinct b64_alphabet \<and> length b64_alphabet = 64"
  by (simp add: b64_alphabet_def)

lemma b64_chars:
  assumes "n < 64"
  shows "b64_val (b64_char n) = Some n \<and> b64_char n \<noteq> CHR ''='' \<and> \<not> b64_space (b64_char n) \<and>
    std_char (url_char (b64_char n)) = b64_char n \<and> url_char (b64_char n) \<noteq> CHR ''=''"
proof -
  have "b64_char n \<in> set b64_alphabet" using assms alphabet_distinct by (simp add: b64_char_def)
  moreover have "length (takeWhile (\<lambda>x. x \<noteq> b64_char n) b64_alphabet) = n"
    using assms alphabet_distinct takeWhile_nth [of b64_alphabet n] by (simp add: b64_char_def)
  ultimately show ?thesis using alphabet_chars by (simp add: b64_val_def list_all_iff)
qed

lemma dropWhile_pad: "P x \<Longrightarrow> (\<And>y. y \<in> set ys \<Longrightarrow> \<not> P y) \<Longrightarrow> dropWhile P (replicate k x @ ys) = ys"
  by (induction k) (cases ys; simp)+

lemma urlEncode_sextets: "base64urlEncode bs = map (\<lambda>n. url_char (b64_char n)) (sextets bs)"
proof -
  have "url_char (CHR ''='') = CHR ''=''" by (simp add: url_char_def)
  then have "rev (map url_char (btoa bs)) =
      replicate ((4 - length (sextets bs) mod 4) mod 4) (CHR ''='') @ rev (map (\<lambda>n. url_char (b64_char n)) (sextets bs))"
    by (simp add: btoa_sextets rev_map)
  moreover have "c \<noteq> CHR ''=''" if "c \<in> set (rev (map (\<lambda>n. url_char (b64_char n)) (sextets bs)))" for c
    using that b64_chars sextets_lt by auto
  ultimately show ?thesis unfolding base64urlEncode_def
    using dropWhile_pad [where P = "\<lambda>c. c = CHR ''=''" and x = "CHR ''=''"
        and ys = "rev (map (\<lambda>n. url_char (b64_char n)) (sextets bs))"] by (metis rev_rev_ident)
qed

lemma drop_pad_none: "\<forall>c \<in> set s. c \<noteq> CHR ''='' \<Longrightarrow> drop_pad s = s"
  using last_in_set by (fastforce simp: drop_pad_def)

lemma pad_arith:
  fixes l :: nat
  shows "(l + (4 - l mod 4) mod 4) mod 4 = 0"
    and "l mod 4 \<noteq> 1 \<Longrightarrow> (4 - l mod 4) mod 4 = 0 \<or> (4 - l mod 4) mod 4 = 1 \<or> (4 - l mod 4) mod 4 = 2"
proof -
  have r: "l mod 4 = 0 \<or> l mod 4 = 1 \<or> l mod 4 = 2 \<or> l mod 4 = 3" by linarith
  show "(l + (4 - l mod 4) mod 4) mod 4 = 0" using r by (elim disjE; simp; presburger)
  show "(4 - l mod 4) mod 4 = 0 \<or> (4 - l mod 4) mod 4 = 1 \<or> (4 - l mod 4) mod 4 = 2" if "l mod 4 \<noteq> 1"
    using r that by (elim disjE) simp_all
qed

lemma atob_btoa: "atob (btoa bs) = Ok bs"
proof -
  let ?n = "sextets bs" and ?k = "(4 - length (sextets bs) mod 4) mod 4"
  let ?s = "map b64_char ?n"
  have chars: "\<forall>c \<in> set ?s. c \<noteq> CHR ''='' \<and> \<not> b64_space c \<and> b64_val c \<noteq> None"
    using b64_chars sextets_lt by fastforce
  have sp: "filter (\<lambda>c. \<not> b64_space c) (?s @ replicate ?k (CHR ''='')) = ?s @ replicate ?k (CHR ''='')"
    using chars by (auto simp: filter_id_conv b64_space_def)
  have k: "?k = 0 \<or> ?k = 1 \<or> ?k = 2" and mod: "(length ?n + ?k) mod 4 = 0"
    by (rule pad_arith(2) [OF length_sextets], rule pad_arith(1))
  have "drop_pad (drop_pad (?s @ replicate ?k (CHR ''=''))) = ?s"
  proof -
    have p: "drop_pad (t @ [CHR ''='']) = t" for t by (simp add: drop_pad_def)
    have n: "drop_pad ?s = ?s" using chars by (intro drop_pad_none) blast
    have two: "drop_pad (drop_pad (?s @ [CHR ''='', CHR ''=''])) = ?s" using p [of "?s @ [CHR ''='']"] p [of ?s] by simp
    show ?thesis using k by (elim disjE) (simp_all add: n p two numeral_2_eq_2)
  qed
  moreover have "map (\<lambda>c. the (b64_val c)) ?s = ?n" using b64_chars sextets_lt by (simp add: map_idI)
  ultimately show ?thesis using chars length_sextets [of bs] mod
    unfolding btoa_sextets atob_def Let_def sp by (simp add: from_sextets)
qed

lemma base64url_roundtrip: "base64urlDecode (base64urlEncode bs) = Ok bs"
proof -
  let ?n = "sextets bs"
  have "std_char (CHR ''='') = CHR ''=''" by (simp add: std_char_def)
  moreover have "map std_char (map (\<lambda>n. url_char (b64_char n)) ?n) = map b64_char ?n"
    unfolding map_map by (rule map_cong [OF refl]) (simp add: b64_chars sextets_lt)
  ultimately have "map std_char (base64urlEncode bs @ replicate ((4 - length (base64urlEncode bs) mod 4) mod 4) (CHR ''='')) =
      btoa bs"
    by (simp only: urlEncode_sextets btoa_sextets map_append map_replicate length_map)
  then show ?thesis unfolding base64urlDecode_def by (simp add: atob_btoa)
qed


section \<open>UTF-8 comes back\<close>

lemma byte_of: "n < 256 \<Longrightarrow> unat (of_nat n :: 8 word) = n"
  by (simp add: unsigned_of_nat take_bit_nat_eq_self)

lemma split_sextets:
  fixes c :: nat
  shows "(c div 64) * 64 + c mod 64 = c" and "(c div 4096 * 64 + c div 64 mod 64) * 64 + c mod 64 = c"
    and "((c div 262144 * 64 + c div 4096 mod 64) * 64 + c div 64 mod 64) * 64 + c mod 64 = c"
proof -
  have 1: "c div 4096 = c div 64 div 64" "c div 262144 = c div 64 div 64 div 64" by (simp_all add: div_mult2_eq [symmetric])
  show "(c div 64) * 64 + c mod 64 = c" by (rule div_mult_mod_eq)
  show "(c div 4096 * 64 + c div 64 mod 64) * 64 + c mod 64 = c" unfolding 1 by (simp only: div_mult_mod_eq)
  show "((c div 262144 * 64 + c div 4096 mod 64) * 64 + c div 64 mod 64) * 64 + c mod 64 = c"
    unfolding 1 by (simp only: div_mult_mod_eq)
qed

lemma utf8_run_of_nat:
  "n < 256 \<Longrightarrow> utf8_run st (of_nat n # bs) = (let (st', out) = utf8_step st n in out @ utf8_run st' bs)"
  by (simp add: byte_of del: of_nat_add)

lemma utf8_two:
  assumes "b < 64" "2 \<le> a" "a < 32"
  shows "utf8_run None (of_nat (192 + a) # of_nat (128 + b) # bs) = (a * 64 + b) # utf8_run None bs"
  using assms by (simp add: utf8_run_of_nat utf8_step_def del: of_nat_add utf8_run.simps)

lemma utf8_three:
  assumes "a < 16" "b < 64" "d < 64" "a = 0 \<longrightarrow> 32 \<le> b" "a = 13 \<longrightarrow> b \<le> 31"
  shows "utf8_run None (of_nat (224 + a) # of_nat (128 + b) # of_nat (128 + d) # bs) =
    ((a * 64 + b) * 64 + d) # utf8_run None bs"
  using assms by (simp add: utf8_run_of_nat utf8_step_def del: of_nat_add utf8_run.simps)

lemma utf8_four:
  assumes "a < 5" "b < 64" "d < 64" "e < 64" "a = 0 \<longrightarrow> 16 \<le> b" "a = 4 \<longrightarrow> b \<le> 15"
  shows "utf8_run None (of_nat (240 + a) # of_nat (128 + b) # of_nat (128 + d) # of_nat (128 + e) # bs) =
    (((a * 64 + b) * 64 + d) * 64 + e) # utf8_run None bs"
  using assms by (simp add: utf8_run_of_nat utf8_step_def del: of_nat_add utf8_run.simps)

lemma bounds_three:
  fixes a b c d :: nat
  assumes "(a * 64 + b) * 64 + d = c" "b < 64" "d < 64" "2048 \<le> c" "c < 65536" "\<not> (55296 \<le> c \<and> c < 57344)"
  shows "a < 16 \<and> (a = 0 \<longrightarrow> 32 \<le> b) \<and> (a = 13 \<longrightarrow> b \<le> 31)"
proof -
  have "a * 4096 + b * 64 + d = c" using assms(1) by (simp add: add_mult_distrib)
  then show ?thesis using assms(2-) by auto
qed

lemma bounds_four:
  fixes a b c d e :: nat
  assumes "((a * 64 + b) * 64 + d) * 64 + e = c" "b < 64" "d < 64" "e < 64" "65536 \<le> c" "c < 1114112"
  shows "a < 5 \<and> (a = 0 \<longrightarrow> 16 \<le> b) \<and> (a = 4 \<longrightarrow> b \<le> 15)"
proof -
  have "a * 262144 + b * 4096 + d * 64 + e = c" using assms(1) by (simp add: add_mult_distrib)
  then show ?thesis using assms(2-) by auto
qed

lemma utf8_char_run:
  assumes "scalar c"
  shows "utf8_run None (map of_nat (utf8_char c) @ bs) = c # utf8_run None bs"
proof -
  let ?d = "c mod 64" and ?b = "c div 64 mod 64" and ?a = "c div 4096 mod 64"
  have lt: "?a < 64" "?b < 64" "?d < 64" by simp_all
  note s = split_sextets [of c]
  consider "c < 128" | "128 \<le> c" "c < 2048" | "2048 \<le> c" "c < 65536" | "65536 \<le> c" by linarith
  then show ?thesis
  proof cases
    case 1
    then show ?thesis by (simp add: utf8_char_def utf8_step_def byte_of)
  next
    case 2
    then have "2 \<le> c div 64" "c div 64 < 32" using s(1) lt by linarith+
    moreover have "utf8_char c = [192 + c div 64, 128 + c mod 64]" using 2 by (simp add: utf8_char_def)
    ultimately show ?thesis using utf8_two [OF lt(3), of "c div 64" bs] s(1) by (simp del: of_nat_add utf8_run.simps)
  next
    case 3
    then have "c div 4096 < 16 \<and> (c div 4096 = 0 \<longrightarrow> 32 \<le> ?b) \<and> (c div 4096 = 13 \<longrightarrow> ?b \<le> 31)"
      using s(2) lt assms unfolding scalar_def by (intro bounds_three [where c = c and d = ?d]) simp_all
    then show ?thesis using utf8_three [of "c div 4096" ?b ?d bs] lt 3 s(2) by (simp add: utf8_char_def del: of_nat_add utf8_run.simps)
  next
    case 4
    then have "c div 262144 < 5 \<and> (c div 262144 = 0 \<longrightarrow> 16 \<le> ?a) \<and> (c div 262144 = 4 \<longrightarrow> ?a \<le> 15)"
      using s(3) lt assms unfolding scalar_def by (intro bounds_four [where c = c and d = ?b and e = ?d]) simp_all
    then show ?thesis using utf8_four [of "c div 262144" ?a ?b ?d bs] lt 4 s(3) by (simp add: utf8_char_def del: of_nat_add utf8_run.simps)
  qed
qed

lemma utf8_encode_simps:
  "utf8_encode [] = []" "scalar c \<Longrightarrow> utf8_encode (c # s) = map of_nat (utf8_char c) @ utf8_encode s"
  by (auto simp: utf8_encode_def scalar_def)

lemma utf8_roundtrip:
  assumes "list_all scalar s" "take 1 s \<noteq> [65279]"
  shows "utf8_decode (utf8_encode s) = s"
proof -
  have "utf8_run None (utf8_encode s) = s"
    using assms(1) by (induction s) (simp_all add: utf8_encode_simps utf8_char_run)
  then show ?thesis using assms(2) by (auto simp: utf8_decode_def split: list.split)
qed


section \<open>The fragment comes back\<close>

definition name_ok :: "utext \<Rightarrow> bool" where
  "name_ok s \<longleftrightarrow> list_all scalar s \<and> s \<noteq> ascii ''__proto__''"

definition cred_ok :: "(bytes \<Rightarrow> bytes result) \<Rightarrow> credential \<Rightarrow> bool" where
  "cred_ok importKey K \<longleftrightarrow>
     (\<forall>k. readKey K = Some k \<longrightarrow> importKey k = Ok k) \<and>
     (\<forall>p. awarenessRoomPassword K = Some p \<longrightarrow> list_all scalar p \<and> take 1 p \<noteq> [65279]) \<and>
     (\<forall>ob. channelKeys K = Some ob \<longrightarrow> distinct (map fst ob) \<and> list_all (\<lambda>p. name_ok (fst p)) ob)"

text \<open>What a credential says, whatever the order of its channels.\<close>

definition channel_key :: "credential \<Rightarrow> utext \<Rightarrow> bytes option" where
  "channel_key K name = (case channelKeys K of Some ob \<Rightarrow> map_of ob name | None \<Rightarrow> None)"

definition same_credential :: "credential \<Rightarrow> credential \<Rightarrow> bool" where
  "same_credential K L \<longleftrightarrow> readKey K = readKey L \<and> ipnsKeyBytes K = ipnsKeyBytes L \<and> rotationKey K = rotationKey L \<and>
     truthy (awarenessRoomPassword K) = truthy (awarenessRoomPassword L) \<and> channel_key K = channel_key L"

definition label_ok :: "utext \<Rightarrow> bool" where
  "label_ok l \<longleftrightarrow> list_all scalar l \<and> take 1 l \<noteq> [65279]"

lemma decode_entries:
  assumes "concat_res entry_bytes es = Ok bs" "list_all (\<lambda>e. label_ok (fst e)) es"
  shows "decode_from importKey s bs = foldl_res (decode_entry importKey) s es"
  using assms
proof (induction es arbitrary: s bs)
  case (Cons e es)
  obtain l v where e: "e = (l, v)" by force
  obtain bs1 bs2 where b: "entry_bytes e = Ok bs1" "concat_res entry_bytes es = Ok bs2" "bs = bs1 @ bs2"
    using Cons.prems(1) by (auto simp: and_then_Ok_iff)
  let ?lb = "utf8_encode l"
  have len: "length ?lb \<le> 255" "length v \<le> 255" and bs1: "bs1 = of_nat (length ?lb) # ?lb @ of_nat (length v) # v"
    using b(1) by (auto simp: entry_bytes_def Let_def e split: if_splits)
  have l: "utf8_decode ?lb = l" using Cons.prems(2) by (simp add: e label_ok_def utf8_roundtrip)
  have IH: "decode_from importKey s1 bs2 = foldl_res (decode_entry importKey) s1 es" for s1
    using Cons.IH b(2) Cons.prems(2) by simp
  have "decode_from importKey s bs = and_then (decode_entry importKey s (l, v)) (\<lambda>s1. decode_from importKey s1 bs2)"
    using len by (simp add: b(3) bs1 byte_of l)
  then show ?case by (simp add: IH e)
qed simp

lemma ascii_labels [simp]:
  "ascii ''r'' = [114]" "ascii ''i'' = [105]" "ascii ''k'' = [107]" "ascii ''a'' = [97]" "ascii ''n:'' = [110, 58]"
  by (simp_all add: ascii_def)

definition over :: "'x option \<Rightarrow> 'x option \<Rightarrow> 'x option" where
  "over a b = (case a of Some x \<Rightarrow> Some x | None \<Rightarrow> b)"

lemma over_simps [simp]: "over None b = b" "over (Some x) b = Some x"
  by (simp_all add: over_def)

lemma label_cases: "take 2 l = [110, 58] \<longleftrightarrow> l = label_channel (drop 2 l)"
  by (cases l; cases "tl l") (auto simp: label_channel_def numeral_2_eq_2)

lemma decode_entry_simps:
  "decode_entry importKey (K, c) ([114], v) = and_then (importKey v) (\<lambda>k. Ok (K\<lparr>readKey := Some k\<rparr>, c))"
  "decode_entry importKey (K, c) ([105], v) = Ok (K\<lparr>ipnsKeyBytes := Some v\<rparr>, c)"
  "decode_entry importKey (K, c) ([107], v) = Ok (K\<lparr>rotationKey := Some v\<rparr>, c)"
  "decode_entry importKey (K, c) ([97], v) = Ok (K\<lparr>awarenessRoomPassword := Some (utf8_decode v)\<rparr>, c)"
  "decode_entry importKey (K, c) (110 # 58 # name, v) = Ok (K, obj_set name v c)"
  "l \<noteq> [114] \<Longrightarrow> l \<noteq> [105] \<Longrightarrow> l \<noteq> [107] \<Longrightarrow> l \<noteq> [97] \<Longrightarrow> take 2 l \<noteq> [110, 58] \<Longrightarrow>
     decode_entry importKey (K, c) (l, v) = Ok (K, c)"
  by (simp_all add: decode_entry_def)

lemma decode_entries_fields:
  assumes "distinct (map fst es)" "\<forall>v. ([114], v) \<in> set es \<longrightarrow> importKey v = Ok v"
  shows "\<exists>L ch. foldl_res (decode_entry importKey) (K, c) es = Ok (L, ch) \<and>
    readKey L = over (map_of es [114]) (readKey K) \<and> ipnsKeyBytes L = over (map_of es [105]) (ipnsKeyBytes K) \<and>
    rotationKey L = over (map_of es [107]) (rotationKey K) \<and>
    awarenessRoomPassword L = over (map_option utf8_decode (map_of es [97])) (awarenessRoomPassword K) \<and>
    channelKeys L = channelKeys K \<and>
    (\<forall>name. map_of ch name =
       (if name = ascii ''__proto__'' then map_of c name else over (map_of es (label_channel name)) (map_of c name)))"
  using assms
proof (induction es arbitrary: K c)
  case (Cons e es)
  obtain l v where e: "e = (l, v)" by force
  have none: "map_of es l = None" using Cons.prems(1) by (simp add: e map_of_eq_None_iff)
  have prems: "distinct (map fst es)" "\<forall>v. ([114], v) \<in> set es \<longrightarrow> importKey v = Ok v" using Cons.prems by auto
  consider "l = [114]" | "l = [105]" | "l = [107]" | "l = [97]" | "take 2 l = [110, 58]"
    | "l \<noteq> [114]" "l \<noteq> [105]" "l \<noteq> [107]" "l \<noteq> [97]" "take 2 l \<noteq> [110, 58]" by blast
  then show ?case
  proof cases
    case 1
    then show ?thesis using Cons.IH [OF prems, of "K\<lparr>readKey := Some v\<rparr>" c] Cons.prems(2) none
      by (auto simp: e decode_entry_simps label_channel_def)
  next
    case 2
    then show ?thesis using Cons.IH [OF prems, of "K\<lparr>ipnsKeyBytes := Some v\<rparr>" c] none
      by (auto simp: e decode_entry_simps label_channel_def)
  next
    case 3
    then show ?thesis using Cons.IH [OF prems, of "K\<lparr>rotationKey := Some v\<rparr>" c] none
      by (auto simp: e decode_entry_simps label_channel_def)
  next
    case 4
    then show ?thesis using Cons.IH [OF prems, of "K\<lparr>awarenessRoomPassword := Some (utf8_decode v)\<rparr>" c] none
      by (auto simp: e decode_entry_simps label_channel_def)
  next
    case 5
    then obtain name where l: "l = label_channel name" unfolding label_cases by blast
    then show ?thesis using Cons.IH [OF prems, of K "obj_set name v c"] none
      by (auto simp: e decode_entry_simps label_channel_def obj_set_def update_conv')
  next
    case 6
    have nl: "l \<noteq> label_channel name" "label_channel name \<noteq> l" for name using 6(5) by (auto simp: label_channel_def)
    show ?thesis using Cons.IH [OF prems, of K c] 6 by (simp add: e decode_entry_simps nl split del: if_split cong: if_cong)
  qed
qed auto


lemma map_of_sorted: "distinct (map fst es) \<Longrightarrow> map_of (sort_key f es) = map_of es"
  by (subst map_of_inject_set) (simp_all add: distinct_map inj_on_def)

lemma map_of_channels: "map_of (map (\<lambda>(name, k). (label_channel name, k)) ob) (label_channel n) = map_of ob n"
  by (induction ob) (auto simp: label_channel_def)

lemma channel_labels: "fst ` set (map (\<lambda>(name, k). (label_channel name, k)) ob) = label_channel ` fst ` set ob"
  by force

lemma map_of_channels_none:
  "take 2 l \<noteq> [110, 58] \<Longrightarrow> map_of (map (\<lambda>(name, k). (label_channel name, k)) ob) l = None"
  by (induction ob) (auto simp: label_channel_def)

definition raw_entries :: "credential \<Rightarrow> (utext \<times> bytes) list" where
  "raw_entries K =
     (case readKey K of Some k \<Rightarrow> [([114], k)] | None \<Rightarrow> [])
     @ (case ipnsKeyBytes K of Some k \<Rightarrow> [([105], k)] | None \<Rightarrow> [])
     @ (case rotationKey K of Some k \<Rightarrow> [([107], k)] | None \<Rightarrow> [])
     @ (case truthy (awarenessRoomPassword K) of Some p \<Rightarrow> [([97], utf8_encode p)] | None \<Rightarrow> [])
     @ (case channelKeys K of Some ob \<Rightarrow> map (\<lambda>(name, k). (label_channel name, k)) ob | None \<Rightarrow> [])"

lemma fragment_entries_raw: "fragment_entries K = sort_key (\<lambda>e. utf16 (fst e)) (raw_entries K)"
  unfolding fragment_entries_def raw_entries_def ascii_labels ..

lemma raw_entries_map:
  "map_of (raw_entries K) [114] = readKey K" "map_of (raw_entries K) [105] = ipnsKeyBytes K"
  "map_of (raw_entries K) [107] = rotationKey K"
  "map_of (raw_entries K) [97] = map_option utf8_encode (truthy (awarenessRoomPassword K))"
  "map_of (raw_entries K) (label_channel n) = channel_key K n"
  by (auto simp: raw_entries_def map_of_append map_add_def map_of_channels_none map_of_channels channel_key_def
      split: option.split) (auto simp: label_channel_def)

lemma raw_entries_distinct:
  assumes "cred_ok importKey K"
  shows "distinct (map fst (raw_entries K))"
proof -
  have "distinct (map fst (map (\<lambda>(name, k). (label_channel name, k)) ob))" if "distinct (map fst ob)" for ob :: obj
    using that by (induction ob) (force simp: label_channel_def)+
  then have "distinct (map fst (case channelKeys K of Some ob \<Rightarrow> map (\<lambda>(name, k). (label_channel name, k)) ob | None \<Rightarrow> []))"
    using assms by (auto simp: cred_ok_def split: option.split)
  moreover have "[x] \<notin> fst ` set (case channelKeys K of Some ob \<Rightarrow> map (\<lambda>(name, k). (label_channel name, k)) ob | None \<Rightarrow> [])" for x
    by (auto simp: label_channel_def split: option.split)
  ultimately show ?thesis
    by (cases "readKey K"; cases "ipnsKeyBytes K"; cases "rotationKey K"; cases "truthy (awarenessRoomPassword K)")
      (simp_all add: raw_entries_def)
qed

lemma raw_entries_labels:
  assumes "cred_ok importKey K"
  shows "list_all (\<lambda>e. label_ok (fst e)) (raw_entries K)"
proof -
  have "label_ok (label_channel n)" if "list_all scalar n" for n
    using that by (simp add: label_ok_def label_channel_def scalar_def)
  moreover have "fst e \<in> {[114], [105], [107], [97]} \<union> label_channel ` {n. list_all scalar n}" if "e \<in> set (raw_entries K)" for e
  proof (cases "channelKeys K")
    case None
    then show ?thesis using that by (auto simp: raw_entries_def split: option.splits)
  next
    case (Some ob)
    then have "list_all scalar (fst p)" if "p \<in> set ob" for p
      using assms that by (simp add: cred_ok_def list_all_iff name_ok_def)
    then have "fst ` set (map (\<lambda>(name, k). (label_channel name, k)) ob) \<subseteq> label_channel ` {n. list_all scalar n}"
      unfolding channel_labels by blast
    then show ?thesis using that Some by (auto simp: raw_entries_def split: option.splits)
  qed
  moreover have "label_ok [114]" "label_ok [105]" "label_ok [107]" "label_ok [97]" by (simp_all add: label_ok_def scalar_def)
  ultimately show ?thesis unfolding list_all_iff by fastforce
qed

lemma fragment_roundtrip:
  assumes "cred_ok importKey K" "encodeFragment K = Ok f"
  shows "\<exists>L. decodeFragment importKey f = Ok L \<and> same_credential L K"
proof -
  let ?es = "fragment_entries K"
  obtain bs where bs: "concat_res entry_bytes ?es = Ok bs" and f: "f = base64urlEncode (VERSION # bs)"
    using assms(2) by (auto simp: encodeFragment_def and_then_Ok_iff)
  have d: "distinct (map fst ?es)" using raw_entries_distinct [OF assms(1)]
    by (simp add: fragment_entries_raw distinct_map)
  have m: "map_of ?es = map_of (raw_entries K)"
    unfolding fragment_entries_raw by (rule map_of_sorted [OF raw_entries_distinct [OF assms(1)]])
  have "list_all (\<lambda>e. label_ok (fst e)) ?es"
    using raw_entries_labels [OF assms(1)] by (simp add: fragment_entries_raw list_all_iff)
  note dec = decode_entries [OF bs this]
  have "importKey v = Ok v" if "([114], v) \<in> set ?es" for v
  proof -
    have "map_of ?es [114] = Some v" using d that by simp
    then have "readKey K = Some v" by (simp add: m raw_entries_map)
    then show ?thesis using assms(1) by (simp add: cred_ok_def)
  qed
  then obtain L ch where L: "foldl_res (decode_entry importKey) (no_keys, []) ?es = Ok (L, ch)"
    and fields: "readKey L = over (map_of ?es [114]) (readKey no_keys)" "ipnsKeyBytes L = over (map_of ?es [105]) (ipnsKeyBytes no_keys)"
      "rotationKey L = over (map_of ?es [107]) (rotationKey no_keys)"
      "awarenessRoomPassword L = over (map_option utf8_decode (map_of ?es [97])) (awarenessRoomPassword no_keys)"
      "channelKeys L = channelKeys no_keys"
    and names: "\<And>name. map_of ch name = (if name = ascii ''__proto__'' then map_of [] name
        else over (map_of ?es (label_channel name)) (map_of [] name))"
    using decode_entries_fields [OF d, where importKey = importKey and K = no_keys and c = "[]"] by blast
  have over_none: "over x None = x" for x :: "'b option" by (cases x) simp_all
  let ?L = "if ch \<noteq> [] then L\<lparr>channelKeys := Some ch\<rparr> else L"
  have "decodeFragment importKey f = Ok ?L"
    by (simp add: decodeFragment_def f base64url_roundtrip dec L)
  moreover have "channel_key ?L name = channel_key K name" for name
  proof -
    have "channel_key K name = None" if "name = ascii ''__proto__''"
      using assms(1) that by (fastforce simp: channel_key_def cred_ok_def list_all_iff name_ok_def map_of_eq_None_iff split: option.split)
    then have "map_of ch name = channel_key K name" by (simp add: names m raw_entries_map over_none)
    then show ?thesis using fields(5) by (auto simp: channel_key_def no_keys_def)
  qed
  moreover have "truthy (awarenessRoomPassword L) = truthy (awarenessRoomPassword K)"
  proof (cases "truthy (awarenessRoomPassword K)")
    case None
    then show ?thesis using fields(4) by (simp add: m raw_entries_map no_keys_def truthy_def)
  next
    case (Some p)
    then have p: "awarenessRoomPassword K = Some p" "p \<noteq> []" by (auto simp: truthy_def split: if_splits)
    then have "list_all scalar p" "take 1 p \<noteq> [65279]" using assms(1) by (auto simp: cred_ok_def)
    then show ?thesis using p fields(4) by (simp add: m raw_entries_map truthy_def utf8_roundtrip)
  qed
  ultimately show ?thesis using fields
    by (auto simp: same_credential_def m raw_entries_map over_none no_keys_def fun_eq_iff)
qed


section \<open>The URL comes back\<close>

lemma indexOf_char:
  "c \<notin> set pre \<Longrightarrow> indexOf [c] (pre @ c # post) = Some (length pre)"
  "c \<notin> set pre \<Longrightarrow> indexOf [c] pre = None"
  by (induction pre) auto

lemma doc_overlap:
  assumes "take 5 ((c # b) @ ''/doc/'' @ s) = ''/doc/''"
  shows "take 4 (c # b) = ''/doc''"
proof (cases "3 \<le> length b")
  case True
  then have "take 4 (c # b) = take 4 ((c # b) @ ''/doc/'' @ s)" by simp
  also have "\<dots> = take 4 (take 5 ((c # b) @ ''/doc/'' @ s))" by (simp only: take_take) simp
  also have "\<dots> = take 4 ''/doc/''" by (simp only: assms)
  finally show ?thesis by simp
next
  case False
  then have "length b = 0 \<or> length b = 1 \<or> length b = 2" by linarith
  then show ?thesis using assms by (auto simp: length_Suc_conv numeral_2_eq_2)
qed

lemma indexOf_steps:
  "indexOf ''/doc/'' (c # s) = (if take 5 (c # s) = ''/doc/'' then Some 0 else map_option Suc (indexOf ''/doc/'' s))"
  "indexOf ''/doc'' (c # s) = (if take 4 (c # s) = ''/doc'' then Some 0 else map_option Suc (indexOf ''/doc'' s))"
proof -
  have l: "length ''/doc/'' = 5" "length ''/doc'' = 4" by simp_all
  show "indexOf ''/doc/'' (c # s) = (if take 5 (c # s) = ''/doc/'' then Some 0 else map_option Suc (indexOf ''/doc/'' s))"
    "indexOf ''/doc'' (c # s) = (if take 4 (c # s) = ''/doc'' then Some 0 else map_option Suc (indexOf ''/doc'' s))"
    by (simp_all only: indexOf.simps l)
qed

lemma indexOf_doc: "indexOf ''/doc'' b = None \<Longrightarrow> indexOf ''/doc/'' (b @ ''/doc/'' @ s) = Some (length b)"
proof (induction b)
  case (Cons c b)
  then have b: "take 4 (c # b) \<noteq> ''/doc''" "indexOf ''/doc'' b = None" unfolding indexOf_steps by (simp_all split: if_splits)
  then have "take 5 (c # b @ ''/doc/'' @ s) \<noteq> ''/doc/''" using doc_overlap [of c b s] by auto
  then show ?case using Cons.IH b(2) unfolding append_Cons [of c b] indexOf_steps by simp
qed simp

lemma url_parses:
  assumes "cred_ok importKey K" "buildUrl b name K = Ok url" "indexOf ''/doc'' (trim_slash b) = None"
    and "CHR ''#'' \<notin> set (trim_slash b)" "CHR ''#'' \<notin> set name" "CHR ''?'' \<notin> set name"
  shows "\<exists>L. parseUrl importKey url = Ok \<lparr>base = trim_slash b, ipnsName = name, keys = L\<rparr> \<and> same_credential L K"
proof -
  obtain f where f: "encodeFragment K = Ok f" and url: "url = trim_slash b @ ''/doc/'' @ name @ ''#'' @ f"
    using assms(2) by (auto simp: buildUrl_def and_then_Ok_iff)
  obtain L where L: "decodeFragment importKey f = Ok L" "same_credential L K"
    using fragment_roundtrip [OF assms(1) f] by blast
  let ?p = "trim_slash b @ ''/doc/'' @ name"
  have "CHR ''#'' \<notin> set ?p" using assms(4,5) by simp
  then have "indexOf ''#'' url = Some (length ?p)" using indexOf_char(1) [of "CHR ''#''" ?p f] by (simp add: url)
  moreover have "take (length ?p) url = ?p" "drop (length ?p + 1) url = f"
  proof -
    have split: "take (length u) (u @ v) = u" "drop (length u + 1) (u @ c # v) = v" for u v :: string and c by simp_all
    have "url = ?p @ CHR ''#'' # f" by (simp add: url)
    then show "take (length ?p) url = ?p" "drop (length ?p + 1) url = f" by (simp_all only: split)
  qed
  moreover have "indexOf ''/doc/'' ?p = Some (length (trim_slash b))" by (rule indexOf_doc [OF assms(3)])
  moreover have "drop (length (trim_slash b) + 5) ?p = name" "take (length (trim_slash b)) ?p = trim_slash b" by simp_all
  moreover have "indexOf ''?'' name = None" by (rule indexOf_char(2) [OF assms(6)])
  ultimately have "parseUrl importKey url = Ok \<lparr>base = trim_slash b, ipnsName = name, keys = L\<rparr>"
    unfolding parseUrl_def by (simp only: option.case Let_def L and_then_simps)
  then show ?thesis using L(2) by blast
qed

text \<open>
  A capability URL parses back to what it was built from: the base without its trailing slash, the name and a
  credential with the same keys, for any keys, channel names and password that can be encoded, non-ASCII ones
  included.  The base must not contain another \<open>/doc\<close>, the first of which the parser takes for its own.
\<close>

theorem url_roundtrip:
  assumes "cred_ok importKey K" "buildUrl b name K = Ok url" "indexOf ''/doc'' (trim_slash b) = None"
    and "CHR ''#'' \<notin> set (trim_slash b)" "CHR ''#'' \<notin> set name" "CHR ''?'' \<notin> set name"
  shows "\<exists>L. parseUrl importKey url = Ok \<lparr>base = trim_slash b, ipnsName = name, keys = L\<rparr> \<and> same_credential L K"
  by (rule url_parses [OF assms])

section \<open>What a shared URL permits\<close>

lemma obj_set_fold:
  "map_of (foldl (\<lambda>n ch. obj_set ch (obj_get ob ch) n) n0 chs) c =
     (if c \<in> set chs \<and> c \<noteq> ascii ''__proto__'' then Some (obj_get ob c) else map_of n0 c)"
  by (induction chs arbitrary: n0) (auto simp: obj_set_def update_conv')

lemma obj_set_fold_distinct:
  "distinct (map fst n0) \<Longrightarrow> distinct (map fst (foldl (\<lambda>n ch. obj_set ch (obj_get ob ch) n) n0 chs))"
  by (induction chs arbitrary: n0) (simp_all add: obj_set_def distinct_update)

lemma inherited_scalar: "map_of inherited ch = Some n \<Longrightarrow> list_all scalar ch"
proof -
  have "list_all (\<lambda>p. list_all scalar (fst p)) inherited" by (simp add: inherited_def ascii_def scalar_def)
  then show "map_of inherited ch = Some n \<Longrightarrow> list_all scalar ch" by (auto simp: list_all_iff dest!: map_of_SomeD)
qed

lemma narrow_ok:
  assumes "cred_ok importKey K" "narrow K g = Ok K'"
  shows "cred_ok importKey K' \<and> readKey K' = readKey K \<and> rotationKey K' = None \<and>
    ipnsKeyBytes K' = (if gcanPush g then ipnsKeyBytes K else None) \<and>
    (\<forall>ch. map_of inherited ch = None \<longrightarrow> channel_key K' ch =
       (if (case gchannels g of None \<Rightarrow> True | Some chs \<Rightarrow> ch \<in> set chs) then channel_key K ch else None))"
proof (cases "gchannels g = None \<or> gchannels g = Some []")
  case True
  then show ?thesis using assms
    by (auto simp: narrow_def Let_def cred_ok_def truthy_def no_keys_def channel_key_def split: if_splits)
next
  case False
  then obtain chs where chs: "gchannels g = Some chs" "chs \<noteq> []" by auto
  then obtain ob where ob: "channelKeys K = Some ob" "\<forall>ch \<in> set chs. obj_in ch ob"
    and K': "K' = no_keys\<lparr>readKey := readKey K, awarenessRoomPassword := truthy (awarenessRoomPassword K),
      ipnsKeyBytes := (if gcanPush g then ipnsKeyBytes K else None),
      channelKeys := Some (foldl (\<lambda>n ch. obj_set ch (obj_get ob ch) n) [] chs)\<rparr>"
    using assms(2) by (cases chs) (auto simp: narrow_def Let_def filter_empty_conv split: option.splits if_splits)
  let ?n = "foldl (\<lambda>n ch. obj_set ch (obj_get ob ch) n) [] chs"
  have names: "name_ok c" if "c \<in> fst ` set ?n" for c
  proof -
    have "map_of ?n c \<noteq> None" using that by (simp add: map_of_eq_None_iff)
    then have c: "c \<in> set chs" "c \<noteq> ascii ''__proto__''" by (simp_all add: obj_set_fold split: if_splits)
    have "list_all scalar c"
    proof (cases "map_of ob c")
      case None
      then show ?thesis using ob(2) c(1) inherited_scalar by (auto simp: obj_in_def)
    next
      case (Some v)
      then show ?thesis using assms(1) ob(1) by (auto simp: cred_ok_def list_all_iff name_ok_def dest!: map_of_SomeD)
    qed
    then show ?thesis using c(2) by (simp add: name_ok_def)
  qed
  have "channel_key K' ch = (if ch \<in> set chs then channel_key K ch else None)" if "map_of inherited ch = None" for ch
  proof -
    have "map_of inherited (ascii ''__proto__'') \<noteq> None" by (simp add: inherited_def ascii_def)
    then have "ch \<noteq> ascii ''__proto__''" using that by metis
    moreover have "map_of ob ch = Some (obj_get ob ch)" if "ch \<in> set chs"
      using ob(2) that \<open>map_of inherited ch = None\<close> by (auto simp: obj_in_def obj_get_def)
    ultimately show ?thesis using obj_set_fold [of ob "[]" chs ch] by (simp add: K' channel_key_def ob(1))
  qed
  then show ?thesis using assms(1) names obj_set_fold_distinct [of "[]" ob chs]
    by (auto simp: K' cred_ok_def no_keys_def truthy_def chs list_all_iff split: if_splits)
qed


lemma infer_channel:
  assumes "map_of inherited ch = None" "ch \<in> set chans"
  shows "ch \<in> channels (infer K chans) \<longleftrightarrow> channel_key K ch \<noteq> None"
  using assms by (auto simp: infer_def channel_key_def obj_in_def split: option.split)

text \<open>
  C8: A shared URL permits exactly what it was made for.  When a credential is narrowed to a grant, put into a URL and
  read back, the reader can decrypt, is never an administrator, can publish exactly if the grant says so and the
  source could, and can write to exactly the granted channels the source had, with the same keys.  Names every
  JavaScript object inherits are excepted: for them the code sees a key where there is none.
\<close>

theorem shared_url_permits_exactly:
  assumes "cred_ok importKey K" "narrow K g = Ok K'" "buildUrl b name K' = Ok url" "indexOf ''/doc'' (trim_slash b) = None"
    and "CHR ''#'' \<notin> set (trim_slash b)" "CHR ''#'' \<notin> set name" "CHR ''?'' \<notin> set name"
  shows "\<exists>r. parseUrl importKey url = Ok r \<and> readKey (keys r) = readKey K \<and> \<not> isAdmin (infer (keys r) chans)
    \<and> (canPushSnapshots (infer (keys r) chans) \<longleftrightarrow> gcanPush g \<and> ipnsKeyBytes K \<noteq> None)
    \<and> (\<forall>ch \<in> set chans. map_of inherited ch = None \<longrightarrow>
         (ch \<in> channels (infer (keys r) chans) \<longleftrightarrow>
            channel_key K ch \<noteq> None \<and> (case gchannels g of None \<Rightarrow> True | Some chs \<Rightarrow> ch \<in> set chs)) \<and>
         (\<forall>k. channel_key (keys r) ch = Some k \<longrightarrow> channel_key K ch = Some k))"
proof -
  have K': "cred_ok importKey K'" "readKey K' = readKey K" "rotationKey K' = None"
    "ipnsKeyBytes K' = (if gcanPush g then ipnsKeyBytes K else None)"
    and ch: "map_of inherited ch = None \<Longrightarrow> channel_key K' ch =
       (if (case gchannels g of None \<Rightarrow> True | Some chs \<Rightarrow> ch \<in> set chs) then channel_key K ch else None)" for ch
    using narrow_ok [OF assms(1,2)] by blast+
  obtain L where L: "parseUrl importKey url = Ok \<lparr>base = trim_slash b, ipnsName = name, keys = L\<rparr>" "same_credential L K'"
    using url_parses [OF K'(1) assms(3-7)] by blast
  then have same: "readKey L = readKey K" "\<not> isAdmin (infer L chans)" "channel_key L = channel_key K'"
    "canPushSnapshots (infer L chans) \<longleftrightarrow> gcanPush g \<and> ipnsKeyBytes K \<noteq> None"
    using K'(2-4) by (auto simp: same_credential_def infer_def)
  have "(ch \<in> channels (infer L chans) \<longleftrightarrow>
        channel_key K ch \<noteq> None \<and> (case gchannels g of None \<Rightarrow> True | Some chs \<Rightarrow> ch \<in> set chs)) \<and>
      (\<forall>k. channel_key L ch = Some k \<longrightarrow> channel_key K ch = Some k)"
    if "ch \<in> set chans" "map_of inherited ch = None" for ch
    using infer_channel [OF that(2,1), of L] ch [OF that(2)] by (simp add: same(3) split: if_splits)
  then show ?thesis using L(1) same(1,2,4) by auto
qed

definition sample_cred :: credential where
  "sample_cred = \<lparr>readKey = Some [1, 2], ipnsKeyBytes = Some [3], rotationKey = Some [4],
     awarenessRoomPassword = Some (ascii ''pw''), channelKeys = Some [([252], [5]), (ascii ''b'', [6])]\<rparr>"

lemma sample_cred_ok: "cred_ok Ok sample_cred"
  by (simp add: cred_ok_def sample_cred_def name_ok_def ascii_def scalar_def)


lemma encode_succeeds:
  assumes "list_all (\<lambda>e. length (utf8_encode (fst e)) \<le> 255 \<and> length (snd e) \<le> 255) (raw_entries K)"
  shows "\<exists>f. encodeFragment K = Ok f"
proof -
  let ?g = "\<lambda>e. of_nat (length (utf8_encode (fst e))) # utf8_encode (fst e) @ of_nat (length (snd e)) # snd e :: bytes"
  have "concat_res entry_bytes (fragment_entries K) = Ok (concat (map ?g (fragment_entries K)))"
    using assms by (intro concat_res_Ok) (auto simp: entry_bytes_def Let_def fragment_entries_raw list_all_iff)
  then show ?thesis by (simp add: encodeFragment_def)
qed

lemma utf8_ascii: "list_all (\<lambda>c. c < 128) s \<Longrightarrow> length (utf8_encode s) = length s"
  by (induction s) (auto simp: utf8_encode_def utf8_char_def)

lemma sample_builds:
  "\<exists>url. buildUrl ''https://x/'' ''k51'' sample_cred = Ok url"
  "\<exists>url. buildUrl ''https://x/'' ''k51'' (sample_cred\<lparr>rotationKey := None, channelKeys := Some [(ascii ''b'', [6])]\<rparr>) = Ok url"
  unfolding buildUrl_def and_then_Ok_iff
  using encode_succeeds [of sample_cred]
    encode_succeeds [of "sample_cred\<lparr>rotationKey := None, channelKeys := Some [(ascii ''b'', [6])]\<rparr>"]
  by (simp_all add: raw_entries_def sample_cred_def ascii_def truthy_def label_channel_def utf8_encode_def utf8_char_def)

theorem url_roundtrip_witness:
  "\<exists>url L. buildUrl ''https://x/'' ''k51'' sample_cred = Ok url \<and>
     parseUrl Ok url = Ok \<lparr>base = ''https://x'', ipnsName = ''k51'', keys = L\<rparr> \<and> same_credential L sample_cred"
proof -
  obtain url where url: "buildUrl ''https://x/'' ''k51'' sample_cred = Ok url" using sample_builds(1) by blast
  have "\<exists>L. parseUrl Ok url = Ok \<lparr>base = trim_slash ''https://x/'', ipnsName = ''k51'', keys = L\<rparr> \<and> same_credential L sample_cred"
    by (rule url_roundtrip [OF sample_cred_ok url]) (simp_all add: trim_slash_def)
  then show ?thesis using url by (simp add: trim_slash_def)
qed

theorem shared_url_permits_exactly_witness:
  "\<exists>K' url r. narrow sample_cred \<lparr>gchannels = Some [ascii ''b''], gcanPush = True\<rparr> = Ok K' \<and>
     buildUrl ''https://x/'' ''k51'' K' = Ok url \<and> parseUrl Ok url = Ok r \<and>
     ascii ''b'' \<in> channels (infer (keys r) [ascii ''b'', [252]]) \<and> [252] \<notin> channels (infer (keys r) [ascii ''b'', [252]])"
proof -
  let ?g = "\<lparr>gchannels = Some [ascii ''b''], gcanPush = True\<rparr>"
  let ?K' = "sample_cred\<lparr>rotationKey := None, channelKeys := Some [(ascii ''b'', [6])]\<rparr>"
  have n: "narrow sample_cred ?g = Ok ?K'"
    by (simp add: narrow_def sample_cred_def no_keys_def truthy_def obj_in_def obj_get_def obj_set_def ascii_def)
  obtain url where url: "buildUrl ''https://x/'' ''k51'' ?K' = Ok url" using sample_builds(2) by blast
  have plain: "indexOf ''/doc'' (trim_slash ''https://x/'') = None" "CHR ''#'' \<notin> set (trim_slash ''https://x/'')"
    "CHR ''#'' \<notin> set ''k51''" "CHR ''?'' \<notin> set ''k51''" by (simp_all add: trim_slash_def)
  have none: "map_of inherited (ascii ''b'') = None" "map_of inherited [252] = None" by (simp_all add: inherited_def ascii_def)
  have key: "channel_key sample_cred (ascii ''b'') = Some [6]" by (simp add: channel_key_def sample_cred_def ascii_def)
  obtain r where r: "parseUrl Ok url = Ok r"
    and ch: "\<forall>ch \<in> set [ascii ''b'', [252]]. map_of inherited ch = None \<longrightarrow>
      (ch \<in> channels (infer (keys r) [ascii ''b'', [252]]) \<longleftrightarrow>
         channel_key sample_cred ch \<noteq> None \<and> (case gchannels ?g of None \<Rightarrow> True | Some chs \<Rightarrow> ch \<in> set chs))"
    using shared_url_permits_exactly [OF sample_cred_ok n url plain, where chans = "[ascii ''b'', [252]]"] by blast
  have "ascii ''b'' \<in> channels (infer (keys r) [ascii ''b'', [252]])" "[252] \<notin> channels (infer (keys r) [ascii ''b'', [252]])"
    using ch none key by (simp_all add: ascii_def)
  then show ?thesis using n url r by blast
qed

section \<open>Inherited names\<close>

text \<open>A holder of no channel key at all is taken to be able to write to a channel named like an inherited property.\<close>

lemma inherited_name_is_writable:
  "ascii ''constructor'' \<in> channels (infer (no_keys\<lparr>channelKeys := Some []\<rparr>) [ascii ''constructor''])"
  by (simp add: infer_def no_keys_def obj_in_def inherited_def)

end
