(* ===== verification/Announce.thy ===== *)
theory Announce
  imports Blocks Capability_Url
begin

text \<open>
  Announcements of snapshots (\<open>packages/core/src/announce.ts\<close>) and the hex strings of keys and proofs
  (\<open>packages/crypto/src/index.ts\<close>).  The text of a JSON value and its parser belong to the platform: the record
  \<open>json_codec\<close>, with the contract \<open>json_ok\<close>.  A message is what \<^verbatim>\<open>JSON.parse\<close> returns, an object whose fields the reader
  looks up.
\<close>

section \<open>Hex\<close>

definition hex_digit :: "nat \<Rightarrow> char" where
  "hex_digit n = char_of (if n < 10 then 48 + n else 87 + n)"

definition hex_val :: "char \<Rightarrow> nat option" where
  "hex_val c = (let n = of_char c :: nat in
     if 48 \<le> n \<and> n \<le> 57 then Some (n - 48)
     else if 97 \<le> n \<and> n \<le> 102 then Some (n - 87)
     else if 65 \<le> n \<and> n \<le> 70 then Some (n - 55) else None)"

definition bytesToHex :: "bytes \<Rightarrow> string" where
  "bytesToHex bs = concat (map (\<lambda>b. [hex_digit (unat b div 16), hex_digit (unat b mod 16)]) bs)"

fun hex_pairs :: "string \<Rightarrow> bytes" where
  "hex_pairs (a # b # r) = of_nat (the (hex_val a) * 16 + the (hex_val b)) # hex_pairs r"
| "hex_pairs _ = []"

definition hexToBytes :: "string \<Rightarrow> bytes result" where
  "hexToBytes s = (if length s mod 2 \<noteq> 0 then Throw ''hexToBytes: odd-length hex string''
     else if \<exists>c \<in> set s. hex_val c = None then Throw ''hexToBytes: invalid hex characters''
     else Ok (hex_pairs s))"

lemma hex_digit_val [simp]: "n < 16 \<Longrightarrow> hex_val (hex_digit n) = Some n"
  by (simp add: hex_val_def hex_digit_def Let_def)

lemma hex_roundtrip: "hexToBytes (bytesToHex bs) = Ok bs"
proof -
  have "length (bytesToHex bs) mod 2 = 0 \<and> (\<forall>c \<in> set (bytesToHex bs). hex_val c \<noteq> None) \<and> hex_pairs (bytesToHex bs) = bs"
  proof (induction bs)
    case (Cons b bs)
    have "unat b div 16 < 16" "unat b mod 16 < 16" using byte_lt [of b] by simp_all
    moreover have "unat b div 16 * 16 + unat b mod 16 = unat b" by simp
    ultimately show ?case using Cons by (simp add: bytesToHex_def of_nat_byte)
  qed (simp add: bytesToHex_def)
  then show ?thesis by (auto simp: hexToBytes_def)
qed

section \<open>JSON\<close>

datatype json = JString string | JNumber int | JBool bool | JNull | JArray "json list" | JObject "(string \<times> json) list"

record json_codec =
  json_write :: "json \<Rightarrow> bytes"
  json_read :: "bytes \<Rightarrow> json result"

definition json_ok :: "json_codec \<Rightarrow> bool" where
  "json_ok J \<longleftrightarrow> (\<forall>fs. distinct (map fst fs) \<longrightarrow> json_read J (json_write J (JObject fs)) = Ok (JObject fs))"

text \<open>Reading a field: of \<^verbatim>\<open>null\<close> it throws, and what is not an object has none of these fields.\<close>

definition field :: "json \<Rightarrow> string \<Rightarrow> json option result" where
  "field j k = (case j of JNull \<Rightarrow> Throw ''Cannot read properties of null'' | JObject fs \<Rightarrow> Ok (map_of fs k) | _ \<Rightarrow> Ok None)"

fun is_string :: "json option \<Rightarrow> bool" where
  "is_string (Some (JString _)) = True"
| "is_string _ = False"

text \<open>
  The fields of a parsed message are read at their declared types; nothing but the texts \<^verbatim>\<open>ipnsName\<close> and \<^verbatim>\<open>cid\<close> is checked
  before, and a field of another type counts as absent here.
\<close>

fun text_field :: "json option \<Rightarrow> string option" where
  "text_field (Some (JString s)) = Some s"
| "text_field _ = None"

fun number_field :: "json option \<Rightarrow> int option" where
  "number_field (Some (JNumber i)) = Some i"
| "number_field _ = None"

fun truthy :: "json option \<Rightarrow> bool" where
  "truthy None = False"
| "truthy (Some JNull) = False"
| "truthy (Some (JBool b)) = b"
| "truthy (Some (JNumber i)) = (i \<noteq> 0)"
| "truthy (Some (JString s)) = (s \<noteq> [])"
| "truthy (Some _) = True"

section \<open>Announcements\<close>

record ack =
  apeerId :: string
  aguaranteeUntil :: "int option"
  aretainUntil :: "int option"

definition announceTopic :: "string \<Rightarrow> string \<Rightarrow> string" where
  "announceTopic networkId appId = ''/pokapali/'' @ networkId @ ''/app/'' @ appId @ ''/announce''"

definition MAX_INLINE_BLOCK_BYTES :: nat where "MAX_INLINE_BLOCK_BYTES = 1024 * 1024"
definition MAX_MESSAGE_BYTES :: nat where "MAX_MESSAGE_BYTES = 2 * 1024 * 1024"

definition optional :: "string \<Rightarrow> json option \<Rightarrow> (string \<times> json) list" where
  "optional k v = (case v of Some j \<Rightarrow> [(k, j)] | None \<Rightarrow> [])"

definition ack_json :: "ack \<Rightarrow> json" where
  "ack_json a = JObject ([(''peerId'', JString (apeerId a))] @
     optional ''guaranteeUntil'' (map_option JNumber (aguaranteeUntil a)) @
     optional ''retainUntil'' (map_option JNumber (aretainUntil a)))"

text \<open>An empty proof is no proof.\<close>

definition announce_fields :: "string \<Rightarrow> cid \<Rightarrow> int option \<Rightarrow> bytes option \<Rightarrow> bool \<Rightarrow> ack option \<Rightarrow> string option \<Rightarrow>
    (string \<times> json) list" where
  "announce_fields ipns c sq block fromPinner a proof =
     [(''ipnsName'', JString ipns), (''cid'', JString c)] @
     optional ''seq'' (map_option JNumber sq) @
     optional ''block'' (case block of
         Some b \<Rightarrow> if length b \<le> MAX_INLINE_BLOCK_BYTES then Some (JString (btoa b)) else None
       | None \<Rightarrow> None) @
     optional ''fromPinner'' (if fromPinner then Some (JBool True) else None) @
     optional ''ack'' (map_option ack_json a) @
     optional ''proof'' (case proof of Some (c # p) \<Rightarrow> Some (JString (c # p)) | _ \<Rightarrow> None)"

definition announceSnapshot :: "json_codec \<Rightarrow> string \<Rightarrow> string \<Rightarrow> string \<Rightarrow> cid \<Rightarrow> int option \<Rightarrow> bytes option \<Rightarrow> bool \<Rightarrow>
    ack option \<Rightarrow> string option \<Rightarrow> string \<times> bytes" where
  "announceSnapshot J networkId appId ipns c sq block fromPinner a proof =
     (announceTopic networkId appId, json_write J (JObject (announce_fields ipns c sq block fromPinner a proof)))"

definition announceAck :: "json_codec \<Rightarrow> string \<Rightarrow> string \<Rightarrow> string \<Rightarrow> cid \<Rightarrow> string \<Rightarrow> int option \<Rightarrow> int option \<Rightarrow> string \<times> bytes" where
  "announceAck J networkId appId ipns c peer g r =
     (announceTopic networkId appId, json_write J (JObject [(''ipnsName'', JString ipns), (''cid'', JString c),
        (''ack'', ack_json \<lparr>apeerId = peer, aguaranteeUntil = g, aretainUntil = r\<rparr>)]))"

text \<open>The length of the text times three quarters is compared with the limit; the division is exact on real numbers.\<close>

definition parse_fields :: "json \<Rightarrow> (string \<times> json) list option result" where
  "parse_fields j =
     and_then (field j ''ipnsName'') (\<lambda>n. and_then (field j ''cid'') (\<lambda>c.
     if \<not> is_string n \<or> \<not> is_string c then Ok None
     else and_then (field j ''block'') (\<lambda>b.
       let fs = (case j of JObject fs \<Rightarrow> fs | _ \<Rightarrow> []) in
       Ok (Some (case b of
           Some (JString s) \<Rightarrow> if 4 * MAX_INLINE_BLOCK_BYTES < length s * 3 then AList.delete ''block'' fs else fs
         | _ \<Rightarrow> fs)))))"

definition parseAnnouncement :: "json_codec \<Rightarrow> bytes \<Rightarrow> (string \<times> json) list option" where
  "parseAnnouncement J data =
     (if MAX_MESSAGE_BYTES < length data then None
      else case and_then (json_read J data) parse_fields of Inr r \<Rightarrow> r | Inl _ \<Rightarrow> None)"

definition base64ToUint8 :: "string \<Rightarrow> bytes result" where
  "base64ToUint8 = atob"

section \<open>Proofs\<close>

definition proof_payload :: "string \<Rightarrow> cid \<Rightarrow> bytes" where
  "proof_payload ipns c = utf8_encode (ascii (ipns @ '':'' @ c))"

definition signAnnouncementProof :: "crypto \<Rightarrow> keyPair \<Rightarrow> string \<Rightarrow> cid \<Rightarrow> string" where
  "signAnnouncementProof C kp ipns c = bytesToHex (signBytes C kp (proof_payload ipns c))"

definition verifyAnnouncementProof :: "crypto \<Rightarrow> string \<Rightarrow> cid \<Rightarrow> string \<Rightarrow> bool" where
  "verifyAnnouncementProof C ipns c proof =
     (case and_then (hexToBytes ipns) (\<lambda>key. and_then (hexToBytes proof) (\<lambda>sig.
        Ok (verifyBytes C key sig (proof_payload ipns c)))) of
      Inr b \<Rightarrow> b | Inl _ \<Rightarrow> False)"

section \<open>Guarantees\<close>

definition publishGuaranteeQuery :: "json_codec \<Rightarrow> string \<Rightarrow> string \<Rightarrow> string \<Rightarrow> string \<times> bytes" where
  "publishGuaranteeQuery J networkId appId ipns =
     (announceTopic networkId appId, json_write J (JObject [(''type'', JString ''guarantee-query''), (''ipnsName'', JString ipns)]))"

definition guarantee_response :: "string \<Rightarrow> string \<Rightarrow> cid \<Rightarrow> int \<Rightarrow> int \<Rightarrow> (string \<times> json) list" where
  "guarantee_response ipns peer c g r = [(''type'', JString ''guarantee-response''), (''ipnsName'', JString ipns),
     (''peerId'', JString peer), (''cid'', JString c), (''guaranteeUntil'', JNumber g), (''retainUntil'', JNumber r)]"

definition parseGuaranteeResponse :: "json_codec \<Rightarrow> bytes \<Rightarrow> (string \<times> json) list option" where
  "parseGuaranteeResponse J data =
     (if MAX_MESSAGE_BYTES < length data then None
      else case json_read J data of
        Inr (JObject fs) \<Rightarrow>
          if map_of fs ''type'' = Some (JString ''guarantee-response'') \<and> is_string (map_of fs ''ipnsName'') \<and>
            is_string (map_of fs ''peerId'') \<and> is_string (map_of fs ''cid'') then Some fs else None
      | _ \<Rightarrow> None)"

section \<open>Properties\<close>

lemma length_btoa: "length (btoa bs) = 4 * ((length bs + 2) div 3)"
proof (induction bs rule: btoa.induct)
  case (4 a b c r)
  have "(5 + n) div 3 = Suc ((n + 2) div 3)" for n :: nat by presburger
  then show ?case using 4 by simp
qed simp_all

text \<open>
  C35: what is announced is what is parsed: every field comes back, and an inline block comes back byte for byte, up to the
  limit less two bytes; a block of one of the last sizes that the sender admits can be dropped by every receiver, and one
  of exactly the limit is.
\<close>

theorem announce_roundtrip:
  assumes "json_ok J" "announceSnapshot J net app ipns c sq block fromPinner a proof = (topic, data)"
    "length data \<le> MAX_MESSAGE_BYTES"
  shows "\<exists>fs. parseAnnouncement J data = Some fs \<and> topic = announceTopic net app \<and>
    (\<forall>k. k \<noteq> ''block'' \<longrightarrow> map_of fs k = map_of (announce_fields ipns c sq block fromPinner a proof) k) \<and>
    (case block of
       None \<Rightarrow> map_of fs ''block'' = None
     | Some b \<Rightarrow> if length b + 2 \<le> MAX_INLINE_BLOCK_BYTES
         then \<exists>s. map_of fs ''block'' = Some (JString s) \<and> base64ToUint8 s = Ok b
         else length b \<noteq> MAX_INLINE_BLOCK_BYTES - 1 \<longrightarrow> map_of fs ''block'' = None)"
proof -
  define fs where "fs = announce_fields ipns c sq block fromPinner a proof"
  have d: "distinct (map fst fs)"
    by (auto simp: fs_def announce_fields_def optional_def split: option.split list.split)
  have data: "data = json_write J (JObject fs)" "topic = announceTopic net app"
    using assms(2) by (auto simp: announceSnapshot_def fs_def)
  have id: "map_of fs ''ipnsName'' = Some (JString ipns)" "map_of fs ''cid'' = Some (JString c)"
    by (simp_all add: fs_def announce_fields_def)
  define out where "out = (case map_of fs ''block'' of
      Some (JString s) \<Rightarrow> if 4 * MAX_INLINE_BLOCK_BYTES < length s * 3 then AList.delete ''block'' fs else fs
    | _ \<Rightarrow> fs)"
  have "parse_fields (JObject fs) = Ok (Some out)" by (simp add: parse_fields_def field_def id Let_def out_def)
  then have p: "parseAnnouncement J data = Some out"
    using assms(1,3) d by (simp add: parseAnnouncement_def data(1) json_ok_def)
  have blk: "map_of fs ''block'' = (case block of
      Some b \<Rightarrow> if length b \<le> MAX_INLINE_BLOCK_BYTES then Some (JString (btoa b)) else None | None \<Rightarrow> None)"
    by (auto simp: fs_def announce_fields_def optional_def split: option.split list.split)
  have "map_of out k = map_of fs k" if "k \<noteq> ''block''" for k
    using that by (auto simp: out_def delete_conv' split: option.split json.split)
  moreover have "(case block of
       None \<Rightarrow> map_of out ''block'' = None
     | Some b \<Rightarrow> if length b + 2 \<le> MAX_INLINE_BLOCK_BYTES
         then \<exists>s. map_of out ''block'' = Some (JString s) \<and> base64ToUint8 s = Ok b
         else length b \<noteq> MAX_INLINE_BLOCK_BYTES - 1 \<longrightarrow> map_of out ''block'' = None)"
  proof (cases block)
    case None
    then show ?thesis using blk by (simp add: out_def)
  next
    case (Some b)
    have len: "length (btoa b) * 3 \<le> 4 * (length b + 2)" "length b = 1048576 \<Longrightarrow> 4 * 1048576 < length (btoa b) * 3"
      by (simp_all add: length_btoa)
    show ?thesis
    proof (cases "length b \<le> 1048576")
      case True
      have "length b = 1048575 \<or> length b = 1048576 \<or> length b + 2 \<le> 1048576" using True by linarith
      then show ?thesis using len blk
        by (auto simp: out_def Some MAX_INLINE_BLOCK_BYTES_def base64ToUint8_def atob_btoa delete_conv')
    next
      case False
      then show ?thesis using blk by (auto simp: out_def Some MAX_INLINE_BLOCK_BYTES_def)
    qed
  qed
  ultimately show ?thesis using p data(2) by (auto simp: fs_def)
qed


section \<open>A codec of JSON\<close>

text \<open>A byte format in the place of the text, for the witnesses.\<close>

lemma encode_list_cong [fundef_cong]:
  assumes "xs = ys" "\<And>x. x \<in> set ys \<Longrightarrow> f x = g x"
  shows "encode_list f xs = encode_list g ys"
  unfolding encode_list_def assms(1) using assms(2) by (metis (no_types, lifting) map_cong)

fun jw :: "json \<Rightarrow> bytes" where
  "jw (JString s) = 0 # text_write s"
| "jw (JNumber i) = 1 # int_write i"
| "jw (JBool b) = [2, if b then 1 else 0]"
| "jw JNull = [3]"
| "jw (JArray js) = 4 # unary_write (length js) @ encode_list jw js"
| "jw (JObject fs) = 5 # unary_write (length fs) @ encode_list (\<lambda>kv. text_write (fst kv) @ jw (snd kv)) fs"

primrec jr :: "nat \<Rightarrow> json reader" where
  "jr 0 = (\<lambda>b. Throw ''end'')"
| "jr (Suc n) = (\<lambda>b. case b of
      [] \<Rightarrow> Throw ''end''
    | t # r \<Rightarrow>
        if t = 0 then and_then (text_read r) (\<lambda>(s, r). Ok (JString s, r))
        else if t = 1 then and_then (int_read r) (\<lambda>(i, r). Ok (JNumber i, r))
        else if t = 2 then (case r of [] \<Rightarrow> Throw ''end'' | x # r \<Rightarrow> Ok (JBool (x = 1), r))
        else if t = 3 then Ok (JNull, r)
        else if t = 4 then and_then (unary_read r) (\<lambda>(k, r). and_then (read_n (jr n) k r) (\<lambda>(js, r). Ok (JArray js, r)))
        else and_then (unary_read r) (\<lambda>(k, r).
          and_then (read_n (read_pair text_read (jr n)) k r) (\<lambda>(fs, r). Ok (JObject fs, r))))"

lemma length_encode_list: "x \<in> set xs \<Longrightarrow> length (f x) \<le> length (encode_list f xs)"
  by (induction xs) (auto simp: encode_list_def)

lemma jr_jw: "length (jw j) \<le> n \<Longrightarrow> jr n (jw j @ rest) = Ok (j, rest)"
proof (induction j arbitrary: n rest)
  case (JArray js)
  then obtain k where k: "n = Suc k" by (cases n) auto
  have "codec_for jw (jr k) (\<lambda>j. j \<in> set js)"
    unfolding codec_for_def
  proof (intro allI impI)
    fix j r assume j: "j \<in> set js"
    have "length (jw j) \<le> k" using length_encode_list [OF j, of jw] JArray.prems by (simp add: k)
    then show "jr k (jw j @ r) = Ok (j, r)" by (rule JArray.IH [OF j])
  qed
  from read_n_list [OF this, of js] show ?case by (simp add: k unary_read_write)
next
  case (JObject fs)
  then obtain k where k: "n = Suc k" by (cases n) auto
  let ?f = "\<lambda>kv. text_write (fst kv) @ jw (snd kv)"
  have "codec_for ?f (read_pair text_read (jr k)) (\<lambda>kv. kv \<in> set fs)"
    unfolding codec_for_def
  proof (intro allI impI)
    fix kv r assume kv: "kv \<in> set fs"
    obtain key v where v: "kv = (key, v)" by (cases kv)
    have "length (jw v) \<le> k" using length_encode_list [OF kv, of ?f] JObject.prems by (simp add: k v)
    then have "jr k (jw v @ r) = Ok (v, r)" using kv v by (intro JObject.IH) auto
    then show "read_pair text_read (jr k) (?f kv @ r) = Ok (kv, r)" by (simp add: v read_pair_def node_codecs)
  qed
  from read_n_list [OF this, of fs] show ?case by (simp add: k unary_read_write)
qed (auto simp: node_codecs gr0_conv_Suc Suc_le_eq dest!: less_imp_Suc_add)

definition sample_json :: json_codec where
  "sample_json = \<lparr>json_write = jw, json_read = (\<lambda>b. and_then (jr (length b) b) (\<lambda>(j, _). Ok j))\<rparr>"

lemma sample_json_ok: "json_ok sample_json"
proof -
  have "jr (length (jw j)) (jw j) = Ok (j, [])" for j using jr_jw [of j _ "[]"] by simp
  then show ?thesis unfolding json_ok_def sample_json_def json_codec.simps by (metis and_then_simps(2) prod.case)
qed

theorem announce_roundtrip_witness:
  "\<exists>fs. parseAnnouncement sample_json (snd (announceSnapshot sample_json ''main'' ''app'' ''ab'' ''cid'' None (Some [1, 2]) False None None)) =
     Some fs \<and> map_of fs ''cid'' = Some (JString ''cid'') \<and> (\<exists>s. map_of fs ''block'' = Some (JString s) \<and> base64ToUint8 s = Ok [1, 2])"
proof -
  let ?m = "announceSnapshot sample_json ''main'' ''app'' ''ab'' ''cid'' None (Some [1, 2]) False None None"
  have len: "length (snd ?m) \<le> MAX_MESSAGE_BYTES"
    by (simp add: announceSnapshot_def announce_fields_def optional_def MAX_MESSAGE_BYTES_def MAX_INLINE_BLOCK_BYTES_def
        sample_json_def encode_list_def text_write_def array_write_def unary_write_def chars_write_def)
  have c: "map_of (announce_fields ''ab'' ''cid'' None (Some [1, 2]) False None None) ''cid'' = Some (JString ''cid'')"
    by (simp add: announce_fields_def)
  obtain fs where fs: "parseAnnouncement sample_json (snd ?m) = Some fs"
    "\<forall>k. k \<noteq> ''block'' \<longrightarrow> map_of fs k = map_of (announce_fields ''ab'' ''cid'' None (Some [1, 2]) False None None) k"
    "\<exists>s. map_of fs ''block'' = Some (JString s) \<and> base64ToUint8 s = Ok [1, 2]"
    using announce_roundtrip [OF sample_json_ok surjective_pairing len] by (auto simp: MAX_INLINE_BLOCK_BYTES_def)
  have "map_of fs ''cid'' = Some (JString ''cid'')" using fs(2) [rule_format, of "''cid''"] c by simp
  then show ?thesis using fs(1,3) by blast
qed

text \<open>A proof verifies for the name that is the hex of the key it was signed with.\<close>

lemma proof_verifies:
  assumes "crypto_ok C" "kp = ed25519KeyPairFromSeed C seed"
  shows "verifyAnnouncementProof C (bytesToHex (kpPublic kp)) c (signAnnouncementProof C kp (bytesToHex (kpPublic kp)) c)"
  using verify_sign [OF assms] by (simp add: verifyAnnouncementProof_def signAnnouncementProof_def hex_roundtrip)

end
