(* ===== verification/Gossip.thy ===== *)
theory Gossip
  imports Doc_State Announce
begin

text \<open>
  The bridge from the messages of the network to the facts of a document (\<open>packages/core/src/doc-gossip-bridge.ts\<close>,
  \<open>verify-cid.ts\<close>).  A message is handled at once up to the hash of an inline block, which a second step completes; the
  facts go to the end of the queue in the order they are emitted.  That a CID is parsed, which hash it names and what
  the hash of a block is are parameters.
\<close>

record genv =
  gcodec :: json_codec
  parseCid :: "string \<Rightarrow> cid result"
  isSha256 :: "cid \<Rightarrow> bool"
  shaOf :: "bytes \<Rightarrow> bytes"
  digestOf :: "cid \<Rightarrow> bytes"

record gossipDeps =
  dtopic :: string
  dname :: string

definition uint8Equal :: "bytes \<Rightarrow> bytes \<Rightarrow> bool" where
  "uint8Equal a b \<longleftrightarrow> length a = length b \<and> list_all2 (=) a b"

definition verifyCid :: "genv \<Rightarrow> cid \<Rightarrow> bytes \<Rightarrow> bool" where
  "verifyCid G c block \<longleftrightarrow> isSha256 G c \<and> uint8Equal (shaOf G block) (digestOf G c)"

text \<open>What an announcement leads to, with the block when it has been verified.\<close>

definition ack_facts :: "json option \<Rightarrow> cid \<Rightarrow> int \<Rightarrow> fact list" where
  "ack_facts a c now =
     (if \<not> truthy a then []
      else
        let fs = (case a of Some (JObject fs) \<Rightarrow> fs | _ \<Rightarrow> []);
            peer = (case text_field (map_of fs ''peerId'') of Some p \<Rightarrow> p | None \<Rightarrow> []);
            g = number_field (map_of fs ''guaranteeUntil''); r = number_field (map_of fs ''retainUntil'')
        in AckReceived now c peer #
          (if g \<noteq> None \<or> r \<noteq> None
           then [GuaranteeReceived now peer c (case g of Some x \<Rightarrow> x | None \<Rightarrow> 0) (case r of Some x \<Rightarrow> x | None \<Rightarrow> 0)] else []))"

definition emitFacts :: "(string \<times> json) list \<Rightarrow> cid \<Rightarrow> bytes option \<Rightarrow> int \<Rightarrow> fact list" where
  "emitFacts ann c block now =
     CidDiscovered now c Gossipsub block (number_field (map_of ann ''seq'')) None # ack_facts (map_of ann ''ack'') c now"

type_synonym inline = "(string \<times> json) list \<times> cid \<times> bytes"

definition onResponse :: "genv \<Rightarrow> (string \<times> json) list \<Rightarrow> int \<Rightarrow> fact list" where
  "onResponse G fs now =
     (case (text_field (map_of fs ''peerId''), text_field (map_of fs ''cid'')) of
        (Some peer, Some text) \<Rightarrow> (case parseCid G text of
            Inr c \<Rightarrow> [GuaranteeReceived now peer c
              (case number_field (map_of fs ''guaranteeUntil'') of Some x \<Rightarrow> x | None \<Rightarrow> 0)
              (case number_field (map_of fs ''retainUntil'') of Some x \<Rightarrow> x | None \<Rightarrow> 0)]
          | Inl _ \<Rightarrow> [])
      | _ \<Rightarrow> [])"

definition onAnnounced :: "genv \<Rightarrow> (string \<times> json) list \<Rightarrow> int \<Rightarrow> fact list \<times> inline option" where
  "onAnnounced G ann now =
     (case text_field (map_of ann ''cid'') of
        None \<Rightarrow> ([], None)
      | Some text \<Rightarrow> (case parseCid G text of
          Inl _ \<Rightarrow> ([], None)
        | Inr c \<Rightarrow> (case text_field (map_of ann ''block'') of
            Some (x # b64) \<Rightarrow> (case base64ToUint8 (x # b64) of
                Inl _ \<Rightarrow> (emitFacts ann c None now, None)
              | Inr decoded \<Rightarrow> ([], Some (ann, c, decoded)))
          | _ \<Rightarrow> (emitFacts ann c None now, None))))"

text \<open>A guarantee response is tried first; what is not about the document is only a sign of life.\<close>

definition gossipHandler :: "genv \<Rightarrow> gossipDeps \<Rightarrow> string \<Rightarrow> bytes \<Rightarrow> int \<Rightarrow> fact list \<times> inline option" where
  "gossipHandler G d topic data now =
     (if topic \<noteq> dtopic d then ([], None)
      else
        let about = (\<lambda>m. case m of
              Some fs \<Rightarrow> if text_field (map_of fs ''ipnsName'') = Some (dname d) then Some fs else None | None \<Rightarrow> None)
        in case about (parseGuaranteeResponse (gcodec G) data) of
             Some fs \<Rightarrow> (GossipMessage now # onResponse G fs now, None)
           | None \<Rightarrow> (case about (parseAnnouncement (gcodec G) data) of
               None \<Rightarrow> ([GossipMessage now], None)
             | Some ann \<Rightarrow> (case onAnnounced G ann now of (fs, later) \<Rightarrow> (GossipMessage now # fs, later))))"

definition finishInline :: "genv \<Rightarrow> inline \<Rightarrow> int \<Rightarrow> fact list \<times> (cid \<times> bytes) list" where
  "finishInline G job now = (case job of (ann, c, decoded) \<Rightarrow>
     if verifyCid G c decoded then (emitFacts ann c (Some decoded) now, [(c, decoded)])
     else (emitFacts ann c None now, []))"

section \<open>Properties\<close>

lemma parse_response:
  assumes "json_ok J" "length (json_write J (JObject (guarantee_response n peer t g r))) \<le> MAX_MESSAGE_BYTES"
  shows "parseGuaranteeResponse J (json_write J (JObject (guarantee_response n peer t g r))) = Some (guarantee_response n peer t g r)"
    "parseAnnouncement J (json_write J (JObject (guarantee_response n peer t g r))) = Some (guarantee_response n peer t g r)"
proof -
  have "json_read J (json_write J (JObject (guarantee_response n peer t g r))) = Ok (JObject (guarantee_response n peer t g r))"
    using assms(1) by (simp add: json_ok_def guarantee_response_def)
  then show "parseGuaranteeResponse J (json_write J (JObject (guarantee_response n peer t g r))) = Some (guarantee_response n peer t g r)"
    "parseAnnouncement J (json_write J (JObject (guarantee_response n peer t g r))) = Some (guarantee_response n peer t g r)"
    using assms(2) by (simp_all add: parseGuaranteeResponse_def parseAnnouncement_def parse_fields_def field_def guarantee_response_def)
qed

definition ack_message :: "string \<Rightarrow> string \<Rightarrow> string \<Rightarrow> int \<Rightarrow> int \<Rightarrow> (string \<times> json) list" where
  "ack_message n t peer g r = [(''ipnsName'', JString n), (''cid'', JString t),
     (''ack'', ack_json \<lparr>apeerId = peer, aguaranteeUntil = Some g, aretainUntil = Some r\<rparr>)]"

lemma parse_ack:
  assumes "json_ok J" "announceAck J net app n t peer (Some g) (Some r) = (topic, data)" "length data \<le> MAX_MESSAGE_BYTES"
  shows "topic = announceTopic net app" "parseGuaranteeResponse J data = None" "parseAnnouncement J data = Some (ack_message n t peer g r)"
proof -
  have d: "topic = announceTopic net app" "data = json_write J (JObject (ack_message n t peer g r))"
    using assms(2) by (auto simp: announceAck_def ack_message_def)
  have "json_read J data = Ok (JObject (ack_message n t peer g r))"
    using assms(1) by (simp add: json_ok_def d ack_message_def)
  then show "topic = announceTopic net app" "parseGuaranteeResponse J data = None" "parseAnnouncement J data = Some (ack_message n t peer g r)"
    using assms(3) d(1)
    by (simp_all add: parseGuaranteeResponse_def parseAnnouncement_def parse_fields_def field_def ack_message_def)
qed

lemma chain_doc_run: "chain (doc_run s (map (Pair now) fs)) = foldl chain_step (chain s) fs"
  by (simp add: doc_run_slices comp_def)

lemma entries_withNewest [simp]: "entries (got s (withNewestFetched s (New s1))) = entries s1"
  by (simp add: withNewestFetched_def Let_def)

lemma discovered_known: "\<exists>e. map_of (entries (chain_step s (CidDiscovered now c src block sq tm))) c = Some e"
proof (cases "map_of (entries s) c")
  case None
  then show ?thesis by (simp add: chain_step_def reduceChain_def cidDiscovered_def update_conv')
next
  case (Some e)
  then show ?thesis by (simp add: chain_step_def reduceChain_def cidDiscovered_def update_conv' Let_def)
qed

lemma ack_known:
  assumes "map_of (entries s) c = Some e"
  shows "\<exists>e'. map_of (entries (chain_step s (AckReceived now c p))) c = Some e' \<and> p \<in> ackedBy e'"
  using assms by (simp add: chain_step_def reduceChain_def updateEntry_def update_conv')

lemma guarantee_known:
  assumes "map_of (entries s) c = Some e"
  shows "map_of (entries (chain_step s (GuaranteeReceived now p c g r))) c =
    Some (e\<lparr>guarantees := AList.update p \<lparr>guaranteeUntil = g, retainUntil = r\<rparr> (guarantees e)\<rparr>)"
  using assms by (simp add: chain_step_def reduceChain_def updateEntry_def update_conv')

text \<open>
  C29: an acknowledgement that a pinner publishes reaches the state of a document: after its facts the CID has an entry that
  the pinner has acknowledged, with its guarantee.  The answer to a query for a guarantee does so only when the CID is
  known already; otherwise it leaves the chain as it is, and the guarantee is lost.
\<close>

theorem guarantees_reach_state:
  assumes "json_ok (gcodec G)" "parseCid G t = Ok c" "dtopic d = announceTopic net app"
    "announceAck (gcodec G) net app (dname d) t peer (Some g) (Some r) = (topic, data)" "length data \<le> MAX_MESSAGE_BYTES"
    "resp = json_write (gcodec G) (JObject (guarantee_response (dname d) peer t g r))" "length resp \<le> MAX_MESSAGE_BYTES"
  shows "(\<exists>fs e. gossipHandler G d topic data now = (fs, None) \<and>
      map_of (entries (chain (doc_run s (map (Pair now) fs)))) c = Some e \<and> peer \<in> ackedBy e \<and>
      map_of (guarantees e) peer = Some \<lparr>guaranteeUntil = g, retainUntil = r\<rparr>) \<and>
    (\<exists>fs. gossipHandler G d topic resp now = (fs, None) \<and> (case map_of (entries (chain s)) c of
      None \<Rightarrow> chain (doc_run s (map (Pair now) fs)) = chain s
    | Some e \<Rightarrow> map_of (entries (chain (doc_run s (map (Pair now) fs)))) c =
        Some (e\<lparr>guarantees := AList.update peer \<lparr>guaranteeUntil = g, retainUntil = r\<rparr> (guarantees e)\<rparr>)))"
proof -
  note pa = parse_ack [OF assms(1,4,5)]
  let ?fs = "[GossipMessage now, CidDiscovered now c Gossipsub None None None, AckReceived now c peer, GuaranteeReceived now peer c g r]"
  have h: "gossipHandler G d topic data now = (?fs, None)"
    using pa assms(2,3) by (simp add: gossipHandler_def ack_message_def onAnnounced_def emitFacts_def ack_facts_def ack_json_def optional_def)
  obtain e1 where "map_of (entries (chain_step (chain_step (chain s) (GossipMessage now)) (CidDiscovered now c Gossipsub None None None))) c = Some e1"
    using discovered_known by blast
  from ack_known [OF this, of now peer] obtain e2 where
    "map_of (entries (foldl chain_step (chain s) (butlast ?fs))) c = Some e2" "peer \<in> ackedBy e2" by auto
  from guarantee_known [OF this(1), of now peer g r] this(2)
  have acked: "\<exists>fs e. gossipHandler G d topic data now = (fs, None) \<and>
      map_of (entries (chain (doc_run s (map (Pair now) fs)))) c = Some e \<and> peer \<in> ackedBy e \<and>
      map_of (guarantees e) peer = Some \<lparr>guaranteeUntil = g, retainUntil = r\<rparr>"
    unfolding h chain_doc_run by (simp add: update_conv')
  note pr = parse_response [OF assms(1) assms(7) [unfolded assms(6)], folded assms(6)]
  have "gossipHandler G d topic resp now = ([GossipMessage now, GuaranteeReceived now peer c g r], None)"
    using pr(1) pa(1) assms(2,3) by (simp add: gossipHandler_def onResponse_def guarantee_response_def)
  then have "\<exists>fs. gossipHandler G d topic resp now = (fs, None) \<and> (case map_of (entries (chain s)) c of
      None \<Rightarrow> chain (doc_run s (map (Pair now) fs)) = chain s
    | Some e \<Rightarrow> map_of (entries (chain (doc_run s (map (Pair now) fs)))) c =
        Some (e\<lparr>guarantees := AList.update peer \<lparr>guaranteeUntil = g, retainUntil = r\<rparr> (guarantees e)\<rparr>))"
    unfolding chain_doc_run
    by (simp add: chain_step_def reduceChain_def updateEntry_def update_conv' split: option.split)
  with acked show ?thesis by blast
qed


definition sample_genv :: genv where
  "sample_genv = \<lparr>gcodec = sample_json, parseCid = Ok, isSha256 = (\<lambda>_. True), shaOf = (\<lambda>b. b), digestOf = (\<lambda>c. [7])\<rparr>"

theorem guarantees_reach_state_witness:
  "\<exists>fs e. gossipHandler sample_genv \<lparr>dtopic = announceTopic ''main'' ''app'', dname = ''ab''\<rparr> (announceTopic ''main'' ''app'')
      (snd (announceAck sample_json ''main'' ''app'' ''ab'' ''c'' ''p'' (Some 5) (Some 9))) 3 = (fs, None) \<and>
    map_of (entries (chain (doc_run (initialDocState sample_identity) (map (Pair 3) fs)))) ''c'' = Some e \<and> ''p'' \<in> ackedBy e"
proof -
  let ?d = "\<lparr>dtopic = announceTopic ''main'' ''app'', dname = ''ab''\<rparr>"
  have h: "json_ok (gcodec sample_genv)" "parseCid sample_genv ''c'' = Ok ''c''" "dtopic ?d = announceTopic ''main'' ''app''"
    "announceAck (gcodec sample_genv) ''main'' ''app'' (dname ?d) ''c'' ''p'' (Some 5) (Some 9) =
      (announceTopic ''main'' ''app'', snd (announceAck sample_json ''main'' ''app'' ''ab'' ''c'' ''p'' (Some 5) (Some 9)))"
    by (simp_all add: sample_genv_def sample_json_ok announceAck_def)
  have l: "length (snd (announceAck sample_json ''main'' ''app'' ''ab'' ''c'' ''p'' (Some 5) (Some 9))) \<le> MAX_MESSAGE_BYTES"
    "length (json_write (gcodec sample_genv) (JObject (guarantee_response (dname ?d) ''p'' ''c'' 5 9))) \<le> MAX_MESSAGE_BYTES"
    by (simp_all add: announceAck_def ack_json_def optional_def guarantee_response_def MAX_MESSAGE_BYTES_def sample_genv_def sample_json_def
        encode_list_def text_write_def array_write_def unary_write_def chars_write_def int_write_def)
  show ?thesis using guarantees_reach_state [OF h l(1) refl l(2), of 3 "initialDocState sample_identity"] by blast
qed


end
