(* ===== verification/Retention.thy ===== *)
theory Retention
  imports Prelude "HOL-Library.Multiset"
begin

text \<open>
  What a pinner keeps and admits: the history of a document and its thinning (\<open>packages/node/src/history.ts\<close>) and the
  limiters (\<open>rate-limiter.ts\<close>, \<open>new-name-limiter.ts\<close>).  Times are milliseconds.  The strings of the records are those
  of valid CIDs, so that parsing one does not throw.
\<close>

section \<open>The history of a document\<close>

record snapRecord =
  rcid :: cid
  rts :: int

record historyEntry =
  htip :: "snapRecord option"
  snaps :: "snapRecord list"

type_synonym tracker = "(string, historyEntry) omap"

record retentionConfig =
  fullResolutionMs :: int
  hourlyRetentionMs :: int
  dailyRetentionMs :: int

definition DEFAULT_RETENTION_MS :: int where "DEFAULT_RETENTION_MS = 14 * 24 * 60 * 60 * 1000"
definition MS_PER_HOUR :: int where "MS_PER_HOUR = 60 * 60 * 1000"
definition MS_PER_DAY :: int where "MS_PER_DAY = 24 * MS_PER_HOUR"

definition newer_tip :: "snapRecord option \<Rightarrow> snapRecord \<Rightarrow> snapRecord option" where
  "newer_tip t r = (case t of None \<Rightarrow> Some r | Some t0 \<Rightarrow> if rts t0 \<le> rts r then Some r else Some t0)"

definition tracker_add :: "tracker \<Rightarrow> string \<Rightarrow> cid \<Rightarrow> int \<Rightarrow> tracker" where
  "tracker_add T name c ts =
     (let entry = (case map_of T name of Some e \<Rightarrow> e | None \<Rightarrow> \<lparr>htip = None, snaps = []\<rparr>);
          r = \<lparr>rcid = c, rts = ts\<rparr>
      in AList.update name
        (if \<exists>s \<in> set (snaps entry). rcid s = c then entry\<lparr>htip := newer_tip (htip entry) r\<rparr>
         else \<lparr>htip = newer_tip (htip entry) r, snaps = snaps entry @ [r]\<rparr>) T)"

definition is_tip :: "historyEntry \<Rightarrow> snapRecord \<Rightarrow> bool" where
  "is_tip e s \<longleftrightarrow> map_option rcid (htip e) = Some (rcid s)"

definition tracker_prune :: "int \<Rightarrow> tracker \<Rightarrow> int \<Rightarrow> tracker \<times> cid list" where
  "tracker_prune retentionMs T now =
     (let keep = (\<lambda>e s. now - retentionMs \<le> rts s \<or> is_tip e s) in
      (map (\<lambda>(n, e). (n, e\<lparr>snaps := filter (keep e) (snaps e)\<rparr>)) T,
       concat (map (\<lambda>(n, e). map rcid (filter (\<lambda>s. \<not> keep e s) (snaps e))) T)))"

text \<open>The four tiers, and the newest snapshot of every bucket of a tier, the first one of those.\<close>

datatype tier = Full | Hourly | Daily | Prune

definition tier_of :: "retentionConfig \<Rightarrow> int \<Rightarrow> historyEntry \<Rightarrow> snapRecord \<Rightarrow> tier" where
  "tier_of cfg now e s =
     (if is_tip e s then Full
      else let age = now - rts s in
        if age < fullResolutionMs cfg then Full
        else if age < hourlyRetentionMs cfg then Hourly
        else if age < dailyRetentionMs cfg then Daily
        else Prune)"

definition bucket_best :: "int \<Rightarrow> snapRecord list \<Rightarrow> (int, snapRecord) omap" where
  "bucket_best ms ss = foldl (\<lambda>best s. case map_of best (rts s div ms) of
      Some b \<Rightarrow> if rts b < rts s then AList.update (rts s div ms) s best else best
    | None \<Rightarrow> AList.update (rts s div ms) s best) [] ss"

definition thinSnapshots :: "tracker \<Rightarrow> string \<Rightarrow> retentionConfig \<Rightarrow> int \<Rightarrow> tracker \<times> cid list" where
  "thinSnapshots T name cfg now = (case map_of T name of
      None \<Rightarrow> (T, [])
    | Some e \<Rightarrow>
        let tiered = (\<lambda>t. filter (\<lambda>s. tier_of cfg now e s = t) (snaps e));
            hourlyKept = rcid ` snd ` set (bucket_best MS_PER_HOUR (tiered Hourly));
            dailyKept = rcid ` snd ` set (bucket_best MS_PER_DAY (tiered Daily));
            kept = tiered Full @ filter (\<lambda>s. rcid s \<in> hourlyKept) (tiered Hourly) @
              filter (\<lambda>s. rcid s \<in> dailyKept) (tiered Daily);
            removed = filter (\<lambda>s. rcid s \<notin> hourlyKept) (tiered Hourly) @
              filter (\<lambda>s. rcid s \<notin> dailyKept) (tiered Daily) @ tiered Prune
        in (AList.update name (e\<lparr>snaps := kept\<rparr>) T, map rcid removed))"

definition tracker_getTip :: "tracker \<Rightarrow> string \<Rightarrow> cid option" where
  "tracker_getTip T name = (case map_of T name of Some e \<Rightarrow> map_option rcid (htip e) | None \<Rightarrow> None)"

definition getHistory :: "tracker \<Rightarrow> string \<Rightarrow> snapRecord list" where
  "getHistory T name = (case map_of T name of Some e \<Rightarrow> snaps e | None \<Rightarrow> [])"

definition tracker_remove :: "tracker \<Rightarrow> string \<Rightarrow> tracker" where
  "tracker_remove T name = AList.delete name T"

definition loadJSON :: "(string, historyEntry) omap \<Rightarrow> tracker" where
  "loadJSON d = foldl (\<lambda>T (n, e). AList.update n e T) [] d"

section \<open>Sliding windows\<close>

definition in_window :: "int \<Rightarrow> int \<Rightarrow> int list \<Rightarrow> int list" where
  "in_window w now ts = filter (\<lambda>t. now - w < t) ts"

record rateLimits =
  maxSnapshotsPerHour :: nat
  maxBlockSizeBytes :: nat

definition DEFAULT_RATE_LIMITS :: rateLimits where
  "DEFAULT_RATE_LIMITS = \<lparr>maxSnapshotsPerHour = 60, maxBlockSizeBytes = 5000000\<rparr>"

type_synonym limiter = "(string, int list) omap"

definition stamps :: "limiter \<Rightarrow> string \<Rightarrow> int list" where
  "stamps L name = (case map_of L name of Some ts \<Rightarrow> ts | None \<Rightarrow> [])"

definition rate_check :: "rateLimits \<Rightarrow> limiter \<Rightarrow> string \<Rightarrow> nat \<Rightarrow> int \<Rightarrow> limiter \<times> bool" where
  "rate_check cfg L name blockSize now =
     (if maxBlockSizeBytes cfg < blockSize then (L, False)
      else let ts = in_window 3600000 now (stamps L name) in
        (AList.update name ts L, length ts < maxSnapshotsPerHour cfg))"

definition rate_record :: "limiter \<Rightarrow> string \<Rightarrow> int \<Rightarrow> limiter" where
  "rate_record L name now = AList.update name (in_window 3600000 now (stamps L name) @ [now]) L"

definition IP_WINDOW_MS :: int where "IP_WINDOW_MS = 60000"

definition ip_check :: "nat \<Rightarrow> limiter \<Rightarrow> string \<Rightarrow> int \<Rightarrow> limiter \<times> bool" where
  "ip_check rpm L ip now =
     (let ts = in_window IP_WINDOW_MS now (stamps L ip) in (AList.update ip ts L, length ts < rpm))"

definition ip_record :: "limiter \<Rightarrow> string \<Rightarrow> int \<Rightarrow> limiter" where
  "ip_record L ip now = AList.update ip (in_window IP_WINDOW_MS now (stamps L ip) @ [now]) L"

text \<open>The limiter of new names drops what is old at the front.\<close>

definition WINDOW_MS :: int where "WINDOW_MS = 3600000"

record newNames =
  nstamps :: "int list"
  nadmitted :: nat
  nrejected :: nat

definition createNewNameLimiter :: newNames where
  "createNewNameLimiter = \<lparr>nstamps = [], nadmitted = 0, nrejected = 0\<rparr>"

definition tryAdmit :: "nat \<Rightarrow> newNames \<Rightarrow> int \<Rightarrow> newNames \<times> bool" where
  "tryAdmit maxPerHour L now =
     (let ts = dropWhile (\<lambda>t. t \<le> now - WINDOW_MS) (nstamps L) in
      if maxPerHour \<le> length ts then (L\<lparr>nstamps := ts, nrejected := Suc (nrejected L)\<rparr>, False)
      else (L\<lparr>nstamps := ts @ [now], nadmitted := Suc (nadmitted L)\<rparr>, True))"


section \<open>The newest of a bucket\<close>

definition newest :: "snapRecord list \<Rightarrow> snapRecord option" where
  "newest ss = foldl (\<lambda>b s. case b of None \<Rightarrow> Some s | Some x \<Rightarrow> if rts x < rts s then Some s else b) None ss"

lemma newest_snoc:
  "newest (ss @ [s]) = (case newest ss of None \<Rightarrow> Some s | Some x \<Rightarrow> if rts x < rts s then Some s else Some x)"
  by (simp add: newest_def split: option.split)

lemma newest_None [simp]: "newest [] = None" "newest ss = None \<longleftrightarrow> ss = []"
  by (simp add: newest_def) (cases ss rule: rev_cases; simp add: newest_snoc newest_def split: option.split)

lemma newest_Some: "newest ss = Some s \<Longrightarrow> s \<in> set ss \<and> (\<forall>x \<in> set ss. rts x \<le> rts s)"
proof (induction ss arbitrary: s rule: rev_induct)
  case (snoc x xs)
  show ?case
  proof (cases "newest xs")
    case None
    then have "xs = []" by simp
    then show ?thesis using snoc.prems by (simp add: newest_def)
  next
    case (Some y)
    then show ?thesis using snoc.prems snoc.IH [OF Some] by (auto simp: newest_snoc split: if_splits)
  qed
qed simp

lemma bucket_best_of: "map_of (bucket_best ms ss) b = newest (filter (\<lambda>s. rts s div ms = b) ss)"
proof (induction ss rule: rev_induct)
  case (snoc s ss)
  have "bucket_best ms (ss @ [s]) = (case map_of (bucket_best ms ss) (rts s div ms) of
      Some x \<Rightarrow> if rts x < rts s then AList.update (rts s div ms) s (bucket_best ms ss) else bucket_best ms ss
    | None \<Rightarrow> AList.update (rts s div ms) s (bucket_best ms ss))"
    unfolding bucket_best_def foldl_append foldl_Cons foldl_Nil by (rule refl)
  with snoc.IH [symmetric] snoc.IH show ?case
    by (cases "rts s div ms = b") (auto simp: newest_snoc update_conv' split: option.split)
qed (simp add: bucket_best_def)

lemma bucket_best_distinct: "distinct (map fst (bucket_best ms ss))"
  by (induction ss rule: rev_induct) (auto simp: bucket_best_def distinct_update split: option.split)

lemma bucket_best_kept:
  assumes "distinct (map rcid ss)" "s \<in> set ss"
  shows "rcid s \<in> rcid ` snd ` set (bucket_best ms ss) \<longleftrightarrow> newest (filter (\<lambda>x. rts x div ms = rts s div ms) ss) = Some s"
proof
  assume "rcid s \<in> rcid ` snd ` set (bucket_best ms ss)"
  then obtain b x where x: "(b, x) \<in> set (bucket_best ms ss)" "rcid s = rcid x" by auto
  then have n: "newest (filter (\<lambda>x. rts x div ms = b) ss) = Some x"
    using bucket_best_of [of ms ss b] bucket_best_distinct by (metis map_of_is_SomeI)
  have "x \<in> set ss" "rts x div ms = b" using newest_Some [OF n] by auto
  moreover from this have "x = s" using assms x(2) by (metis distinct_map inj_onD)
  ultimately show "newest (filter (\<lambda>x. rts x div ms = rts s div ms) ss) = Some s" using n by simp
next
  assume "newest (filter (\<lambda>x. rts x div ms = rts s div ms) ss) = Some s"
  then have "map_of (bucket_best ms ss) (rts s div ms) = Some s" by (simp add: bucket_best_of)
  from map_of_SomeD [OF this] show "rcid s \<in> rcid ` snd ` set (bucket_best ms ss)" by force
qed

section \<open>What thinning keeps\<close>

definition tier_bucket :: "tier \<Rightarrow> int" where
  "tier_bucket t = (if t = Hourly then MS_PER_HOUR else MS_PER_DAY)"

definition keeps :: "retentionConfig \<Rightarrow> int \<Rightarrow> historyEntry \<Rightarrow> snapRecord \<Rightarrow> bool" where
  "keeps cfg now e s = (let t = tier_of cfg now e s in
     t = Full \<or> (t = Hourly \<or> t = Daily) \<and>
       newest (filter (\<lambda>x. tier_of cfg now e x = t \<and> rts x div tier_bucket t = rts s div tier_bucket t) (snaps e)) = Some s)"

lemma tier_kept:
  assumes "distinct (map rcid (snaps e))" "s \<in> set (snaps e)" "tier_of cfg now e s = t" "t = Hourly \<or> t = Daily"
  shows "rcid s \<in> rcid ` snd ` set (bucket_best (tier_bucket t) (filter (\<lambda>s. tier_of cfg now e s = t) (snaps e))) \<longleftrightarrow>
    keeps cfg now e s"
proof -
  have "distinct (map rcid (filter (\<lambda>s. tier_of cfg now e s = t) (snaps e)))" using assms(1) by (rule distinct_map_filter)
  from bucket_best_kept [OF this, of s "tier_bucket t"] show ?thesis
    using assms(2-4) by (auto simp: keeps_def Let_def conj_commute)
qed

lemma mset_tiers:
  "mset (filter (\<lambda>s. f s = Full) xs) + mset (filter (\<lambda>s. f s = Hourly) xs) + mset (filter (\<lambda>s. f s = Daily) xs) +
    mset (filter (\<lambda>s. f s = Prune) xs) = mset xs"
proof (induction xs)
  case (Cons x xs)
  then show ?case by (cases "f x") auto
qed simp

lemma thin_entry:
  assumes "map_of T name = Some e" "distinct (map rcid (snaps e))"
  shows "\<exists>kept gone. thinSnapshots T name cfg now = (AList.update name (e\<lparr>snaps := kept\<rparr>) T, map rcid gone) \<and>
    mset kept + mset gone = mset (snaps e) \<and> (\<forall>s \<in> set kept. keeps cfg now e s) \<and> (\<forall>s \<in> set gone. \<not> keeps cfg now e s)"
proof -
  define tiered where "tiered t = filter (\<lambda>s. tier_of cfg now e s = t) (snaps e)" for t
  define hk where "hk = rcid ` snd ` set (bucket_best MS_PER_HOUR (tiered Hourly))"
  define dk where "dk = rcid ` snd ` set (bucket_best MS_PER_DAY (tiered Daily))"
  let ?kept = "tiered Full @ filter (\<lambda>s. rcid s \<in> hk) (tiered Hourly) @ filter (\<lambda>s. rcid s \<in> dk) (tiered Daily)"
  let ?gone = "filter (\<lambda>s. rcid s \<notin> hk) (tiered Hourly) @ filter (\<lambda>s. rcid s \<notin> dk) (tiered Daily) @ tiered Prune"
  have "thinSnapshots T name cfg now = (AList.update name (e\<lparr>snaps := ?kept\<rparr>) T, map rcid ?gone)"
    using assms(1) by (simp add: thinSnapshots_def Let_def hk_def dk_def tiered_def)
  moreover have "mset ?kept + mset ?gone = mset (snaps e)"
  proof -
    have p: "mset xs = mset (filter P xs) + mset (filter (\<lambda>x. \<not> P x) xs)" for P and xs :: "snapRecord list"
      by (induction xs) auto
    show ?thesis
      using mset_tiers [of "tier_of cfg now e" "snaps e"] p [of "tiered Hourly" "\<lambda>s. rcid s \<in> hk"]
        p [of "tiered Daily" "\<lambda>s. rcid s \<in> dk"]
      by (simp add: tiered_def ac_simps del: filter_filter mset_filter)
  qed
  moreover have h: "rcid s \<in> hk \<longleftrightarrow> keeps cfg now e s" if "s \<in> set (tiered Hourly)" for s
    using tier_kept [OF assms(2), of s cfg now Hourly] that by (simp add: hk_def tiered_def tier_bucket_def)
  moreover have d: "rcid s \<in> dk \<longleftrightarrow> keeps cfg now e s" if "s \<in> set (tiered Daily)" for s
    using tier_kept [OF assms(2), of s cfg now Daily] that by (simp add: dk_def tiered_def tier_bucket_def)
  moreover have "keeps cfg now e s" if "s \<in> set (tiered Full)" for s using that by (simp add: tiered_def keeps_def)
  moreover have "\<not> keeps cfg now e s" if "s \<in> set (tiered Prune)" for s using that by (simp add: tiered_def keeps_def)
  ultimately show ?thesis by (intro exI [of _ ?kept] exI [of _ ?gone]) auto
qed


section \<open>What the limiters promise\<close>

definition in_hour :: "int \<Rightarrow> int list \<Rightarrow> nat" where
  "in_hour t ts = length (filter (\<lambda>x. t - WINDOW_MS < x \<and> x \<le> t) ts)"

text \<open>A stamp more keeps the bound of every window, when the window that ends with it has room.\<close>

lemma in_hour_snoc:
  assumes "\<forall>t. in_hour t H \<le> m" "\<forall>x \<in> set H. x \<le> now" "length (in_window WINDOW_MS now H) < m"
  shows "in_hour t (H @ [now]) \<le> m"
proof (cases "now \<le> t")
  case True
  have "length (filter (\<lambda>x. t - WINDOW_MS < x \<and> x \<le> t) H) \<le> length (in_window WINDOW_MS now H)"
    unfolding in_window_def using True by (induction H) auto
  then show ?thesis using assms(3) by (simp add: in_hour_def)
next
  case False
  then show ?thesis using assms(1) by (simp add: in_hour_def)
qed

lemma in_window_window: "c \<le> now - w \<Longrightarrow> in_window w now (filter (\<lambda>t. c < t) H) = in_window w now H"
  by (auto simp: in_window_def intro!: filter_cong)

lemma dropWhile_sorted: "sorted H \<Longrightarrow> dropWhile (\<lambda>t. t \<le> c) H = filter (\<lambda>t. c < t) (H :: int list)"
proof (induction H)
  case (Cons a H)
  show ?case
  proof (cases "a \<le> c")
    case False
    then have "\<forall>x \<in> set H. c < x" using Cons.prems by auto
    then have "filter (\<lambda>t. c < t) H = H" by (simp add: filter_id_conv)
    then show ?thesis using False by simp
  qed (use Cons in simp)
qed simp

fun admitted_times :: "nat \<Rightarrow> newNames \<Rightarrow> int list \<Rightarrow> int list" where
  "admitted_times m L [] = []"
| "admitted_times m L (t # ts) =
     (case tryAdmit m L t of (L', ok) \<Rightarrow> (if ok then [t] else []) @ admitted_times m L' ts)"

lemma admitted_bound:
  assumes "nstamps L = filter (\<lambda>x. c < x) H" "sorted (H @ ts)" "ts \<noteq> [] \<longrightarrow> c \<le> hd ts - WINDOW_MS"
    and "\<forall>t. in_hour t H \<le> m"
  shows "in_hour t (H @ admitted_times m L ts) \<le> m"
  using assms
proof (induction ts arbitrary: L H c)
  case (Cons now ts)
  let ?old = "in_window WINDOW_MS now H"
  have c: "c \<le> now - WINDOW_MS" using Cons.prems(3) by simp
  have "sorted (filter (\<lambda>x. c < x) H)" using Cons.prems(2) by (simp add: sorted_append sorted_filter [where f = id, simplified])
  then have old: "dropWhile (\<lambda>t. t \<le> now - WINDOW_MS) (nstamps L) = ?old"
    using in_window_window [OF c, of H] by (simp add: Cons.prems(1) dropWhile_sorted in_window_def)
  have H: "\<forall>x \<in> set H. x \<le> now" "sorted (H @ ts)" "sorted ((H @ [now]) @ ts)" "ts \<noteq> [] \<longrightarrow> now \<le> hd ts"
    using Cons.prems(2) by (auto simp: sorted_append)
  have W: "(0 :: int) < WINDOW_MS" by (simp add: WINDOW_MS_def)
  show ?case
  proof (cases "m \<le> length ?old")
    case True
    then have "tryAdmit m L now = (L\<lparr>nstamps := ?old, nrejected := Suc (nrejected L)\<rparr>, False)"
      by (simp add: tryAdmit_def Let_def old)
    moreover have "in_hour t (H @ admitted_times m (L\<lparr>nstamps := ?old, nrejected := Suc (nrejected L)\<rparr>) ts) \<le> m"
      using H Cons.prems(4) by (intro Cons.IH [of _ "now - WINDOW_MS"]) (auto simp: in_window_def)
    ultimately show ?thesis by simp
  next
    case False
    let ?L = "L\<lparr>nstamps := ?old @ [now], nadmitted := Suc (nadmitted L)\<rparr>"
    have "tryAdmit m L now = (?L, True)" using False by (simp add: tryAdmit_def Let_def old)
    moreover have "in_hour t ((H @ [now]) @ admitted_times m ?L ts) \<le> m"
    proof (rule Cons.IH [of _ "now - WINDOW_MS"])
      show "\<forall>t. in_hour t (H @ [now]) \<le> m" using in_hour_snoc [OF Cons.prems(4) H(1)] False by simp
    qed (use H W in \<open>auto simp: in_window_def\<close>)
    ultimately show ?thesis by simp
  qed
qed simp

text \<open>A pinner checks, and records when the check allowed it.\<close>

fun accepted :: "rateLimits \<Rightarrow> limiter \<Rightarrow> (string \<times> nat \<times> int) list \<Rightarrow> (string \<times> nat \<times> int) list" where
  "accepted cfg L [] = []"
| "accepted cfg L ((name, sz, now) # rs) =
     (case rate_check cfg L name sz now of (L', ok) \<Rightarrow>
        if ok then (name, sz, now) # accepted cfg (rate_record L' name now) rs else accepted cfg L' rs)"

definition times_of :: "string \<Rightarrow> (string \<times> nat \<times> int) list \<Rightarrow> int list" where
  "times_of name rs = map (snd \<circ> snd) (filter (\<lambda>r. fst r = name) rs)"

lemma stamps_update: "stamps (AList.update n ts L) m = (if m = n then ts else stamps L m)"
  by (simp add: stamps_def update_conv')

lemma in_window_twice: "in_window w now (in_window w now ts) = in_window w now ts"
  by (simp add: in_window_def)

lemma accepted_bound:
  assumes "\<forall>n. \<exists>c. stamps L n = filter (\<lambda>x. c < x) (times_of n H) \<and> (\<forall>r \<in> set rs. c \<le> snd (snd r) - WINDOW_MS)"
    and "sorted (map (snd \<circ> snd) (H @ rs))" "\<forall>n t. in_hour t (times_of n H) \<le> maxSnapshotsPerHour cfg"
  shows "in_hour t (times_of n (H @ accepted cfg L rs)) \<le> maxSnapshotsPerHour cfg"
  using assms
proof (induction rs arbitrary: L H)
  case (Cons r rs)
  obtain name sz now where r: "r = (name, sz, now)" by (cases r)
  have later: "\<forall>r \<in> set rs. now \<le> snd (snd r)" and H: "\<forall>x \<in> set (times_of k H). x \<le> now" for k
    using Cons.prems(2) by (auto simp: r sorted_append times_of_def)
  have W: "(3600000 :: int) = WINDOW_MS" by (simp add: WINDOW_MS_def)
  obtain c where c: "stamps L name = filter (\<lambda>x. c < x) (times_of name H)" "c \<le> now - WINDOW_MS"
    using Cons.prems(1) by (auto simp: r)
  let ?old = "in_window WINDOW_MS now (times_of name H)"
  have old: "in_window 3600000 now (stamps L name) = ?old" using in_window_window [OF c(2)] by (simp add: c(1) W)
  have step: "\<exists>c. stamps (AList.update name ?old L) k = filter (\<lambda>x. c < x) (times_of k H) \<and>
      (\<forall>r \<in> set rs. c \<le> snd (snd r) - WINDOW_MS)" for k
    using Cons.prems(1) later by (cases "k = name") (fastforce simp: stamps_update in_window_def)+
  show ?case
  proof (cases "sz \<le> maxBlockSizeBytes cfg \<and> length ?old < maxSnapshotsPerHour cfg")
    case True
    let ?L = "rate_record (AList.update name ?old L) name now"
    have acc: "accepted cfg L (r # rs) = r # accepted cfg ?L rs" using True by (simp add: r rate_check_def Let_def old)
    have times: "times_of k (H @ [r]) = (if k = name then times_of k H @ [now] else times_of k H)" for k
      by (simp add: times_of_def r)
    have "\<exists>c. stamps ?L k = filter (\<lambda>x. c < x) (times_of k (H @ [r])) \<and> (\<forall>r \<in> set rs. c \<le> snd (snd r) - WINDOW_MS)" for k
    proof (cases "k = name")
      case True
      have "stamps ?L name = ?old @ [now]" by (simp add: rate_record_def stamps_update in_window_twice W)
      then show ?thesis using later True by (intro exI [of _ "now - WINDOW_MS"]) (auto simp: times in_window_def WINDOW_MS_def)
    next
      case False
      then show ?thesis using step [of k] by (simp add: times rate_record_def stamps_update)
    qed
    moreover have "\<forall>k t. in_hour t (times_of k (H @ [r])) \<le> maxSnapshotsPerHour cfg"
      using Cons.prems(3) in_hour_snoc [of "times_of name H", OF _ H] True by (simp add: times)
    ultimately have "in_hour t (times_of n ((H @ [r]) @ accepted cfg ?L rs)) \<le> maxSnapshotsPerHour cfg"
      using Cons.prems(2) by (intro Cons.IH) simp_all
    then show ?thesis by (simp add: acc)
  next
    case False
    then have "accepted cfg L (r # rs) = accepted cfg L rs \<or> accepted cfg L (r # rs) = accepted cfg (AList.update name ?old L) rs"
      by (auto simp: r rate_check_def Let_def old)
    moreover have "in_hour t (times_of n (H @ accepted cfg L rs)) \<le> maxSnapshotsPerHour cfg"
      using Cons.prems by (intro Cons.IH) (auto simp: sorted_append)
    moreover have "in_hour t (times_of n (H @ accepted cfg (AList.update name ?old L) rs)) \<le> maxSnapshotsPerHour cfg"
      using Cons.prems(2,3) step by (intro Cons.IH) (auto simp: sorted_append)
    ultimately show ?thesis by presburger
  qed
qed simp


section \<open>Histories stay sound\<close>

text \<open>No snapshot twice; the tip is one of them and none is newer than it.\<close>

definition history_ok :: "historyEntry \<Rightarrow> bool" where
  "history_ok e \<longleftrightarrow> distinct (map rcid (snaps e)) \<and> (case htip e of
      None \<Rightarrow> snaps e = []
    | Some t \<Rightarrow> rcid t \<in> rcid ` set (snaps e) \<and> (\<forall>s \<in> set (snaps e). rts s \<le> rts t))"

definition tracker_ok :: "tracker \<Rightarrow> bool" where
  "tracker_ok T \<longleftrightarrow> distinct (map fst T) \<and> (\<forall>p \<in> set T. history_ok (snd p))"

datatype tracker_op = AddSnap string cid int | PruneAll int int | Thin string retentionConfig int | Forget string

fun tracker_step :: "tracker \<Rightarrow> tracker_op \<Rightarrow> tracker" where
  "tracker_step T (AddSnap n c ts) = tracker_add T n c ts"
| "tracker_step T (PruneAll retentionMs now) = fst (tracker_prune retentionMs T now)"
| "tracker_step T (Thin n cfg now) = fst (thinSnapshots T n cfg now)"
| "tracker_step T (Forget n) = tracker_remove T n"

lemma tracker_okD: "tracker_ok T \<Longrightarrow> map_of T n = Some e \<Longrightarrow> history_ok e"
  by (fastforce simp: tracker_ok_def dest: map_of_SomeD)

lemma tracker_ok_update: "tracker_ok T \<Longrightarrow> history_ok e \<Longrightarrow> tracker_ok (AList.update n e T)"
  using update_all [of T "\<lambda>p. history_ok (snd p)"] by (simp add: tracker_ok_def distinct_update)

lemma history_ok_add:
  assumes "history_ok e"
  shows "history_ok (if \<exists>s \<in> set (snaps e). rcid s = c then e\<lparr>htip := newer_tip (htip e) \<lparr>rcid = c, rts = ts\<rparr>\<rparr>
         else \<lparr>htip = newer_tip (htip e) \<lparr>rcid = c, rts = ts\<rparr>, snaps = snaps e @ [\<lparr>rcid = c, rts = ts\<rparr>]\<rparr>)"
proof (cases "htip e")
  case None
  then have "snaps e = []" using assms by (simp add: history_ok_def)
  then show ?thesis by (simp add: history_ok_def newer_tip_def None)
next
  case (Some t)
  then have t: "distinct (map rcid (snaps e))" "rcid t \<in> rcid ` set (snaps e)" "\<forall>s \<in> set (snaps e). rts s \<le> rts t"
    using assms by (simp_all add: history_ok_def)
  show ?thesis
  proof (cases "\<exists>s \<in> set (snaps e). rcid s = c")
    case True
    then show ?thesis using t by (force simp: history_ok_def newer_tip_def Some)
  next
    case False
    then show ?thesis using t by (force simp: history_ok_def newer_tip_def Some)
  qed
qed

lemma history_ok_filter:
  assumes "history_ok e" "\<And>s. is_tip e s \<Longrightarrow> P s"
  shows "history_ok (e\<lparr>snaps := filter P (snaps e)\<rparr>)"
proof (cases "htip e")
  case (Some t)
  then obtain s where s: "s \<in> set (snaps e)" "rcid s = rcid t" using assms(1) by (auto simp: history_ok_def)
  then have "s \<in> set (filter P (snaps e))" using assms(2) [of s] by (simp add: is_tip_def Some)
  then have "rcid t \<in> rcid ` set (filter P (snaps e))" unfolding s(2) [symmetric] by (rule imageI)
  then show ?thesis using assms(1) by (simp add: history_ok_def Some distinct_map_filter)
qed (use assms(1) in \<open>simp add: history_ok_def\<close>)

lemma keeps_tip: "is_tip e s \<Longrightarrow> keeps cfg now e s"
  by (simp add: keeps_def tier_of_def)

lemma history_ok_thin:
  assumes "history_ok e" "mset kept + mset gone = mset (snaps e)" "\<forall>s \<in> set gone. \<not> keeps cfg now e s"
  shows "history_ok (e\<lparr>snaps := kept\<rparr>)"
proof -
  have sub: "set kept \<union> set gone = set (snaps e)" using arg_cong [OF assms(2), of set_mset] by simp
  have "mset (map rcid (snaps e)) = mset (map rcid kept) + mset (map rcid gone)"
    using arg_cong [OF assms(2), of "image_mset rcid"] by simp
  then have "distinct (map rcid (snaps e)) \<longleftrightarrow> distinct (map rcid (kept @ gone))"
    by (metis map_append mset_append mset_eq_imp_distinct_iff)
  then have d: "distinct (map rcid kept)" if "distinct (map rcid (snaps e))" using that by simp
  show ?thesis
  proof (cases "htip e")
    case (Some t)
    then obtain s where "s \<in> set (snaps e)" "rcid s = rcid t" using assms(1) by (auto simp: history_ok_def)
    moreover from this have "keeps cfg now e s" by (intro keeps_tip) (simp add: is_tip_def Some)
    ultimately have "rcid t \<in> rcid ` set kept" using sub assms(3) by (metis UnE image_eqI)
    then show ?thesis using assms(1) sub d by (auto simp: history_ok_def Some)
  next
    case None
    then have "kept = []" using assms(1) sub by (auto simp: history_ok_def)
    then show ?thesis by (simp add: history_ok_def None)
  qed
qed

lemma tracker_step_ok: "tracker_ok T \<Longrightarrow> tracker_ok (tracker_step T op)"
proof (cases op)
  case (AddSnap n c ts)
  assume T: "tracker_ok T"
  have "history_ok (case map_of T n of Some e \<Rightarrow> e | None \<Rightarrow> \<lparr>htip = None, snaps = []\<rparr>)"
    by (cases "map_of T n") (simp add: history_ok_def, simp add: tracker_okD [OF T])
  from history_ok_add [OF this] show ?thesis using tracker_ok_update [OF T] by (simp add: AddSnap tracker_add_def Let_def)
next
  case (PruneAll r now)
  assume T: "tracker_ok T"
  have "map fst (fst (tracker_prune r T now)) = map fst T" by (simp add: tracker_prune_def Let_def case_prod_beta comp_def)
  moreover have "\<forall>p \<in> set (fst (tracker_prune r T now)). history_ok (snd p)"
    using T history_ok_filter by (fastforce simp: tracker_prune_def Let_def tracker_ok_def)
  ultimately show ?thesis using T by (simp add: PruneAll tracker_ok_def)
next
  case (Thin n cfg now)
  assume T: "tracker_ok T"
  show ?thesis
  proof (cases "map_of T n")
    case None
    then show ?thesis using T by (simp add: Thin thinSnapshots_def)
  next
    case (Some e)
    have ok: "history_ok e" by (rule tracker_okD [OF T Some])
    then have "distinct (map rcid (snaps e))" by (simp add: history_ok_def)
    from thin_entry [OF Some this, of cfg now] show ?thesis
      using tracker_ok_update [OF T] history_ok_thin [OF ok] by (auto simp: Thin)
  qed
next
  case (Forget n)
  assume "tracker_ok T"
  then show ?thesis using delete_all [of T "\<lambda>p. history_ok (snd p)"]
    by (simp add: Forget tracker_remove_def tracker_ok_def distinct_delete)
qed

interpretation histories: inv_machine "[]" tracker_step tracker_ok
  by unfold_locales (simp add: tracker_ok_def, rule tracker_step_ok)

section \<open>Properties\<close>

text \<open>
  C33: after any additions, prunings, thinnings and removals, a thinning keeps of a document exactly the tip, every snapshot
  younger than the full resolution, and the newest one of every hour and of every day of the next two tiers; it removes
  every other one, each once, and touches no other document.  The tip stays, and it is never older than another one.
\<close>

theorem thinning_exact:
  assumes "T = foldl tracker_step [] ops" "map_of T name = Some e" "thinSnapshots T name cfg now = (T', removed)"
  shows "\<exists>e'. map_of T' name = Some e' \<and> htip e' = htip e \<and> history_ok e' \<and>
    set (snaps e') = {s \<in> set (snaps e). keeps cfg now e s} \<and>
    set removed = rcid ` {s \<in> set (snaps e). \<not> keeps cfg now e s} \<and> distinct (map rcid (snaps e') @ removed) \<and>
    (\<forall>n. n \<noteq> name \<longrightarrow> map_of T' n = map_of T n)"
proof -
  have T: "tracker_ok T" unfolding assms(1) by (rule histories.inv_run)
  have ok: "history_ok e" by (rule tracker_okD [OF T assms(2)])
  then have d: "distinct (map rcid (snaps e))" by (simp add: history_ok_def)
  obtain kept gone where kg: "T' = AList.update name (e\<lparr>snaps := kept\<rparr>) T" "removed = map rcid gone"
    "mset kept + mset gone = mset (snaps e)" "\<forall>s \<in> set kept. keeps cfg now e s" "\<forall>s \<in> set gone. \<not> keeps cfg now e s"
    using thin_entry [OF assms(2) d, of cfg now] assms(3) by auto
  have "set (snaps e) = set kept \<union> set gone" using arg_cong [OF kg(3), of set_mset] by simp
  moreover have "mset (map rcid (kept @ gone)) = mset (map rcid (snaps e))"
    using arg_cong [OF kg(3), of "image_mset rcid"] by simp
  then have "distinct (map rcid (kept @ gone))" using d mset_eq_imp_distinct_iff by blast
  ultimately show ?thesis using kg history_ok_thin [OF ok kg(3,5)]
    by (intro exI [of _ "e\<lparr>snaps := kept\<rparr>"]) (auto simp: update_conv')
qed

definition sample_cfg :: retentionConfig where
  "sample_cfg = \<lparr>fullResolutionMs = 10, hourlyRetentionMs = 10000000, dailyRetentionMs = 20000000\<rparr>"

theorem thinning_exact_witness:
  "let T = foldl tracker_step [] [AddSnap ''n'' ''a'' 1000, AddSnap ''n'' ''b'' 2000, AddSnap ''n'' ''c'' 9000000] in
   \<exists>e'. map_of (fst (thinSnapshots T ''n'' sample_cfg 9000100)) ''n'' = Some e' \<and> rcid ` set (snaps e') = {''b'', ''c''}"
proof -
  let ?T = "foldl tracker_step [] [AddSnap ''n'' ''a'' 1000, AddSnap ''n'' ''b'' 2000, AddSnap ''n'' ''c'' 9000000]"
  let ?s = "\<lambda>c t. \<lparr>rcid = c, rts = t\<rparr>"
  let ?e = "\<lparr>htip = Some (?s ''c'' 9000000), snaps = [?s ''a'' 1000, ?s ''b'' 2000, ?s ''c'' 9000000]\<rparr>"
  have e: "map_of ?T ''n'' = Some ?e" by (simp add: tracker_add_def newer_tip_def Let_def)
  have t: "tier_of sample_cfg 9000100 ?e (?s ''a'' 1000) = Hourly" "tier_of sample_cfg 9000100 ?e (?s ''b'' 2000) = Hourly"
    "tier_of sample_cfg 9000100 ?e (?s ''c'' 9000000) = Full"
    by (simp_all add: tier_of_def is_tip_def sample_cfg_def)
  have "keeps sample_cfg 9000100 ?e (?s ''c'' 9000000)" unfolding keeps_def Let_def t by simp
  moreover have "filter (\<lambda>x. tier_of sample_cfg 9000100 ?e x = Hourly \<and> rts x div tier_bucket Hourly = 0) (snaps ?e) =
      [?s ''a'' 1000, ?s ''b'' 2000]"
    using t by (simp add: tier_bucket_def MS_PER_HOUR_def)
  then have "keeps sample_cfg 9000100 ?e (?s ''b'' 2000)" "\<not> keeps sample_cfg 9000100 ?e (?s ''a'' 1000)"
    unfolding keeps_def Let_def t by (simp_all add: tier_bucket_def MS_PER_HOUR_def newest_def)
  ultimately have "{s \<in> set (snaps ?e). keeps sample_cfg 9000100 ?e s} = {?s ''b'' 2000, ?s ''c'' 9000000}"
    by (simp add: set_eq_iff) blast
  moreover obtain e' where e': "map_of (fst (thinSnapshots ?T ''n'' sample_cfg 9000100)) ''n'' = Some e'"
    "set (snaps e') = {s \<in> set (snaps ?e). keeps sample_cfg 9000100 ?e s}"
    using thinning_exact [OF refl e surjective_pairing, of sample_cfg 9000100] by blast
  ultimately have "rcid ` set (snaps e') = {''b'', ''c''}" by simp
  then show ?thesis unfolding Let_def using e'(1) by blast
qed

text \<open>
  No limiter admits more than its limit in any hour, on any sequence of requests in the order of time: not the limiter
  of new names, and not the limiter of one document, which also refuses every block over the size limit.
\<close>

theorem limiters_hold:
  assumes "sorted ts" "sorted (map (snd \<circ> snd) rs)"
  shows "(\<forall>t. in_hour t (admitted_times m createNewNameLimiter ts) \<le> m) \<and>
    (\<forall>name t. in_hour t (times_of name (accepted cfg [] rs)) \<le> maxSnapshotsPerHour cfg) \<and>
    (\<forall>r \<in> set (accepted cfg [] rs). fst (snd r) \<le> maxBlockSizeBytes cfg)"
proof (intro conjI)
  have "in_hour t ([] @ admitted_times m createNewNameLimiter ts) \<le> m" for t
    by (rule admitted_bound [where c = "hd ts - WINDOW_MS"]) (simp_all add: createNewNameLimiter_def in_hour_def assms(1))
  then show "\<forall>t. in_hour t (admitted_times m createNewNameLimiter ts) \<le> m" by simp
  have "\<exists>c :: int. \<forall>r \<in> set rs. c \<le> snd (snd r) - WINDOW_MS" for rs :: "(string \<times> nat \<times> int) list"
  proof (cases rs)
    case Nil
    then show ?thesis by simp
  next
    case Cons
    then show ?thesis
      by (intro exI [of _ "Min ((\<lambda>r. snd (snd r) - WINDOW_MS) ` set rs)"]) simp
  qed
  then show "\<forall>name t. in_hour t (times_of name (accepted cfg [] rs)) \<le> maxSnapshotsPerHour cfg"
    using accepted_bound [of "[]" "[]" rs cfg] assms(2) by (simp add: stamps_def times_of_def in_hour_def)
  have "r \<in> set (accepted cfg L rs) \<Longrightarrow> fst (snd r) \<le> maxBlockSizeBytes cfg" for r L
    by (induction rs arbitrary: L) (auto simp: rate_check_def Let_def split: if_splits prod.splits)
  then show "\<forall>r \<in> set (accepted cfg [] rs). fst (snd r) \<le> maxBlockSizeBytes cfg" by blast
qed

theorem limiters_hold_witness:
  "in_hour 5 (admitted_times 2 createNewNameLimiter [1, 2, 3, 4]) \<le> 2 \<and> admitted_times 2 createNewNameLimiter [1, 2, 3, 4] = [1, 2] \<and>
   in_hour 9 (times_of ''n'' (accepted DEFAULT_RATE_LIMITS [] [(''n'', 7, 3), (''n'', 6000000, 4)])) \<le> 60"
proof -
  have "sorted [1, 2, 3, 4 :: int]" "sorted (map (snd \<circ> snd) [(''n'', 7 :: nat, 3 :: int), (''n'', 6000000, 4)])" by simp_all
  note l = limiters_hold [OF this]
  have "in_hour 5 (admitted_times 2 createNewNameLimiter [1, 2, 3, 4]) \<le> 2" using l by blast
  moreover have "in_hour 9 (times_of ''n'' (accepted DEFAULT_RATE_LIMITS [] [(''n'', 7, 3), (''n'', 6000000, 4)])) \<le>
      maxSnapshotsPerHour DEFAULT_RATE_LIMITS" using l by blast
  ultimately show ?thesis by (simp add: createNewNameLimiter_def tryAdmit_def WINDOW_MS_def DEFAULT_RATE_LIMITS_def)
qed

end
