(* ===== verification/Schedule_Heap.thy ===== *)
theory Schedule_Heap
  imports Complex_Main Prelude "HOL-Library.Multiset"
begin

text \<open>
  The binary min-heap of a pinner's re-announcements (\<open>packages/node/src/pinner.ts\<close>, \<open>heapPush\<close>, \<open>heapPop\<close>,
  \<open>heapPeek\<close>): an array, with the times as real numbers.  The contract of a queue of scheduled documents is the locale
  \<open>schedule_queue\<close>, the heap provides it.
\<close>

record scheduledDoc =
  sname :: string
  nextAt :: real

definition parent :: "nat \<Rightarrow> nat" where "parent i = (i - 1) div 2"

abbreviation swap :: "scheduledDoc list \<Rightarrow> nat \<Rightarrow> nat \<Rightarrow> scheduledDoc list" where
  "swap h i j \<equiv> h[i := h ! j, j := h ! i]"

function sift_up :: "scheduledDoc list \<Rightarrow> nat \<Rightarrow> scheduledDoc list" where
  "sift_up h i = (if i = 0 then h
     else if nextAt (h ! parent i) \<le> nextAt (h ! i) then h
     else sift_up (swap h (parent i) i) (parent i))"
  by pat_completeness auto
termination by (relation "measure snd") (auto simp: parent_def)

definition heapPush :: "scheduledDoc list \<Rightarrow> scheduledDoc \<Rightarrow> scheduledDoc list" where
  "heapPush h doc = sift_up (h @ [doc]) (length h)"

definition smallest_child :: "scheduledDoc list \<Rightarrow> nat \<Rightarrow> nat" where
  "smallest_child h i =
     (let l = 2 * i + 1; r = 2 * i + 2;
          s = (if l < length h \<and> nextAt (h ! l) < nextAt (h ! i) then l else i)
      in if r < length h \<and> nextAt (h ! r) < nextAt (h ! s) then r else s)"

function sift_down :: "scheduledDoc list \<Rightarrow> nat \<Rightarrow> scheduledDoc list" where
  "sift_down h i = (let s = smallest_child h i in if s = i then h else sift_down (swap h i s) s)"
  by pat_completeness auto
termination by (relation "measure (\<lambda>(h, i). length h - i)") (auto simp: smallest_child_def Let_def split: if_splits)

declare sift_up.simps [simp del] sift_down.simps [simp del]

definition heapPop :: "scheduledDoc list \<Rightarrow> scheduledDoc list \<times> scheduledDoc option" where
  "heapPop h = (if h = [] then (h, None)
     else let h1 = butlast h in
       (if h1 = [] then h1 else sift_down (h1[0 := last h]) 0, Some (h ! 0)))"

definition heapPeek :: "scheduledDoc list \<Rightarrow> scheduledDoc option" where
  "heapPeek h = (if h = [] then None else Some (h ! 0))"

section \<open>The heap order\<close>

definition heap_ok :: "scheduledDoc list \<Rightarrow> bool" where
  "heap_ok h \<longleftrightarrow> (\<forall>j < length h. 0 < j \<longrightarrow> nextAt (h ! parent j) \<le> nextAt (h ! j))"

text \<open>The order but for one place: above it when sifting up, below it when sifting down.\<close>

definition ok_above :: "scheduledDoc list \<Rightarrow> nat \<Rightarrow> bool" where
  "ok_above h i \<longleftrightarrow> (\<forall>j < length h. 0 < j \<and> j \<noteq> i \<longrightarrow> nextAt (h ! parent j) \<le> nextAt (h ! j)) \<and>
     (0 < i \<longrightarrow> (\<forall>j < length h. 0 < j \<and> parent j = i \<longrightarrow> nextAt (h ! parent i) \<le> nextAt (h ! j)))"

definition ok_below :: "scheduledDoc list \<Rightarrow> nat \<Rightarrow> bool" where
  "ok_below h i \<longleftrightarrow> (\<forall>j < length h. 0 < j \<and> parent j \<noteq> i \<longrightarrow> nextAt (h ! parent j) \<le> nextAt (h ! j)) \<and>
     (0 < i \<longrightarrow> (\<forall>j < length h. 0 < j \<and> parent j = i \<longrightarrow> nextAt (h ! parent i) \<le> nextAt (h ! j)))"

lemma parent_less [simp]: "0 < i \<Longrightarrow> parent i < i"
  by (simp add: parent_def)

lemma parent_child: "parent j = i \<and> 0 < j \<longleftrightarrow> j = 2 * i + 1 \<or> j = 2 * i + 2"
  by (auto simp: parent_def)

lemma mset_swap_list: "i < length h \<Longrightarrow> j < length h \<Longrightarrow> mset (swap h i j) = mset h"
  by (rule mset_swap)

lemma swap_above:
  assumes "ok_above h i" "0 < i" "i < length h" "nextAt (h ! i) < nextAt (h ! parent i)"
  shows "ok_above (swap h (parent i) i) (parent i)"
proof -
  let ?p = "parent i" and ?h = "swap h (parent i) i"
  have p: "?p < i" "?p < length h" using assms(2,3) less_trans [OF parent_less] by auto
  have at: "?h ! i = h ! ?p" "?h ! ?p = h ! i" "\<And>j. j \<noteq> i \<Longrightarrow> j \<noteq> ?p \<Longrightarrow> ?h ! j = h ! j"
    using p assms(3) by auto
  have up: "nextAt (h ! parent j) \<le> nextAt (h ! j)" if "j < length h" "0 < j" "j \<noteq> i" for j
    using assms(1) that by (simp add: ok_above_def)
  have sub: "nextAt (h ! ?p) \<le> nextAt (h ! j)" if "j < length h" "0 < j" "parent j = i" for j
    using assms(1,2) that by (simp add: ok_above_def)
  have "nextAt (?h ! parent j) \<le> nextAt (?h ! j)" if j: "j < length h" "0 < j" "j \<noteq> ?p" for j
  proof (cases "j = i")
    case True
    then show ?thesis using at assms(4) by simp
  next
    case False
    then show ?thesis using j at up [of j] sub [of j] assms(4) by (cases "parent j = i"; cases "parent j = ?p") auto
  qed
  moreover have "nextAt (?h ! parent ?p) \<le> nextAt (?h ! j)" if j: "j < length h" "0 < j" "parent j = ?p" "0 < ?p" for j
  proof -
    have pp: "parent ?p < ?p" using j(4) by (rule parent_less)
    then have "parent ?p \<noteq> i" "parent ?p \<noteq> ?p" using p(1) by linarith+
    note pq = at(3) [OF this]
    have "nextAt (h ! parent ?p) \<le> nextAt (h ! ?p)" using up [of ?p] p j(4) by simp
    then show ?thesis using j pq at up [of j] p parent_less [of j] by (cases "j = i") auto
  qed
  ultimately show ?thesis by (simp add: ok_above_def)
qed

lemma sift_up_ok:
  assumes "ok_above h i" "i < length h"
  shows "heap_ok (sift_up h i) \<and> mset (sift_up h i) = mset h"
  using assms
proof (induction h i rule: sift_up.induct)
  case (1 h i)
  show ?case
  proof (cases "i = 0 \<or> nextAt (h ! parent i) \<le> nextAt (h ! i)")
    case True
    then show ?thesis using "1.prems" by (auto simp: sift_up.simps [of h i] ok_above_def heap_ok_def)
  next
    case False
    then have i: "i \<noteq> 0" "\<not> nextAt (h ! parent i) \<le> nextAt (h ! i)" by simp_all
    have p: "parent i < length h" using i(1) "1.prems"(2) less_trans [OF parent_less] by simp
    have "heap_ok (sift_up (swap h (parent i) i) (parent i)) \<and>
        mset (sift_up (swap h (parent i) i) (parent i)) = mset (swap h (parent i) i)"
      using "1.IH" [OF i] swap_above [of h i] "1.prems" i p by simp
    then show ?thesis using i mset_swap_list [OF p "1.prems"(2)] by (simp add: sift_up.simps [of h i])
  qed
qed

lemma parent_of_child [simp]: "parent (Suc (2 * i)) = i" "parent (Suc (Suc (2 * i))) = i"
  by (simp_all add: parent_def)

lemma smallest_child_less:
  "smallest_child h i \<noteq> i \<Longrightarrow> 0 < smallest_child h i \<and> parent (smallest_child h i) = i \<and> smallest_child h i < length h \<and>
     nextAt (h ! smallest_child h i) < nextAt (h ! i)"
  by (simp add: smallest_child_def Let_def split: if_splits)

lemma smallest_child_least:
  assumes "j < length h" "0 < j" "parent j = i"
  shows "nextAt (h ! smallest_child h i) \<le> nextAt (h ! j)"
proof -
  have "j = 2 * i + 1 \<or> j = 2 * i + 2" using assms(2,3) parent_child by blast
  then show ?thesis using assms(1) by (elim disjE) (simp_all add: smallest_child_def Let_def)
qed

lemmas smallest_child_cases = smallest_child_less smallest_child_least

lemma swap_below:
  assumes "ok_below h i" "i < length h" "smallest_child h i = s" "s \<noteq> i"
  shows "ok_below (swap h i s) s"
proof -
  let ?h = "swap h i s"
  have s: "0 < s" "parent s = i" "s < length h" "nextAt (h ! s) < nextAt (h ! i)"
    using smallest_child_cases(1) [of h i] assms(3,4) by auto
  have at: "?h ! i = h ! s" "?h ! s = h ! i" "\<And>j. j \<noteq> i \<Longrightarrow> j \<noteq> s \<Longrightarrow> ?h ! j = h ! j"
    using assms(2,4) s by auto
  have up: "nextAt (h ! parent j) \<le> nextAt (h ! j)" if "j < length h" "0 < j" "parent j \<noteq> i" for j
    using assms(1) that by (simp add: ok_below_def)
  have sub: "nextAt (h ! parent i) \<le> nextAt (h ! j)" if "j < length h" "0 < j" "parent j = i" "0 < i" for j
    using assms(1) that by (simp add: ok_below_def)
  have small: "nextAt (h ! s) \<le> nextAt (h ! j)" if "j < length h" "0 < j" "parent j = i" for j
    using smallest_child_cases(2) [of j h i] that assms(3) by simp
  have "nextAt (?h ! parent j) \<le> nextAt (?h ! j)" if j: "j < length h" "0 < j" "parent j \<noteq> s" for j
  proof (cases "parent j = i")
    case True
    then show ?thesis using j at s small [of j] parent_less [of j] by (cases "j = s") auto
  next
    case False
    then have "j \<noteq> s" using s(2) by auto
    then show ?thesis using j False at up [of j] sub [of s] s(1-3) by (cases "j = i") auto
  qed
  moreover have "nextAt (?h ! parent s) \<le> nextAt (?h ! j)" if j: "j < length h" "0 < j" "parent j = s" for j
  proof -
    have "j \<noteq> s" "j \<noteq> i" using j parent_less [of j] parent_less [of s] s(1,2) by auto
    then show ?thesis using up [of j] j at s(2) assms(4) by simp
  qed
  ultimately show ?thesis by (simp add: ok_below_def)
qed

lemma sift_down_ok:
  assumes "ok_below h i" "i < length h"
  shows "heap_ok (sift_down h i) \<and> mset (sift_down h i) = mset h"
  using assms
proof (induction h i rule: sift_down.induct)
  case (1 h i)
  let ?s = "smallest_child h i"
  show ?case
  proof (cases "?s = i")
    case True
    then have "nextAt (h ! parent j) \<le> nextAt (h ! j)" if "j < length h" "0 < j" for j
      using that smallest_child_cases(2) [of j h i] "1.prems"(1) by (cases "parent j = i") (auto simp: ok_below_def)
    then show ?thesis using True by (simp add: sift_down.simps [of h i] heap_ok_def)
  next
    case False
    then have s: "?s < length h" using smallest_child_cases(1) [of h i] by blast
    have "heap_ok (sift_down (swap h i ?s) ?s) \<and> mset (sift_down (swap h i ?s) ?s) = mset (swap h i ?s)"
      using "1.IH" [OF refl False] swap_below [OF "1.prems" refl False] s by simp
    then show ?thesis using False mset_swap_list [OF "1.prems"(2) s] by (simp add: sift_down.simps [of h i] Let_def)
  qed
qed

lemma heapPush_ok:
  assumes "heap_ok h"
  shows "heap_ok (heapPush h d) \<and> mset (heapPush h d) = add_mset d (mset h)"
proof -
  have "nextAt ((h @ [d]) ! parent j) \<le> nextAt ((h @ [d]) ! j)" if "j < length h" "0 < j" for j
    using assms that less_trans [OF parent_less [OF that(2)] that(1)] by (simp add: heap_ok_def nth_append)
  moreover have "\<not> (j < Suc (length h) \<and> 0 < j \<and> parent j = length h)" for j
    using parent_less [of j] by linarith
  ultimately have "ok_above (h @ [d]) (length h)" by (auto simp: ok_above_def less_Suc_eq)
  from sift_up_ok [OF this] show ?thesis by (simp add: heapPush_def)
qed

lemma heap_min: "heap_ok h \<Longrightarrow> i < length h \<Longrightarrow> nextAt (h ! 0) \<le> nextAt (h ! i)"
proof (induction i rule: less_induct)
  case (less i)
  show ?case
  proof (cases "i = 0")
    case False
    then have "nextAt (h ! 0) \<le> nextAt (h ! parent i)" using less parent_less [of i] by simp
    then show ?thesis using less.prems False by (fastforce simp: heap_ok_def)
  qed simp
qed

lemma heapPop_ok:
  assumes "heap_ok h" "h \<noteq> []"
  shows "\<exists>h' d. heapPop h = (h', Some d) \<and> heap_ok h' \<and> mset h = add_mset d (mset h') \<and>
    (\<forall>x \<in> set h. nextAt d \<le> nextAt x) \<and> heapPeek h = Some d"
proof -
  let ?b = "butlast h"
  have min: "\<forall>x \<in> set h. nextAt (h ! 0) \<le> nextAt x" using heap_min [OF assms(1)] by (auto simp: in_set_conv_nth)
  show ?thesis
  proof (cases "?b = []")
    case True
    then obtain x where "h = [x]" using assms(2) by (cases h) (auto split: if_splits)
    then show ?thesis by (simp add: heapPop_def heapPeek_def heap_ok_def)
  next
    case False
    let ?h = "?b[0 := last h]"
    have at: "?h ! j = h ! j" if "0 < j" "j < length ?b" for j using that by (simp add: nth_butlast)
    have "nextAt (?h ! parent j) \<le> nextAt (?h ! j)" if j: "j < length ?b" "0 < j" "parent j \<noteq> 0" for j
      using at [of j] at [of "parent j"] j parent_less [OF j(2)] assms(1) by (simp add: heap_ok_def)
    then have "ok_below ?h 0" by (simp add: ok_below_def)
    moreover have "0 < length ?h" using False unfolding length_list_update length_greater_0_conv .
    ultimately have s: "heap_ok (sift_down ?h 0) \<and> mset (sift_down ?h 0) = mset ?h" by (rule sift_down_ok)
    obtain y ys where b: "?b = y # ys" using False by (cases ?b) auto
    have h: "h = y # ys @ [last h]" using append_butlast_last_id [OF assms(2)] b by simp
    have "mset h = add_mset (h ! 0) (mset ?h)" by (subst (1 2) h) (simp add: b)
    then show ?thesis using False assms(2) min s by (simp add: heapPop_def heapPeek_def Let_def)
  qed
qed

section \<open>The contract of the queue\<close>

text \<open>What the scheduling of a pinner relies on.\<close>

locale schedule_queue =
  fixes push :: "'h \<Rightarrow> scheduledDoc \<Rightarrow> 'h" and pop :: "'h \<Rightarrow> 'h \<times> scheduledDoc option" and peek :: "'h \<Rightarrow> scheduledDoc option"
    and elems :: "'h \<Rightarrow> scheduledDoc multiset" and ok :: "'h \<Rightarrow> bool"
  assumes push_ok: "ok h \<Longrightarrow> ok (push h d) \<and> elems (push h d) = add_mset d (elems h)"
    and pop_least: "ok h \<Longrightarrow> elems h \<noteq> {#} \<Longrightarrow> \<exists>h' d. pop h = (h', Some d) \<and> ok h' \<and> elems h = add_mset d (elems h') \<and>
      (\<forall>x \<in># elems h. nextAt d \<le> nextAt x) \<and> peek h = Some d"
    and peek_none: "ok h \<Longrightarrow> elems h = {#} \<Longrightarrow> peek h = None"
begin

lemma push_all_ok: "ok h \<Longrightarrow> ok (foldl push h ds) \<and> elems (foldl push h ds) = mset ds + elems h"
  by (induction ds arbitrary: h) (auto simp: push_ok)

lemma peek_None_iff: "ok h \<Longrightarrow> peek h = None \<longleftrightarrow> elems h = {#}"
  using pop_least peek_none by fastforce

lemma peek_least: "ok h \<Longrightarrow> peek h = Some d \<Longrightarrow> d \<in># elems h \<and> (\<forall>x \<in># elems h. nextAt d \<le> nextAt x)"
  using pop_least [of h] peek_none [of h] by fastforce

lemma pop_peek:
  assumes "ok h" "peek h = Some d"
  shows "\<exists>h'. pop h = (h', Some d) \<and> ok h' \<and> elems h = add_mset d (elems h') \<and> (\<forall>x \<in># elems h. nextAt d \<le> nextAt x)"
  using pop_least [OF assms(1)] peek_none [OF assms(1)] assms(2) by fastforce

end

interpretation heap: schedule_queue heapPush heapPop heapPeek mset heap_ok
proof unfold_locales
  fix h d
  show "heap_ok h \<Longrightarrow> heap_ok (heapPush h d) \<and> mset (heapPush h d) = add_mset d (mset h)" by (rule heapPush_ok)
  show "heap_ok h \<Longrightarrow> mset h \<noteq> {#} \<Longrightarrow> \<exists>h' d. heapPop h = (h', Some d) \<and> heap_ok h' \<and> mset h = add_mset d (mset h') \<and>
      (\<forall>x \<in># mset h. nextAt d \<le> nextAt x) \<and> heapPeek h = Some d" using heapPop_ok [of h] by simp
  show "heap_ok h \<Longrightarrow> mset h = {#} \<Longrightarrow> heapPeek h = None" by (simp add: heapPeek_def)
qed

section \<open>Properties\<close>

text \<open>All the documents of a heap in the order they are popped.\<close>

fun pops :: "nat \<Rightarrow> scheduledDoc list \<Rightarrow> scheduledDoc list" where
  "pops 0 h = []"
| "pops (Suc n) h = (case heapPop h of (h', Some d) \<Rightarrow> d # pops n h' | (_, None) \<Rightarrow> [])"

lemma pops_sorted:
  "heap_ok h \<Longrightarrow> length h \<le> n \<Longrightarrow> mset (pops n h) = mset h \<and> sorted (map nextAt (pops n h))"
proof (induction n arbitrary: h)
  case (Suc n)
  show ?case
  proof (cases "h = []")
    case True
    then show ?thesis by (simp add: heapPop_def)
  next
    case False
    obtain h' d where p: "heapPop h = (h', Some d)" "heap_ok h'" "mset h = add_mset d (mset h')" "\<forall>x \<in> set h. nextAt d \<le> nextAt x"
      using heapPop_ok [OF Suc.prems(1) False] by blast
    have "size (mset h) = Suc (size (mset h'))" by (simp add: p(3))
    then have IH: "mset (pops n h') = mset h'" "sorted (map nextAt (pops n h'))" using Suc.IH [OF p(2)] Suc.prems(2) by simp_all
    have "set (pops n h') = set h'" "set h' \<subseteq> set h" using arg_cong [OF IH(1), of set_mset] arg_cong [OF p(3), of set_mset] by auto
    then show ?thesis using p IH by auto
  qed
qed simp

text \<open>
  Documents pushed onto the heap in any order come off it in the order of their times, each exactly as often as it was
  pushed.
\<close>

theorem heap_sorts:
  "mset (pops (length ds) (foldl heapPush [] ds)) = mset ds \<and> sorted (map nextAt (pops (length ds) (foldl heapPush [] ds)))"
proof -
  have "heap_ok (foldl heapPush [] ds) \<and> mset (foldl heapPush [] ds) = mset ds"
    using heap.push_all_ok [of "[]" ds] by (simp add: heap_ok_def)
  moreover from this have "length (foldl heapPush [] ds) = length ds" by (metis size_mset)
  ultimately show ?thesis using pops_sorted [of "foldl heapPush [] ds" "length ds"] by simp
qed

end
