(* ===== verification/Pinner_Store.thy ===== *)
theory Pinner_Store
  imports Prelude
begin

text \<open>
  The state a pinner writes to disk (\<open>packages/node/src/pinner-store.ts\<close>), over a datastore of a library that is the
  parameter \<open>datastore\<close>; what it documents is \<open>datastore_ok\<close>.  Text is stored as itself.  Names have no slash, so that
  the library leaves the keys as they are.  The abstract state is a record of sets and maps.
\<close>

section \<open>Numbers as text\<close>

fun nat_text :: "nat \<Rightarrow> string" where
  "nat_text n = (if n < 10 then [char_of (48 + n)] else nat_text (n div 10) @ [char_of (48 + n mod 10)])"

declare nat_text.simps [simp del]

definition number_text :: "int \<Rightarrow> string" where
  "number_text i = (if i < 0 then CHR ''-'' # nat_text (nat (- i)) else nat_text (nat i))"

definition digit :: "char \<Rightarrow> bool" where "digit c \<longleftrightarrow> 48 \<le> (of_char c :: nat) \<and> (of_char c :: nat) \<le> 57"

definition text_nat :: "string \<Rightarrow> nat" where
  "text_nat s = foldl (\<lambda>n c. 10 * n + (of_char c - 48)) 0 s"

text \<open>\<^verbatim>\<open>Number\<close> on decimal integers; any other text is not finite, the empty text is 0.\<close>

definition text_number :: "string \<Rightarrow> int option" where
  "text_number s = (case s of
      [] \<Rightarrow> Some 0
    | c # cs \<Rightarrow> if c = CHR ''-'' \<and> cs \<noteq> [] \<and> list_all digit cs then Some (- int (text_nat cs))
        else if list_all digit s then Some (int (text_nat s)) else None)"

lemma of_char_digit [simp]: "d < 10 \<Longrightarrow> of_char (char_of (48 + d :: nat)) = 48 + d"
  by simp

lemma nat_text_ok: "nat_text n \<noteq> [] \<and> list_all digit (nat_text n) \<and> text_nat (nat_text n) = n"
proof (induction n rule: nat_text.induct)
  case (1 n)
  show ?case
  proof (cases "n < 10")
    case True
    then show ?thesis by (simp add: nat_text.simps [of n] digit_def text_nat_def del: of_char_of)
  next
    case False
    have "n mod 10 < 10" by simp
    note d = of_char_digit [OF this]
    show ?thesis using 1 [OF False] False d by (simp add: nat_text.simps [of n] digit_def text_nat_def del: of_char_of)
  qed
qed

lemma text_number_text [simp]: "text_number (number_text i) = Some i"
proof -
  have minus: "\<not> digit CHR ''-''" by (simp add: digit_def)
  show ?thesis
  proof (cases "i < 0")
    case True
    then show ?thesis using nat_text_ok [of "nat (- i)"] by (simp add: number_text_def text_number_def)
  next
    case False
    obtain c cs where c: "nat_text (nat i) = c # cs" using nat_text_ok [of "nat i"] by (cases "nat_text (nat i)") auto
    then have "c \<noteq> CHR ''-''" using nat_text_ok [of "nat i"] minus by auto
    then show ?thesis using False c nat_text_ok [of "nat i"] by (simp add: number_text_def text_number_def)
  qed
qed

section \<open>The datastore\<close>

record 'd datastore =
  ds_put :: "string \<Rightarrow> string \<Rightarrow> 'd \<Rightarrow> 'd"
  ds_get :: "'d \<Rightarrow> string \<Rightarrow> string option"
  ds_delete :: "string \<Rightarrow> 'd \<Rightarrow> 'd"
  ds_query :: "string \<Rightarrow> 'd \<Rightarrow> (string \<times> string) list"

definition datastore_ok :: "'d datastore \<Rightarrow> bool" where
  "datastore_ok D \<longleftrightarrow>
     (\<forall>k v d k'. ds_get D (ds_put D k v d) k' = (if k' = k then Some v else ds_get D d k')) \<and>
     (\<forall>k d k'. ds_get D (ds_delete D k d) k' = (if k' = k then None else ds_get D d k')) \<and>
     (\<forall>p d. distinct (map fst (ds_query D p d)) \<and>
        set (ds_query D p d) = {(k, v). take (length p) k = p \<and> ds_get D d k = Some v})"

definition PREFIX_KN :: string where "PREFIX_KN = ''/kn/''"
definition PREFIX_TIP :: string where "PREFIX_TIP = ''/tip/''"
definition PREFIX_APP :: string where "PREFIX_APP = ''/app/''"
definition PREFIX_SEEN :: string where "PREFIX_SEEN = ''/seen/''"
definition PREFIX_RES :: string where "PREFIX_RES = ''/res/''"
definition PREFIX_DEACT :: string where "PREFIX_DEACT = ''/deact/''"

lemmas prefix_defs = PREFIX_KN_def PREFIX_TIP_def PREFIX_APP_def PREFIX_SEEN_def PREFIX_RES_def PREFIX_DEACT_def

definition addName :: "'d datastore \<Rightarrow> string \<Rightarrow> 'd \<Rightarrow> 'd" where
  "addName D name d = ds_put D (PREFIX_KN @ name) [] d"

definition removeName :: "'d datastore \<Rightarrow> string \<Rightarrow> 'd \<Rightarrow> 'd" where
  "removeName D name d = foldl (\<lambda>d p. ds_delete D (p @ name) d) d
     [PREFIX_KN, PREFIX_TIP, PREFIX_APP, PREFIX_SEEN, PREFIX_RES, PREFIX_DEACT]"

definition hasName :: "'d datastore \<Rightarrow> 'd \<Rightarrow> string \<Rightarrow> bool" where
  "hasName D d name \<longleftrightarrow> ds_get D d (PREFIX_KN @ name) \<noteq> None"

definition query_text :: "'d datastore \<Rightarrow> string \<Rightarrow> 'd \<Rightarrow> (string \<times> string) list" where
  "query_text D p d = map (\<lambda>(k, v). (drop (length p) k, v)) (ds_query D p d)"

fun finite_numbers :: "(string \<times> string) list \<Rightarrow> (string \<times> int) list" where
  "finite_numbers [] = []"
| "finite_numbers ((k, v) # xs) = (case text_number v of Some n \<Rightarrow> (k, n) # finite_numbers xs | None \<Rightarrow> finite_numbers xs)"

definition query_number :: "'d datastore \<Rightarrow> string \<Rightarrow> 'd \<Rightarrow> (string \<times> int) list" where
  "query_number D p d = finite_numbers (query_text D p d)"

definition getNames :: "'d datastore \<Rightarrow> 'd \<Rightarrow> string list" where
  "getNames D d = map fst (query_text D PREFIX_KN d)"

definition setTip :: "'d datastore \<Rightarrow> string \<Rightarrow> cid \<Rightarrow> 'd \<Rightarrow> 'd" where
  "setTip D name c d = ds_put D (PREFIX_TIP @ name) c d"

definition getTip :: "'d datastore \<Rightarrow> 'd \<Rightarrow> string \<Rightarrow> cid option" where
  "getTip D d name = ds_get D d (PREFIX_TIP @ name)"

definition getTips :: "'d datastore \<Rightarrow> 'd \<Rightarrow> (string \<times> cid) list" where
  "getTips D d = query_text D PREFIX_TIP d"

definition setAppId :: "'d datastore \<Rightarrow> string \<Rightarrow> string \<Rightarrow> 'd \<Rightarrow> 'd" where
  "setAppId D name a d = ds_put D (PREFIX_APP @ name) a d"

definition getAppId :: "'d datastore \<Rightarrow> 'd \<Rightarrow> string \<Rightarrow> string option" where
  "getAppId D d name = ds_get D d (PREFIX_APP @ name)"

definition getAppIds :: "'d datastore \<Rightarrow> 'd \<Rightarrow> (string \<times> string) list" where
  "getAppIds D d = query_text D PREFIX_APP d"

definition setLastSeen :: "'d datastore \<Rightarrow> string \<Rightarrow> int \<Rightarrow> 'd \<Rightarrow> 'd" where
  "setLastSeen D name ts d = ds_put D (PREFIX_SEEN @ name) (number_text ts) d"

definition get_number :: "'d datastore \<Rightarrow> 'd \<Rightarrow> string \<Rightarrow> int option" where
  "get_number D d k = Option.bind (ds_get D d k) text_number"

definition getLastSeen :: "'d datastore \<Rightarrow> 'd \<Rightarrow> string \<Rightarrow> int option" where
  "getLastSeen D d name = get_number D d (PREFIX_SEEN @ name)"

definition getLastSeenAll :: "'d datastore \<Rightarrow> 'd \<Rightarrow> (string \<times> int) list" where
  "getLastSeenAll D d = query_number D PREFIX_SEEN d"

definition setLastResolved :: "'d datastore \<Rightarrow> string \<Rightarrow> int \<Rightarrow> 'd \<Rightarrow> 'd" where
  "setLastResolved D name ts d = ds_put D (PREFIX_RES @ name) (number_text ts) d"

definition getLastResolved :: "'d datastore \<Rightarrow> 'd \<Rightarrow> string \<Rightarrow> int option" where
  "getLastResolved D d name = get_number D d (PREFIX_RES @ name)"

definition getLastResolvedAll :: "'d datastore \<Rightarrow> 'd \<Rightarrow> (string \<times> int) list" where
  "getLastResolvedAll D d = query_number D PREFIX_RES d"

definition setDeactivated :: "'d datastore \<Rightarrow> string \<Rightarrow> 'd \<Rightarrow> 'd" where
  "setDeactivated D name d = ds_put D (PREFIX_DEACT @ name) [] d"

definition clearDeactivated :: "'d datastore \<Rightarrow> string \<Rightarrow> 'd \<Rightarrow> 'd" where
  "clearDeactivated D name d = ds_delete D (PREFIX_DEACT @ name) d"

definition getDeactivatedNames :: "'d datastore \<Rightarrow> 'd \<Rightarrow> string list" where
  "getDeactivatedNames D d = map fst (query_text D PREFIX_DEACT d)"

record savedState =
  svNames :: "string list"
  svTips :: "(string, cid) omap"
  svApps :: "(string, string) omap"
  svSeen :: "(string, int) omap"

definition importState :: "'d datastore \<Rightarrow> savedState \<Rightarrow> 'd \<Rightarrow> 'd" where
  "importState D s d = (let
     d1 = foldl (\<lambda>d n. addName D n d) d (svNames s);
     d2 = foldl (\<lambda>d (n, c). setTip D n c d) d1 (svTips s);
     d3 = foldl (\<lambda>d (n, a). setAppId D n a d) d2 (svApps s)
   in foldl (\<lambda>d (n, t). setLastSeen D n t d) d3 (svSeen s))"

section \<open>The abstract state\<close>

record pstate =
  pnames :: "string set"
  ptips :: "string \<rightharpoonup> cid"
  papps :: "string \<rightharpoonup> string"
  pseen :: "string \<rightharpoonup> int"
  pres :: "string \<rightharpoonup> int"
  pdeact :: "string set"

definition abs_store :: "'d datastore \<Rightarrow> 'd \<Rightarrow> pstate" where
  "abs_store D d = \<lparr>pnames = {n. ds_get D d (PREFIX_KN @ n) \<noteq> None}, ptips = (\<lambda>n. ds_get D d (PREFIX_TIP @ n)),
     papps = (\<lambda>n. ds_get D d (PREFIX_APP @ n)), pseen = (\<lambda>n. get_number D d (PREFIX_SEEN @ n)),
     pres = (\<lambda>n. get_number D d (PREFIX_RES @ n)), pdeact = {n. ds_get D d (PREFIX_DEACT @ n) \<noteq> None}\<rparr>"

datatype store_op = AddName string | RemoveName string | SetTip string cid | SetAppId string string
  | SetLastSeen string int | SetLastResolved string int | SetDeactivated string | ClearDeactivated string

fun store_step :: "'d datastore \<Rightarrow> 'd \<Rightarrow> store_op \<Rightarrow> 'd" where
  "store_step D d (AddName n) = addName D n d"
| "store_step D d (RemoveName n) = removeName D n d"
| "store_step D d (SetTip n c) = setTip D n c d"
| "store_step D d (SetAppId n a) = setAppId D n a d"
| "store_step D d (SetLastSeen n t) = setLastSeen D n t d"
| "store_step D d (SetLastResolved n t) = setLastResolved D n t d"
| "store_step D d (SetDeactivated n) = setDeactivated D n d"
| "store_step D d (ClearDeactivated n) = clearDeactivated D n d"

fun pstep :: "pstate \<Rightarrow> store_op \<Rightarrow> pstate" where
  "pstep p (AddName n) = p\<lparr>pnames := insert n (pnames p)\<rparr>"
| "pstep p (RemoveName n) = \<lparr>pnames = pnames p - {n}, ptips = (ptips p)(n := None), papps = (papps p)(n := None),
     pseen = (pseen p)(n := None), pres = (pres p)(n := None), pdeact = pdeact p - {n}\<rparr>"
| "pstep p (SetTip n c) = p\<lparr>ptips := (ptips p)(n \<mapsto> c)\<rparr>"
| "pstep p (SetAppId n a) = p\<lparr>papps := (papps p)(n \<mapsto> a)\<rparr>"
| "pstep p (SetLastSeen n t) = p\<lparr>pseen := (pseen p)(n \<mapsto> t)\<rparr>"
| "pstep p (SetLastResolved n t) = p\<lparr>pres := (pres p)(n \<mapsto> t)\<rparr>"
| "pstep p (SetDeactivated n) = p\<lparr>pdeact := insert n (pdeact p)\<rparr>"
| "pstep p (ClearDeactivated n) = p\<lparr>pdeact := pdeact p - {n}\<rparr>"

lemmas store_defs = addName_def removeName_def setTip_def setAppId_def setLastSeen_def setLastResolved_def
  setDeactivated_def clearDeactivated_def

lemma ds_put: "datastore_ok D \<Longrightarrow> ds_get D (ds_put D k v d) k' = (if k' = k then Some v else ds_get D d k')"
  and ds_delete: "datastore_ok D \<Longrightarrow> ds_get D (ds_delete D k d) k' = (if k' = k then None else ds_get D d k')"
  by (auto simp: datastore_ok_def)

lemma store_step_abs: "datastore_ok D \<Longrightarrow> abs_store D (store_step D d op) = pstep (abs_store D d) op"
  by (cases op) (auto simp: abs_store_def store_defs get_number_def ds_put ds_delete prefix_defs fun_eq_iff split: if_splits)

lemma abs_run: "datastore_ok D \<Longrightarrow> abs_store D (foldl (store_step D) d ops) = foldl pstep (abs_store D d) ops"
  by (induction ops arbitrary: d) (simp_all add: store_step_abs)

lemma query_text_of:
  assumes "datastore_ok D"
  shows "distinct (map fst (query_text D p d))" "(n, v) \<in> set (query_text D p d) \<longleftrightarrow> ds_get D d (p @ n) = Some v"
proof -
  have q: "distinct (map fst (ds_query D p d))" "set (ds_query D p d) = {(k, v). take (length p) k = p \<and> ds_get D d k = Some v}"
    using assms by (auto simp: datastore_ok_def)
  have "inj_on (drop (length p)) (fst ` set (ds_query D p d))"
    unfolding q(2) by (rule inj_onI) (auto, metis append_take_drop_id)
  then have "distinct (map (drop (length p)) (map fst (ds_query D p d)))" 
    using q(1) by (simp only: distinct_map [of "drop (length p)" "map fst (ds_query D p d)"] set_map simp_thms)
  then show "distinct (map fst (query_text D p d))" by (simp add: query_text_def case_prod_beta comp_def)
  show "(n, v) \<in> set (query_text D p d) \<longleftrightarrow> ds_get D d (p @ n) = Some v"
  proof
    assume "(n, v) \<in> set (query_text D p d)"
    then obtain k where "n = drop (length p) k" "(k, v) \<in> set (ds_query D p d)" by (auto simp: query_text_def)
    then show "ds_get D d (p @ n) = Some v" unfolding q(2) by auto (metis append_take_drop_id)
  next
    assume "ds_get D d (p @ n) = Some v"
    then have "(p @ n, v) \<in> set (ds_query D p d)" unfolding q(2) by simp
    then show "(n, v) \<in> set (query_text D p d)" by (force simp: query_text_def)
  qed
qed

lemma map_of_query: "datastore_ok D \<Longrightarrow> map_of (query_text D p d) = (\<lambda>n. ds_get D d (p @ n))"
proof
  fix n assume ok: "datastore_ok D"
  note q = query_text_of [OF ok, where p = p and d = d]
  show "map_of (query_text D p d) n = ds_get D d (p @ n)"
  proof (cases "ds_get D d (p @ n)")
    case None
    then show ?thesis using q(2) [of n] by (auto simp: map_of_eq_None_iff)
  next
    case (Some v)
    then show ?thesis using q by (simp add: map_of_eq_Some_iff)
  qed
qed

lemma query_number_of:
  assumes "datastore_ok D"
  shows "distinct (map fst (query_number D p d))" "map_of (query_number D p d) = (\<lambda>n. get_number D d (p @ n))"
proof -
  have keys: "fst ` set (finite_numbers xs) \<subseteq> fst ` set xs" for xs
    by (induction xs rule: finite_numbers.induct) (auto split: option.split)
  have "distinct (map fst xs) \<Longrightarrow> distinct (map fst (finite_numbers xs)) \<and>
      map_of (finite_numbers xs) = (\<lambda>n. Option.bind (map_of xs n) text_number)" for xs
  proof (induction xs rule: finite_numbers.induct)
    case (2 k v xs)
    then have "map_of xs k = None" "map_of (finite_numbers xs) k = None" "k \<notin> fst ` set (finite_numbers xs)"
      using keys [of xs] by (auto simp: map_of_eq_None_iff)
    then show ?case using 2 by (auto simp: fun_eq_iff split: option.split)
  qed simp
  then show "distinct (map fst (query_number D p d))" "map_of (query_number D p d) = (\<lambda>n. get_number D d (p @ n))"
    using query_text_of(1) [OF assms, of p d] by (simp_all add: query_number_def get_number_def map_of_query [OF assms])
qed

text \<open>The getters, each on its own.\<close>

lemma store_refines_facts:
  assumes "datastore_ok D"
  shows "set (getNames D d) = pnames (abs_store D d)" "set (getDeactivatedNames D d) = pdeact (abs_store D d)"
    "map_of (getTips D d) = ptips (abs_store D d)" "distinct (map fst (getTips D d))"
    "map_of (getAppIds D d) = papps (abs_store D d)" "map_of (getLastSeenAll D d) = pseen (abs_store D d)"
    "map_of (getLastResolvedAll D d) = pres (abs_store D d)"
    "distinct (map fst (getAppIds D d))" "distinct (map fst (getLastSeenAll D d))" "distinct (map fst (getLastResolvedAll D d))"
proof -
  have "set (map fst (query_text D q d)) = {n. ds_get D d (q @ n) \<noteq> None}" for q
    using query_text_of(2) [OF assms, of _ _ q d] by force
  then show "set (getNames D d) = pnames (abs_store D d)" "set (getDeactivatedNames D d) = pdeact (abs_store D d)"
    by (auto simp: abs_store_def getNames_def getDeactivatedNames_def)
qed (simp_all add: abs_store_def getTips_def getAppIds_def getLastSeenAll_def getLastResolvedAll_def
      map_of_query [OF assms] query_number_of [OF assms] query_text_of(1) [OF assms])

section \<open>Properties\<close>

text \<open>
  The store keeps exactly the state that was written: after any operations on any datastore that is what it documents,
  the getters report the sets and maps that the operations describe, and removing a name removes all of its keys and no
  other.
\<close>

theorem store_refines:
  assumes "datastore_ok D" "d' = foldl (store_step D) d ops" "p = foldl pstep (abs_store D d) ops"
  shows "abs_store D d' = p \<and> set (getNames D d') = pnames p \<and> set (getDeactivatedNames D d') = pdeact p \<and>
    map_of (getTips D d') = ptips p \<and> map_of (getAppIds D d') = papps p \<and>
    map_of (getLastSeenAll D d') = pseen p \<and> map_of (getLastResolvedAll D d') = pres p \<and>
    (\<forall>n. hasName D d' n = (n \<in> pnames p) \<and> getTip D d' n = ptips p n \<and> getLastSeen D d' n = pseen p n)"
proof -
  have "abs_store D d' = p"
    unfolding assms(2,3) by (rule abs_run [OF assms(1)])
  then show ?thesis
    by (auto simp: store_refines_facts [OF assms(1)] hasName_def getTip_def getLastSeen_def) (simp_all add: abs_store_def)
qed

definition list_datastore :: "(string, string) omap datastore" where
  "list_datastore = \<lparr>ds_put = AList.update, ds_get = map_of, ds_delete = AList.delete,
     ds_query = (\<lambda>p d. filter (\<lambda>(k, v). take (length p) k = p) (AList.clearjunk d))\<rparr>"

lemma list_datastore_ok: "datastore_ok list_datastore"
proof -
  have "distinct (map fst (filter P (AList.clearjunk d)))" for P and d :: "(string, string) omap"
    by (simp add: distinct_map_filter distinct_clearjunk)
  moreover have "(k, v) \<in> set (AList.clearjunk d) \<longleftrightarrow> map_of d k = Some v" for k v and d :: "(string, string) omap"
    by (metis distinct_clearjunk map_of_clearjunk map_of_eq_Some_iff)
  ultimately show ?thesis
    by (auto simp: datastore_ok_def list_datastore_def update_conv' delete_conv' restrict_map_def split: if_splits)
qed

theorem store_refines_witness:
  "map_of (getLastSeenAll list_datastore
      (foldl (store_step list_datastore) [] [AddName ''a'', SetLastSeen ''a'' 42, SetLastSeen ''b'' 7, RemoveName ''b''])) =
   [''a'' \<mapsto> 42]"
  using store_refines [OF list_datastore_ok refl refl, of "[]" "[AddName ''a'', SetLastSeen ''a'' 42, SetLastSeen ''b'' 7, RemoveName ''b'']"]
  by (simp add: fun_eq_iff) (simp add: abs_store_def get_number_def list_datastore_def)

end
