(* ===== verification/Pinner.thy ===== *)
theory Pinner
  imports Retention Schedule_Heap Pinner_Store Announce
begin

text \<open>
  The pinner (\<open>packages/node/src/pinner.ts\<close>): which documents it admits, fetches, announces, promises to keep and
  deletes.  A handler is a function of the state; what it starts and does not wait for is a job of the state that
  \<open>finish\<close> completes later, with what the network returned.  Time is an argument in milliseconds, the intervals of the
  schedule are real numbers.  Counters, logs and timers are left out, as is waiting inside a loop: a sweep, a pruning or
  a pass over the schedule is one step.
\<close>

section \<open>State\<close>

datatype phase = Created | Running | Stopped

datatype job =
    Acking string cid "string option"
  | Fetching string cid "string option" "bytes option"
  | Ingesting string bytes

datatype outmsg =
    AckSent string cid string int int
  | Announced string cid "(int \<times> int) option"
  | GuaranteeSent string cid int int

record 'd pinner =
  phase :: phase
  knownNames :: "string list"
  lastAckedCid :: "string \<rightharpoonup> cid"
  nameToAppId :: "string \<rightharpoonup> string"
  lastSeenAt :: "string \<rightharpoonup> int"
  guaranteedUntil :: "string \<rightharpoonup> int"
  lastQueryResponse :: "string \<rightharpoonup> int"
  lastResolvedAt :: "string \<rightharpoonup> int"
  deactivatedNames :: "string list"
  perDocEma :: real
  scheduledDocCount :: nat
  heap :: "scheduledDoc list"
  inHeap :: "string list"
  stalePushes :: nat
  resolveAllCompleted :: bool
  nameLimiter :: newNames
  rateLimiter :: limiter
  history :: tracker
  blocks :: "cid \<rightharpoonup> bytes"
  disk :: 'd
  indexFile :: "tracker option"
  stateFile :: "savedState option"
  pending :: "job list"
  sent :: "outmsg list"

record 'd pinnerEnv =
  store :: "'d datastore"
  pcr :: crypto
  cidOf :: "bytes \<Rightarrow> cid"
  validCid :: "string \<Rightarrow> bool"
  hasHelia :: bool
  hasPubsub :: bool
  pinnerId :: "string option"
  maxNames :: nat
  maxNewNames :: nat
  staleResolveMs :: int
  limits :: rateLimits
  retention :: retentionConfig

definition DAY :: int where "DAY = 24 * 60 * 60000"
definition RETENTION_DURATION_MS :: int where "RETENTION_DURATION_MS = 14 * 24 * 60 * 60000"
definition DEACTIVATED_RETENTION_MS :: int where "DEACTIVATED_RETENTION_MS = 7 * 24 * 60 * 60000"
definition BASE_INTERVAL_MS :: int where "BASE_INTERVAL_MS = 30000"
definition HALF_LIFE_MS :: int where "HALF_LIFE_MS = 12 * 60 * 60000"
definition MAX_INTERVAL_MS :: int where "MAX_INTERVAL_MS = 24 * 60 * 60000"
definition INITIAL_PER_DOC_MS :: real where "INITIAL_PER_DOC_MS = 50"
definition EMA_ALPHA :: real where "EMA_ALPHA = 3 / 10"
definition PRUNE_HEADROOM :: int where "PRUNE_HEADROOM = 10"
definition NEVER_RESOLVED_GRACE_MS :: int where "NEVER_RESOLVED_GRACE_MS = 12 * 60 * 60000"
definition QUERY_RESPONSE_COOLDOWN_MS :: int where "QUERY_RESPONSE_COOLDOWN_MS = 3000"
definition COMPACT_THRESHOLD :: nat where "COMPACT_THRESHOLD = 500"
definition REPUBLISH_STALE_MS :: int where "REPUBLISH_STALE_MS = 20 * 60 * 60000"

definition set_add :: "'a \<Rightarrow> 'a list \<Rightarrow> 'a list" where
  "set_add x xs = (if x \<in> set xs then xs else xs @ [x])"

definition set_remove :: "'a \<Rightarrow> 'a list \<Rightarrow> 'a list" where
  "set_remove x xs = filter (\<lambda>y. y \<noteq> x) xs"

definition orElse :: "'a option \<Rightarrow> 'a \<Rightarrow> 'a" where "orElse v d = (case v of Some x \<Rightarrow> x | None \<Rightarrow> d)"

section \<open>The schedule\<close>

definition scheduleDoc :: "'d pinner \<Rightarrow> string \<Rightarrow> real \<Rightarrow> 'd pinner" where
  "scheduleDoc s n t = s\<lparr>stalePushes := (if n \<in> set (inHeap s) then Suc (stalePushes s) else stalePushes s),
     heap := heapPush (heap s) \<lparr>sname = n, nextAt = t\<rparr>, inHeap := set_add n (inHeap s)\<rparr>"

definition best_docs :: "'d pinner \<Rightarrow> (string, scheduledDoc) omap" where
  "best_docs s = foldl (\<lambda>best d.
     if sname d \<notin> set (knownNames s) then best
     else case map_of best (sname d) of
       Some e \<Rightarrow> if nextAt d < nextAt e then AList.update (sname d) d best else best
     | None \<Rightarrow> AList.update (sname d) d best) [] (heap s)"

definition compactHeap :: "'d pinner \<Rightarrow> 'd pinner" where
  "compactHeap s = (let best = best_docs s in
     s\<lparr>heap := foldl heapPush [] (map snd best), inHeap := foldl (\<lambda>h d. set_add (sname d) h) [] (map snd best),
       stalePushes := 0\<rparr>)"

definition maxActiveDocs :: "'d pinner \<Rightarrow> int" where
  "maxActiveDocs s = max 1 \<lfloor>(real_of_int BASE_INTERVAL_MS * (8 / 10)) / perDocEma s\<rfloor>"

definition loadFactor :: "'d pinner \<Rightarrow> real" where
  "loadFactor s =
     (let capacity = maxActiveDocs s;
          utilization = (if 0 < capacity then real (scheduledDocCount s) / real_of_int capacity else 1)
      in if utilization \<le> 1 / 2 then 1 else 1 + 9 * ((utilization - 1 / 2) / (1 / 2)) ^ 2)"

definition reannounceInterval :: "'d pinner \<Rightarrow> string \<Rightarrow> int \<Rightarrow> real" where
  "reannounceInterval s n now =
     (let age = now - orElse (lastSeenAt s n) 0 in
      if RETENTION_DURATION_MS \<le> age then real_of_int MAX_INTERVAL_MS
      else min (real_of_int BASE_INTERVAL_MS * 2 powr (real_of_int age / real_of_int HALF_LIFE_MS) * loadFactor s)
        (real_of_int MAX_INTERVAL_MS))"

definition schedule_next :: "'d pinner \<Rightarrow> string \<Rightarrow> int \<Rightarrow> 'd pinner" where
  "schedule_next s n now =
     (let interval = reannounceInterval s n now in
      if interval < real_of_int MAX_INTERVAL_MS then scheduleDoc s n (real_of_int now + interval) else s)"

section \<open>Guarantees\<close>

definition guaranteeDuration :: "'d pinner \<Rightarrow> int" where
  "guaranteeDuration s =
     (let util = real (scheduledDocCount s) / real_of_int (maxActiveDocs s) in
      if util \<le> 5 / 10 then 7 * DAY else if util \<le> 7 / 10 then 5 * DAY else if util \<le> 9 / 10 then 3 * DAY else 1 * DAY)"

definition issueGuarantee :: "'d pinner \<Rightarrow> string \<Rightarrow> int \<Rightarrow> 'd pinner \<times> int \<times> int" where
  "issueGuarantee s n now =
     (let seen = orElse (lastSeenAt s n) now;
          guarantee = max (seen + guaranteeDuration s) (orElse (guaranteedUntil s n) 0)
      in (s\<lparr>guaranteedUntil := (guaranteedUntil s)(n \<mapsto> guarantee)\<rparr>, guarantee, seen + RETENTION_DURATION_MS))"

section \<open>Blocks\<close>

definition persist :: "'d pinnerEnv \<Rightarrow> 'd pinner \<Rightarrow> store_op \<Rightarrow> 'd pinner" where
  "persist E s op = s\<lparr>disk := store_step (store E) (disk s) op\<rparr>"

definition thinVersionHistory :: "'d pinnerEnv \<Rightarrow> 'd pinner \<Rightarrow> string \<Rightarrow> int \<Rightarrow> 'd pinner" where
  "thinVersionHistory E s n now =
     (let (T, removed) = thinSnapshots (history s) n (retention E) now in
      s\<lparr>history := T, blocks := (\<lambda>c. if c \<in> set removed then None else blocks s c)\<rparr>)"

definition thinSweep :: "'d pinnerEnv \<Rightarrow> 'd pinner \<Rightarrow> int \<Rightarrow> 'd pinner" where
  "thinSweep E s now = foldl (\<lambda>s n. thinVersionHistory E s n now) s (knownNames s)"

text \<open>The gates a block passes: it validates, it decodes, and it is signed by the key that its document is named after.\<close>

definition genuine_block :: "'d pinnerEnv \<Rightarrow> string \<Rightarrow> bytes \<Rightarrow> snapshotNode option" where
  "genuine_block E n b =
     (if \<not> validateSnapshot (pcr E) b then None
      else case and_then (decodeSnapshot (pcr E) b) (\<lambda>node. and_then (hexToBytes n) (\<lambda>key. Ok (node, key))) of
        Inl _ \<Rightarrow> None
      | Inr (node, key) \<Rightarrow> if publicKey node = key then Some node else None)"

text \<open>\<open>fetchByCid\<close> up to its first wait: no job when it answers \<^verbatim>\<open>false\<close> at once.\<close>

definition fetchByCid :: "'d pinnerEnv \<Rightarrow> 'd pinner \<Rightarrow> string \<Rightarrow> cid \<Rightarrow> string option \<Rightarrow> bytes option \<Rightarrow> job list" where
  "fetchByCid E s n c app blockData =
     (if \<not> hasHelia E then []
      else if tracker_getTip (history s) n = Some c then [Acking n c app]
      else if \<not> validCid E c then []
      else [Fetching n c app blockData])"

definition ackFetched :: "'d pinnerEnv \<Rightarrow> 'd pinner \<Rightarrow> string \<Rightarrow> cid \<Rightarrow> string option \<Rightarrow> int \<Rightarrow> 'd pinner" where
  "ackFetched E s n c app now = (case (app, hasPubsub E, pinnerId E) of
      (Some a, True, Some _) \<Rightarrow>
        (case issueGuarantee s n now of (s1, g, r) \<Rightarrow>
          thinVersionHistory E (s1\<lparr>lastAckedCid := (lastAckedCid s1)(n \<mapsto> c), sent := sent s1 @ [AckSent n c a g r]\<rparr>) n now)
    | _ \<Rightarrow> s)"

text \<open>A block arrives from the network, which leaves it in the blockstore, unless the announcement carried it.\<close>

definition finishFetch :: "'d pinnerEnv \<Rightarrow> 'd pinner \<Rightarrow> string \<Rightarrow> cid \<Rightarrow> string option \<Rightarrow> bytes option \<Rightarrow> bytes option \<Rightarrow> int \<Rightarrow>
    'd pinner" where
  "finishFetch E s n c app blockData got now = (case (case blockData of Some b \<Rightarrow> Some b | None \<Rightarrow> got) of
      None \<Rightarrow> s
    | Some b \<Rightarrow> (case genuine_block E n b of
        None \<Rightarrow> s
      | Some node \<Rightarrow>
          let s1 = s\<lparr>blocks := (blocks s)(c \<mapsto> b), knownNames := set_add n (knownNames s), history := tracker_add (history s) n c (snTs node)\<rparr>
          in ackFetched E (persist E (persist E s1 (AddName n)) (SetTip n c)) n c app now))"

section \<open>Announcements\<close>

definition admit :: "'d pinnerEnv \<Rightarrow> 'd pinner \<Rightarrow> string \<Rightarrow> int \<Rightarrow> 'd pinner \<times> bool" where
  "admit E s n now =
     (if n \<in> set (knownNames s) then (s, True)
      else if maxNames E \<le> length (knownNames s) then (s, False)
      else case tryAdmit (maxNewNames E) (nameLimiter s) now of (L, ok) \<Rightarrow> (s\<lparr>nameLimiter := L\<rparr>, ok))"

definition reactivate :: "'d pinnerEnv \<Rightarrow> 'd pinner \<Rightarrow> string \<Rightarrow> 'd pinner" where
  "reactivate E s n = (if n \<in> set (deactivatedNames s)
     then persist E (s\<lparr>deactivatedNames := set_remove n (deactivatedNames s)\<rparr>) (ClearDeactivated n) else s)"

definition sawActivity :: "'d pinnerEnv \<Rightarrow> 'd pinner \<Rightarrow> string \<Rightarrow> int \<Rightarrow> 'd pinner" where
  "sawActivity E s n now =
     reactivate E (persist E (s\<lparr>lastSeenAt := (lastSeenAt s)(n \<mapsto> now)\<rparr>) (SetLastSeen n now)) n"

definition reack :: "'d pinnerEnv \<Rightarrow> 'd pinner \<Rightarrow> string \<Rightarrow> cid \<Rightarrow> string option \<Rightarrow> int \<Rightarrow> 'd pinner" where
  "reack E s n c app now = (case (app, hasPubsub E, pinnerId E) of
      (Some a, True, Some _) \<Rightarrow>
        (case issueGuarantee s n now of (s1, g, r) \<Rightarrow> s1\<lparr>sent := sent s1 @ [AckSent n c a g r]\<rparr>)
    | _ \<Rightarrow> s)"

text \<open>\<open>processAnnouncement\<close> in two parts: what is noted of an admitted name, and what is done about the CID.\<close>

definition noteName :: "'d pinnerEnv \<Rightarrow> 'd pinner \<Rightarrow> string \<Rightarrow> string option \<Rightarrow> bool \<Rightarrow> int \<Rightarrow> 'd pinner" where
  "noteName E s n app fromPinner now =
     (let s1 = persist E (s\<lparr>knownNames := set_add n (knownNames s),
                 nameToAppId := (case app of Some a \<Rightarrow> (nameToAppId s)(n \<mapsto> a) | None \<Rightarrow> nameToAppId s)\<rparr>) (AddName n);
          s2 = (case app of Some a \<Rightarrow> persist E s1 (SetAppId n a) | None \<Rightarrow> s1)
      in if fromPinner then s2
         else let s3 = sawActivity E s2 n now in s3\<lparr>guaranteedUntil := (guaranteedUntil s3)(n := None)\<rparr>)"

definition serveCid :: "'d pinnerEnv \<Rightarrow> 'd pinner \<Rightarrow> string \<Rightarrow> cid \<Rightarrow> string option \<Rightarrow> bytes option \<Rightarrow> int \<Rightarrow> 'd pinner" where
  "serveCid E s n c app blockData now =
     (if lastAckedCid s n = Some c then reack E s n c app now
      else schedule_next (s\<lparr>guaranteedUntil := (guaranteedUntil s)(n := None),
        pending := pending s @ fetchByCid E s n c app blockData\<rparr>) n now)"

definition processAnnouncement :: "'d pinnerEnv \<Rightarrow> 'd pinner \<Rightarrow> string \<Rightarrow> cid \<Rightarrow> string option \<Rightarrow> bytes option \<Rightarrow> bool \<Rightarrow> int \<Rightarrow>
    'd pinner" where
  "processAnnouncement E s n c app blockData fromPinner now =
     (case admit E s n now of (s1, ok) \<Rightarrow>
      if ok then serveCid E (noteName E s1 n app fromPinner now) n c app blockData now else s1)"

text \<open>A proof is verified when there is one, and none is needed.  An empty text counts as none, for an application too.\<close>

definition onAnnouncement :: "'d pinnerEnv \<Rightarrow> 'd pinner \<Rightarrow> string \<Rightarrow> cid \<Rightarrow> string option \<Rightarrow> bytes option \<Rightarrow> bool \<Rightarrow>
    string option \<Rightarrow> int \<Rightarrow> 'd pinner" where
  "onAnnouncement E s n c app blockData fromPinner proof now =
     (if phase s \<noteq> Running then s
      else case (fromPinner, proof) of
        (False, Some p) \<Rightarrow>
          if verifyAnnouncementProof (pcr E) n c p then processAnnouncement E s n c app blockData fromPinner now else s
      | _ \<Rightarrow> processAnnouncement E s n c app blockData fromPinner now)"

section \<open>The other requests\<close>

definition onGuaranteeQuery :: "'d pinnerEnv \<Rightarrow> 'd pinner \<Rightarrow> string \<Rightarrow> int \<Rightarrow> 'd pinner" where
  "onGuaranteeQuery E s n now =
     (if phase s \<noteq> Running \<or> n \<notin> set (knownNames s) \<or> \<not> hasPubsub E \<or> pinnerId E = None then s
      else if now - orElse (lastQueryResponse s n) 0 < QUERY_RESPONSE_COOLDOWN_MS then s
      else
        let s1 = s\<lparr>lastQueryResponse := (lastQueryResponse s)(n \<mapsto> now)\<rparr> in
        case tracker_getTip (history s1) n of
          None \<Rightarrow> s1
        | Some c \<Rightarrow> (case issueGuarantee s1 n now of (s2, g, r) \<Rightarrow>
            scheduleDoc (s2\<lparr>sent := sent s2 @ [GuaranteeSent n c g r]\<rparr>) n (real_of_int (now + BASE_INTERVAL_MS))))"

definition getGuarantee :: "'d pinnerEnv \<Rightarrow> 'd pinner \<Rightarrow> string \<Rightarrow> int \<Rightarrow> 'd pinner \<times> (cid \<times> int \<times> int) option" where
  "getGuarantee E s n now =
     (if n \<notin> set (knownNames s) \<or> pinnerId E = None then (s, None)
      else case tracker_getTip (history s) n of
        None \<Rightarrow> (s, None)
      | Some c \<Rightarrow> (case issueGuarantee s n now of (s1, g, r) \<Rightarrow> (s1, Some (c, g, r))))"

definition getTipData :: "'d pinnerEnv \<Rightarrow> 'd pinner \<Rightarrow> string \<Rightarrow> int \<Rightarrow>
    'd pinner \<times> (cid \<times> bytes \<times> nat \<times> int \<times> int \<times> int) option" where
  "getTipData E s n now =
     (if n \<notin> set (knownNames s) \<or> pinnerId E = None then (s, None)
      else case tracker_getTip (history s) n of
        None \<Rightarrow> (s, None)
      | Some c \<Rightarrow> (case (if validCid E c then blocks s c else None) of
          None \<Rightarrow> (s, None)
        | Some b \<Rightarrow> (case issueGuarantee s n now of (s1, g, r) \<Rightarrow>
            (s1, Some (c, b, length (getHistory (history s) n),
               (case map_of (history s) n of Some e \<Rightarrow> (case htip e of Some t \<Rightarrow> rts t | None \<Rightarrow> 0) | None \<Rightarrow> 0), g, r)))))"

definition recordActivity :: "'d pinnerEnv \<Rightarrow> 'd pinner \<Rightarrow> string \<Rightarrow> int \<Rightarrow> 'd pinner" where
  "recordActivity E s n now =
     (if phase s \<noteq> Running \<or> n \<notin> set (knownNames s) then s
      else scheduleDoc (sawActivity E s n now) n (real_of_int (now + BASE_INTERVAL_MS)))"

text \<open>\<open>ingest\<close> up to the validation it waits for, and what follows; the result is whether it goes on.\<close>

definition ingest :: "'d pinnerEnv \<Rightarrow> 'd pinner \<Rightarrow> string \<Rightarrow> bytes \<Rightarrow> int \<Rightarrow> 'd pinner \<times> bool" where
  "ingest E s n b now =
     (if phase s \<noteq> Running then (s, False)
      else case admit E s n now of (s1, ok) \<Rightarrow>
        if \<not> ok then (s1, False)
        else case rate_check (limits E) (rateLimiter s1) n (length b) now of (L, allowed) \<Rightarrow>
          if \<not> allowed then (s1\<lparr>rateLimiter := L\<rparr>, False)
          else (s1\<lparr>rateLimiter := L, pending := pending s1 @ [Ingesting n b]\<rparr>, True))"

definition finishIngest :: "'d pinnerEnv \<Rightarrow> 'd pinner \<Rightarrow> string \<Rightarrow> bytes \<Rightarrow> int \<Rightarrow> 'd pinner" where
  "finishIngest E s n b now = (case genuine_block E n b of
      None \<Rightarrow> s
    | Some node \<Rightarrow>
        let c = cidOf E b;
            s1 = s\<lparr>blocks := (blocks s)(c \<mapsto> b), knownNames := set_add n (knownNames s),
              lastSeenAt := (lastSeenAt s)(n \<mapsto> now), rateLimiter := rate_record (rateLimiter s) n now,
              history := tracker_add (history s) n c (snTs node)\<rparr>;
            s2 = persist E (persist E (persist E s1 (AddName n)) (SetTip n c)) (SetLastSeen n now);
            s3 = thinVersionHistory E s2 n now
        in s3\<lparr>indexFile := Some (history s3)\<rparr>)"

definition finish :: "'d pinnerEnv \<Rightarrow> 'd pinner \<Rightarrow> nat \<Rightarrow> bytes option \<Rightarrow> int \<Rightarrow> 'd pinner" where
  "finish E s i got now =
     (if length (pending s) \<le> i then s
      else let s1 = s\<lparr>pending := take i (pending s) @ drop (Suc i) (pending s)\<rparr> in
        case pending s ! i of
          Acking n c app \<Rightarrow> ackFetched E s1 n c app now
        | Fetching n c app bd \<Rightarrow> finishFetch E s1 n c app bd got now
        | Ingesting n b \<Rightarrow> finishIngest E s1 n b now)"

section \<open>Pruning\<close>

definition deactivateName :: "'d pinnerEnv \<Rightarrow> 'd pinner \<Rightarrow> string \<Rightarrow> 'd pinner" where
  "deactivateName E s n = persist E (s\<lparr>deactivatedNames := set_add n (deactivatedNames s), inHeap := set_remove n (inHeap s),
     guaranteedUntil := (guaranteedUntil s)(n := None)\<rparr>) (SetDeactivated n)"

definition expired :: "'d pinner \<Rightarrow> int \<Rightarrow> string \<Rightarrow> bool" where
  "expired s now n \<longleftrightarrow> orElse (lastSeenAt s n) 0 +
     (if n \<in> set (deactivatedNames s) then DEACTIVATED_RETENTION_MS else RETENTION_DURATION_MS) < now"

definition stale :: "'d pinnerEnv \<Rightarrow> 'd pinner \<Rightarrow> int \<Rightarrow> string \<Rightarrow> bool" where
  "stale E s now n \<longleftrightarrow> n \<notin> set (deactivatedNames s) \<and>
     (let seen = orElse (lastSeenAt s n) 0; resolved = orElse (lastResolvedAt s n) 0 in
      if resolved = 0 then seen + NEVER_RESOLVED_GRACE_MS < now
      else seen + staleResolveMs E < now \<and> resolved + staleResolveMs E < now)"

definition toDeactivate :: "'d pinnerEnv \<Rightarrow> 'd pinner \<Rightarrow> int \<Rightarrow> string list" where
  "toDeactivate E s now = (if 0 < staleResolveMs E \<and> resolveAllCompleted s
     then filter (\<lambda>n. \<not> expired s now n \<and> stale E s now n) (knownNames s) else [])"

text \<open>The least recently seen names over the capacity.\<close>

definition overCapacity :: "'d pinner \<Rightarrow> int \<Rightarrow> string list" where
  "overCapacity s now =
     (let kept = filter (\<lambda>n. \<not> expired s now n) (knownNames s);
          maxTracked = nat (maxActiveDocs s * PRUNE_HEADROOM)
      in take (length kept - maxTracked) (sort_key (\<lambda>n. orElse (lastSeenAt s n) 0) kept))"

definition toDelete :: "'d pinner \<Rightarrow> int \<Rightarrow> string list" where
  "toDelete s now = filter (expired s now) (knownNames s) @ overCapacity s now"

definition deleteName :: "'d pinnerEnv \<Rightarrow> 'd pinner \<Rightarrow> string \<Rightarrow> 'd pinner" where
  "deleteName E s n =
     (let gone = rcid ` set (getHistory (history s) n) in
      persist E (s\<lparr>blocks := (\<lambda>c. if c \<in> gone then None else blocks s c), knownNames := set_remove n (knownNames s),
        lastSeenAt := (lastSeenAt s)(n := None), lastAckedCid := (lastAckedCid s)(n := None),
        nameToAppId := (nameToAppId s)(n := None), lastResolvedAt := (lastResolvedAt s)(n := None),
        lastQueryResponse := (lastQueryResponse s)(n := None), guaranteedUntil := (guaranteedUntil s)(n := None),
        inHeap := set_remove n (inHeap s), deactivatedNames := set_remove n (deactivatedNames s),
        history := tracker_remove (history s) n\<rparr>) (RemoveName n))"

definition pruneIfNeeded :: "'d pinnerEnv \<Rightarrow> 'd pinner \<Rightarrow> int \<Rightarrow> 'd pinner" where
  "pruneIfNeeded E s now =
     foldl (deleteName E) (foldl (deactivateName E) s (toDeactivate E s now)) (toDelete s now)"

section \<open>The pass over the schedule\<close>

definition announceDue :: "'d pinnerEnv \<Rightarrow> 'd pinner \<Rightarrow> string \<Rightarrow> cid \<Rightarrow> int \<Rightarrow> 'd pinner" where
  "announceDue E s n c now = (case pinnerId E of
      None \<Rightarrow> s\<lparr>sent := sent s @ [Announced n c None]\<rparr>
    | Some _ \<Rightarrow> (case issueGuarantee s n now of (s1, g, r) \<Rightarrow> s1\<lparr>sent := sent s1 @ [Announced n c (Some (g, r))]\<rparr>))"

text \<open>
  A document that is not announced, because its application or its tip is not known, is dropped from the heap but stays
  in \<open>inHeap\<close>.  The pass starts at \<open>start\<close> and every announcement takes no time after \<open>now\<close>.
\<close>

definition serveDoc :: "'d pinnerEnv \<Rightarrow> 'd pinner \<Rightarrow> string \<Rightarrow> int \<Rightarrow> 'd pinner \<times> nat" where
  "serveDoc E s n now =
     (if n \<notin> set (knownNames s) \<or> n \<in> set (deactivatedNames s) then (s\<lparr>inHeap := set_remove n (inHeap s)\<rparr>, 0)
      else case (nameToAppId s n, tracker_getTip (history s) n) of
        (Some a, Some c) \<Rightarrow>
          let s1 = announceDue E s n c now; interval = reannounceInterval s1 n now in
          (if interval < real_of_int MAX_INTERVAL_MS then scheduleDoc s1 n (real_of_int now + interval)
           else s1\<lparr>inHeap := set_remove n (inHeap s1)\<rparr>, 1)
      | _ \<Rightarrow> (s, 0))"

fun serveDue :: "nat \<Rightarrow> 'd pinnerEnv \<Rightarrow> 'd pinner \<Rightarrow> int \<Rightarrow> int \<Rightarrow> ('d pinner \<times> nat) option" where
  "serveDue fuel E s start now = (case heapPeek (heap s) of
      None \<Rightarrow> Some (s, 0)
    | Some d \<Rightarrow>
        if phase s \<noteq> Running \<or> real_of_int start < nextAt d then Some (s, 0)
        else (case fuel of
            0 \<Rightarrow> None
          | Suc f \<Rightarrow> (case serveDoc E (s\<lparr>heap := fst (heapPop (heap s))\<rparr>) (sname d) now of (s1, k) \<Rightarrow>
              map_option (\<lambda>(s2, count). (s2, k + count)) (serveDue f E s1 start now))))"

definition processScheduleQueue :: "nat \<Rightarrow> 'd pinnerEnv \<Rightarrow> 'd pinner \<Rightarrow> int \<Rightarrow> int \<Rightarrow> 'd pinner option" where
  "processScheduleQueue fuel E s start now =
     (if \<not> hasHelia E \<or> \<not> hasPubsub E then Some s
      else map_option (\<lambda>(s1, count).
        let s2 = (if 0 < count then s1\<lparr>scheduledDocCount := length (inHeap s1),
                    perDocEma := EMA_ALPHA * (real_of_int (now - start) / real count) + (1 - EMA_ALPHA) * perDocEma s1\<rparr>
                  else s1)
        in if COMPACT_THRESHOLD \<le> stalePushes s2 then compactHeap s2 else s2) (serveDue fuel E s start now))"

section \<open>Resolving and republishing\<close>

definition resolvable :: "'d pinner \<Rightarrow> int \<Rightarrow> string list" where
  "resolvable s now = filter (\<lambda>n. n \<notin> set (deactivatedNames s) \<and> reannounceInterval s n now < real_of_int MAX_INTERVAL_MS)
     (knownNames s)"

text \<open>A name resolves to a CID; the block of it is fetched without an acknowledgement.\<close>

definition resolveAndFetch :: "'d pinnerEnv \<Rightarrow> 'd pinner \<Rightarrow> string \<Rightarrow> cid option \<Rightarrow> int \<Rightarrow> 'd pinner" where
  "resolveAndFetch E s n ans now = (case (hasHelia E, ans) of
      (True, Some c) \<Rightarrow>
        let s1 = persist E (s\<lparr>lastResolvedAt := (lastResolvedAt s)(n \<mapsto> now)\<rparr>) (SetLastResolved n now) in
        s1\<lparr>pending := pending s1 @ fetchByCid E s1 n c None None\<rparr>
    | _ \<Rightarrow> s)"

definition getRepublishCandidates :: "'d pinner \<Rightarrow> (string \<rightharpoonup> int) \<Rightarrow> (string \<rightharpoonup> cid) \<Rightarrow> int \<Rightarrow> string list" where
  "getRepublishCandidates s lastRepublished lastRepublishedCid now = filter (\<lambda>n.
     n \<notin> set (deactivatedNames s) \<and> now < orElse (lastSeenAt s n) 0 + RETENTION_DURATION_MS \<and>
     ((case tracker_getTip (history s) n of Some c \<Rightarrow> lastRepublishedCid n \<noteq> Some c | None \<Rightarrow> False) \<or>
      REPUBLISH_STALE_MS < now - orElse (lastRepublished n) 0)) (knownNames s)"

text \<open>The circuit breaker over the results of a cycle, in the order they come in: how many are attempted.\<close>

fun breaker :: "nat \<Rightarrow> nat \<Rightarrow> bool list \<Rightarrow> nat \<times> nat" where
  "breaker ok bad [] = (ok, bad)"
| "breaker ok bad (r # rs) =
     (let ok' = (if r then Suc ok else ok); bad' = (if r then bad else Suc bad) in
      if 20 \<le> ok' + bad' \<and> ok' + bad' < 2 * bad' then (ok', bad') else breaker ok' bad' rs)"

section \<open>Starting\<close>

definition freshPinner :: "'d \<Rightarrow> (cid \<rightharpoonup> bytes) \<Rightarrow> tracker option \<Rightarrow> savedState option \<Rightarrow> 'd pinner" where
  "freshPinner d bs idx old = \<lparr>phase = Created, knownNames = [], lastAckedCid = (\<lambda>_. None), nameToAppId = (\<lambda>_. None),
     lastSeenAt = (\<lambda>_. None), guaranteedUntil = (\<lambda>_. None), lastQueryResponse = (\<lambda>_. None), lastResolvedAt = (\<lambda>_. None),
     deactivatedNames = [], perDocEma = INITIAL_PER_DOC_MS, scheduledDocCount = 0, heap = [], inHeap = [], stalePushes = 0,
     resolveAllCompleted = False, nameLimiter = createNewNameLimiter, rateLimiter = [], history = [], blocks = bs, disk = d,
     indexFile = idx, stateFile = old, pending = [], sent = []\<rparr>"

definition set_all :: "('k \<times> 'v) list \<Rightarrow> ('k \<rightharpoonup> 'v) \<Rightarrow> 'k \<rightharpoonup> 'v" where
  "set_all kvs m = foldl (\<lambda>m (k, v). m(k \<mapsto> v)) m kvs"

text \<open>The state file of older versions, as \<open>loadState\<close> reads it, is taken over once, into a store without names.\<close>

definition migrateFromStateJson :: "'d pinnerEnv \<Rightarrow> 'd pinner \<Rightarrow> 'd pinner" where
  "migrateFromStateJson E s = (case stateFile s of
      None \<Rightarrow> s
    | Some old \<Rightarrow> if svNames old = [] then s
        else s\<lparr>disk := importState (store E) old (disk s), stateFile := None\<rparr>)"

definition restoreState :: "'d pinnerEnv \<Rightarrow> 'd pinner \<Rightarrow> int \<Rightarrow> 'd pinner" where
  "restoreState E s0 now = (let
     s = (if getNames (store E) (disk s0) = [] then migrateFromStateJson E s0 else s0);
     s1 = s\<lparr>knownNames := foldl (\<lambda>ns n. set_add n ns) (knownNames s) (getNames (store E) (disk s)),
            history := (case indexFile s of Some d \<Rightarrow> loadJSON d | None \<Rightarrow> history s)\<rparr>;
     seenMap = getLastSeenAll (store E) (disk s);
     s2 = s1\<lparr>history := foldl (\<lambda>T (n, c). tracker_add T n c (orElse (map_of seenMap n) 0)) (history s1)
              (getTips (store E) (disk s)),
            nameToAppId := set_all (getAppIds (store E) (disk s)) (nameToAppId s1),
            lastSeenAt := set_all seenMap (lastSeenAt s1),
            lastResolvedAt := set_all (getLastResolvedAll (store E) (disk s)) (lastResolvedAt s1),
            deactivatedNames := foldl (\<lambda>ns n. if n \<in> set (knownNames s1) then set_add n ns else ns) (deactivatedNames s1)
              (getDeactivatedNames (store E) (disk s))\<rparr>;
     s3 = foldl (\<lambda>s n. if lastSeenAt s n = None
              then persist E (s\<lparr>lastSeenAt := (lastSeenAt s)(n \<mapsto> 0)\<rparr>) (SetLastSeen n 0) else s) s2 (knownNames s2)
   in foldl (\<lambda>s n. if n \<in> set (deactivatedNames s) then s else schedule_next s n now) s3 (knownNames s3))"

definition pinner_start :: "'d pinnerEnv \<Rightarrow> 'd pinner \<Rightarrow> int \<Rightarrow> 'd pinner result" where
  "pinner_start E s now =
     (if phase s \<noteq> Created then Throw ''pinner.start() called in the wrong phase''
      else let s1 = pruneIfNeeded E (restoreState E s now) now in
        Ok (s1\<lparr>phase := Running, resolveAllCompleted := \<not> (hasHelia E \<and> knownNames s1 \<noteq> [])\<rparr>))"

definition pinner_stop :: "'d pinner \<Rightarrow> 'd pinner" where
  "pinner_stop s = (if phase s = Stopped then s else s\<lparr>phase := Stopped, indexFile := Some (history s)\<rparr>)"

text \<open>The walk of \<open>backfillHistory\<close> from a block's predecessor, over the blocks of the blockstore.\<close>

fun backfillWalk :: "nat \<Rightarrow> 'd pinnerEnv \<Rightarrow> (cid \<rightharpoonup> bytes) \<Rightarrow> string \<Rightarrow> tracker \<Rightarrow> cid option \<Rightarrow> tracker option" where
  "backfillWalk fuel E bs n T None = Some T"
| "backfillWalk 0 E bs n T (Some c) = None"
| "backfillWalk (Suc fuel) E bs n T (Some c) = (case bs c of
      None \<Rightarrow> Some T
    | Some b \<Rightarrow> (case decodeSnapshot (pcr E) b of
        Inl _ \<Rightarrow> Some T
      | Inr node \<Rightarrow> backfillWalk fuel E bs n (tracker_add T n c (snTs node)) (snPrev node)))"

definition backfillCandidates :: "'d pinner \<Rightarrow> (string \<times> cid) list" where
  "backfillCandidates s = concat (map (\<lambda>n. case tracker_getTip (history s) n of
      Some c \<Rightarrow> if length (getHistory (history s) n) \<le> 1 then [(n, c)] else [] | None \<Rightarrow> []) (knownNames s))"

section \<open>Events\<close>

datatype event =
    Announcement string cid "string option" "bytes option" bool "string option"
  | GuaranteeQuery string
  | Activity string
  | HttpIngest string bytes
  | HttpTip string
  | HttpGuarantee string
  | Finished nat "bytes option"
  | PruneTick
  | ScheduleTick
  | Resolved string "cid option"
  | ResolvedAll
  | SweepTick
  | IndexTick

fun pinner_step :: "'d pinnerEnv \<Rightarrow> 'd pinner \<Rightarrow> int \<times> event \<Rightarrow> 'd pinner" where
  "pinner_step E s (t, Announcement n c app bd fp pr) = onAnnouncement E s n c app bd fp pr t"
| "pinner_step E s (t, GuaranteeQuery n) = onGuaranteeQuery E s n t"
| "pinner_step E s (t, Activity n) = recordActivity E s n t"
| "pinner_step E s (t, HttpIngest n b) = fst (ingest E s n b t)"
| "pinner_step E s (t, HttpTip n) = fst (getTipData E s n t)"
| "pinner_step E s (t, HttpGuarantee n) = fst (getGuarantee E s n t)"
| "pinner_step E s (t, Finished i got) = finish E s i got t"
| "pinner_step E s (t, PruneTick) = (if phase s = Running then pruneIfNeeded E s t else s)"
| "pinner_step E s (t, ScheduleTick) =
     (case processScheduleQueue (Suc (length (heap s))) E s t t of Some s' \<Rightarrow> s' | None \<Rightarrow> s)"
| "pinner_step E s (t, Resolved n c) = resolveAndFetch E s n c t"
| "pinner_step E s (t, ResolvedAll) = s\<lparr>resolveAllCompleted := True\<rparr>"
| "pinner_step E s (t, SweepTick) = thinSweep E s t"
| "pinner_step E s (t, IndexTick) = s\<lparr>indexFile := Some (history s)\<rparr>"

end
