(* ===== verification/Pinner_Facts.thy ===== *)
theory Pinner_Facts
  imports Pinner
begin

text \<open>
  What holds of a pinner in every state: the invariant of its tables, and that what is on disk mirrors what is in memory.
  Then its promises: pruning, the schedule, restarting, and the guarantees that it does not keep.
\<close>

section \<open>The invariant\<close>

text \<open>Every table that is written through to disk.\<close>

definition mirror :: "'d pinnerEnv \<Rightarrow> 'd pinner \<Rightarrow> bool" where
  "mirror E s \<longleftrightarrow> (let p = abs_store (store E) (disk s) in
     pnames p = set (knownNames s) \<and> papps p = nameToAppId s \<and> pseen p = lastSeenAt s \<and> pres p = lastResolvedAt s \<and>
     pdeact p = set (deactivatedNames s))"

definition tables_ok :: "'d pinner \<Rightarrow> bool" where
  "tables_ok s \<longleftrightarrow> distinct (knownNames s) \<and> distinct (inHeap s) \<and> distinct (deactivatedNames s) \<and>
     set (deactivatedNames s) \<subseteq> set (knownNames s) \<and> heap_ok (heap s) \<and> tracker_ok (history s) \<and>
     (\<forall>T. indexFile s = Some T \<longrightarrow> tracker_ok T)"

definition pinner_ok :: "'d pinnerEnv \<Rightarrow> 'd pinner \<Rightarrow> bool" where
  "pinner_ok E s \<longleftrightarrow> datastore_ok (store E) \<and> tables_ok s \<and> mirror E s"

declare store_step.simps [simp del]

lemma disk_step [simp]:
  "datastore_ok (store E) \<Longrightarrow> abs_store (store E) (store_step (store E) d op) = pstep (abs_store (store E) d) op"
  by (rule store_step_abs)

lemma set_add_simps [simp]: "set (set_add x xs) = insert x (set xs)" "distinct xs \<Longrightarrow> distinct (set_add x xs)"
  by (auto simp: set_add_def)

lemma set_remove_simps [simp]: "set (set_remove x xs) = set xs - {x}" "distinct xs \<Longrightarrow> distinct (set_remove x xs)"
  by (auto simp: set_remove_def)

lemma orElse_simps [simp]: "orElse None d = d" "orElse (Some x) d = x"
  by (simp_all add: orElse_def)

lemma persist_simps [simp]:
  "phase (persist E s op) = phase s" "knownNames (persist E s op) = knownNames s" "nameToAppId (persist E s op) = nameToAppId s"
  "lastSeenAt (persist E s op) = lastSeenAt s" "lastResolvedAt (persist E s op) = lastResolvedAt s"
  "deactivatedNames (persist E s op) = deactivatedNames s" "heap (persist E s op) = heap s" "inHeap (persist E s op) = inHeap s"
  "history (persist E s op) = history s" "disk (persist E s op) = store_step (store E) (disk s) op"
  "lastAckedCid (persist E s op) = lastAckedCid s" "guaranteedUntil (persist E s op) = guaranteedUntil s"
  "pending (persist E s op) = pending s" "sent (persist E s op) = sent s" "blocks (persist E s op) = blocks s"
  "indexFile (persist E s op) = indexFile s" "scheduledDocCount (persist E s op) = scheduledDocCount s" "perDocEma (persist E s op) = perDocEma s"
  by (simp_all add: persist_def)

lemma issueGuarantee_fields:
  "issueGuarantee s n now = (s1, g, r) \<Longrightarrow> s1 = s\<lparr>guaranteedUntil := (guaranteedUntil s)(n \<mapsto> g)\<rparr> \<and>
     g = max (orElse (lastSeenAt s n) now + guaranteeDuration s) (orElse (guaranteedUntil s n) 0) \<and>
     r = orElse (lastSeenAt s n) now + RETENTION_DURATION_MS"
  by (auto simp: issueGuarantee_def Let_def)

text \<open>Only the tables of the invariant matter for it.\<close>

lemma ok_cong:
  assumes "knownNames s' = knownNames s" "inHeap s' = inHeap s" "deactivatedNames s' = deactivatedNames s" "heap s' = heap s"
    "history s' = history s" "nameToAppId s' = nameToAppId s" "lastSeenAt s' = lastSeenAt s" "lastResolvedAt s' = lastResolvedAt s"
    "disk s' = disk s" "indexFile s' = indexFile s"
  shows "pinner_ok E s' = pinner_ok E s"
  using assms by (simp add: pinner_ok_def tables_ok_def mirror_def)

lemma issueGuarantee_ok [inv_intros]: "pinner_ok E s \<Longrightarrow> issueGuarantee s n now = (s1, g, r) \<Longrightarrow> pinner_ok E s1"
  by (auto simp: pinner_ok_def tables_ok_def mirror_def dest!: issueGuarantee_fields)

lemma scheduleDoc_ok [inv_intros]: "pinner_ok E s \<Longrightarrow> pinner_ok E (scheduleDoc s n t)"
  using heap.push_ok [of "heap s"] by (auto simp: pinner_ok_def tables_ok_def mirror_def scheduleDoc_def)

lemma schedule_next_ok [inv_intros]: "pinner_ok E s \<Longrightarrow> pinner_ok E (schedule_next s n now)"
  by (simp add: schedule_next_def Let_def scheduleDoc_ok)

lemma thin_ok [inv_intros]: "pinner_ok E s \<Longrightarrow> pinner_ok E (thinVersionHistory E s n now)"
proof -
  assume ok: "pinner_ok E s"
  obtain T removed where t: "thinSnapshots (history s) n (retention E) now = (T, removed)" by force
  have "tracker_ok T" using tracker_step_ok [of "history s" "Thin n (retention E) now"] ok t
    by (simp add: pinner_ok_def tables_ok_def)
  then show ?thesis using ok by (simp add: thinVersionHistory_def t pinner_ok_def tables_ok_def mirror_def)
qed

lemma fold_ok: "(\<And>s x. pinner_ok E s \<Longrightarrow> pinner_ok E (f s x)) \<Longrightarrow> pinner_ok E s \<Longrightarrow> pinner_ok E (foldl f s xs)"
  by (induction xs arbitrary: s) simp_all

lemma thinSweep_ok [inv_intros]: "pinner_ok E s \<Longrightarrow> pinner_ok E (thinSweep E s now)"
  unfolding thinSweep_def by (rule fold_ok [OF thin_ok])

lemma admit_ok [inv_intros]: "pinner_ok E s \<Longrightarrow> admit E s n now = (s1, ok) \<Longrightarrow> pinner_ok E s1"
  by (auto simp: admit_def pinner_ok_def tables_ok_def mirror_def split: if_splits prod.splits)

lemma ackFetched_ok: "pinner_ok E s \<Longrightarrow> pinner_ok E (ackFetched E s n c app now)"
  unfolding ackFetched_def
  by (auto split: option.split bool.split prod.split intro!: thin_ok dest!: issueGuarantee_fields)
     (simp_all add: pinner_ok_def tables_ok_def mirror_def)

lemma finishFetch_ok:
  assumes "pinner_ok E s"
  shows "pinner_ok E (finishFetch E s n c app bd got now)"
proof -
  have "pinner_ok E (persist E (persist E (s\<lparr>blocks := bs, knownNames := set_add n (knownNames s),
      history := tracker_add (history s) n c ts\<rparr>) (AddName n)) (SetTip n c))" for bs ts
    using assms tracker_step_ok [of "history s" "AddSnap n c ts"]
    by (auto simp: pinner_ok_def tables_ok_def mirror_def Let_def)
  then show ?thesis using assms
    by (auto simp: finishFetch_def Let_def split: option.split intro!: ackFetched_ok)
qed

lemma sawActivity_ok: "pinner_ok E s \<Longrightarrow> pinner_ok E (sawActivity E s n now)"
  by (auto simp: sawActivity_def reactivate_def pinner_ok_def tables_ok_def mirror_def Let_def fun_eq_iff)

lemma guarantee_ok [simp]: "pinner_ok E (s\<lparr>guaranteedUntil := g\<rparr>) = pinner_ok E s"
  "pinner_ok E (s\<lparr>sent := o'\<rparr>) = pinner_ok E s" "pinner_ok E (s\<lparr>pending := q\<rparr>) = pinner_ok E s"
  "pinner_ok E (s\<lparr>resolveAllCompleted := v\<rparr>) = pinner_ok E s" "pinner_ok E (s\<lparr>lastQueryResponse := l\<rparr>) = pinner_ok E s" "pinner_ok E (s\<lparr>rateLimiter := r\<rparr>) = pinner_ok E s"
  by (rule ok_cong; simp)+

lemma index_ok: "pinner_ok E s \<Longrightarrow> pinner_ok E (s\<lparr>indexFile := Some (history s)\<rparr>)"
  by (simp add: pinner_ok_def tables_ok_def mirror_def)

lemma noteName_ok: "pinner_ok E s \<Longrightarrow> pinner_ok E (noteName E s n app fp now)"
proof -
  assume ok: "pinner_ok E s"
  let ?s1 = "persist E (s\<lparr>knownNames := set_add n (knownNames s),
                 nameToAppId := (case app of Some a \<Rightarrow> (nameToAppId s)(n \<mapsto> a) | None \<Rightarrow> nameToAppId s)\<rparr>) (AddName n)"
  have "pinner_ok E (case app of Some a \<Rightarrow> persist E ?s1 (SetAppId n a) | None \<Rightarrow> ?s1)"
    using ok by (cases app) (auto simp: pinner_ok_def tables_ok_def mirror_def Let_def)
  then show ?thesis by (simp add: noteName_def Let_def sawActivity_ok)
qed

lemma serveCid_ok: "pinner_ok E s \<Longrightarrow> pinner_ok E (serveCid E s n c app bd now)"
  by (auto simp: serveCid_def reack_def split: option.split bool.split prod.split intro!: schedule_next_ok
      dest: issueGuarantee_ok)

lemma processAnnouncement_ok: "pinner_ok E s \<Longrightarrow> pinner_ok E (processAnnouncement E s n c app bd fp now)"
  by (auto simp: processAnnouncement_def split: prod.split intro!: serveCid_ok noteName_ok dest: admit_ok)

lemma onAnnouncement_ok: "pinner_ok E s \<Longrightarrow> pinner_ok E (onAnnouncement E s n c app bd fp pr now)"
  by (simp add: onAnnouncement_def processAnnouncement_ok split: bool.split option.split)

lemma issue_query_ok:
  "issueGuarantee (s\<lparr>lastQueryResponse := q\<rparr>) n now = (s1, g, r) \<Longrightarrow> pinner_ok E s \<Longrightarrow> pinner_ok E s1"
  using issueGuarantee_ok [of E "s\<lparr>lastQueryResponse := q\<rparr>" n now s1 g r] by simp

lemma onGuaranteeQuery_ok: "pinner_ok E s \<Longrightarrow> pinner_ok E (onGuaranteeQuery E s n now)"
  by (auto simp: onGuaranteeQuery_def Let_def split: option.split prod.split intro!: scheduleDoc_ok
      dest: issue_query_ok)

lemma recordActivity_ok: "pinner_ok E s \<Longrightarrow> pinner_ok E (recordActivity E s n now)"
  by (simp add: recordActivity_def sawActivity_ok scheduleDoc_ok)

lemma getters_ok:
  assumes "pinner_ok E s"
  shows "pinner_ok E (fst (getTipData E s n now))" "pinner_ok E (fst (getGuarantee E s n now))"
  using assms by (auto simp: getTipData_def getGuarantee_def split: option.split prod.split dest: issueGuarantee_ok)

lemma ingest_ok: "pinner_ok E s \<Longrightarrow> pinner_ok E (fst (ingest E s n b now))"
  by (auto simp: ingest_def split: prod.split dest: admit_ok)

lemma finishIngest_ok:
  assumes "pinner_ok E s"
  shows "pinner_ok E (finishIngest E s n b now)"
proof -
  have "pinner_ok E (persist E (persist E (persist E (s\<lparr>blocks := bs, knownNames := set_add n (knownNames s),
      lastSeenAt := (lastSeenAt s)(n \<mapsto> now), rateLimiter := L, history := tracker_add (history s) n c ts\<rparr>)
      (AddName n)) (SetTip n c)) (SetLastSeen n now))" for bs L c ts
    using assms tracker_step_ok [of "history s" "AddSnap n c ts"]
    by (auto simp: pinner_ok_def tables_ok_def mirror_def Let_def)
  then show ?thesis using assms by (auto simp: finishIngest_def Let_def split: option.split intro!: thin_ok index_ok)
qed

lemma finish_ok: "pinner_ok E s \<Longrightarrow> pinner_ok E (finish E s i got now)"
  by (simp add: finish_def Let_def ackFetched_ok finishFetch_ok finishIngest_ok split: job.split)

lemma deactivateName_ok: "pinner_ok E s \<Longrightarrow> n \<in> set (knownNames s) \<Longrightarrow> pinner_ok E (deactivateName E s n)"
  by (auto simp: deactivateName_def pinner_ok_def tables_ok_def mirror_def Let_def)

lemma deleteName_ok: "pinner_ok E s \<Longrightarrow> pinner_ok E (deleteName E s n)"
  using tracker_step_ok [of "history s" "Forget n"]
  by (auto simp: deleteName_def pinner_ok_def tables_ok_def mirror_def Let_def fun_eq_iff)

lemma deactivate_all:
  "pinner_ok E s \<Longrightarrow> set ns \<subseteq> set (knownNames s) \<Longrightarrow> pinner_ok E (foldl (deactivateName E) s ns) \<and>
     knownNames (foldl (deactivateName E) s ns) = knownNames s"
proof (induction ns arbitrary: s)
  case (Cons n ns)
  have "knownNames (deactivateName E s n) = knownNames s" by (simp add: deactivateName_def)
  then show ?case using Cons.IH [of "deactivateName E s n"] Cons.prems deactivateName_ok [of E s n] by simp
qed simp

lemma prune_ok: "pinner_ok E s \<Longrightarrow> pinner_ok E (pruneIfNeeded E s now)"
proof -
  assume ok: "pinner_ok E s"
  have "set (toDeactivate E s now) \<subseteq> set (knownNames s)" by (auto simp: toDeactivate_def)
  then have "pinner_ok E (foldl (deactivateName E) s (toDeactivate E s now))" using deactivate_all [OF ok] by blast
  then show ?thesis unfolding pruneIfNeeded_def by (rule fold_ok [rotated]) (rule deleteName_ok)
qed

lemma resolve_ok: "pinner_ok E s \<Longrightarrow> pinner_ok E (resolveAndFetch E s n ans now)"
  by (auto simp: resolveAndFetch_def Let_def pinner_ok_def tables_ok_def mirror_def split: bool.split option.split)

section \<open>The schedule\<close>

text \<open>Every interval is positive, so that what is announced is not due again in the same pass.\<close>

lemma loadFactor_ge: "1 \<le> loadFactor s"
  by (simp add: loadFactor_def Let_def)

lemma interval_pos: "0 < reannounceInterval s n now"
proof -
  have "0 < real_of_int BASE_INTERVAL_MS * 2 powr (real_of_int (now - orElse (lastSeenAt s n) 0) / real_of_int HALF_LIFE_MS) * loadFactor s"
    using loadFactor_ge [of s] by (simp add: BASE_INTERVAL_MS_def)
  then show ?thesis by (simp add: reannounceInterval_def Let_def MAX_INTERVAL_MS_def)
qed

definition due :: "int \<Rightarrow> scheduledDoc multiset \<Rightarrow> scheduledDoc multiset" where
  "due t h = filter_mset (\<lambda>d. nextAt d \<le> real_of_int t) h"

lemma announceDue_simps [simp]:
  "heap (announceDue E s n c now) = heap s" "inHeap (announceDue E s n c now) = inHeap s" "phase (announceDue E s n c now) = phase s"
  "knownNames (announceDue E s n c now) = knownNames s" "deactivatedNames (announceDue E s n c now) = deactivatedNames s"
  "nameToAppId (announceDue E s n c now) = nameToAppId s" "history (announceDue E s n c now) = history s"
  "lastSeenAt (announceDue E s n c now) = lastSeenAt s" "scheduledDocCount (announceDue E s n c now) = scheduledDocCount s"
  "perDocEma (announceDue E s n c now) = perDocEma s"
  by (auto simp: announceDue_def split: option.split prod.split dest!: issueGuarantee_fields)

lemma announceDue_ok: "pinner_ok E s \<Longrightarrow> pinner_ok E (announceDue E s n c now)"
  by (auto simp: announceDue_def split: option.split prod.split dest: issueGuarantee_ok)

lemma inHeap_ok: "pinner_ok E s \<Longrightarrow> pinner_ok E (s\<lparr>inHeap := set_remove n (inHeap s)\<rparr>)"
  by (simp add: pinner_ok_def tables_ok_def mirror_def)

lemma serveDoc_ok: "pinner_ok E s \<Longrightarrow> pinner_ok E (fst (serveDoc E s n now))"
  using inHeap_ok [of E "announceDue E s n c now" n for c]
  by (auto simp: serveDoc_def Let_def announceDue_ok scheduleDoc_ok inHeap_ok split: option.split)

lemma serveDoc_due:
  assumes "heap_ok (heap s)" "start \<le> now"
  shows "heap_ok (heap (fst (serveDoc E s n now))) \<and> due start (mset (heap (fst (serveDoc E s n now)))) = due start (mset (heap s)) \<and>
    phase (fst (serveDoc E s n now)) = phase s"
proof -
  have "\<not> real_of_int now + reannounceInterval t n now \<le> real_of_int start" for t :: "'d pinner"
    using interval_pos [of t n now] assms(2) by linarith
  then show ?thesis using heap.push_ok [OF assms(1)] assms(1)
    by (auto simp: serveDoc_def Let_def scheduleDoc_def due_def split: option.split)
qed

lemma heap_pop_ok: "pinner_ok E s \<Longrightarrow> heapPop (heap s) = (h, x) \<Longrightarrow> heap_ok h \<Longrightarrow> pinner_ok E (s\<lparr>heap := h\<rparr>)"
  by (simp add: pinner_ok_def tables_ok_def mirror_def)

text \<open>A pass over the schedule ends: each round takes one due entry off the heap and adds none.\<close>

lemma serveDue_total:
  assumes "heap_ok (heap s)" "start \<le> now" "size (due start (mset (heap s))) < fuel"
  shows "\<exists>s' k. serveDue fuel E s start now = Some (s', k) \<and> (pinner_ok E s \<longrightarrow> pinner_ok E s') \<and> heap_ok (heap s') \<and>
    (phase s = Running \<longrightarrow> due start (mset (heap s')) = {#})"
  using assms(1,3)
proof (induction fuel arbitrary: s)
  case (Suc fuel)
  show ?case
  proof (cases "heapPeek (heap s)")
    case None
    then have "mset (heap s) = {#}" using heap.peek_None_iff [OF Suc.prems(1)] by blast
    then show ?thesis using None Suc.prems by (simp add: due_def)
  next
    case (Some d)
    obtain h where h: "heapPop (heap s) = (h, Some d)" "heap_ok h" "mset (heap s) = add_mset d (mset h)"
      "\<forall>x \<in># mset (heap s). nextAt d \<le> nextAt x"
      using heap.pop_peek [OF Suc.prems(1) Some] by blast
    show ?thesis
    proof (cases "phase s \<noteq> Running \<or> real_of_int start < nextAt d")
      case True
      have "due start (mset (heap s)) = {#}" if "real_of_int start < nextAt d"
        using h(4) that by (auto simp: due_def simp flip: set_mset_eq_empty_iff)
      then show ?thesis using True Some Suc.prems by auto
    next
      case False
      let ?t = "s\<lparr>heap := h\<rparr>"
      obtain s1 k where s1: "serveDoc E ?t (sname d) now = (s1, k)" by force
      note sd = serveDoc_due [of ?t start now E "sname d", simplified s1 fst_conv]
      have "due start (mset (heap s)) = add_mset d (due start (mset h))" using False by (simp add: due_def h(3))
      then have "size (due start (mset (heap s1))) < fuel" "heap_ok (heap s1)" "phase s1 = phase s"
        using sd h(2) assms(2) Suc.prems(2) by simp_all
      from Suc.IH [OF this(2,1)] obtain s' k' where IH: "serveDue fuel E s1 start now = Some (s', k')"
        "pinner_ok E s1 \<longrightarrow> pinner_ok E s'" "heap_ok (heap s')" "phase s = Running \<longrightarrow> due start (mset (heap s')) = {#}"
        using \<open>phase s1 = phase s\<close> by auto
      have "pinner_ok E s1" if "pinner_ok E s"
        using serveDoc_ok [OF heap_pop_ok [OF that h(1,2)], of "sname d" now] s1 by simp
      then show ?thesis using False Some h(1) s1 IH by simp
    qed
  qed
qed simp

lemma size_due: "size (due t h) \<le> size h"
  unfolding due_def by (rule size_filter_mset_lesseq)

lemma foldl_set_add: "set (foldl (\<lambda>h d. set_add (f d) h) ns ds) = set ns \<union> f ` set ds \<and> (distinct ns \<longrightarrow> distinct (foldl (\<lambda>h d. set_add (f d) h) ns ds))"
  by (induction ds arbitrary: ns) auto

lemma compactHeap_ok: "pinner_ok E s \<Longrightarrow> pinner_ok E (compactHeap s)"
  using heap.push_all_ok [of "[]" "map snd (best_docs s)"] foldl_set_add [of sname "[]" "map snd (best_docs s)"]
  by (simp add: compactHeap_def Let_def pinner_ok_def tables_ok_def mirror_def heap_ok_def)

lemma schedule_pass:
  assumes "pinner_ok E s" "start \<le> now" "length (heap s) < fuel"
  shows "\<exists>s'. processScheduleQueue fuel E s start now = Some s' \<and> pinner_ok E s'"
proof -
  have "size (due start (mset (heap s))) < fuel" using size_due [of start "mset (heap s)"] assms(3) by simp
  moreover have "heap_ok (heap s)" using assms(1) by (simp add: pinner_ok_def tables_ok_def)
  ultimately obtain s1 k where "serveDue fuel E s start now = Some (s1, k)" "pinner_ok E s1"
    using serveDue_total [of s start now fuel E] assms(1,2) by blast
  moreover have "pinner_ok E (t\<lparr>scheduledDocCount := a, perDocEma := b\<rparr>) = pinner_ok E t" for t a b by (rule ok_cong) simp_all
  ultimately show ?thesis using assms(1) by (auto simp: processScheduleQueue_def Let_def compactHeap_ok)
qed

lemma pinner_step_ok: "pinner_ok E s \<Longrightarrow> pinner_ok E (pinner_step E s ev)"
proof (cases ev)
  case (Pair t e)
  assume ok: "pinner_ok E s"
  show ?thesis
  proof (cases e)
    case ScheduleTick
    then show ?thesis using schedule_pass [OF ok order_refl lessI, of t] by (auto simp: Pair)
  qed (simp_all add: Pair ok onAnnouncement_ok onGuaranteeQuery_ok recordActivity_ok ingest_ok getters_ok finish_ok prune_ok
      resolve_ok thinSweep_ok index_ok)
qed

end
