(* ===== verification/Pinner_Restart.thy ===== *)
theory Pinner_Restart
  imports Pinner_Facts
begin

text \<open>
  What a pinner has after a crash: \<open>restoreState\<close> reads the datastore and the history index back into the tables.
  The lemmas describe every table after it; the properties are about a run that is interrupted and started again.
\<close>

section \<open>The loops of restoring\<close>

lemma set_all_map_of: "distinct (map fst kvs) \<Longrightarrow> set_all kvs m = m ++ map_of kvs"
proof (induction kvs arbitrary: m)
  case (Cons kv kvs)
  then have "set_all (kv # kvs) m = (m(fst kv \<mapsto> snd kv)) ++ map_of kvs" by (simp add: set_all_def case_prod_beta)
  also have "\<dots> = m ++ map_of (kv # kvs)"
    using Cons.prems by (simp add: map_add_upd_left [symmetric] dom_map_of_conv_image_fst)
  finally show ?case .
qed (simp add: set_all_def)

lemma foldl_known: "set (foldl (\<lambda>ns n. set_add n ns) ns xs) = set ns \<union> set xs \<and>
    (distinct ns \<longrightarrow> distinct (foldl (\<lambda>ns n. set_add n ns) ns xs))"
  by (induction xs arbitrary: ns) auto

lemma foldl_deact: "set (foldl (\<lambda>ns n. if P n then set_add n ns else ns) ns xs) = set ns \<union> {n \<in> set xs. P n} \<and>
    (distinct ns \<longrightarrow> distinct (foldl (\<lambda>ns n. if P n then set_add n ns else ns) ns xs))"
  by (induction xs arbitrary: ns) auto

definition tracker_adds :: "(string \<times> cid) list \<Rightarrow> (string \<Rightarrow> int) \<Rightarrow> tracker \<Rightarrow> tracker" where
  "tracker_adds tips ts T = foldl (\<lambda>T (n, c). tracker_add T n c (ts n)) T tips"

lemma tracker_adds_ok: "tracker_ok T \<Longrightarrow> tracker_ok (tracker_adds tips ts T)"
proof (induction tips arbitrary: T)
  case (Cons x tips)
  then show ?case using tracker_step_ok [of T "AddSnap (fst x) (snd x) (ts (fst x))"]
    by (simp add: tracker_adds_def case_prod_beta)
qed (simp add: tracker_adds_def)

lemma loadJSON_append: "distinct (map fst (T @ d)) \<Longrightarrow> foldl (\<lambda>T (n, e). AList.update n e T) T d = T @ d"
proof (induction d arbitrary: T)
  case (Cons x d)
  have "AList.update (fst x) (snd x) T = T @ [x]" using Cons.prems by (simp add: update_absent)
  then show ?case using Cons by (simp add: case_prod_beta)
qed simp

lemma loadJSON_same: "tracker_ok T \<Longrightarrow> loadJSON T = T"
  using loadJSON_append [of "[]" T] by (simp add: loadJSON_def tracker_ok_def)

text \<open>The state file is imported by the operations of the store.\<close>

definition import_ops :: "savedState \<Rightarrow> store_op list" where
  "import_ops old = map AddName (svNames old) @ map (\<lambda>(n, c). SetTip n c) (svTips old) @
     map (\<lambda>(n, a). SetAppId n a) (svApps old) @ map (\<lambda>(n, t). SetLastSeen n t) (svSeen old)"

lemma importState_ops: "importState D old d = foldl (store_step D) d (import_ops old)"
  by (simp add: importState_def import_ops_def Let_def foldl_map case_prod_unfold store_step.simps)

definition importing :: "store_op \<Rightarrow> bool" where
  "importing op \<longleftrightarrow> (case op of RemoveName _ \<Rightarrow> False | SetDeactivated _ \<Rightarrow> False | ClearDeactivated _ \<Rightarrow> False | _ \<Rightarrow> True)"

lemma import_keeps: "\<forall>op \<in> set ops. importing op \<Longrightarrow>
    pdeact (foldl pstep p ops) = pdeact p \<and> pnames p \<subseteq> pnames (foldl pstep p ops)"
proof (induction ops arbitrary: p)
  case (Cons op ops)
  then have "pdeact (pstep p op) = pdeact p \<and> pnames p \<subseteq> pnames (pstep p op)"
    by (cases op) (auto simp: importing_def)
  then show ?case using Cons.IH [of "pstep p op"] Cons.prems by auto
qed simp

lemma import_ops_ok: "\<forall>op \<in> set (import_ops old). importing op"
  by (auto simp: import_ops_def importing_def)

text \<open>What a disk is: deactivated names are known, and the index is one that was written.\<close>

definition disk_ok :: "'d pinnerEnv \<Rightarrow> 'd \<Rightarrow> tracker option \<Rightarrow> bool" where
  "disk_ok E d idx \<longleftrightarrow> datastore_ok (store E) \<and>
     pdeact (abs_store (store E) d) \<subseteq> pnames (abs_store (store E) d) \<and> (\<forall>T. idx = Some T \<longrightarrow> tracker_ok T)"

lemma pinner_disk_ok: "pinner_ok E s \<Longrightarrow> disk_ok E (disk s) (indexFile s)"
  by (simp add: pinner_ok_def disk_ok_def mirror_def tables_ok_def Let_def)

lemma abs_import: "datastore_ok D \<Longrightarrow> abs_store D (importState D old d) = foldl pstep (abs_store D d) (import_ops old)"
  by (simp add: importState_ops abs_run)

definition disk_of :: "'d pinnerEnv \<Rightarrow> 'd pinner \<Rightarrow> 'd" where
  "disk_of E s = disk (if getNames (store E) (disk s) = [] then migrateFromStateJson E s else s)"

lemma disk_of_ok:
  assumes "disk_ok E (disk s) idx"
  shows "disk_ok E (disk_of E s) idx"
proof -
  have "disk_ok E (importState (store E) old (disk s)) idx" for old
    using assms import_keeps [OF import_ops_ok [of old], of "abs_store (store E) (disk s)"]
    by (auto simp: disk_ok_def abs_import)
  then show ?thesis using assms by (simp add: disk_of_def migrateFromStateJson_def split: option.split)
qed

section \<open>Restoring\<close>

lemma schedule_next_simps [simp]:
  "knownNames (schedule_next s n now) = knownNames s" "nameToAppId (schedule_next s n now) = nameToAppId s"
  "lastSeenAt (schedule_next s n now) = lastSeenAt s" "lastResolvedAt (schedule_next s n now) = lastResolvedAt s"
  "deactivatedNames (schedule_next s n now) = deactivatedNames s" "history (schedule_next s n now) = history s"
  "disk (schedule_next s n now) = disk s" "guaranteedUntil (schedule_next s n now) = guaranteedUntil s"
  "sent (schedule_next s n now) = sent s" "phase (schedule_next s n now) = phase s" "indexFile (schedule_next s n now) = indexFile s"
  "blocks (schedule_next s n now) = blocks s" "pending (schedule_next s n now) = pending s"
  by (simp_all add: schedule_next_def Let_def scheduleDoc_def)

text \<open>The tables that stay as they are while the backfill and the seeding of the schedule run.\<close>

definition same_names :: "'d pinner \<Rightarrow> 'd pinner \<Rightarrow> bool" where
  "same_names s s' \<longleftrightarrow> knownNames s' = knownNames s \<and> nameToAppId s' = nameToAppId s \<and>
     lastResolvedAt s' = lastResolvedAt s \<and> deactivatedNames s' = deactivatedNames s \<and> history s' = history s \<and>
     guaranteedUntil s' = guaranteedUntil s \<and> blocks s' = blocks s"

definition seen_or_0 :: "'d pinnerEnv \<Rightarrow> 'd pinner \<Rightarrow> string \<Rightarrow> 'd pinner" where
  "seen_or_0 E s n = (if lastSeenAt s n = None
     then persist E (s\<lparr>lastSeenAt := (lastSeenAt s)(n \<mapsto> 0)\<rparr>) (SetLastSeen n 0) else s)"

lemma seen_or_0_ok: "pinner_ok E s \<Longrightarrow> pinner_ok E (seen_or_0 E s n)"
  by (auto simp: seen_or_0_def pinner_ok_def tables_ok_def mirror_def Let_def)

lemma seen_fold:
  "same_names s (foldl (seen_or_0 E) s ns) \<and> lastSeenAt (foldl (seen_or_0 E) s ns) =
     (\<lambda>n. if n \<in> set ns \<and> lastSeenAt s n = None then Some 0 else lastSeenAt s n)"
proof (induction ns arbitrary: s)
  case (Cons n ns)
  have "same_names s (seen_or_0 E s n)" "lastSeenAt (seen_or_0 E s n) =
      (\<lambda>m. if m = n \<and> lastSeenAt s m = None then Some 0 else lastSeenAt s m)"
    by (auto simp: seen_or_0_def same_names_def fun_eq_iff)
  then show ?case using Cons.IH [of "seen_or_0 E s n"] by (simp add: same_names_def fun_eq_iff)
qed (simp add: same_names_def)

lemma seed_fold:
  fixes now :: int
  defines "seed \<equiv> \<lambda>s n. if n \<in> set (deactivatedNames s) then s else schedule_next s n now"
  shows "same_names s (foldl seed s ns) \<and> lastSeenAt (foldl seed s ns) = lastSeenAt s \<and>
    (pinner_ok E s \<longrightarrow> pinner_ok E (foldl seed s ns))"
proof (induction ns arbitrary: s)
  case (Cons n ns)
  have "same_names s (seed s n)" "lastSeenAt (seed s n) = lastSeenAt s" "pinner_ok E s \<longrightarrow> pinner_ok E (seed s n)"
    by (simp_all add: seed_def same_names_def schedule_next_ok)
  then show ?case using Cons.IH [of "seed s n"] by (simp add: same_names_def)
qed (simp add: same_names_def)

lemma freshPinner_simps [simp]:
  "knownNames (freshPinner d bs idx old) = []" "nameToAppId (freshPinner d bs idx old) = Map.empty"
  "lastSeenAt (freshPinner d bs idx old) = Map.empty" "lastResolvedAt (freshPinner d bs idx old) = Map.empty"
  "deactivatedNames (freshPinner d bs idx old) = []" "history (freshPinner d bs idx old) = []"
  "disk (freshPinner d bs idx old) = d" "indexFile (freshPinner d bs idx old) = idx" "heap (freshPinner d bs idx old) = []"
  "inHeap (freshPinner d bs idx old) = []" "phase (freshPinner d bs idx old) = Created"
  "guaranteedUntil (freshPinner d bs idx old) = Map.empty" "blocks (freshPinner d bs idx old) = bs"
  "stateFile (freshPinner d bs idx old) = old"
  by (simp_all add: freshPinner_def)

lemma migrate_simps [simp]:
  "knownNames (migrateFromStateJson E s) = knownNames s" "nameToAppId (migrateFromStateJson E s) = nameToAppId s"
  "lastSeenAt (migrateFromStateJson E s) = lastSeenAt s" "lastResolvedAt (migrateFromStateJson E s) = lastResolvedAt s"
  "deactivatedNames (migrateFromStateJson E s) = deactivatedNames s" "history (migrateFromStateJson E s) = history s"
  "indexFile (migrateFromStateJson E s) = indexFile s" "heap (migrateFromStateJson E s) = heap s"
  "inHeap (migrateFromStateJson E s) = inHeap s" "guaranteedUntil (migrateFromStateJson E s) = guaranteedUntil s"
  "blocks (migrateFromStateJson E s) = blocks s" "phase (migrateFromStateJson E s) = phase s"
  by (simp_all add: migrateFromStateJson_def split: option.split)

text \<open>What the tables are after the datastore and the index have been read, and before the backfill.\<close>

definition index_of :: "tracker option \<Rightarrow> tracker" where
  "index_of idx = (case idx of Some T \<Rightarrow> T | None \<Rightarrow> [])"

definition loaded :: "pstate \<Rightarrow> (string \<times> cid) list \<Rightarrow> tracker \<Rightarrow> (cid \<rightharpoonup> bytes) \<Rightarrow> 'd pinner \<Rightarrow> bool" where
  "loaded p tips T bs s \<longleftrightarrow> set (knownNames s) = pnames p \<and> nameToAppId s = papps p \<and> lastResolvedAt s = pres p \<and>
     set (deactivatedNames s) = pdeact p \<and> guaranteedUntil s = Map.empty \<and> blocks s = bs \<and>
     history s = tracker_adds tips (\<lambda>n. orElse (pseen p n) 0) T"

lemma restore_facts:
  fixes E :: "'d pinnerEnv" and old :: "savedState option" and bs :: "cid \<rightharpoonup> bytes"
  assumes ok: "disk_ok E d idx"
  defines "s \<equiv> freshPinner d bs idx old" defines "p \<equiv> abs_store (store E) (disk_of E s)"
  shows "pinner_ok E (restoreState E s now) \<and> 
    loaded p (getTips (store E) (disk_of E s)) (index_of idx) bs (restoreState E s now) \<and>
    lastSeenAt (restoreState E s now) = (\<lambda>n. if n \<in> pnames p \<and> pseen p n = None then Some 0 else pseen p n)"
proof -
  define s0 where "s0 = (if getNames (store E) (disk s) = [] then migrateFromStateJson E s else s)"
  define ns where "ns = foldl (\<lambda>ns n. set_add n ns) [] (getNames (store E) (disk_of E s))"
  define T where "T = tracker_adds (getTips (store E) (disk_of E s)) (\<lambda>n. orElse (pseen p n) 0) (index_of idx)"
  define ds where "ds = foldl (\<lambda>ds n. if n \<in> set ns then set_add n ds else ds) [] (getDeactivatedNames (store E) (disk_of E s))"
  define s2 where "s2 = s0\<lparr>knownNames := ns, history := T, nameToAppId := papps p, lastSeenAt := pseen p,
      lastResolvedAt := pres p, deactivatedNames := ds\<rparr>"
  have d: "disk s0 = disk_of E s" "indexFile s0 = idx" "heap s0 = []" "inHeap s0 = []" "knownNames s0 = []" "nameToAppId s0 = Map.empty"
    "lastSeenAt s0 = Map.empty" "lastResolvedAt s0 = Map.empty" "deactivatedNames s0 = []" "history s0 = []"
    "guaranteedUntil s0 = Map.empty" "blocks s0 = bs"
    by (simp_all add: s0_def disk_of_def s_def)
  have ok': "disk_ok E (disk_of E s) idx" by (rule disk_of_ok) (simp add: s_def ok)
  then have D: "datastore_ok (store E)" and deact: "pdeact p \<subseteq> pnames p" by (simp_all add: disk_ok_def p_def)
  have idx: "tracker_ok (index_of idx)"
    using ok' histories.inv_run [of "[]"] by (cases idx) (simp_all add: disk_ok_def index_of_def)
  note getters = store_refines_facts [OF D, of "disk_of E s", folded p_def]
  have index: "(case idx of None \<Rightarrow> history s0 | Some d \<Rightarrow> loadJSON d) = index_of idx"
    using idx by (cases idx) (simp_all add: index_of_def loadJSON_same d)
  have names: "set ns = pnames p \<and> distinct ns" "set ds = pdeact p \<and> distinct ds"
    using foldl_known [of "[]" "getNames (store E) (disk_of E s)"]
      foldl_deact [of "\<lambda>n. n \<in> set ns" "[]" "getDeactivatedNames (store E) (disk_of E s)"] deact getters(1,2)
    by (auto simp: ns_def ds_def)
  have "pinner_ok E s2"
    using D names deact tracker_adds_ok [OF idx] ok'
    by (simp add: pinner_ok_def tables_ok_def mirror_def s2_def d Let_def p_def T_def heap_ok_def disk_ok_def)
  have r: "restoreState E s now = foldl (\<lambda>s n. if n \<in> set (deactivatedNames s) then s else schedule_next s n now)
      (foldl (seen_or_0 E) s2 ns) ns"
  proof -
    have "restoreState E s now = (let s3 = foldl (seen_or_0 E) s2 ns in
        foldl (\<lambda>s n. if n \<in> set (deactivatedNames s) then s else schedule_next s n now) s3 (knownNames s3))"
      by (simp add: restoreState_def Let_def s0_def [symmetric] d index getters ns_def [symmetric] ds_def [symmetric]
          set_all_map_of T_def tracker_adds_def seen_or_0_def [abs_def] s2_def)
    then show ?thesis using seen_fold [of s2 E ns] by (simp add: same_names_def s2_def Let_def)
  qed
  let ?s3 = "foldl (seen_or_0 E) s2 ns"
  have "pinner_ok E ?s3" using fold_ok [of E "seen_or_0 E"] seen_or_0_ok \<open>pinner_ok E s2\<close> by blast
  then show ?thesis
    unfolding r using seed_fold [of ?s3 now ns E] seen_fold [of s2 E ns] names
    by (auto simp: same_names_def loaded_def s2_def d T_def)
qed

text \<open>A life of a pinner: events, and crashes after which it is started again from what is on disk.\<close>

datatype life = Live "int \<times> event" | Restart int

definition restarted :: "'d pinnerEnv \<Rightarrow> 'd pinner \<Rightarrow> int \<Rightarrow> 'd pinner" where
  "restarted E s now = restoreState E (freshPinner (disk s) (blocks s) (indexFile s) (stateFile s)) now"

fun life_step :: "'d pinnerEnv \<Rightarrow> 'd pinner \<Rightarrow> life \<Rightarrow> 'd pinner" where
  "life_step E s (Live ev) = pinner_step E s ev"
| "life_step E s (Restart now) =
     (case pinner_start E (freshPinner (disk s) (blocks s) (indexFile s) (stateFile s)) now of Inr s' \<Rightarrow> s' | Inl _ \<Rightarrow> s)"

lemma restarted_ok: "disk_ok E (disk s) (indexFile s) \<Longrightarrow> pinner_ok E (restarted E s now)"
  using restore_facts [of E "disk s" "indexFile s"] by (simp add: restarted_def)

lemma pinner_start_ok: "disk_ok E (disk s) (indexFile s) \<Longrightarrow> pinner_ok E (life_step E s (Restart now))"
proof -
  assume "disk_ok E (disk s) (indexFile s)"
  from prune_ok [OF restarted_ok [OF this], of now now] have "pinner_ok E (pruneIfNeeded E (restarted E s now) now)" .
  moreover have "pinner_ok E (t\<lparr>phase := p, resolveAllCompleted := r\<rparr>) = pinner_ok E t" for t p r
    by (rule ok_cong) simp_all
  ultimately show ?thesis by (simp add: pinner_start_def Let_def restarted_def)
qed

lemma life_step_ok: "pinner_ok E s \<Longrightarrow> pinner_ok E (life_step E s l)"
  using pinner_start_ok [OF pinner_disk_ok, of E s] pinner_step_ok [of E s] by (cases l) (simp_all del: life_step.simps(2))

lemma life_ok:
  assumes "disk_ok E d idx"
  shows "pinner_ok E (foldl (life_step E) (freshPinner d bs idx old) (Restart t # ls))"
proof -
  have "pinner_ok E (life_step E (freshPinner d bs idx old) (Restart t))" by (rule pinner_start_ok) (simp add: assms)
  then have "pinner_ok E (foldl (life_step E) (life_step E (freshPinner d bs idx old) (Restart t)) ls)"
    by (induction ls rule: rev_induct) (simp_all add: life_step_ok del: life_step.simps)
  then show ?thesis by simp
qed

text \<open>The tips after restoring: the tip of the index, unless the one in the datastore is at least as new.\<close>

lemma tracker_adds_tip:
  assumes "distinct (map fst tips)"
  shows "map_of (tracker_adds tips ts T) n = (case map_of tips n of
      None \<Rightarrow> map_of T n
    | Some c \<Rightarrow> map_of (tracker_add T n c (ts n)) n)"
  using assms
proof (induction tips arbitrary: T)
  case (Cons x tips)
  have other: "map_of (tracker_add T m c t) n = map_of T n" if "m \<noteq> n" for m c t
    using that by (simp add: tracker_add_def Let_def update_conv')
  have same: "map_of (tracker_add T' n c t) n = map_of (tracker_add T n c t) n" if "map_of T' n = map_of T n" for T' c t
    using that by (simp add: tracker_add_def Let_def update_conv')
  let ?T = "tracker_add T (fst x) (snd x) (ts (fst x))"
  have IH: "map_of (tracker_adds (x # tips) ts T) n = (case map_of tips n of None \<Rightarrow> map_of ?T n
      | Some c \<Rightarrow> map_of (tracker_add ?T n c (ts n)) n)"
    using Cons by (simp add: tracker_adds_def case_prod_beta)
  show ?case
  proof (cases "fst x = n")
    case True
    then have "map_of tips n = None" using Cons.prems by (auto simp: map_of_eq_None_iff)
    then show ?thesis using IH True by (cases x) simp
  next
    case False
    then show ?thesis using IH other same [OF other [OF False]] by (cases x) (simp split: option.split)
  qed
qed (simp add: tracker_adds_def)

definition tip_record :: "tracker \<Rightarrow> string \<Rightarrow> snapRecord option" where
  "tip_record T n = Option.bind (map_of T n) htip"

definition restored_tip :: "int \<Rightarrow> snapRecord option \<Rightarrow> cid option \<Rightarrow> cid option" where
  "restored_tip seen indexed stored = (case (indexed, stored) of
      (Some r, Some c) \<Rightarrow> if rts r \<le> seen then Some c else Some (rcid r)
    | (None, Some c) \<Rightarrow> Some c
    | (r, None) \<Rightarrow> map_option rcid r)"

lemma getTip_record: "tracker_getTip T n = map_option rcid (tip_record T n)"
  by (simp add: tracker_getTip_def tip_record_def split: option.split)

lemma tip_add: "tip_record (tracker_add T n c t) n = newer_tip (tip_record T n) \<lparr>rcid = c, rts = t\<rparr>"
  by (simp add: tip_record_def tracker_add_def Let_def update_conv' split: option.split)

lemma restored_tips:
  assumes "distinct (map fst tips)"
  shows "tracker_getTip (tracker_adds tips ts T) n = restored_tip (ts n) (tip_record T n) (map_of tips n)"
proof (cases "map_of tips n")
  case None
  then show ?thesis using tracker_adds_tip [OF assms, of ts T n]
    by (simp add: getTip_record tip_record_def restored_tip_def split: option.split)
next
  case (Some c)
  then have "tip_record (tracker_adds tips ts T) n = tip_record (tracker_add T n c (ts n)) n"
    using tracker_adds_tip [OF assms, of ts T n] by (simp add: tip_record_def)
  then show ?thesis using Some by (simp add: getTip_record tip_add restored_tip_def newer_tip_def split: option.split)
qed

text \<open>The state file is not read again when the datastore has a name.\<close>

lemma disk_of_same:
  assumes "datastore_ok (store E)" "pnames (abs_store (store E) (disk s)) \<noteq> {} \<or> stateFile s = None"
  shows "disk_of E s = disk s"
  using assms store_refines_facts(1) [OF assms(1), of "disk s"]
  by (auto simp: disk_of_def migrateFromStateJson_def)

section \<open>Properties\<close>



definition node_env :: "(string, string) omap pinnerEnv" where
  "node_env = \<lparr>store = list_datastore, pcr = sample_crypto, cidOf = map (\<lambda>w. char_of (unat w)), validCid = (\<lambda>_. True),
     hasHelia = True, hasPubsub = True, pinnerId = Some ''p'', maxNames = 100, maxNewNames = 10, staleResolveMs = 3 * DAY,
     limits = DEFAULT_RATE_LIMITS, retention = sample_cfg\<rparr>"

text \<open>A day on which the name \<^verbatim>\<open>ab\<close> is announced.\<close>

definition node_life :: "life list" where
  "node_life = [Live (6, Announcement ''ab'' ''c'' None None False None)]"

lemma node_env_ok: "datastore_ok (store node_env)" "pdeact (abs_store (store node_env) []) \<subseteq> pnames (abs_store (store node_env) [])"
  by (simp_all add: node_env_def list_datastore_ok) (simp add: abs_store_def list_datastore_def)

lemma node_started:
  "life_step node_env (freshPinner [] Map.empty None None) (Restart 5) =
     (freshPinner [] Map.empty None None)\<lparr>phase := Running, resolveAllCompleted := True\<rparr>"
proof -
  have "restoreState node_env (freshPinner [] Map.empty None None) 5 = freshPinner [] Map.empty None None"
    by (simp add: restoreState_def node_env_def list_datastore_def freshPinner_def getNames_def query_text_def getTips_def
        getAppIds_def getLastSeenAll_def query_number_def getLastResolvedAll_def getDeactivatedNames_def set_all_def
        migrateFromStateJson_def)
  moreover have "pruneIfNeeded node_env (freshPinner [] Map.empty None None) 5 = freshPinner [] Map.empty None None"
    by (simp add: pruneIfNeeded_def toDelete_def toDeactivate_def overCapacity_def freshPinner_def)
  ultimately show ?thesis by (simp add: pinner_start_def Let_def)
qed

lemma node_life_names:
  "knownNames (foldl (life_step node_env) (freshPinner [] Map.empty None None) (Restart 5 # node_life)) = [''ab'']"
  "lastSeenAt (foldl (life_step node_env) (freshPinner [] Map.empty None None) (Restart 5 # node_life)) = [''ab'' \<mapsto> 6]"
  unfolding node_life_def
  by (simp_all add: node_started del: life_step.simps(2))
     (simp_all add: onAnnouncement_def processAnnouncement_def admit_def node_env_def noteName_def serveCid_def Let_def freshPinner_def
       tryAdmit_def createNewNameLimiter_def set_add_def sawActivity_def reactivate_def)



end
