(* ===== verification/Pinner_Promises.thy ===== *)
theory Pinner_Promises
  imports Pinner_Restart
begin

text \<open>
  The promises of a pinner: what pruning keeps and removes, what a pass over the schedule announces, and whether a
  guarantee that was sent is kept.
\<close>

section \<open>Pruning\<close>

lemma deactivate_fold:
  "knownNames (foldl (deactivateName E) s ns) = knownNames s \<and>
   set (deactivatedNames (foldl (deactivateName E) s ns)) = set (deactivatedNames s) \<union> set ns \<and>
   lastSeenAt (foldl (deactivateName E) s ns) = lastSeenAt s \<and> nameToAppId (foldl (deactivateName E) s ns) = nameToAppId s \<and>
   lastResolvedAt (foldl (deactivateName E) s ns) = lastResolvedAt s \<and> history (foldl (deactivateName E) s ns) = history s \<and>
   blocks (foldl (deactivateName E) s ns) = blocks s \<and> lastAckedCid (foldl (deactivateName E) s ns) = lastAckedCid s \<and>
   guaranteedUntil (foldl (deactivateName E) s ns) = (\<lambda>n. if n \<in> set ns then None else guaranteedUntil s n)"
proof (induction ns arbitrary: s)
  case (Cons n ns)
  have "set (deactivatedNames (deactivateName E s n)) = insert n (set (deactivatedNames s))"
    "guaranteedUntil (deactivateName E s n) = (guaranteedUntil s)(n := None)" "knownNames (deactivateName E s n) = knownNames s"
    "lastSeenAt (deactivateName E s n) = lastSeenAt s" "nameToAppId (deactivateName E s n) = nameToAppId s"
    "lastResolvedAt (deactivateName E s n) = lastResolvedAt s" "history (deactivateName E s n) = history s"
    "blocks (deactivateName E s n) = blocks s" "lastAckedCid (deactivateName E s n) = lastAckedCid s"
    by (simp_all add: deactivateName_def)
  then show ?case using Cons.IH [of "deactivateName E s n"] by (auto simp: fun_eq_iff)
qed simp

text \<open>The CIDs of a document's history, which are deleted with it.\<close>

definition cids_of :: "'d pinner \<Rightarrow> string \<Rightarrow> cid set" where
  "cids_of s n = rcid ` set (getHistory (history s) n)"

definition without :: "string set \<Rightarrow> (string \<rightharpoonup> 'v) \<Rightarrow> string \<rightharpoonup> 'v" where
  "without ns m = (\<lambda>n. if n \<in> ns then None else m n)"

lemma without_upd: "without ns (m(n := None)) = without (insert n ns) m"
  by (auto simp: without_def fun_eq_iff)

lemma without_0 [simp]: "without {} m = m"
  by (simp add: without_def)

lemma delete_fold:
  "knownNames (foldl (deleteName E) s ns) = filter (\<lambda>n. n \<notin> set ns) (knownNames s) \<and>
   set (deactivatedNames (foldl (deleteName E) s ns)) = set (deactivatedNames s) - set ns \<and>
   lastSeenAt (foldl (deleteName E) s ns) = without (set ns) (lastSeenAt s) \<and>
   nameToAppId (foldl (deleteName E) s ns) = without (set ns) (nameToAppId s) \<and>
   lastResolvedAt (foldl (deleteName E) s ns) = without (set ns) (lastResolvedAt s) \<and>
   lastAckedCid (foldl (deleteName E) s ns) = without (set ns) (lastAckedCid s) \<and>
   guaranteedUntil (foldl (deleteName E) s ns) = without (set ns) (guaranteedUntil s) \<and>
   map_of (history (foldl (deleteName E) s ns)) = without (set ns) (map_of (history s)) \<and>
   blocks (foldl (deleteName E) s ns) = (\<lambda>c. if c \<in> (\<Union>n \<in> set ns. cids_of s n) then None else blocks s c)"
proof (induction ns arbitrary: s)
  case (Cons n ns)
  let ?s = "deleteName E s n"
  have h: "map_of (history ?s) = (map_of (history s))(n := None)"
    by (simp add: deleteName_def Let_def tracker_remove_def delete_conv' fun_eq_iff)
  then have c: "cids_of ?s m = (if m = n then {} else cids_of s m)" for m
    by (simp add: cids_of_def getHistory_def)
  have f: "knownNames ?s = set_remove n (knownNames s)" "set (deactivatedNames ?s) = set (deactivatedNames s) - {n}"
    "lastSeenAt ?s = (lastSeenAt s)(n := None)" "nameToAppId ?s = (nameToAppId s)(n := None)"
    "lastResolvedAt ?s = (lastResolvedAt s)(n := None)" "lastAckedCid ?s = (lastAckedCid s)(n := None)"
    "guaranteedUntil ?s = (guaranteedUntil s)(n := None)" "blocks ?s = (\<lambda>c. if c \<in> cids_of s n then None else blocks s c)"
    by (simp_all add: deleteName_def Let_def cids_of_def)
  have U: "c \<in> (\<Union>m \<in> set (n # ns). cids_of s m) \<longleftrightarrow> c \<in> (\<Union>m \<in> set ns. cids_of ?s m) \<or> c \<in> cids_of s n" for c
    by (auto simp: c)
  have "blocks (foldl (deleteName E) ?s ns) = (\<lambda>c. if c \<in> (\<Union>m \<in> set (n # ns). cids_of s m) then None else blocks s c)"
    using Cons.IH [of ?s] unfolding U f(8) by (simp only: if_cancel fun_eq_iff split: if_split) blast
  then show ?case using Cons.IH [of ?s] unfolding f h without_upd foldl_Cons
    by (auto simp: set_remove_def intro: filter_cong)
qed simp

text \<open>The names over the capacity are the first of those that are left, in the order of their last activity.\<close>

definition seen_at :: "'d pinner \<Rightarrow> string \<Rightarrow> int" where
  "seen_at s n = orElse (lastSeenAt s n) 0"

definition survivors :: "'d pinner \<Rightarrow> int \<Rightarrow> string list" where
  "survivors s now = filter (\<lambda>n. n \<notin> set (toDelete s now)) (knownNames s)"

lemma survivors_facts:
  assumes "distinct (knownNames s)"
  shows "int (length (survivors s now)) \<le> max 0 (maxActiveDocs s * PRUNE_HEADROOM) \<and>
    (\<forall>n \<in> set (survivors s now). \<not> expired s now n \<and> (\<forall>m \<in> set (overCapacity s now). seen_at s m \<le> seen_at s n)) \<and>
    (int (length (filter (\<lambda>n. \<not> expired s now n) (knownNames s))) \<le> maxActiveDocs s * PRUNE_HEADROOM \<longrightarrow> overCapacity s now = [])"
proof -
  define kept where "kept = filter (\<lambda>n. \<not> expired s now n) (knownNames s)"
  define cap where "cap = nat (maxActiveDocs s * PRUNE_HEADROOM)"
  define srt where "srt = sort_key (seen_at s) kept"
  define k where "k = length kept - cap"
  have over: "overCapacity s now = take k srt"
    by (simp add: overCapacity_def Let_def kept_def cap_def srt_def k_def seen_at_def [abs_def])
  have ds: "distinct srt" "set srt = set kept" "length srt = length kept" using assms by (simp_all add: srt_def kept_def)
  have surv: "survivors s now = filter (\<lambda>n. n \<notin> set (take k srt)) kept"
    unfolding survivors_def toDelete_def over kept_def by (auto intro: filter_cong)
  have split: "set (take k srt) \<union> set (drop k srt) = set kept" "set (take k srt) \<inter> set (drop k srt) = {}"
    using set_append [of "take k srt" "drop k srt"] ds set_take_disj_set_drop_if_distinct [of srt k k] by auto
  have sset: "set (survivors s now) = set (drop k srt)" using split by (auto simp: surv)
  have "distinct (survivors s now)" using assms by (simp add: survivors_def)
  then have "length (survivors s now) = length (drop k srt)"
    using sset ds(1) by (metis distinct_card distinct_drop)
  then have "length (survivors s now) \<le> cap" by (simp add: ds(3) k_def)
  moreover have "sorted (map (seen_at s) (take k srt) @ map (seen_at s) (drop k srt))"
    unfolding map_append [symmetric] append_take_drop_id srt_def by (rule sorted_sort_key)
  then have "\<forall>m \<in> set (take k srt). \<forall>n \<in> set (drop k srt). seen_at s m \<le> seen_at s n"
    by (auto simp: sorted_append)
  moreover have "overCapacity s now = []" if "int (length kept) \<le> maxActiveDocs s * PRUNE_HEADROOM"
    using that by (simp add: over k_def cap_def)
  ultimately show ?thesis using sset split(1) over by (auto simp: cap_def kept_def)
qed

lemma getTip_abs: "getTip D d n = ptips (abs_store D d) n"
  by (simp add: getTip_def abs_store_def)

lemma hasName_abs: "hasName D d n \<longleftrightarrow> n \<in> pnames (abs_store D d)"
  by (simp add: hasName_def abs_store_def)

lemma prune_tips:
  assumes "datastore_ok (store E)"
  shows "ptips (abs_store (store E) (disk (foldl (deactivateName E) s ns))) = ptips (abs_store (store E) (disk s))"
    "ptips (abs_store (store E) (disk (foldl (deleteName E) s ns))) = without (set ns) (ptips (abs_store (store E) (disk s)))"
proof -
  show "ptips (abs_store (store E) (disk (foldl (deactivateName E) s ns))) = ptips (abs_store (store E) (disk s))"
    by (induction ns arbitrary: s) (simp_all add: deactivateName_def assms)
  show "ptips (abs_store (store E) (disk (foldl (deleteName E) s ns))) = without (set ns) (ptips (abs_store (store E) (disk s)))"
  proof (induction ns arbitrary: s)
    case (Cons n ns)
    have "ptips (abs_store (store E) (disk (deleteName E s n))) = (ptips (abs_store (store E) (disk s)))(n := None)"
      by (simp add: deleteName_def Let_def assms)
    then show ?case using Cons.IH [of "deleteName E s n"] by (simp only: foldl_Cons list.set without_upd)
  qed simp
qed

section \<open>What a pass announces\<close>

definition active :: "'d pinner \<Rightarrow> string \<Rightarrow> bool" where
  "active s n \<longleftrightarrow> n \<in> set (knownNames s) \<and> n \<notin> set (deactivatedNames s) \<and> nameToAppId s n \<noteq> None \<and>
     tracker_getTip (history s) n \<noteq> None"

definition entries :: "string \<Rightarrow> scheduledDoc multiset \<Rightarrow> nat" where
  "entries n h = size (filter_mset (\<lambda>d. sname d = n) h)"

lemma entries_simps [simp]: "entries n {#} = 0" "entries n (add_mset d h) = (if sname d = n then Suc (entries n h) else entries n h)"
  by (simp_all add: entries_def)

fun announces :: "string \<Rightarrow> outmsg \<Rightarrow> bool" where
  "announces n (Announced m c g) = (m = n)"
| "announces n _ = False"

definition announced :: "string \<Rightarrow> outmsg list \<Rightarrow> nat" where
  "announced n ms = length (filter (announces n) ms)"

text \<open>The fields a pass reads and does not change.\<close>

definition frame :: "'d pinner \<Rightarrow> string list \<times> string list \<times> (string \<rightharpoonup> string) \<times> tracker \<times> (string \<rightharpoonup> int) \<times> nat \<times> real \<times> phase" where
  "frame s = (knownNames s, deactivatedNames s, nameToAppId s, history s, lastSeenAt s, scheduledDocCount s, perDocEma s, phase s)"

lemma frame_active: "frame s' = frame s \<Longrightarrow> active s' n = active s n"
  by (simp add: frame_def active_def)

lemma frame_interval: "frame s' = frame s \<Longrightarrow> reannounceInterval s' n now = reannounceInterval s n now"
proof -
  assume "frame s' = frame s"
  then have f: "lastSeenAt s' = lastSeenAt s" "scheduledDocCount s' = scheduledDocCount s" "perDocEma s' = perDocEma s"
    by (simp_all add: frame_def)
  show ?thesis unfolding reannounceInterval_def loadFactor_def maxActiveDocs_def f by (rule refl)
qed

lemma frame_tip: "frame s' = frame s \<Longrightarrow> tracker_getTip (history s') n = tracker_getTip (history s) n"
  by (simp add: frame_def)

definition again :: "'d pinner \<Rightarrow> string \<Rightarrow> int \<Rightarrow> bool" where
  "again s n now \<longleftrightarrow> active s n \<and> reannounceInterval s n now < real_of_int MAX_INTERVAL_MS"

lemma frame_again: "frame s' = frame s \<Longrightarrow> again s' n now = again s n now"
  unfolding again_def by (simp only: frame_active [of s' s] frame_interval [of s' s])

lemma announceDue_sent:
  "\<exists>g. sent (announceDue E s n c now) = sent s @ [Announced n c g] \<and> frame (announceDue E s n c now) = frame s"
  by (auto simp: announceDue_def frame_def split: option.split prod.split dest!: issueGuarantee_fields)

text \<open>A round of the pass on the entry of \<open>n\<close>: what it sends and what it puts back.\<close>

definition served :: "'d pinner \<Rightarrow> string \<Rightarrow> int \<Rightarrow> 'd pinner \<Rightarrow> nat \<Rightarrow> bool" where
  "served s n now s1 k \<longleftrightarrow> frame s1 = frame s \<and>
     (\<exists>ms. sent s1 = sent s @ ms \<and> k = length ms \<and>
        (if active s n then \<exists>c g. ms = [Announced n c g] \<and> tracker_getTip (history s) n = Some c else ms = [])) \<and>
     (if again s n now then \<exists>t. mset (heap s1) = add_mset \<lparr>sname = n, nextAt = t\<rparr> (mset (heap s)) else heap s1 = heap s)"

lemma serveDoc_served:
  assumes "heap_ok (heap s)"
  shows "served s n now (fst (serveDoc E s n now)) (snd (serveDoc E s n now))"
proof (cases "active s n")
  case True
  then obtain a c where c: "nameToAppId s n = Some a" "tracker_getTip (history s) n = Some c" by (auto simp: active_def)
  obtain g where g: "sent (announceDue E s n c now) = sent s @ [Announced n c g]" "frame (announceDue E s n c now) = frame s"
    using announceDue_sent by blast
  let ?s1 = "announceDue E s n c now"
  have s1: "reannounceInterval ?s1 n now = reannounceInterval s n now" by (rule frame_interval [OF g(2)])
  have f: "frame (scheduleDoc t n u) = frame t" "frame (t\<lparr>inHeap := h\<rparr>) = frame t" for t :: "'a pinner" and u h
    by (simp_all add: frame_def scheduleDoc_def)
  have "mset (heap (scheduleDoc ?s1 n t)) = add_mset \<lparr>sname = n, nextAt = t\<rparr> (mset (heap s))" for t
    using heap.push_ok [OF assms] by (simp add: scheduleDoc_def)
  moreover have "sent (scheduleDoc ?s1 n t) = sent s @ [Announced n c g]" for t using g by (simp add: scheduleDoc_def)
  moreover have "n \<in> set (knownNames s) \<and> n \<notin> set (deactivatedNames s)" using True by (simp add: active_def)
  ultimately show ?thesis using True c g s1
    by (auto simp: served_def serveDoc_def Let_def f again_def)
next
  case False
  then show ?thesis by (auto simp: served_def serveDoc_def frame_def again_def active_def split: option.split)
qed

definition later :: "int \<Rightarrow> scheduledDoc multiset \<Rightarrow> scheduledDoc multiset" where
  "later t h = filter_mset (\<lambda>d. real_of_int t < nextAt d) h"

lemma due_later_simps [simp]:
  "due t {#} = {#}" "later t {#} = {#}"
  "due t (add_mset d h) = (if nextAt d \<le> real_of_int t then add_mset d (due t h) else due t h)"
  "later t (add_mset d h) = (if real_of_int t < nextAt d then add_mset d (later t h) else later t h)"
  by (simp_all add: due_def later_def)

lemma nothing_due: "\<forall>d \<in># h. real_of_int t < nextAt d \<Longrightarrow> due t h = {#} \<and> later t h = h"
  by (induction h) auto

definition passed :: "'d pinner \<Rightarrow> int \<Rightarrow> int \<Rightarrow> 'd pinner \<Rightarrow> nat \<Rightarrow> bool" where
  "passed s start now s' k \<longleftrightarrow> frame s' = frame s \<and>
     (\<exists>ms. sent s' = sent s @ ms \<and> k = length ms \<and>
        (\<forall>n. announced n ms = (if active s n then entries n (due start (mset (heap s))) else 0)) \<and>
        (\<forall>m \<in> set ms. \<exists>n c g. m = Announced n c g \<and> tracker_getTip (history s) n = Some c)) \<and>
     (\<forall>n. entries n (mset (heap s')) =
        (if again s n now then entries n (mset (heap s)) else entries n (later start (mset (heap s)))))"

lemma passed_0:
  assumes "due start (mset (heap s)) = {#}" "later start (mset (heap s)) = mset (heap s)"
  shows "passed s start now s 0"
  using assms by (simp add: passed_def announced_def)

text \<open>A round on a due entry, followed by the rest of the pass.\<close>

lemma passed_Suc:
  assumes d: "mset (heap s) = add_mset d (mset h)" "nextAt d \<le> real_of_int start"
    and s1: "served (s\<lparr>heap := h\<rparr>) (sname d) now s1 k" "due start (mset (heap s1)) = due start (mset h)"
    and s2: "passed s1 start now s2 l"
  shows "passed s start now s2 (k + l)"
proof -
  have f0: "frame (s\<lparr>heap := h\<rparr>) = frame s" by (simp add: frame_def)
  have f1: "frame s1 = frame s" using s1(1) f0 by (simp add: served_def)
  have act: "active (s\<lparr>heap := h\<rparr>) n = active s n" "active s1 n = active s n" "again (s\<lparr>heap := h\<rparr>) n now = again s n now"
    "again s1 n now = again s n now" "tracker_getTip (history s1) n = tracker_getTip (history s) n" for n
    by (rule frame_active [OF f0] frame_active [OF f1] frame_again [OF f0] frame_again [OF f1] frame_tip [OF f1])+
  obtain ms1 where ms1: "sent s1 = sent s @ ms1" "k = length ms1"
    "if active s (sname d) then \<exists>c g. ms1 = [Announced (sname d) c g] \<and> tracker_getTip (history s) (sname d) = Some c else ms1 = []"
    using s1(1) by (auto simp: served_def act cong: if_cong)
  have h1: "if again s (sname d) now then \<exists>t. mset (heap s1) = add_mset \<lparr>sname = sname d, nextAt = t\<rparr> (mset h) else heap s1 = h"
    using s1(1) by (simp add: served_def act cong: if_cong)
  obtain ms2 where ms2: "sent s2 = sent s1 @ ms2" "l = length ms2"
    "\<forall>n. announced n ms2 = (if active s n then entries n (due start (mset h)) else 0)"
    "\<forall>m \<in> set ms2. \<exists>n c g. m = Announced n c g \<and> tracker_getTip (history s) n = Some c"
    and e2: "\<forall>n. entries n (mset (heap s2)) =
        (if again s n now then entries n (mset (heap s1)) else entries n (later start (mset (heap s1))))"
    using s2 by (auto simp: passed_def act s1(2))
  have "announced n (ms1 @ ms2) = (if active s n then entries n (due start (mset (heap s))) else 0)" for n
    using ms1(3) ms2(3) d by (auto simp: announced_def split: if_splits)
  moreover have "\<forall>m \<in> set (ms1 @ ms2). \<exists>n c g. m = Announced n c g \<and> tracker_getTip (history s) n = Some c"
    using ms1(3) ms2(4) by (auto split: if_splits)
  moreover have "entries n (mset (heap s2)) =
      (if again s n now then entries n (mset (heap s)) else entries n (later start (mset (heap s))))" for n
    using h1 e2 [rule_format, of n] d by (auto split: if_splits)
  moreover have "frame s2 = frame s" using s2 f1 by (simp add: passed_def)
  ultimately show ?thesis using ms1(1,2) ms2(1,2) unfolding passed_def by (metis append.assoc length_append)
qed

lemma pass_stops:
  assumes "heap_ok (heap s)" "case heapPeek (heap s) of None \<Rightarrow> True | Some d \<Rightarrow> real_of_int start < nextAt d"
  shows "passed s start now s 0"
proof -
  have "\<forall>x \<in># mset (heap s). real_of_int start < nextAt x"
  proof (cases "heapPeek (heap s)")
    case None
    then show ?thesis using heap.peek_None_iff [OF assms(1)] by simp
  next
    case (Some d)
    then show ?thesis using heap.peek_least [OF assms(1) Some] assms(2) by fastforce
  qed
  then show ?thesis using passed_0 nothing_due by blast
qed

lemma serveDue_passed:
  assumes "heap_ok (heap s)" "start \<le> now" "phase s = Running" "serveDue fuel E s start now = Some (s', k)"
  shows "passed s start now s' k"
  using assms(1,3,4)
proof (induction fuel arbitrary: s k)
  case 0
  then show ?case using pass_stops [OF 0(1), of start now] by (auto split: option.splits if_splits)
next
  case (Suc fuel)
  show ?case
  proof (cases "heapPeek (heap s)")
    case None
    then show ?thesis using Suc.prems pass_stops [OF Suc.prems(1), of start now] by simp
  next
    case (Some d)
    obtain h where h: "heapPop (heap s) = (h, Some d)" "heap_ok h" "mset (heap s) = add_mset d (mset h)"
      "\<forall>x \<in># mset (heap s). nextAt d \<le> nextAt x"
      using heap.pop_peek [OF Suc.prems(1) Some] by blast
    show ?thesis
    proof (cases "real_of_int start < nextAt d")
      case True
      then show ?thesis using Some Suc.prems pass_stops [OF Suc.prems(1), of start now] by simp
    next
      case False
      let ?t = "s\<lparr>heap := h\<rparr>"
      obtain s1 j where s1: "serveDoc E ?t (sname d) now = (s1, j)" by force
      have t: "heap_ok (heap ?t)" by (simp add: h(2))
      note sd = serveDoc_due [OF t assms(2), of E "sname d", unfolded s1 fst_conv]
      have sv: "served ?t (sname d) now s1 j" using serveDoc_served [OF t, of "sname d" now E] by (simp add: s1)
      obtain l where l: "serveDue fuel E s1 start now = Some (s', l)" "k = j + l"
        using Suc.prems(2,3) Some False h(1) s1 by auto
      have "passed s1 start now s' l" using Suc.IH [OF _ _ l(1)] sd Suc.prems(2) by simp
      then show ?thesis using passed_Suc [OF h(3) _ sv _ \<open>passed s1 start now s' l\<close>] False sd l(2) by simp
    qed
  qed
qed

section \<open>Compaction\<close>

definition keep_earliest :: "string list \<Rightarrow> (string, scheduledDoc) omap \<Rightarrow> scheduledDoc \<Rightarrow> (string, scheduledDoc) omap" where
  "keep_earliest names best d =
     (if sname d \<notin> set names then best
      else case map_of best (sname d) of
        Some e \<Rightarrow> if nextAt d < nextAt e then AList.update (sname d) d best else best
      | None \<Rightarrow> AList.update (sname d) d best)"

definition earliest :: "string list \<Rightarrow> scheduledDoc list \<Rightarrow> (string, scheduledDoc) omap \<Rightarrow> bool" where
  "earliest names ds best \<longleftrightarrow> distinct (map fst best) \<and>
     (\<forall>n. case map_of best n of
        None \<Rightarrow> n \<notin> set names \<or> n \<notin> sname ` set ds
      | Some e \<Rightarrow> n \<in> set names \<and> e \<in> set ds \<and> sname e = n \<and> (\<forall>d \<in> set ds. sname d = n \<longrightarrow> nextAt e \<le> nextAt d))"

lemma earliest_snoc:
  assumes "earliest names ds best"
  shows "earliest names (ds @ [d]) (keep_earliest names best d)"
proof -
  have "case map_of (keep_earliest names best d) n of
        None \<Rightarrow> n \<notin> set names \<or> n \<notin> sname ` set (ds @ [d])
      | Some e \<Rightarrow> n \<in> set names \<and> e \<in> set (ds @ [d]) \<and> sname e = n \<and> (\<forall>d' \<in> set (ds @ [d]). sname d' = n \<longrightarrow> nextAt e \<le> nextAt d')"
    for n
  proof (cases "map_of best (sname d)")
    case None
    then have "\<forall>d' \<in> set ds. sname d' = sname d \<longrightarrow> sname d \<notin> set names"
      using assms unfolding earliest_def by (metis (mono_tags, lifting) imageI option.simps(4))
    then show ?thesis using assms None
      by (auto simp: keep_earliest_def earliest_def update_conv' dest!: spec [of _ n] split: option.splits)
  next
    case (Some e)
    have e: "sname d \<in> set names \<and> (\<forall>d' \<in> set ds. sname d' = sname d \<longrightarrow> nextAt e \<le> nextAt d')"
      using assms Some by (auto simp: earliest_def dest!: spec [of _ "sname d"])
    then have "nextAt d < nextAt e \<Longrightarrow> \<forall>d' \<in> set ds. sname d' = sname d \<longrightarrow> nextAt d \<le> nextAt d'" by fastforce
    then show ?thesis using assms Some e
      by (cases "n = sname d") (auto simp: keep_earliest_def earliest_def update_conv' dest!: spec [of _ n] split: option.splits)
  qed
  moreover have "distinct (map fst (keep_earliest names best d))"
    using assms by (auto simp: keep_earliest_def earliest_def distinct_update split: option.split)
  ultimately show ?thesis by (simp add: earliest_def)
qed

lemma best_docs_earliest: "earliest (knownNames s) (heap s) (best_docs s)"
proof -
  have "earliest (knownNames s) ds (foldl (keep_earliest (knownNames s)) [] ds)" for ds
    by (induction ds rule: rev_induct) (simp_all add: earliest_snoc, simp add: earliest_def)
  then show ?thesis by (simp add: best_docs_def keep_earliest_def [abs_def])
qed

text \<open>After a compaction every known name that had an entry has one, the earliest.\<close>

lemma entries_keyed: "distinct (map fst best) \<Longrightarrow> \<forall>(k, e) \<in> set best. sname e = k \<Longrightarrow>
    entries n (mset (map snd best)) = (if n \<in> fst ` set best then 1 else 0)"
proof (induction best)
  case (Cons x best)
  then have "n = fst x \<Longrightarrow> n \<notin> fst ` set best" by auto
  then show ?case using Cons by (auto simp: case_prod_beta)
qed simp

lemma compactHeap_facts:
  fixes s :: "'d pinner"
  shows "entries n (mset (heap (compactHeap s))) = (if n \<in> set (knownNames s) \<and> 0 < entries n (mset (heap s)) then 1 else 0) \<and>
    (\<forall>e \<in> set (heap (compactHeap s)). e \<in> set (heap s) \<and> (\<forall>d \<in> set (heap s). sname d = sname e \<longrightarrow> nextAt e \<le> nextAt d))"
proof -
  define best where "best = best_docs s"
  note E = best_docs_earliest [of s, unfolded earliest_def, folded best_def]
  have m: "mset (heap (compactHeap s)) = mset (map snd best)"
    using heap.push_all_ok [of "[]" "map snd best"] by (simp add: compactHeap_def Let_def best_def heap_ok_def)
  have named: "map_of best k = Some e \<and> sname e = k" if "(k, e) \<in> set best" for k e
    using E that map_of_is_SomeI [of best k e] by (metis (mono_tags, lifting) option.simps(5))
  have "entries n (mset (map snd best)) = (if n \<in> fst ` set best then 1 else 0)"
    by (rule entries_keyed) (use E named in auto)
  moreover have "0 < entries n (mset (heap s)) \<longleftrightarrow> n \<in> sname ` set (heap s)"
    by (auto simp: entries_def nonempty_has_size [symmetric] filter_mset_eq_mempty_iff)
  moreover have "n \<in> fst ` set best \<longleftrightarrow> n \<in> set (knownNames s) \<and> n \<in> sname ` set (heap s)"
  proof (cases "map_of best n")
    case None
    then have "n \<notin> fst ` set best" by (simp add: map_of_eq_None_iff)
    then show ?thesis using E None by (metis (mono_tags, lifting) option.simps(4))
  next
    case (Some e)
    then have "n \<in> fst ` set best" by (metis domI dom_map_of_conv_image_fst)
    then show ?thesis using E Some by (metis (mono_tags, lifting) imageI option.simps(5))
  qed
  moreover have "e \<in> set (heap s) \<and> (\<forall>d \<in> set (heap s). sname d = sname e \<longrightarrow> nextAt e \<le> nextAt d)"
    if "e \<in> set (heap (compactHeap s))" for e
  proof -
    have "e \<in> snd ` set best" using that m by (metis set_map set_mset_mset)
    then obtain k where "(k, e) \<in> set best" by auto
    from named [OF this] have "map_of best k = Some e" "sname e = k" by simp_all
    then show ?thesis using E by (metis (mono_tags, lifting) option.simps(5))
  qed
  ultimately show ?thesis unfolding m by simp
qed

section \<open>Properties\<close>


lemma entries_later: "entries n (later t h) \<le> entries n h"
  by (induction h) auto

lemma compact_if:
  fixes s2 :: "'d pinner"
  defines "s' \<equiv> (if COMPACT_THRESHOLD \<le> stalePushes s2 then compactHeap s2 else s2)"
  shows "stalePushes s' < COMPACT_THRESHOLD" "sent s' = sent s2" "set (heap s') \<subseteq> set (heap s2)"
    "n \<in> set (knownNames s2) \<Longrightarrow> 0 < entries n (mset (heap s')) \<longleftrightarrow> 0 < entries n (mset (heap s2))"
proof -
  show "stalePushes s' < COMPACT_THRESHOLD" "sent s' = sent s2"
    by (simp_all add: s'_def compactHeap_def Let_def COMPACT_THRESHOLD_def)
  show "set (heap s') \<subseteq> set (heap s2)" using compactHeap_facts [of _ s2] by (auto simp: s'_def)
  show "n \<in> set (knownNames s2) \<Longrightarrow> 0 < entries n (mset (heap s')) \<longleftrightarrow> 0 < entries n (mset (heap s2))"
    using compactHeap_facts [of n s2] by (simp add: s'_def)
qed

text \<open>
  C10: A pass over the schedule ends.  It announces the tip of every document that is known, not deactivated and has an
  application and a tip exactly as often as it has entries that are due, and nothing else; nothing that was due stays in
  the heap, and a document stays scheduled exactly when it has an entry for later or its interval is below a day.
\<close>

theorem schedule_serves:
  assumes "pinner_ok E s" "phase s = Running" "hasHelia E" "hasPubsub E" "start \<le> now" "length (heap s) < fuel"
  shows "\<exists>s' ms. processScheduleQueue fuel E s start now = Some s' \<and> sent s' = sent s @ ms \<and>
    (\<forall>n. length (filter (announces n) ms) = (if active s n then entries n (due start (mset (heap s))) else 0)) \<and>
    (\<forall>m \<in> set ms. \<exists>n c g. m = Announced n c g \<and> tracker_getTip (history s) n = Some c) \<and>
    (\<forall>d \<in> set (heap s'). real_of_int start < nextAt d) \<and> stalePushes s' < COMPACT_THRESHOLD \<and>
    (\<forall>n \<in> set (knownNames s). 0 < entries n (mset (heap s')) \<longleftrightarrow>
      0 < entries n (later start (mset (heap s))) \<or>
      active s n \<and> 0 < entries n (mset (heap s)) \<and> reannounceInterval s n now < real_of_int MAX_INTERVAL_MS)"
proof -
  have h: "heap_ok (heap s)" using assms(1) by (simp add: pinner_ok_def tables_ok_def)
  have "size (due start (mset (heap s))) < fuel" using size_due [of start "mset (heap s)"] assms(6) by simp
  from serveDue_total [OF h assms(5) this, of E] assms(2) obtain s1 k where s1: "serveDue fuel E s start now = Some (s1, k)"
    "due start (mset (heap s1)) = {#}" by blast
  note p = serveDue_passed [OF h assms(5,2) s1(1)]
  define s2 where "s2 = (if 0 < k then s1\<lparr>scheduledDocCount := length (inHeap s1),
      perDocEma := EMA_ALPHA * (real_of_int (now - start) / real k) + (1 - EMA_ALPHA) * perDocEma s1\<rparr> else s1)"
  define s' where "s' = (if COMPACT_THRESHOLD \<le> stalePushes s2 then compactHeap s2 else s2)"
  have r: "processScheduleQueue fuel E s start now = Some s'"
    using assms(3,4) by (simp add: processScheduleQueue_def s1(1) s'_def s2_def Let_def del: serveDue.simps)
  have same: "heap s2 = heap s1" "sent s2 = sent s1" "knownNames s2 = knownNames s" 
    using p by (simp_all add: s2_def passed_def frame_def)
  obtain ms where ms: "sent s1 = sent s @ ms"
    "\<forall>n. announced n ms = (if active s n then entries n (due start (mset (heap s))) else 0)"
    "\<forall>m \<in> set ms. \<exists>n c g. m = Announced n c g \<and> tracker_getTip (history s) n = Some c"
    and e: "\<forall>n. entries n (mset (heap s1)) =
        (if again s n now then entries n (mset (heap s)) else entries n (later start (mset (heap s))))"
    using p by (auto simp: passed_def)
  have "\<forall>d \<in> set (heap s'). real_of_int start < nextAt d"
    using compact_if(3) [of s2, folded s'_def] s1(2) unfolding same by (auto simp: due_def not_le)
  moreover have "0 < entries n (mset (heap s')) \<longleftrightarrow> 0 < entries n (later start (mset (heap s))) \<or>
      active s n \<and> 0 < entries n (mset (heap s)) \<and> reannounceInterval s n now < real_of_int MAX_INTERVAL_MS"
    if "n \<in> set (knownNames s)" for n
    using compact_if(4) [of n s2, folded s'_def] that e entries_later [of n start "mset (heap s)"]
    by (auto simp: same again_def)
  ultimately show ?thesis using r ms compact_if(1,2) [of s2, folded s'_def] by (auto simp: same announced_def)
qed

lemma guaranteeDuration_bounds: "DAY \<le> guaranteeDuration s \<and> guaranteeDuration s \<le> 7 * DAY"
  by (simp add: guaranteeDuration_def Let_def DAY_def)

lemma day_defs: "RETENTION_DURATION_MS = 14 * DAY" "DEACTIVATED_RETENTION_MS = 7 * DAY"
  by (simp_all add: RETENTION_DURATION_MS_def DEACTIVATED_RETENTION_MS_def DAY_def)

lemma prune_known: "n \<in> set (knownNames (pruneIfNeeded E s u)) \<longleftrightarrow>
    n \<in> set (knownNames s) \<and> \<not> expired s u n \<and> n \<notin> set (overCapacity s u)"
  using deactivate_fold [of E s "toDeactivate E s u"] delete_fold [of E _ "toDelete s u"]
  by (auto simp: pruneIfNeeded_def toDelete_def)

text \<open>
  C27: A fresh guarantee lasts one to seven days from the last activity, and the retention that is announced with it fourteen.
  The document is not deleted in the first seven days, unless there are too many, and not in fourteen as long as it is
  active; but a document that has been deactivated is deleted after seven, whatever retention was announced.
\<close>

theorem guarantee_window:
  assumes "n \<in> set (knownNames s)" "lastSeenAt s n = Some seen" "guaranteedUntil s n = None" "0 \<le> seen"
    "issueGuarantee s n now = (s1, g, r)"
  shows "seen + DAY \<le> g \<and> g \<le> seen + 7 * DAY \<and> r = seen + 14 * DAY \<and>
    (\<forall>u \<le> seen + 7 * DAY. n \<in> set (knownNames (pruneIfNeeded E s1 u)) \<or> n \<in> set (overCapacity s1 u)) \<and>
    (if n \<in> set (deactivatedNames s) then \<forall>u > seen + 7 * DAY. n \<notin> set (knownNames (pruneIfNeeded E s1 u))
     else \<forall>u \<le> r. n \<in> set (knownNames (pruneIfNeeded E s1 u)) \<or> n \<in> set (overCapacity s1 u))"
  using issueGuarantee_fields [OF assms(5)] guaranteeDuration_bounds [of s] assms(1-4)
  by (auto simp: prune_known expired_def day_defs DAY_def)

text \<open>
  C26: A document that a pinner first hears of from another pinner is fetched and acknowledged with a guarantee of a day or
  more and a retention of fourteen days, but has no time of activity: the next pruning deletes it.
\<close>

theorem unseen_promise_broken:
  assumes "phase s = Running" "hasHelia E" "hasPubsub E" "pinnerId E \<noteq> None"
    "n \<notin> set (knownNames s)" "n \<notin> set (deactivatedNames s)" "lastSeenAt s n = None" "lastAckedCid s n = None"
    "tracker_getTip (history s) n = None" "length (knownNames s) < maxNames E"
    "snd (tryAdmit (maxNewNames E) (nameLimiter s) t)" "validCid E c" "genuine_block E n b = Some node"
    "s1 = onAnnouncement E s n c (Some a) (Some b) True pr t" "s2 = finish E s1 (length (pending s)) got t1"
    "RETENTION_DURATION_MS < u"
  shows "\<exists>g. AckSent n c a g (t1 + RETENTION_DURATION_MS) \<in> set (sent s2) \<and> t1 + DAY \<le> g \<and>
    n \<in> set (knownNames s2) \<and> n \<notin> set (knownNames (pruneIfNeeded E s2 u))"
proof -
  obtain L where L: "tryAdmit (maxNewNames E) (nameLimiter s) t = (L, True)" using assms(11) by (metis prod.collapse)
  obtain p where p: "pinnerId E = Some p" using assms(4) by blast
  have s1: "pending s1 = pending s @ [Fetching n c (Some a) (Some b)]" "n \<notin> set (deactivatedNames s1)" "lastSeenAt s1 n = None"
    using assms(1,2,5-10,12) L
    by (simp_all add: assms(14) onAnnouncement_def processAnnouncement_def admit_def noteName_def serveCid_def fetchByCid_def Let_def)
  define s0 where "s0 = s1\<lparr>pending := pending s\<rparr>"
  define s3 where "s3 = persist E (persist E (s0\<lparr>blocks := (blocks s0)(c \<mapsto> b), knownNames := set_add n (knownNames s0),
      history := tracker_add (history s0) n c (snTs node)\<rparr>) (AddName n)) (SetTip n c)"
  have "s2 = ackFetched E s3 n c (Some a) t1"
    using s1(1) assms(13) by (simp add: assms(15) finish_def finishFetch_def s0_def s3_def Let_def)
  moreover obtain s4 g r where g: "issueGuarantee s3 n t1 = (s4, g, r)" by (metis prod_cases3)
  ultimately have s2: "s2 = thinVersionHistory E (s4\<lparr>lastAckedCid := (lastAckedCid s4)(n \<mapsto> c), sent := sent s4 @ [AckSent n c a g r]\<rparr>) n t1"
    using assms(3) p by (simp add: ackFetched_def)
  have s3: "lastSeenAt s3 n = None" "n \<notin> set (deactivatedNames s3)" "n \<in> set (knownNames s3)"
    using s1 by (simp_all add: s3_def s0_def)
  note f = issueGuarantee_fields [OF g]
  have t: "sent (thinVersionHistory E x n t1) = sent x" "lastSeenAt (thinVersionHistory E x n t1) = lastSeenAt x"
    "knownNames (thinVersionHistory E x n t1) = knownNames x" "deactivatedNames (thinVersionHistory E x n t1) = deactivatedNames x" for x
    by (simp_all add: thinVersionHistory_def split: prod.split)
  have "expired s2 u n" using f s3 assms(16) by (simp add: s2 t expired_def)
  then show ?thesis using f s3 guaranteeDuration_bounds [of s3]
    by (auto simp: s2 t prune_known intro!: exI [of _ g])
qed

section \<open>Examples\<close>

text \<open>A pinner with one document, due at 10, and a block of it that is genuine.\<close>

definition node_disk :: "(string, string) omap" where
  "node_disk = foldl (store_step list_datastore) []
     [AddName ''03'', SetAppId ''03'' ''app'', SetTip ''03'' ''c'', SetLastSeen ''03'' 5]"

definition node_state :: "(string, string) omap pinner" where
  "node_state = (freshPinner node_disk Map.empty None None)\<lparr>phase := Running, knownNames := [''03''],
     nameToAppId := [''03'' \<mapsto> ''app''], lastSeenAt := [''03'' \<mapsto> 5],
     history := [(''03'', \<lparr>htip = Some \<lparr>rcid = ''c'', rts = 5\<rparr>, snaps = [\<lparr>rcid = ''c'', rts = 5\<rparr>]\<rparr>)],
     heap := [\<lparr>sname = ''03'', nextAt = 10\<rparr>], inHeap := [''03'']\<rparr>"

definition node_block :: bytes where
  "node_block = encodeSnapshot sample_crypto [(''content'', [1])] [twelve] [7] None 0 5
     (ed25519KeyPairFromSeed sample_crypto [3]) None"

lemma node_state_ok: "pinner_ok node_env node_state"
proof -
  have "abs_store list_datastore [] = \<lparr>pnames = {}, ptips = Map.empty, papps = Map.empty, pseen = Map.empty, pres = Map.empty, pdeact = {}\<rparr>"
    by (simp add: abs_store_def list_datastore_def get_number_def fun_eq_iff)
  then have "abs_store list_datastore node_disk = \<lparr>pnames = {''03''}, ptips = [''03'' \<mapsto> ''c''], papps = [''03'' \<mapsto> ''app''],
      pseen = [''03'' \<mapsto> 5], pres = Map.empty, pdeact = {}\<rparr>"
    by (simp add: node_disk_def abs_run [OF list_datastore_ok] del: foldl_Cons) simp
  then show ?thesis
    by (simp add: pinner_ok_def tables_ok_def mirror_def node_env_def node_state_def list_datastore_ok heap_ok_def tracker_ok_def
        history_ok_def)
qed

lemma node_block_genuine: "\<exists>node. genuine_block node_env ''03'' node_block = Some node"
proof -
  have "hexToBytes ''03'' = Ok [3]" by code_simp
  then show ?thesis
    by (simp add: genuine_block_def node_env_def node_block_def encodeSnapshot_def decodeSnapshot_def sample_crypto_def
        node_read_write node_of_def validateSnapshot_def verifyBytes_def signBytes_def payload_of_def ed25519KeyPairFromSeed_def)
qed


theorem schedule_serves_witness:
  "\<exists>s' ms. processScheduleQueue 2 node_env node_state 20 20 = Some s' \<and> sent s' = ms \<and>
     length (filter (announces ''03'') ms) = 1"
proof -
  have h: "phase node_state = Running" "hasHelia node_env" "hasPubsub node_env" "(20::int) \<le> 20" "length (heap node_state) < 2"
    by (simp_all add: node_state_def node_env_def)
  have "active node_state ''03''" "entries ''03'' (due 20 (mset (heap node_state))) = 1" "sent node_state = []"
    by (simp_all add: active_def node_state_def tracker_getTip_def freshPinner_def)
  then show ?thesis using schedule_serves [OF node_state_ok h] by auto
qed

theorem guarantee_window_witness:
  "\<exists>s1 g r. issueGuarantee node_state ''03'' 7 = (s1, g, r) \<and> g \<le> 5 + 7 * DAY \<and> r = 5 + 14 * DAY"
proof -
  obtain s1 g r where i: "issueGuarantee node_state ''03'' 7 = (s1, g, r)" by (metis prod_cases3)
  then show ?thesis using guarantee_window [OF _ _ _ _ i, of 5] by (simp add: node_state_def freshPinner_def)
qed

text \<open>Another pinner announces the document to a pinner that has just started.\<close>

theorem unseen_promise_broken_witness:
  "let s1 = onAnnouncement node_env ((freshPinner [] Map.empty None None)\<lparr>phase := Running\<rparr>) ''03'' ''c'' (Some ''app'') (Some node_block) True None (20 * DAY);
       s2 = finish node_env s1 0 None (20 * DAY + 100)
   in \<exists>g. AckSent ''03'' ''c'' ''app'' g (34 * DAY + 100) \<in> set (sent s2) \<and>
     ''03'' \<notin> set (knownNames (pruneIfNeeded node_env s2 (20 * DAY + 200)))"
proof -
  let ?s = "(freshPinner [] Map.empty None None)\<lparr>phase := Running\<rparr> :: (string, string) omap pinner"
  obtain node where g: "genuine_block node_env ''03'' node_block = Some node" using node_block_genuine by blast
  have c: "phase ?s = Running" "hasHelia node_env" "hasPubsub node_env" "pinnerId node_env \<noteq> None" "''03'' \<notin> set (knownNames ?s)"
    "''03'' \<notin> set (deactivatedNames ?s)" "lastSeenAt ?s ''03'' = None" "lastAckedCid ?s ''03'' = None"
    "tracker_getTip (history ?s) ''03'' = None" "length (knownNames ?s) < maxNames node_env"
    "snd (tryAdmit (maxNewNames node_env) (nameLimiter ?s) (20 * DAY))" "validCid node_env ''c''"
    "RETENTION_DURATION_MS < 20 * DAY + 200" "pending ?s = []" "20 * DAY + 100 + RETENTION_DURATION_MS = 34 * DAY + 100"
    by (simp_all add: node_env_def tracker_getTip_def tryAdmit_def createNewNameLimiter_def freshPinner_def day_defs DAY_def)
  show ?thesis
    using unseen_promise_broken [OF c(1-12) g refl refl c(13), where ?t1.0 = "20 * DAY + 100" and pr = None and got = None, unfolded c(14,15)]
    unfolding Let_def list.size by blast
qed

end
