(* ===== verification/Node_Gossip.thy ===== *)
theory Node_Gossip
  imports Pinner_Promises
begin

text \<open>
  The messages of the network at a pinner: the listener that \<open>packages/node/bin/node.ts\<close> puts between the announcement
  topics and the pinner, and what follows from it for several pinners that hear each other.
\<close>

section \<open>The listener\<close>

text \<open>An announcement with an acknowledgement is passed over; what is no announcement may be a query.\<close>

definition onQuery :: "'d pinnerEnv \<Rightarrow> json_codec \<Rightarrow> 'd pinner \<Rightarrow> bytes \<Rightarrow> int \<Rightarrow> 'd pinner" where
  "onQuery E J s data now = (case json_read J data of
      Inr (JObject fs) \<Rightarrow>
        (case text_field (map_of fs ''ipnsName'') of
          Some n \<Rightarrow> if map_of fs ''type'' = Some (JString ''guarantee-query'') then onGuaranteeQuery E s n now else s
        | None \<Rightarrow> s)
    | _ \<Rightarrow> s)"

definition nonempty :: "string option \<Rightarrow> string option" where
  "nonempty v = (if v = Some [] then None else v)"

definition onPubsub :: "'d pinnerEnv \<Rightarrow> json_codec \<Rightarrow> (string \<rightharpoonup> string) \<Rightarrow> 'd pinner \<Rightarrow> string \<Rightarrow> bytes \<Rightarrow> int \<Rightarrow> 'd pinner" where
  "onPubsub E J topicToApp s topic data now = (case nonempty (topicToApp topic) of
      None \<Rightarrow> s
    | Some app \<Rightarrow> (case parseAnnouncement J data of
        None \<Rightarrow> onQuery E J s data now
      | Some fs \<Rightarrow>
          if truthy (map_of fs ''ack'') then onQuery E J s data now
          else (case (text_field (map_of fs ''ipnsName''), text_field (map_of fs ''cid'')) of
              (Some n, Some c) \<Rightarrow>
                (case (case nonempty (text_field (map_of fs ''block'')) of
                         Some b64 \<Rightarrow> map_sum id Some (base64ToUint8 b64) | None \<Rightarrow> Ok None) of
                  Inl _ \<Rightarrow> s
                | Inr block \<Rightarrow> onAnnouncement E s n c (Some app) block (truthy (map_of fs ''fromPinner''))
                    (nonempty (text_field (map_of fs ''proof''))) now)
            | _ \<Rightarrow> s)))"

section \<open>Properties\<close>

lemma parse_guarantee:
  assumes "json_ok J" "length (json_write J (JObject (guarantee_response n peer c g r))) \<le> MAX_MESSAGE_BYTES"
  shows "parseAnnouncement J (json_write J (JObject (guarantee_response n peer c g r))) = Some (guarantee_response n peer c g r)"
proof -
  have "json_read J (json_write J (JObject (guarantee_response n peer c g r))) = Ok (JObject (guarantee_response n peer c g r))"
    using assms(1) by (simp add: json_ok_def guarantee_response_def)
  then show ?thesis using assms(2) by (simp add: parseAnnouncement_def parse_fields_def field_def guarantee_response_def)
qed

lemma thin_fields [simp]:
  "lastSeenAt (thinVersionHistory E s n t) = lastSeenAt s" "deactivatedNames (thinVersionHistory E s n t) = deactivatedNames s"
  "knownNames (thinVersionHistory E s n t) = knownNames s"
  by (simp_all add: thinVersionHistory_def split: prod.split)

lemma serve_fields:
  "lastSeenAt (serveCid E s n c app bd t) = lastSeenAt s" "deactivatedNames (serveCid E s n c app bd t) = deactivatedNames s"
  "knownNames (serveCid E s n c app bd t) = knownNames s"
  by (auto simp: serveCid_def reack_def split: option.split bool.split prod.split dest!: issueGuarantee_fields)

text \<open>
  C31: the answer of one pinner to a query for a guarantee counts, at every other pinner that has the document, as activity of
  a writer or reader: it becomes the time of last activity, ends a deactivation and so keeps the document for another
  fourteen days.
\<close>

theorem response_keeps_alive:
  assumes "json_ok J" "phase s = Running" "n \<in> set (knownNames s)" "topicToApp topic = Some app" "app \<noteq> []"
    "data = json_write J (JObject (guarantee_response n peer c g r))" "length data \<le> MAX_MESSAGE_BYTES"
    "s' = onPubsub E J topicToApp s topic data now"
  shows "lastSeenAt s' n = Some now \<and> n \<notin> set (deactivatedNames s') \<and> n \<in> set (knownNames s') \<and>
    (\<forall>u \<le> now + RETENTION_DURATION_MS. \<not> expired s' u n)"
proof -
  have "s' = processAnnouncement E s n c (Some app) None False now"
    using assms(1-5) parse_guarantee [OF assms(1) assms(7) [unfolded assms(6)]]
    by (simp add: assms(6,8) onPubsub_def nonempty_def guarantee_response_def onAnnouncement_def)
  then have s': "s' = serveCid E (noteName E s n (Some app) False now) n c (Some app) None now"
    using assms(3) by (simp add: processAnnouncement_def admit_def)
  have "lastSeenAt s' n = Some now" "n \<notin> set (deactivatedNames s')" "n \<in> set (knownNames s')"
    by (simp_all add: s' serve_fields noteName_def Let_def sawActivity_def reactivate_def)
  then show ?thesis by (simp add: expired_def)
qed

lemma response_length: "length (json_write sample_json (JObject (guarantee_response ''03'' ''q'' ''c'' 5 9))) \<le> MAX_MESSAGE_BYTES"
  by (simp add: guarantee_response_def MAX_MESSAGE_BYTES_def sample_json_def encode_list_def text_write_def array_write_def
      unary_write_def chars_write_def int_write_def)

theorem response_keeps_alive_witness:
  "lastSeenAt (onPubsub node_env sample_json [''t'' \<mapsto> ''app''] node_state ''t''
     (json_write sample_json (JObject (guarantee_response ''03'' ''q'' ''c'' 5 9))) (15 * DAY)) ''03'' = Some (15 * DAY)"
  using response_keeps_alive [OF sample_json_ok, of node_state "''03''" "[''t'' \<mapsto> ''app'']" "''t''" "''app''", OF _ _ _ _ refl response_length refl]
  by (simp add: node_state_def)

lemma thin_keeps_tip:
  assumes "tracker_ok (history s)" "tracker_getTip (history s) n = Some c"
  shows "tracker_getTip (history (thinVersionHistory E s n t)) n = Some c" "blocks (thinVersionHistory E s n t) c = blocks s c"
proof -
  obtain e r where e: "map_of (history s) n = Some e" "htip e = Some r" "rcid r = c"
    using assms(2) by (auto simp: tracker_getTip_def split: option.splits)
  have d: "distinct (map rcid (snaps e))" using tracker_okD [OF assms(1) e(1)] by (simp add: history_ok_def)
  obtain kept gone where t: "thinSnapshots (history s) n (retention E) t = (AList.update n (e\<lparr>snaps := kept\<rparr>) (history s), map rcid gone)"
    "\<forall>x \<in> set gone. \<not> keeps (retention E) t e x"
    using thin_entry [OF e(1) d, of "retention E" t] by auto
  have "c \<notin> set (map rcid gone)" using t(2) keeps_tip [of e _ "retention E" t] e(2,3) by (auto simp: is_tip_def)
  then show "tracker_getTip (history (thinVersionHistory E s n t)) n = Some c" "blocks (thinVersionHistory E s n t) c = blocks s c"
    by (auto simp: thinVersionHistory_def t(1) tracker_getTip_def update_conv' e)
qed

text \<open>
  C32: an inline block is checked to be a block of the document, but not against the CID it is announced with: any genuine
  block that is not older than the tip, sent again under any other CID, becomes the tip under that CID, on disk too.
\<close>

theorem inline_block_not_checked:
  assumes "pinner_ok E s" "phase s = Running" "hasHelia E" "n \<in> set (knownNames s)" "lastAckedCid s n \<noteq> Some c"
    "tracker_getTip (history s) n \<noteq> Some c" "validCid E c" "genuine_block E n b = Some node" "c \<noteq> cidOf E b"
    "\<forall>r. tip_record (history s) n = Some r \<longrightarrow> rts r \<le> snTs node"
    "s1 = onAnnouncement E s n c (Some app) (Some b) fromPinner None t" "s2 = finish E s1 (length (pending s)) got t1"
  shows "tracker_getTip (history s2) n = Some c \<and> blocks s2 c = Some b \<and> getTip (store E) (disk s2) n = Some c"
proof -
  have s1: "s1 = serveCid E (noteName E s n (Some app) fromPinner t) n c (Some app) (Some b) t"
    using assms(2,4) by (auto simp: assms(11) onAnnouncement_def processAnnouncement_def admit_def split: bool.split)
  have note_fields: "lastAckedCid (noteName E s n (Some app) fromPinner t) = lastAckedCid s" "history (noteName E s n (Some app) fromPinner t) = history s"
    "pending (noteName E s n (Some app) fromPinner t) = pending s"
    by (simp_all add: noteName_def Let_def sawActivity_def reactivate_def)
  have p: "pending s1 = pending s @ [Fetching n c (Some app) (Some b)]" "history s1 = history s"
    using assms(3,5,6,7) by (simp_all add: s1 serveCid_def note_fields fetchByCid_def)
  have ok1: "pinner_ok E s1" unfolding assms(11) by (rule onAnnouncement_ok [OF assms(1)])
  then have D: "datastore_ok (store E)" by (simp add: pinner_ok_def)
  define s3 where "s3 = persist E (persist E (s1\<lparr>pending := pending s, blocks := (blocks s1)(c \<mapsto> b), knownNames := set_add n (knownNames s1),
      history := tracker_add (history s1) n c (snTs node)\<rparr>) (AddName n)) (SetTip n c)"
  have s2: "s2 = ackFetched E s3 n c (Some app) t1"
    using p(1) assms(8) by (simp add: assms(12) finish_def finishFetch_def s3_def Let_def)
  have tip: "tracker_getTip (history s3) n = Some c"
    using assms(10) by (auto simp: s3_def getTip_record tip_add newer_tip_def p(2) split: option.split)
  have ok3: "tracker_ok (history s3)"
    using ok1 tracker_step_ok [of "history s1" "AddSnap n c (snTs node)"] by (simp add: s3_def pinner_ok_def tables_ok_def)
  have d3: "getTip (store E) (disk s3) n = Some c" by (simp add: s3_def getTip_abs D)
  show ?thesis
  proof (cases "hasPubsub E \<and> pinnerId E \<noteq> None")
    case False
    then have "s2 = s3" by (auto simp: s2 ackFetched_def split: option.split bool.split)
    then show ?thesis using tip d3 by (simp add: s3_def)
  next
    case True
    then obtain q where q: "pinnerId E = Some q" by blast
    obtain s4 g r where g: "issueGuarantee s3 n t1 = (s4, g, r)" by (metis prod_cases3)
    define s5 where "s5 = s4\<lparr>lastAckedCid := (lastAckedCid s4)(n \<mapsto> c), sent := sent s4 @ [AckSent n c app g r]\<rparr>"
    have "s2 = thinVersionHistory E s5 n t1" using True q g by (simp add: s2 ackFetched_def s5_def)
    moreover have f: "history s5 = history s3" "blocks s5 = blocks s3" "disk s5 = disk s3"
      using issueGuarantee_fields [OF g] by (simp_all add: s5_def)
    moreover have "disk (thinVersionHistory E s5 n t1) = disk s5" by (simp add: thinVersionHistory_def split: prod.split)
    ultimately show ?thesis using thin_keeps_tip [of s5 n c E t1] tip ok3 d3 by (simp add: s3_def)
  qed
qed

theorem inline_block_not_checked_witness:
  "let s1 = onAnnouncement node_env node_state ''03'' '''' (Some ''app'') (Some node_block) False None 7
   in getTip list_datastore (disk (finish node_env s1 0 None 8)) ''03'' = Some '''' \<and> cidOf node_env node_block \<noteq> ''''"
proof -
  obtain node where g: "genuine_block node_env ''03'' node_block = Some node" using node_block_genuine by blast
  have "decodeSnapshot sample_crypto node_block = Ok node"
    using g by (auto simp: genuine_block_def node_env_def and_then_Ok_iff split: if_splits sum.splits)
  then have ts: "snTs node = 5"
    by (simp add: node_block_def encodeSnapshot_def decodeSnapshot_def sample_crypto_def node_read_write node_of_def) (auto simp: Let_def)
  have b: "cidOf node_env node_block \<noteq> ''''"
  proof -
    have "\<exists>x. node_block = node_write x" by (auto simp: node_block_def encodeSnapshot_def sample_crypto_def Let_def)
    then show ?thesis by (auto simp: node_env_def node_write_def unary_write_def)
  qed
  have c: "phase node_state = Running" "hasHelia node_env" "''03'' \<in> set (knownNames node_state)" "lastAckedCid node_state ''03'' \<noteq> Some ''''"
    "tracker_getTip (history node_state) ''03'' \<noteq> Some ''''" "validCid node_env ''''"
    "\<forall>r. tip_record (history node_state) ''03'' = Some r \<longrightarrow> rts r \<le> snTs node" "pending node_state = []" "store node_env = list_datastore"
    by (simp_all add: node_state_def node_env_def freshPinner_def tracker_getTip_def tip_record_def ts)
  show ?thesis
    using inline_block_not_checked [OF node_state_ok c(1-6) g b [symmetric] c(7) refl refl, where fromPinner = False and t = 7 and app = "''app''"
        and ?t1.0 = 8 and got = None, unfolded c(8,9) list.size] b
    by (simp add: Let_def)
qed

end
