(* ===== verification/Signalling.thy ===== *)
theory Signalling
  imports Wire
begin

text \<open>
  Signalling: the messages between browsers and relays (\<open>packages/node/src/signaling/protocol.ts\<close>, of which
  \<open>packages/sync/src/signaling/protocol.ts\<close> is a copy), the frames of their streams, the client
  (\<open>packages/sync/src/signaling/client.ts\<close>) and the relay: its registry of rooms (\<open>registry.ts\<close>), the handler of a
  stream (\<open>handler.ts\<close>) and the forwarder between relays (\<open>relay-forward.ts\<close>).  The function that sends to a member is a
  value of \<open>sender\<close>, what it does is in the list of effects, in order.
\<close>

section \<open>Messages\<close>

datatype signalMsg =
    JoinRoom string
  | LeaveRoom string
  | Signal string string bytes
  | PeerJoined string string
  | PeerLeft string string

fun signal_type :: "signalMsg \<Rightarrow> nat" where
  "signal_type (JoinRoom _) = 0"
| "signal_type (LeaveRoom _) = 1"
| "signal_type (Signal _ _ _) = 2"
| "signal_type (PeerJoined _ _) = 3"
| "signal_type (PeerLeft _ _) = 4"

fun signal_body :: "wire \<Rightarrow> signalMsg \<Rightarrow> bytes" where
  "signal_body w (JoinRoom room) = writeVarString w room"
| "signal_body w (LeaveRoom room) = writeVarString w room"
| "signal_body w (Signal room target payload) =
     writeVarString w room @ writeVarString w target @ writeVarUint8Array w payload"
| "signal_body w (PeerJoined room peer) = writeVarString w room @ writeVarString w peer"
| "signal_body w (PeerLeft room peer) = writeVarString w room @ writeVarString w peer"

definition encodeSignal :: "wire \<Rightarrow> signalMsg \<Rightarrow> bytes" where
  "encodeSignal w msg = writeVarUint w (signal_type msg) @ signal_body w msg"

definition decodeSignal :: "wire \<Rightarrow> bytes \<Rightarrow> signalMsg result" where
  "decodeSignal w bytes =
     and_then (readVarUint w bytes) (\<lambda>(type, d).
     if type = 0 then and_then (readVarString w d) (\<lambda>(room, d). Ok (JoinRoom room))
     else if type = 1 then and_then (readVarString w d) (\<lambda>(room, d). Ok (LeaveRoom room))
     else if type = 2 then
       and_then (readVarString w d) (\<lambda>(room, d).
       and_then (readVarString w d) (\<lambda>(target, d).
       and_then (readVarUint8Array w d) (\<lambda>(payload, d). Ok (Signal room target payload))))
     else if type = 3 then
       and_then (readVarString w d) (\<lambda>(room, d).
       and_then (readVarString w d) (\<lambda>(peer, d). Ok (PeerJoined room peer)))
     else if type = 4 then
       and_then (readVarString w d) (\<lambda>(room, d).
       and_then (readVarString w d) (\<lambda>(peer, d). Ok (PeerLeft room peer)))
     else Throw ''Unknown signal type'')"

text \<open>The messages between relays.\<close>

datatype relayMsg =
    RelayJoin string string string
  | RelayLeave string string string
  | RelaySignal string string string bytes

definition encodeRelayMsg :: "wire \<Rightarrow> relayMsg \<Rightarrow> bytes" where
  "encodeRelayMsg w msg = (case msg of
      RelayJoin relay room peer \<Rightarrow>
        writeVarUint w 0 @ writeVarString w relay @ writeVarString w room @ writeVarString w peer
    | RelayLeave relay room peer \<Rightarrow>
        writeVarUint w 1 @ writeVarString w relay @ writeVarString w room @ writeVarString w peer
    | RelaySignal relay room target payload \<Rightarrow>
        writeVarUint w 2 @ writeVarString w relay @ writeVarString w room @ writeVarString w target @
        writeVarUint8Array w payload)"

definition decodeRelayMsg :: "wire \<Rightarrow> bytes \<Rightarrow> relayMsg result" where
  "decodeRelayMsg w bytes =
     and_then (readVarUint w bytes) (\<lambda>(type, d).
     and_then (readVarString w d) (\<lambda>(relay, d).
     and_then (readVarString w d) (\<lambda>(room, d).
     if type = 0 then and_then (readVarString w d) (\<lambda>(peer, d). Ok (RelayJoin relay room peer))
     else if type = 1 then and_then (readVarString w d) (\<lambda>(peer, d). Ok (RelayLeave relay room peer))
     else if type = 2 then
       and_then (readVarString w d) (\<lambda>(target, d).
       and_then (readVarUint8Array w d) (\<lambda>(payload, d). Ok (RelaySignal relay room target payload)))
     else Throw ''Unknown relay message type'')))"

lemma small_types: "safe 0" "safe (Suc 0)" "safe 1" "safe 2" "safe 3" "safe 4"
  by (simp_all add: safe_def max_safe_def)

lemma decode_encode_signal:
  assumes "wire_ok w"
  shows "decodeSignal w (encodeSignal w msg) = Ok msg"
  by (cases msg) (simp_all add: encodeSignal_def decodeSignal_def wire_reads [OF assms] small_types
      wire_reads(2) [OF assms, where rest = "[]", simplified])

lemma decode_encode_relay:
  assumes "wire_ok w"
  shows "decodeRelayMsg w (encodeRelayMsg w msg) = Ok msg"
  by (cases msg) (simp_all add: encodeRelayMsg_def decodeRelayMsg_def wire_reads [OF assms] small_types
      wire_reads(2) [OF assms, where rest = "[]", simplified])

section \<open>Frames\<close>

text \<open>The length of the message as a big-endian 32-bit number, then the message.\<close>

definition setUint32 :: "nat \<Rightarrow> bytes" where
  "setUint32 n = map (\<lambda>k. word_of_nat (n div 256 ^ k)) [3, 2, 1, 0]"

definition getUint32 :: "bytes \<Rightarrow> nat" where
  "getUint32 b = 16777216 * unat (b ! 0) + 65536 * unat (b ! 1) + 256 * unat (b ! 2) + unat (b ! 3)"

definition frameLengthPrefix :: "bytes \<Rightarrow> bytes" where
  "frameLengthPrefix data = setUint32 (length data) @ data"

text \<open>The inner loop of the reader: every complete frame of the buffer, and the rest.\<close>

function takeFrames :: "bytes \<Rightarrow> bytes list \<times> bytes" where
  "takeFrames buffer =
     (if length buffer \<ge> 4 then
        let len = getUint32 buffer in
        if length buffer < 4 + len then ([], buffer)
        else case takeFrames (drop (4 + len) buffer) of
            (frames, rest) \<Rightarrow> (take len (drop 4 buffer) # frames, rest)
      else ([], buffer))"
  by auto
termination by (relation "measure length") auto

declare takeFrames.simps [simp del]

definition createFrameReader :: "bytes \<Rightarrow> bytes \<Rightarrow> bytes list \<times> bytes" where
  "createFrameReader buffer chunk = takeFrames (buffer @ chunk)"

fun readChunks :: "bytes \<Rightarrow> bytes list \<Rightarrow> bytes list \<times> bytes" where
  "readChunks buffer [] = ([], buffer)"
| "readChunks buffer (chunk # chunks) =
     (case createFrameReader buffer chunk of (frames, rest) \<Rightarrow>
      case readChunks rest chunks of (later, final) \<Rightarrow> (frames @ later, final))"

lemma length_setUint32 [simp]: "length (setUint32 n) = 4"
  by (simp add: setUint32_def)

lemma base_256: "16777216 * (n div 16777216 mod 256) + 65536 * (n div 65536 mod 256) + 256 * (n div 256 mod 256) + n mod 256 = n mod 4294967296"
  for n :: nat
proof -
  have "n mod 4294967296 = n mod (256 * 16777216)" by simp
  also have "\<dots> = n mod (65536 * 256) + 16777216 * (n div 16777216 mod 256)"
    using mod_mult2_eq [of n 16777216 256] by (simp add: mult.commute)
  also have "n mod (65536 * 256) = n mod (256 * 256) + 65536 * (n div 65536 mod 256)"
    using mod_mult2_eq [of n 65536 256] by simp
  also have "n mod (256 * 256) = n mod 256 + 256 * (n div 256 mod 256)"
    using mod_mult2_eq [of n 256 256] by simp
  finally show ?thesis by simp
qed

lemma get_set: "n < 2 ^ 32 \<Longrightarrow> getUint32 (setUint32 n @ rest) = n"
  using base_256 [of n] by (simp add: getUint32_def setUint32_def unat_of_nat)

lemma get_append: "length b \<ge> 4 \<Longrightarrow> getUint32 (b @ c) = getUint32 b"
  by (cases b) (auto simp: getUint32_def nth_append)

lemma takeFrames_short: "length b < 4 \<Longrightarrow> takeFrames b = ([], b)"
  by (subst takeFrames.simps) simp

lemma takeFrames_frame:
  "length m < 2 ^ 32 \<Longrightarrow> takeFrames (frameLengthPrefix m @ rest) = (m # fst (takeFrames rest), snd (takeFrames rest))"
  by (subst takeFrames.simps) (simp add: frameLengthPrefix_def get_set Let_def split: prod.split)

lemma takeFrames_frames:
  "\<forall>m \<in> set msgs. length m < 2 ^ 32 \<Longrightarrow>
   takeFrames (concat (map frameLengthPrefix msgs) @ rest) = (msgs @ fst (takeFrames rest), snd (takeFrames rest))"
  by (induction msgs) (simp_all add: takeFrames_frame)

lemma takeFrames_append:
  "takeFrames b = (fs, r) \<Longrightarrow> takeFrames (b @ c) = (fs @ fst (takeFrames (r @ c)), snd (takeFrames (r @ c)))"
proof (induction b arbitrary: fs rule: takeFrames.induct)
  case (1 b)
  show ?case
  proof (cases "length b \<ge> 4 \<and> \<not> length b < 4 + getUint32 b")
    case False
    then have "takeFrames b = ([], b)" by (subst takeFrames.simps) (auto simp: Let_def)
    with 1(2) show ?thesis by simp
  next
    case True
    obtain fs' r' where rec: "takeFrames (drop (4 + getUint32 b) b) = (fs', r')" by fastforce
    have "takeFrames b = (take (getUint32 b) (drop 4 b) # fs', r')"
      using True by (subst takeFrames.simps) (simp add: Let_def rec)
    then have f: "fs = take (getUint32 b) (drop 4 b) # fs'" "r = r'" using 1(2) by simp_all
    have "takeFrames (drop (4 + getUint32 b) b @ c) = (fs' @ fst (takeFrames (r @ c)), snd (takeFrames (r @ c)))"
      using 1(1) [OF _ refl _, of fs'] True rec f(2) by auto
    then show ?thesis using True f(1)
      by (subst takeFrames.simps) (simp add: Let_def get_append)
  qed
qed

lemma takeFrames_rest: "takeFrames b = (fs, r) \<Longrightarrow> takeFrames r = ([], r)"
proof (induction b arbitrary: fs rule: takeFrames.induct)
  case (1 b)
  show ?case
  proof (cases "length b \<ge> 4 \<and> \<not> length b < 4 + getUint32 b")
    case False
    then have "takeFrames b = ([], b)" by (subst takeFrames.simps) (auto simp: Let_def)
    with 1(2) show ?thesis by simp
  next
    case True
    obtain fs' r' where rec: "takeFrames (drop (4 + getUint32 b) b) = (fs', r')" by fastforce
    have "takeFrames b = (take (getUint32 b) (drop 4 b) # fs', r')"
      using True by (subst takeFrames.simps) (simp add: Let_def rec)
    then show ?thesis using 1 True rec by simp
  qed
qed

lemma readChunks_concat: "takeFrames buffer = ([], buffer) \<Longrightarrow> readChunks buffer chunks = takeFrames (buffer @ concat chunks)"
proof (induction chunks arbitrary: buffer)
  case (Cons c cs)
  obtain fs r where f: "takeFrames (buffer @ c) = (fs, r)" by fastforce
  show ?case
    using Cons.IH [OF takeFrames_rest [OF f]] takeFrames_append [OF f, of "concat cs"]
    by (simp add: createFrameReader_def f split: prod.split)
qed simp

end
