(* ===== verification/Relay.thy ===== *)
theory Relay
  imports Signalling
begin

text \<open>
  The relay of the signalling (\<open>packages/node/src/signaling\<close>): the registry of rooms (\<open>registry.ts\<close>), the handler of a
  stream (\<open>handler.ts\<close>) and the forwarder between relays (\<open>relay-forward.ts\<close>).  The function that sends to a member is a
  value of \<open>sender\<close>: the queue of a stream, or the publication of a signal for a member at another relay.  What an
  operation sends is the list of its effects, in order.
\<close>

section \<open>The registry\<close>

datatype sender = ToStream nat | ToRemote string string

type_synonym registry = "(string, (string, sender) omap) omap"

definition reg_join :: "registry \<Rightarrow> string \<Rightarrow> string \<Rightarrow> sender \<Rightarrow> registry" where
  "reg_join rooms room peer via =
     AList.update room (AList.update peer via (case map_of rooms room of Some r \<Rightarrow> r | None \<Rightarrow> [])) rooms"

definition reg_leave :: "registry \<Rightarrow> string \<Rightarrow> string \<Rightarrow> registry" where
  "reg_leave rooms room peer = (case map_of rooms room of
      None \<Rightarrow> rooms
    | Some r \<Rightarrow>
        let r' = AList.delete peer r
        in if r' = [] then AList.delete room rooms else AList.update room r' rooms)"

fun leaveAll :: "string \<Rightarrow> sender option \<Rightarrow> registry \<Rightarrow> registry \<times> string list" where
  "leaveAll peer via [] = ([], [])"
| "leaveAll peer via ((room, ms) # rooms) =
     (case leaveAll peer via rooms of (rest, leftRooms) \<Rightarrow>
      case map_of ms peer of
        None \<Rightarrow> ((room, ms) # rest, leftRooms)
      | Some entry \<Rightarrow>
          if via \<noteq> None \<and> via \<noteq> Some entry then ((room, ms) # rest, leftRooms)
          else
            let ms' = AList.delete peer ms
            in (if ms' = [] then rest else (room, ms') # rest, room # leftRooms))"

definition members :: "registry \<Rightarrow> string \<Rightarrow> (string \<times> sender) list" where
  "members rooms room = (case map_of rooms room of Some r \<Rightarrow> r | None \<Rightarrow> [])"

definition findPeer :: "registry \<Rightarrow> string \<Rightarrow> string \<Rightarrow> sender option" where
  "findPeer rooms room peer = (case map_of rooms room of Some r \<Rightarrow> map_of r peer | None \<Rightarrow> None)"

section \<open>The forwarder\<close>

record relayEnv =
  rwire :: wire
  selfId :: string
  netId :: string
  forwarding :: bool

text \<open>\<open>remotes\<close> has, for a peer and a room, the relay that announced the peer.\<close>

record relay =
  rooms :: registry
  remotes :: "(string, (string, string) omap) omap"

datatype effect = Deliver nat bytes | Publish string bytes

definition relaySignalingTopic :: "string \<Rightarrow> string" where
  "relaySignalingTopic networkId = ''/pokapali/'' @ networkId @ ''/signaling/relay''"

definition isRemote :: "relay \<Rightarrow> string \<Rightarrow> bool" where
  "isRemote s peer \<longleftrightarrow> map_of (remotes s) peer \<noteq> None"

definition tracked :: "relay \<Rightarrow> string \<Rightarrow> string \<Rightarrow> string option" where
  "tracked s room peer = (case map_of (remotes s) peer of Some rs \<Rightarrow> map_of rs room | None \<Rightarrow> None)"

definition addRemote :: "relay \<Rightarrow> string \<Rightarrow> string \<Rightarrow> string \<Rightarrow> relay option" where
  "addRemote s room peer relay =
     (if tracked s room peer = Some relay then None
      else Some (s\<lparr>remotes := AList.update peer
        (AList.update room relay (case map_of (remotes s) peer of Some rs \<Rightarrow> rs | None \<Rightarrow> [])) (remotes s)\<rparr>))"

text \<open>What \<open>removeRemote\<close> and \<open>onLocalJoin\<close> have in common: an empty map of rooms is removed.\<close>

definition untrack :: "relay \<Rightarrow> string \<Rightarrow> string \<Rightarrow> relay" where
  "untrack s room peer = (case map_of (remotes s) peer of
      None \<Rightarrow> s
    | Some rs \<Rightarrow>
        let rs' = AList.delete room rs
        in s\<lparr>remotes := if rs' = [] then AList.delete peer (remotes s) else AList.update peer rs' (remotes s)\<rparr>)"

definition removeRemote :: "relay \<Rightarrow> string \<Rightarrow> string \<Rightarrow> string \<Rightarrow> relay option" where
  "removeRemote s room peer relay = (if tracked s room peer \<noteq> Some relay then None else Some (untrack s room peer))"

definition publish :: "relayEnv \<Rightarrow> relayMsg \<Rightarrow> effect" where
  "publish E msg = Publish (relaySignalingTopic (netId E)) (encodeRelayMsg (rwire E) msg)"

definition sendBy :: "relayEnv \<Rightarrow> sender \<Rightarrow> bytes \<Rightarrow> effect" where
  "sendBy E via bytes = (case via of
      ToStream k \<Rightarrow> Deliver k (frameLengthPrefix bytes)
    | ToRemote room peer \<Rightarrow> publish E (RelaySignal (selfId E) room peer bytes))"

text \<open>The members of a room are told a message.\<close>

definition tell :: "relayEnv \<Rightarrow> (string \<times> sender) list \<Rightarrow> signalMsg \<Rightarrow> effect list" where
  "tell E ms msg = map (\<lambda>(p, via). sendBy E via (encodeSignal (rwire E) msg)) ms"

definition handleRemoteJoin :: "relayEnv \<Rightarrow> relay \<Rightarrow> string \<Rightarrow> string \<Rightarrow> string \<Rightarrow> relay \<times> effect list" where
  "handleRemoteJoin E s relay room peer = (case addRemote s room peer relay of
      None \<Rightarrow> (s, [])
    | Some s1 \<Rightarrow>
        let localMembers = filter (\<lambda>(p, _). \<not> isRemote s1 p) (members (rooms s1) room)
        in (s1\<lparr>rooms := reg_join (rooms s1) room peer (ToRemote room peer)\<rparr>,
            tell E localMembers (PeerJoined room peer) @
            map (\<lambda>(p, _). publish E (RelayJoin (selfId E) room p)) localMembers))"

definition handleRemoteLeave :: "relayEnv \<Rightarrow> relay \<Rightarrow> string \<Rightarrow> string \<Rightarrow> string \<Rightarrow> relay \<times> effect list" where
  "handleRemoteLeave E s relay room peer = (case removeRemote s room peer relay of
      None \<Rightarrow> (s, [])
    | Some s1 \<Rightarrow>
        let s2 = s1\<lparr>rooms := reg_leave (rooms s1) room peer\<rparr>
        in (s2, tell E (filter (\<lambda>(p, _). \<not> isRemote s2 p) (members (rooms s2) room)) (PeerLeft room peer)))"

definition handleRemoteSignal :: "relayEnv \<Rightarrow> relay \<Rightarrow> string \<Rightarrow> string \<Rightarrow> bytes \<Rightarrow> effect list" where
  "handleRemoteSignal E s room target payload = (case findPeer (rooms s) room target of
      Some via \<Rightarrow> if isRemote s target then [] else [sendBy E via payload]
    | None \<Rightarrow> [])"

definition onGossipMessage :: "relayEnv \<Rightarrow> relay \<Rightarrow> string \<Rightarrow> bytes \<Rightarrow> relay \<times> effect list" where
  "onGossipMessage E s topic data =
     (if topic \<noteq> relaySignalingTopic (netId E) then (s, [])
      else case decodeRelayMsg (rwire E) data of
        Inl _ \<Rightarrow> (s, [])
      | Inr msg \<Rightarrow> (case msg of
          RelayJoin relay room peer \<Rightarrow>
            if relay = selfId E then (s, []) else handleRemoteJoin E s relay room peer
        | RelayLeave relay room peer \<Rightarrow>
            if relay = selfId E then (s, []) else handleRemoteLeave E s relay room peer
        | RelaySignal relay room target payload \<Rightarrow>
            if relay = selfId E then (s, []) else (s, handleRemoteSignal E s room target payload)))"

definition onLocalJoin :: "relayEnv \<Rightarrow> relay \<Rightarrow> string \<Rightarrow> string \<Rightarrow> relay \<times> effect list" where
  "onLocalJoin E s room peer = (untrack s room peer, [publish E (RelayJoin (selfId E) room peer)])"

definition onLocalLeave :: "relayEnv \<Rightarrow> string \<Rightarrow> string \<Rightarrow> effect list" where
  "onLocalLeave E room peer = [publish E (RelayLeave (selfId E) room peer)]"

definition forwarder_stop :: "relay \<Rightarrow> relay" where
  "forwarder_stop s = s\<lparr>remotes := []\<rparr>"

section \<open>The handler of a stream\<close>

definition processMessage :: "relayEnv \<Rightarrow> relay \<Rightarrow> nat \<Rightarrow> string \<Rightarrow> signalMsg \<Rightarrow> relay \<times> effect list" where
  "processMessage E s k from msg = (case msg of
      JoinRoom room \<Rightarrow>
        let existing = members (rooms s) room;
            toSelf = map (\<lambda>(p, _). sendBy E (ToStream k) (encodeSignal (rwire E) (PeerJoined room p))) existing;
            s1 = s\<lparr>rooms := reg_join (rooms s) room from (ToStream k)\<rparr>;
            (s2, fs) = (if forwarding E then onLocalJoin E s1 room from else (s1, []))
        in (s2, tell E existing (PeerJoined room from) @ toSelf @ fs)
    | LeaveRoom room \<Rightarrow>
        let s1 = s\<lparr>rooms := reg_leave (rooms s) room from\<rparr>
        in (s1, (if forwarding E then onLocalLeave E room from else []) @ tell E (members (rooms s1) room) (PeerLeft room from))
    | Signal room target payload \<Rightarrow>
        (s, case findPeer (rooms s) room target of
              Some via \<Rightarrow> [sendBy E via (encodeSignal (rwire E) (Signal room from payload))]
            | None \<Rightarrow> [])
    | _ \<Rightarrow> (s, []))"

definition handler_cleanup :: "relayEnv \<Rightarrow> relay \<Rightarrow> nat \<Rightarrow> string \<Rightarrow> relay \<times> effect list" where
  "handler_cleanup E s k peer = (case leaveAll peer (Some (ToStream k)) (rooms s) of
     (rs, leftRooms) \<Rightarrow> (s\<lparr>rooms := rs\<rparr>,
        concat (map (\<lambda>room. (if forwarding E then onLocalLeave E room peer else []) @
          tell E (members rs room) (PeerLeft room peer)) leftRooms)))"

text \<open>The frames of a stream in order, until one that does not decode; the result tells whether all did.\<close>

fun handleFrames :: "relayEnv \<Rightarrow> nat \<Rightarrow> string \<Rightarrow> bytes list \<Rightarrow> relay \<Rightarrow> relay \<times> effect list \<times> bool" where
  "handleFrames E k peer [] s = (s, [], True)"
| "handleFrames E k peer (frame # frames) s = (case decodeSignal (rwire E) frame of
      Inl _ \<Rightarrow> (s, [], False)
    | Inr msg \<Rightarrow> (case processMessage E s k peer msg of (s1, fs) \<Rightarrow>
        case handleFrames E k peer frames s1 of (s2, fs2, fine) \<Rightarrow> (s2, fs @ fs2, fine)))"

text \<open>
  A relay with its open streams, each with its peer and its buffer, numbered in the order they were accepted.  The sink
  of a stream can fail while its source is still read.
\<close>

record relayNode =
  relayOf :: relay
  streams :: "(nat, string \<times> bytes) omap"
  nextStream :: nat

datatype relayEvent =
    Accept string
  | Chunk nat bytes
  | SinkFailed nat
  | Ended nat
  | Gossiped string bytes

definition endStream :: "relayEnv \<Rightarrow> relayNode \<Rightarrow> nat \<Rightarrow> string \<Rightarrow> relayNode \<times> effect list" where
  "endStream E s k peer = (case handler_cleanup E (relayOf s) k peer of
     (r, fs) \<Rightarrow> (s\<lparr>relayOf := r, streams := AList.delete k (streams s)\<rparr>, fs))"

fun relay_step :: "relayEnv \<Rightarrow> relayNode \<Rightarrow> relayEvent \<Rightarrow> relayNode \<times> effect list" where
  "relay_step E s (Accept peer) =
     (s\<lparr>streams := AList.update (nextStream s) (peer, []) (streams s), nextStream := nextStream s + 1\<rparr>, [])"
| "relay_step E s (Chunk k bytes) = (case map_of (streams s) k of
      None \<Rightarrow> (s, [])
    | Some (peer, buffer) \<Rightarrow> (case createFrameReader buffer bytes of (frames, rest) \<Rightarrow>
        case handleFrames E k peer frames (relayOf s) of (r, fs, fine) \<Rightarrow>
          let s1 = s\<lparr>relayOf := r, streams := AList.update k (peer, rest) (streams s)\<rparr>
          in if fine then (s1, fs) else (case endStream E s1 k peer of (s2, fs2) \<Rightarrow> (s2, fs @ fs2))))"
| "relay_step E s (SinkFailed k) = (case map_of (streams s) k of
      None \<Rightarrow> (s, [])
    | Some (peer, _) \<Rightarrow> (case handler_cleanup E (relayOf s) k peer of (r, fs) \<Rightarrow> (s\<lparr>relayOf := r\<rparr>, fs)))"
| "relay_step E s (Ended k) = (case map_of (streams s) k of
      None \<Rightarrow> (s, []) | Some (peer, _) \<Rightarrow> endStream E s k peer)"
| "relay_step E s (Gossiped topic data) =
     (if forwarding E then (case onGossipMessage E (relayOf s) topic data of (r, fs) \<Rightarrow> (s\<lparr>relayOf := r\<rparr>, fs)) else (s, []))"

definition relay_run :: "relayEnv \<Rightarrow> relayNode \<Rightarrow> relayEvent list \<Rightarrow> relayNode" where
  "relay_run E = foldl (\<lambda>s ev. fst (relay_step E s ev))"

definition freshRelay :: relayNode where
  "freshRelay = \<lparr>relayOf = \<lparr>rooms = [], remotes = []\<rparr>, streams = [], nextStream = 0\<rparr>"

section \<open>The registry as a function\<close>

definition reg_ok :: "registry \<Rightarrow> bool" where
  "reg_ok rs \<longleftrightarrow> distinct (map fst rs) \<and> (\<forall>(room, ms) \<in> set rs. ms \<noteq> [] \<and> distinct (map fst ms))"

lemma update_not_empty [simp]: "AList.update k v al \<noteq> []"
  by (induction al) auto

lemma find_join: "findPeer (reg_join rs room peer via) r p = (if r = room \<and> p = peer then Some via else findPeer rs r p)"
  by (auto simp: findPeer_def reg_join_def update_conv' split: option.splits)

lemma delete_empty: "AList.delete k al = [] \<Longrightarrow> k' \<noteq> k \<Longrightarrow> map_of al k' = None"
  by (metis delete_conv' fun_upd_other map_of.simps(1))

lemma find_leave: "findPeer (reg_leave rs room peer) r p = (if r = room \<and> p = peer then None else findPeer rs r p)"
  by (auto simp: findPeer_def reg_leave_def update_conv' delete_conv' Let_def delete_empty split: option.splits)

text \<open>One room of \<open>leaveAll\<close>.\<close>

definition leave_one :: "string \<Rightarrow> sender option \<Rightarrow> (string, sender) omap \<Rightarrow> (string, sender) omap option" where
  "leave_one peer via ms = (case map_of ms peer of
     Some entry \<Rightarrow> if via \<noteq> None \<and> via \<noteq> Some entry then None else Some (AList.delete peer ms) | None \<Rightarrow> None)"

lemma leaveAll_Cons:
  "fst (leaveAll peer via ((room, ms) # rs)) = (case leave_one peer via ms of
     None \<Rightarrow> (room, ms) # fst (leaveAll peer via rs)
   | Some ms' \<Rightarrow> if ms' = [] then fst (leaveAll peer via rs) else (room, ms') # fst (leaveAll peer via rs))"
  "snd (leaveAll peer via ((room, ms) # rs)) =
     (if leave_one peer via ms = None then [] else [room]) @ snd (leaveAll peer via rs)"
  by (simp_all add: leave_one_def Let_def split: option.split prod.split)

declare leaveAll.simps(2) [simp del]

lemma leave_one_find:
  "map_of (case leave_one peer (Some via) ms of None \<Rightarrow> ms | Some ms' \<Rightarrow> ms') p =
     (if p = peer \<and> map_of ms p = Some via then None else map_of ms p)"
  by (auto simp: leave_one_def delete_conv' split: option.split)

lemma keys_leaveAll: "fst ` set (fst (leaveAll peer via rs)) \<subseteq> fst ` set rs"
proof (induction rs)
  case (Cons x rs)
  obtain room ms where x: "x = (room, ms)" by fastforce
  have "fst ` set (fst (leaveAll peer via (x # rs))) \<subseteq> insert room (fst ` set (fst (leaveAll peer via rs)))"
    unfolding x leaveAll_Cons by (simp split: option.split) auto
  also have "\<dots> \<subseteq> fst ` set (x # rs)" using Cons.IH by (simp add: x subset_insertI2)
  finally show ?case .
qed simp

lemma find_Cons: "findPeer ((room, ms) # rs) r p = (if r = room then map_of ms p else findPeer rs r p)"
  by (simp add: findPeer_def)

lemma find_absent: "room \<notin> fst ` set rs \<Longrightarrow> findPeer rs room p = None"
  by (simp add: findPeer_def map_of_eq_None_iff [THEN iffD2])

lemma find_leaveAll:
  "distinct (map fst rs) \<Longrightarrow> findPeer (fst (leaveAll peer (Some via) rs)) r p =
     (if p = peer \<and> findPeer rs r p = Some via then None else findPeer rs r p)"
proof (induction rs)
  case (Cons x rs)
  obtain room ms where x: "x = (room, ms)" by fastforce
  let ?ms' = "case leave_one peer (Some via) ms of None \<Rightarrow> ms | Some ms' \<Rightarrow> ms'" and ?rs' = "fst (leaveAll peer (Some via) rs)"
  have "room \<notin> fst ` set ?rs'"
    using Cons.prems keys_leaveAll [of peer "Some via" rs] by (auto simp: x)
  then have "findPeer (fst (leaveAll peer (Some via) (x # rs))) r p = findPeer ((room, ?ms') # ?rs') r p"
    unfolding x leaveAll_Cons by (simp add: find_Cons find_absent split: option.split)
  also have "\<dots> = (if r = room then map_of ?ms' p else findPeer ?rs' r p)" by (rule find_Cons)
  finally show ?case unfolding leave_one_find using Cons by (auto simp: x find_Cons)
qed (simp add: findPeer_def)

text \<open>The rooms that are left are those in which the peer was registered with the sender.\<close>

lemma leaveAll_rooms:
  "distinct (map fst rs) \<Longrightarrow> set (snd (leaveAll peer (Some via) rs)) = {room. findPeer rs room peer = Some via}"
proof (induction rs)
  case (Cons x rs)
  obtain room ms where x: "x = (room, ms)" by fastforce
  have "findPeer rs room peer = None" using Cons.prems by (simp add: x find_absent)
  then show ?case using Cons unfolding x leaveAll_Cons
    by (auto simp: find_Cons leave_one_def split: option.splits if_splits)
qed (simp add: findPeer_def)

lemma reg_ok_entry: "reg_ok rs \<Longrightarrow> map_of rs room = Some ms \<Longrightarrow> ms \<noteq> [] \<and> distinct (map fst ms)"
  by (auto simp: reg_ok_def dest: map_of_SomeD)

lemma reg_ok_update:
  assumes "reg_ok rs" "ms \<noteq> []" "distinct (map fst ms)"
  shows "reg_ok (AList.update room ms rs)"
  using assms update_all [of rs "\<lambda>(room, ms). ms \<noteq> [] \<and> distinct (map fst ms)" room ms]
  by (auto simp: reg_ok_def distinct_update)

lemma reg_ok_delete: "reg_ok rs \<Longrightarrow> reg_ok (AList.delete room rs)"
  using delete_all [of rs "\<lambda>(room, ms). ms \<noteq> [] \<and> distinct (map fst ms)" room] by (auto simp: reg_ok_def distinct_delete)

lemma reg_ok_join: "reg_ok rs \<Longrightarrow> reg_ok (reg_join rs room peer via)"
  unfolding reg_join_def
  by (rule reg_ok_update) (auto split: option.split intro!: distinct_update dest: reg_ok_entry)

lemma reg_ok_leave: "reg_ok rs \<Longrightarrow> reg_ok (reg_leave rs room peer)"
  by (auto simp: reg_leave_def Let_def split: option.split intro!: reg_ok_update reg_ok_delete distinct_delete dest: reg_ok_entry)

lemma reg_ok_Cons: "reg_ok ((room, ms) # rs) \<longleftrightarrow> room \<notin> fst ` set rs \<and> ms \<noteq> [] \<and> distinct (map fst ms) \<and> reg_ok rs"
  by (auto simp: reg_ok_def)

lemma reg_ok_leaveAll: "reg_ok rs \<Longrightarrow> reg_ok (fst (leaveAll peer via rs))"
proof (induction rs)
  case (Cons x rs)
  obtain room ms where x: "x = (room, ms)" by fastforce
  have "room \<notin> fst ` set (fst (leaveAll peer via rs))"
    using Cons.prems keys_leaveAll [of peer via rs] unfolding x reg_ok_Cons by blast
  then show ?case using Cons unfolding x leaveAll_Cons
    by (simp add: reg_ok_Cons split: option.split) (simp add: leave_one_def distinct_delete split: option.split)
qed (simp add: reg_ok_def)

lemma member_find: "reg_ok rs \<Longrightarrow> (p, via) \<in> set (members rs room) \<longleftrightarrow> findPeer rs room p = Some via"
  by (auto simp: members_def findPeer_def split: option.split dest: reg_ok_entry)

section \<open>The remote peers as a function\<close>

definition remotes_ok :: "relay \<Rightarrow> bool" where
  "remotes_ok s \<longleftrightarrow> (\<forall>(p, rs) \<in> set (remotes s). rs \<noteq> [])"

lemma tracked_rooms [simp]: "tracked (s\<lparr>rooms := rs\<rparr>) = tracked s"
  by (simp add: tracked_def fun_eq_iff)

lemma isRemote_rooms [simp]: "isRemote (s\<lparr>rooms := rs\<rparr>) = isRemote s"
  by (simp add: isRemote_def fun_eq_iff)

lemma tracked_update:
  "tracked (s\<lparr>remotes := AList.update peer rs (remotes s)\<rparr>) r p = (if p = peer then map_of rs r else tracked s r p)"
  "tracked (s\<lparr>remotes := AList.delete peer (remotes s)\<rparr>) r p = (if p = peer then None else tracked s r p)"
  by (simp_all add: tracked_def update_conv' delete_conv')

lemma remotes_ok_update:
  "remotes_ok s \<Longrightarrow> rs \<noteq> [] \<Longrightarrow> remotes_ok (s\<lparr>remotes := AList.update peer rs (remotes s)\<rparr>)"
  "remotes_ok s \<Longrightarrow> remotes_ok (s\<lparr>remotes := AList.delete peer (remotes s)\<rparr>)"
  using update_all [of "remotes s" "\<lambda>(p, rs). rs \<noteq> []" peer rs] delete_all [of "remotes s" "\<lambda>(p, rs). rs \<noteq> []" peer]
  by (simp_all add: remotes_ok_def)

lemma addRemote_Some:
  assumes "addRemote s room peer relay = Some s1"
  shows "rooms s1 = rooms s" "tracked s1 r p = (if r = room \<and> p = peer then Some relay else tracked s r p)"
    "remotes_ok s \<Longrightarrow> remotes_ok s1" "isRemote s1 p \<longleftrightarrow> p = peer \<or> isRemote s p"
proof -
  have s1: "s1 = s\<lparr>remotes := AList.update peer
      (AList.update room relay (case map_of (remotes s) peer of Some rs \<Rightarrow> rs | None \<Rightarrow> [])) (remotes s)\<rparr>"
    using assms by (simp add: addRemote_def split: if_splits)
  show "rooms s1 = rooms s" "tracked s1 r p = (if r = room \<and> p = peer then Some relay else tracked s r p)"
    "remotes_ok s \<Longrightarrow> remotes_ok s1"
    by (auto simp: s1 tracked_update update_conv' remotes_ok_update) (auto simp: tracked_def split: option.split)
  show "isRemote s1 p \<longleftrightarrow> p = peer \<or> isRemote s p" by (simp add: s1 isRemote_def update_conv')
qed

lemma untrack_facts:
  "rooms (untrack s room peer) = rooms s"
  "tracked (untrack s room peer) r p = (if r = room \<and> p = peer then None else tracked s r p)"
  "remotes_ok s \<Longrightarrow> remotes_ok (untrack s room peer)"
proof -
  show "rooms (untrack s room peer) = rooms s" by (simp add: untrack_def Let_def split: option.split)
  show "tracked (untrack s room peer) r p = (if r = room \<and> p = peer then None else tracked s r p)"
  proof (cases "map_of (remotes s) peer")
    case None
    then show ?thesis by (simp add: untrack_def tracked_def)
  next
    case (Some rs)
    then have "tracked (untrack s room peer) r p = (if p = peer then map_of (AList.delete room rs) r else tracked s r p)"
      by (simp add: untrack_def Let_def tracked_update)
    then show ?thesis using Some by (simp add: delete_conv' tracked_def)
  qed
  show "remotes_ok s \<Longrightarrow> remotes_ok (untrack s room peer)"
    by (simp add: untrack_def Let_def remotes_ok_update split: option.split)
qed

lemma isRemote_tracked: "remotes_ok s \<Longrightarrow> isRemote s p \<longleftrightarrow> (\<exists>room. tracked s room p \<noteq> None)"
  by (fastforce simp: remotes_ok_def isRemote_def tracked_def neq_Nil_conv split: option.splits dest: map_of_SomeD)

section \<open>The invariant of a relay\<close>

definition entry_ok :: "(nat \<Rightarrow> string option) \<Rightarrow> relay \<Rightarrow> string \<Rightarrow> string \<Rightarrow> sender \<Rightarrow> bool" where
  "entry_ok own s room peer via = (case via of
      ToStream k \<Rightarrow> own k = Some peer \<and> tracked s room peer = None
    | ToRemote r p \<Rightarrow> r = room \<and> p = peer \<and> tracked s room peer \<noteq> None)"

definition relay_inv :: "relayEnv \<Rightarrow> (nat \<Rightarrow> string option) \<Rightarrow> relay \<Rightarrow> bool" where
  "relay_inv E own s \<longleftrightarrow>
     reg_ok (rooms s) \<and> remotes_ok s \<and> (forwarding E \<or> remotes s = []) \<and>
     (\<forall>room peer. tracked s room peer \<noteq> Some (selfId E)) \<and>
     (\<forall>room peer via. findPeer (rooms s) room peer = Some via \<longrightarrow> entry_ok own s room peer via)"

definition node_ok :: "relayEnv \<Rightarrow> relayNode \<Rightarrow> bool" where
  "node_ok E s \<longleftrightarrow> relay_inv E (\<lambda>k. map_option fst (map_of (streams s) k)) (relayOf s) \<and>
     (\<forall>k. map_of (streams s) k \<noteq> None \<longrightarrow> k < nextStream s)"

lemma entry_ok_simps [simp]:
  "entry_ok own s room peer (ToStream k) \<longleftrightarrow> own k = Some peer \<and> tracked s room peer = None"
  "entry_ok own s room peer (ToRemote r p) \<longleftrightarrow> r = room \<and> p = peer \<and> tracked s room peer \<noteq> None"
  by (simp_all add: entry_ok_def)

lemma relay_invD:
  assumes "relay_inv E own s"
  shows "reg_ok (rooms s)" "remotes_ok s" "forwarding E \<or> remotes s = []" "tracked s room peer \<noteq> Some (selfId E)"
    "findPeer (rooms s) room peer = Some via \<Longrightarrow> entry_ok own s room peer via"
  using assms by (auto simp: relay_inv_def)

lemma relay_invI:
  assumes "reg_ok (rooms s)" "remotes_ok s" "forwarding E \<or> remotes s = []" "\<And>room peer. tracked s room peer \<noteq> Some (selfId E)"
    "\<And>room peer via. findPeer (rooms s) room peer = Some via \<Longrightarrow> entry_ok own s room peer via"
  shows "relay_inv E own s"
  using assms by (simp add: relay_inv_def)

lemma remotes_ok_rooms [simp]: "remotes_ok (s\<lparr>rooms := rs\<rparr>) = remotes_ok s"
  by (simp add: remotes_ok_def)

lemma entry_ok_tracked: "tracked s room peer = tracked s' room peer \<Longrightarrow> entry_ok own s room peer via = entry_ok own s' room peer via"
  by (cases via) simp_all

lemma handleRemoteJoin_rooms:
  assumes "addRemote s room peer relay = Some s1"
  shows "fst (handleRemoteJoin E s relay room peer) = s1\<lparr>rooms := reg_join (rooms s) room peer (ToRemote room peer)\<rparr>"
  using addRemote_Some(1) [OF assms] by (simp add: handleRemoteJoin_def assms Let_def)

lemma handleRemoteJoin_inv:
  assumes "relay_inv E own s" "relay \<noteq> selfId E" "forwarding E"
  shows "relay_inv E own (fst (handleRemoteJoin E s relay room peer))"
proof (cases "addRemote s room peer relay")
  case None
  then show ?thesis using assms by (simp add: handleRemoteJoin_def)
next
  case (Some s1)
  note f = addRemote_Some [OF Some]
  note inv = relay_invD [OF assms(1)]
  show ?thesis unfolding handleRemoteJoin_rooms [OF Some]
  proof (rule relay_invI)
    fix r p via
    assume "findPeer (rooms (s1\<lparr>rooms := reg_join (rooms s) room peer (ToRemote room peer)\<rparr>)) r p = Some via"
    then show "entry_ok own (s1\<lparr>rooms := reg_join (rooms s) room peer (ToRemote room peer)\<rparr>) r p via"
      using inv(5) [of r p via] entry_ok_tracked [of "s1\<lparr>rooms := reg_join (rooms s) room peer (ToRemote room peer)\<rparr>" r p s own via]
      by (cases "r = room \<and> p = peer") (auto simp: find_join f(2))
  qed (use assms(2,3) inv f(2) f(3) [OF inv(2)] in \<open>simp_all add: reg_ok_join\<close>)
qed

lemma handleRemoteLeave_inv:
  assumes "relay_inv E own s"
  shows "relay_inv E own (fst (handleRemoteLeave E s relay room peer))"
proof (cases "tracked s room peer = Some relay")
  case False
  then show ?thesis using assms by (simp add: handleRemoteLeave_def removeRemote_def)
next
  case True
  note inv = relay_invD [OF assms(1)]
  let ?s' = "(untrack s room peer)\<lparr>rooms := reg_leave (rooms s) room peer\<rparr>"
  have e: "fst (handleRemoteLeave E s relay room peer) = ?s'"
    using True by (simp add: handleRemoteLeave_def removeRemote_def untrack_facts Let_def)
  show ?thesis unfolding e
  proof (rule relay_invI)
    fix r p via
    assume "findPeer (rooms ?s') r p = Some via"
    then show "entry_ok own ?s' r p via"
      using inv(5) [of r p via] entry_ok_tracked [of ?s' r p s own via]
      by (cases "r = room \<and> p = peer") (auto simp: find_leave untrack_facts(2))
  next
    show "forwarding E \<or> remotes ?s' = []" using inv(3) by (auto simp: untrack_def)
  next
    fix r p show "tracked ?s' r p \<noteq> Some (selfId E)" using inv(4) by (simp add: untrack_facts(2))
  qed (use inv untrack_facts(3) [OF inv(2)] in \<open>simp_all add: reg_ok_leave\<close>)
qed

lemma processMessage_inv:
  assumes "relay_inv E own s" "own k = Some peer"
  shows "relay_inv E own (fst (processMessage E s k peer msg))"
proof (cases msg)
  case (JoinRoom room)
  note inv = relay_invD [OF assms(1)]
  define s1 where "s1 = (if forwarding E then untrack s room peer else s)"
  let ?s' = "s1\<lparr>rooms := reg_join (rooms s) room peer (ToStream k)\<rparr>"
  have e: "fst (processMessage E s k peer msg) = ?s'"
    by (simp add: s1_def JoinRoom processMessage_def onLocalJoin_def untrack_def Let_def split: option.split)
  have s1: "rooms s1 = rooms s" "remotes_ok s1" "forwarding E \<or> remotes s1 = []"
    using inv untrack_facts(3) [OF inv(2)] by (auto simp: s1_def untrack_facts(1))
  have t: "tracked s1 r p = (if r = room \<and> p = peer then None else tracked s r p)" for r p
  proof (cases "forwarding E")
    case False
    then have "remotes s = []" using inv(3) by simp
    then have "tracked s = (\<lambda>r p. None)" by (simp add: tracked_def fun_eq_iff)
    then show ?thesis using False by (simp add: s1_def)
  qed (simp add: s1_def untrack_facts(2))
  show ?thesis unfolding e
  proof (rule relay_invI)
    fix r p via
    assume "findPeer (rooms ?s') r p = Some via"
    then show "entry_ok own ?s' r p via"
      using inv(5) [of r p via] entry_ok_tracked [of ?s' r p s own via] assms(2) t [of r p]
      by (cases "r = room \<and> p = peer") (auto simp: find_join)
  qed (use inv s1 t in \<open>simp_all add: reg_ok_join\<close>)
next
  case (LeaveRoom room)
  note inv = relay_invD [OF assms(1)]
  let ?s' = "s\<lparr>rooms := reg_leave (rooms s) room peer\<rparr>"
  have e: "fst (processMessage E s k peer msg) = ?s'"
    by (simp add: LeaveRoom processMessage_def Let_def)
  show ?thesis unfolding e
  proof (rule relay_invI)
    fix r p via
    assume "findPeer (rooms ?s') r p = Some via"
    then show "entry_ok own ?s' r p via"
      using inv(5) [of r p via] entry_ok_tracked [of ?s' r p s own via] by (auto simp: find_leave split: if_splits)
  qed (use inv in \<open>simp_all add: reg_ok_leave\<close>)
qed (use assms in \<open>simp_all add: processMessage_def\<close>)

lemma handler_cleanup_rooms: "fst (handler_cleanup E s k peer) = s\<lparr>rooms := fst (leaveAll peer (Some (ToStream k)) (rooms s))\<rparr>"
  by (simp add: handler_cleanup_def split: prod.split)

lemma relay_inv_own:
  assumes "relay_inv E own s" "\<And>k p. own k = Some p \<Longrightarrow> own' k = Some p"
  shows "relay_inv E own' s"
proof (rule relay_invI)
  fix r p via
  assume "findPeer (rooms s) r p = Some via"
  then show "entry_ok own' s r p via" using relay_invD(5) [OF assms(1)] assms(2) by (cases via) force+
qed (use relay_invD [OF assms(1)] in simp_all)

lemma cleanup_inv:
  assumes "relay_inv E own s" "own k = Some peer"
  shows "relay_inv E (own(k := None)) (fst (handler_cleanup E s k peer))"
    "relay_inv E own (fst (handler_cleanup E s k peer))"
proof -
  note inv = relay_invD [OF assms(1)]
  have "distinct (map fst (rooms s))" using inv(1) by (simp add: reg_ok_def)
  note f = find_leaveAll [OF this]
  let ?s' = "s\<lparr>rooms := fst (leaveAll peer (Some (ToStream k)) (rooms s))\<rparr>"
  show inv': "relay_inv E (own(k := None)) (fst (handler_cleanup E s k peer))" unfolding handler_cleanup_rooms
  proof (rule relay_invI)
    fix r p via
    assume "findPeer (rooms ?s') r p = Some via"
    then show "entry_ok (own(k := None)) ?s' r p via"
      using inv(5) [of r p via] assms(2) by (cases via) (auto simp: f split: if_splits)
  qed (use inv in \<open>simp_all add: reg_ok_leaveAll\<close>)
  show "relay_inv E own (fst (handler_cleanup E s k peer))"
    by (rule relay_inv_own [OF inv']) (simp split: if_splits)
qed

lemma handleFrames_inv:
  "relay_inv E own s \<Longrightarrow> own k = Some peer \<Longrightarrow> relay_inv E own (fst (handleFrames E k peer frames s))"
proof (induction frames arbitrary: s)
  case (Cons f fs)
  then show ?case
  proof (cases "decodeSignal (rwire E) f")
    case (Inr msg)
    obtain s1 e1 where p: "processMessage E s k peer msg = (s1, e1)" by fastforce
    have "relay_inv E own s1" using processMessage_inv [OF Cons.prems, of msg] by (simp add: p)
    moreover obtain s2 e2 fine where "handleFrames E k peer fs s1 = (s2, e2, fine)" by (metis prod_cases3)
    ultimately show ?thesis using Cons.IH [of s1] Cons.prems(2) by (simp add: Inr p)
  qed simp
qed simp

lemma gossip_inv:
  assumes "relay_inv E own s" "forwarding E"
  shows "relay_inv E own (fst (onGossipMessage E s topic data))"
  using assms handleRemoteJoin_inv [OF assms(1) _ assms(2)] handleRemoteLeave_inv [OF assms(1)]
  by (auto simp: onGossipMessage_def split: sum.split relayMsg.split)

lemma endStream_ok:
  assumes "node_ok E s" "map_of (streams s) k = Some (peer, buffer)"
  shows "node_ok E (fst (endStream E s k peer))"
proof -
  obtain r fs where r: "handler_cleanup E (relayOf s) k peer = (r, fs)" by fastforce
  have "relay_inv E ((\<lambda>i. map_option fst (map_of (streams s) i))(k := None)) r"
    using assms cleanup_inv(1) [of E "\<lambda>i. map_option fst (map_of (streams s) i)" "relayOf s" k peer]
    by (simp add: node_ok_def r)
  moreover have "(\<lambda>i. map_option fst (map_of (AList.delete k (streams s)) i)) = (\<lambda>i. map_option fst (map_of (streams s) i))(k := None)"
    by (simp add: delete_conv' fun_eq_iff)
  ultimately show ?thesis using assms(1)
    by (simp add: node_ok_def endStream_def r del: fun_upd_apply) (simp add: delete_conv')
qed

lemma relay_step_ok: "node_ok E s \<Longrightarrow> node_ok E (fst (relay_step E s ev))"
proof (cases ev)
  case (Accept peer)
  assume ok: "node_ok E s"
  define st where "st = AList.update (nextStream s) (peer, []) (streams s)"
  have "map_of (streams s) (nextStream s) = None" using ok unfolding node_ok_def by (metis less_irrefl)
  then have own: "map_option fst (map_of (streams s) k) = Some p \<Longrightarrow> map_option fst (map_of st k) = Some p" for k p
    by (auto simp: st_def update_conv')
  have "relay_inv E (\<lambda>k. map_option fst (map_of (streams s) k)) (relayOf s)" using ok by (simp add: node_ok_def)
  from relay_inv_own [OF this own] have "relay_inv E (\<lambda>k. map_option fst (map_of st k)) (relayOf s)" .
  moreover have "map_of st k \<noteq> None \<Longrightarrow> k < nextStream s + 1" for k
    using ok by (auto simp: node_ok_def st_def update_conv' less_Suc_eq split: if_splits)
  moreover have "fst (relay_step E s ev) = s\<lparr>streams := st, nextStream := nextStream s + 1\<rparr>"
    by (simp only: Accept relay_step.simps fst_conv st_def)
  ultimately show ?thesis unfolding node_ok_def by (simp only: relayNode.simps relayNode.ext_inject) simp
next
  case (Chunk k bytes)
  assume ok: "node_ok E s"
  let ?own = "\<lambda>i. map_option fst (map_of (streams s) i)"
  show ?thesis
  proof (cases "map_of (streams s) k")
    case (Some x)
    obtain peer buffer where x: "x = (peer, buffer)" by fastforce
    obtain frames rest where f: "createFrameReader buffer bytes = (frames, rest)" by fastforce
    obtain r fs fine where h: "handleFrames E k peer frames (relayOf s) = (r, fs, fine)" by (metis prod_cases3)
    have r: "relay_inv E ?own r"
      using handleFrames_inv [of E ?own "relayOf s" k peer frames] ok by (simp add: node_ok_def Some x h)
    define s1 where "s1 = s\<lparr>relayOf := r, streams := AList.update k (peer, rest) (streams s)\<rparr>"
    have own: "(\<lambda>i. map_option fst (map_of (AList.update k (peer, rest) (streams s)) i)) = ?own"
      by (auto simp: update_conv' fun_eq_iff Some x)
    have s1: "node_ok E s1" unfolding node_ok_def s1_def using r ok
      by (simp add: own) (auto simp: node_ok_def update_conv' Some)
    have "map_of (streams s1) k = Some (peer, rest)" by (simp add: s1_def update_conv')
    note e = endStream_ok [OF s1 this]
    obtain s2 fs2 where "endStream E s1 k peer = (s2, fs2)" by fastforce
    with e s1 show ?thesis by (simp add: Chunk Some x f h Let_def s1_def [symmetric])
  qed (use ok in \<open>simp add: Chunk\<close>)
next
  case (SinkFailed k)
  assume ok: "node_ok E s"
  then show ?thesis
    using cleanup_inv(2) [of E "\<lambda>i. map_option fst (map_of (streams s) i)" "relayOf s" k]
    by (auto simp: SinkFailed node_ok_def split: option.split prod.split)
next
  case (Ended k)
  assume "node_ok E s"
  then show ?thesis by (auto simp: Ended split: option.split dest: endStream_ok)
next
  case (Gossiped topic data)
  assume "node_ok E s"
  then show ?thesis
    using gossip_inv [of E "\<lambda>i. map_option fst (map_of (streams s) i)" "relayOf s" topic data]
    by (auto simp: Gossiped node_ok_def split: prod.split)
qed

lemma freshRelay_ok: "node_ok E freshRelay"
  by (simp add: node_ok_def relay_inv_def freshRelay_def reg_ok_def remotes_ok_def tracked_def findPeer_def)

interpretation relay_machine: inv_machine freshRelay "\<lambda>s ev. fst (relay_step E s ev)" "node_ok E" for E
  by unfold_locales (rule freshRelay_ok, rule relay_step_ok)

end
