(* ===== verification/Relay_Net.thy ===== *)
theory Relay_Net
  imports Relay
begin

text \<open>
  The client of the signalling (\<open>packages/sync/src/signaling/client.ts\<close>) and what follows for clients and relays
  together: that frames survive any division into chunks, that a client is registered in the rooms it has joined, that
  a signal reaches a peer at another relay, the invariant of a relay, and how a peer that moves between relays is lost.
\<close>

section \<open>The client\<close>

record signalClient =
  joinedRooms :: "string list"
  outQueue :: "bytes list"
  closed :: bool

definition freshClient :: signalClient where
  "freshClient = \<lparr>joinedRooms = [], outQueue = [], closed = False\<rparr>"

definition client_send :: "wire \<Rightarrow> signalClient \<Rightarrow> signalMsg \<Rightarrow> signalClient" where
  "client_send w c msg = (if closed c then c else c\<lparr>outQueue := outQueue c @ [frameLengthPrefix (encodeSignal w msg)]\<rparr>)"

definition client_joinRoom :: "wire \<Rightarrow> signalClient \<Rightarrow> string \<Rightarrow> signalClient" where
  "client_joinRoom w c room = client_send w (c\<lparr>joinedRooms := List.insert room (joinedRooms c)\<rparr>) (JoinRoom room)"

definition client_leaveRoom :: "wire \<Rightarrow> signalClient \<Rightarrow> string \<Rightarrow> signalClient" where
  "client_leaveRoom w c room = client_send w (c\<lparr>joinedRooms := removeAll room (joinedRooms c)\<rparr>) (LeaveRoom room)"

definition client_sendSignal :: "wire \<Rightarrow> signalClient \<Rightarrow> string \<Rightarrow> string \<Rightarrow> bytes \<Rightarrow> signalClient" where
  "client_sendSignal w c room target payload = client_send w c (Signal room target payload)"

definition client_destroy :: "wire \<Rightarrow> signalClient \<Rightarrow> signalClient" where
  "client_destroy w c =
     (foldl (\<lambda>c room. client_send w c (LeaveRoom room)) c (joinedRooms c))\<lparr>joinedRooms := [], closed := True\<rparr>"

text \<open>What the callbacks are told, frame by frame, until one that does not decode.\<close>

datatype clientCall =
    OnPeerJoined string string
  | OnPeerLeft string string
  | OnSignal string string bytes

fun client_call :: "signalMsg \<Rightarrow> clientCall list" where
  "client_call (PeerJoined room peer) = [OnPeerJoined room peer]"
| "client_call (PeerLeft room peer) = [OnPeerLeft room peer]"
| "client_call (Signal room fromPeerId payload) = [OnSignal room fromPeerId payload]"
| "client_call _ = []"

fun client_read :: "wire \<Rightarrow> bytes list \<Rightarrow> clientCall list \<times> bool" where
  "client_read w [] = ([], True)"
| "client_read w (frame # frames) = (case decodeSignal w frame of
      Inl _ \<Rightarrow> ([], False)
    | Inr msg \<Rightarrow> (case client_read w frames of (calls, fine) \<Rightarrow> (client_call msg @ calls, fine)))"

datatype clientOp = Join string | Leave string | SendSignal string string bytes

fun client_op :: "wire \<Rightarrow> signalClient \<Rightarrow> clientOp \<Rightarrow> signalClient" where
  "client_op w c (Join room) = client_joinRoom w c room"
| "client_op w c (Leave room) = client_leaveRoom w c room"
| "client_op w c (SendSignal room target payload) = client_sendSignal w c room target payload"

definition client_run :: "wire \<Rightarrow> clientOp list \<Rightarrow> signalClient" where
  "client_run w = foldl (client_op w) freshClient"

section \<open>Frames\<close>

lemma client_read_encoded:
  "wire_ok w \<Longrightarrow> client_read w (map (encodeSignal w) msgs) = (concat (map client_call msgs), True)"
  by (induction msgs) (simp_all add: decode_encode_signal)

text \<open>
  C28: however a stream is divided into chunks, the reader yields the same frames.  The frames of messages shorter than
  \<open>2 ^ 32\<close> bytes are these messages, every one of them decodes to what was encoded, in order, and nothing is left.
\<close>

theorem frames_any_chunking:
  assumes "wire_ok w" "\<forall>m \<in> set msgs. length (encodeSignal w m) < 2 ^ 32"
    "concat chunks = concat (map (\<lambda>m. frameLengthPrefix (encodeSignal w m)) msgs)"
  shows "readChunks [] chunks = (map (encodeSignal w) msgs, []) \<and>
    map (decodeSignal w) (fst (readChunks [] chunks)) = map Ok msgs \<and>
    client_read w (fst (readChunks [] chunks)) = (concat (map client_call msgs), True)"
proof -
  have "readChunks [] chunks = takeFrames (concat (map frameLengthPrefix (map (encodeSignal w) msgs)) @ [])"
    using readChunks_concat [of "[]" chunks] by (simp add: takeFrames_short assms(3) o_def)
  also have "\<dots> = (map (encodeSignal w) msgs, [])"
    using takeFrames_frames [of "map (encodeSignal w) msgs" "[]"] assms(2) by (simp add: takeFrames_short)
  finally show ?thesis using client_read_encoded [OF assms(1)] decode_encode_signal [OF assms(1)] by simp
qed

lemma sample_small: "length (encodeSignal sample_wire (JoinRoom ''r'')) < 2 ^ 32"
  "length (encodeSignal sample_wire (Signal ''r'' ''q'' [7])) < 2 ^ 32"
  by (simp_all add: encodeSignal_def sample_wire_def unary_write_def chars_write_def array_write_def)

theorem frames_any_chunking_witness:
  "readChunks [] [frameLengthPrefix (encodeSignal sample_wire (JoinRoom ''r'')) @ take 3 (frameLengthPrefix (encodeSignal sample_wire (Signal ''r'' ''q'' [7]))),
     drop 3 (frameLengthPrefix (encodeSignal sample_wire (Signal ''r'' ''q'' [7])))] =
   ([encodeSignal sample_wire (JoinRoom ''r''), encodeSignal sample_wire (Signal ''r'' ''q'' [7])], [])"
  using frames_any_chunking [OF sample_wire_ok, of "[JoinRoom ''r'', Signal ''r'' ''q'' [7]]"
      "[frameLengthPrefix (encodeSignal sample_wire (JoinRoom ''r'')) @ take 3 (frameLengthPrefix (encodeSignal sample_wire (Signal ''r'' ''q'' [7]))),
     drop 3 (frameLengthPrefix (encodeSignal sample_wire (Signal ''r'' ''q'' [7])))]"] sample_small
  by simp

section \<open>A client at its relay\<close>

fun op_msg :: "clientOp \<Rightarrow> signalMsg" where
  "op_msg (Join room) = JoinRoom room"
| "op_msg (Leave room) = LeaveRoom room"
| "op_msg (SendSignal room target payload) = Signal room target payload"

lemma client_run_snoc: "client_run w (ops @ [op]) = client_op w (client_run w ops) op"
  by (simp add: client_run_def)

lemma client_run_open: "\<not> closed (client_run w ops)"
proof (induction ops rule: rev_induct)
  case (snoc op ops)
  then show ?case unfolding client_run_snoc
    by (cases op) (simp_all add: client_joinRoom_def client_leaveRoom_def client_sendSignal_def client_send_def)
qed (simp add: client_run_def freshClient_def)

lemma client_run_queue: "outQueue (client_run w ops) = map (\<lambda>m. frameLengthPrefix (encodeSignal w m)) (map op_msg ops)"
proof (induction ops rule: rev_induct)
  case (snoc op ops)
  then show ?case using client_run_open [of w ops] unfolding client_run_snoc
    by (cases op) (simp_all add: client_joinRoom_def client_leaveRoom_def client_sendSignal_def client_send_def)
qed (simp add: client_run_def freshClient_def)

lemma send_all:
  "\<not> closed c \<Longrightarrow> foldl (\<lambda>c room. client_send w c (LeaveRoom room)) c rs =
     c\<lparr>outQueue := outQueue c @ map (\<lambda>r. frameLengthPrefix (encodeSignal w (LeaveRoom r))) rs\<rparr>"
  by (induction rs arbitrary: c) (simp_all add: client_send_def)

lemma destroy_queue:
  "outQueue (client_destroy w (client_run w ops)) =
     map (\<lambda>m. frameLengthPrefix (encodeSignal w m)) (map op_msg ops @ map LeaveRoom (joinedRooms (client_run w ops)))"
  by (simp add: client_destroy_def send_all client_run_open client_run_queue)

definition process_all :: "relayEnv \<Rightarrow> nat \<Rightarrow> string \<Rightarrow> relay \<Rightarrow> signalMsg list \<Rightarrow> relay" where
  "process_all E k peer = foldl (\<lambda>s m. fst (processMessage E s k peer m))"

lemma handleFrames_encoded:
  "wire_ok (rwire E) \<Longrightarrow>
   \<exists>fs. handleFrames E k peer (map (encodeSignal (rwire E)) msgs) s = (process_all E k peer s msgs, fs, True)"
proof (induction msgs arbitrary: s)
  case (Cons m ms)
  obtain s1 e1 where "processMessage E s k peer m = (s1, e1)" by fastforce
  then show ?case using Cons.IH [OF Cons.prems, of s1] by (auto simp: process_all_def decode_encode_signal [OF Cons.prems])
qed (simp add: process_all_def)

lemma process_find:
  "findPeer (rooms (fst (processMessage E s k peer msg))) room peer =
     (if msg = JoinRoom room then Some (ToStream k) else if msg = LeaveRoom room then None else findPeer (rooms s) room peer)"
proof (cases msg)
  case (JoinRoom r)
  have "rooms (fst (processMessage E s k peer msg)) = reg_join (rooms s) r peer (ToStream k)"
    by (simp add: JoinRoom processMessage_def onLocalJoin_def untrack_facts(1) Let_def)
  then show ?thesis by (simp add: JoinRoom find_join)
next
  case (LeaveRoom r)
  then show ?thesis by (simp add: processMessage_def find_leave Let_def)
qed (simp_all add: processMessage_def)

lemma process_all_find:
  assumes "\<forall>room. findPeer (rooms s) room peer = None"
  shows "findPeer (rooms (process_all E k peer s (map op_msg ops))) room peer =
    (if room \<in> set (joinedRooms (client_run w ops)) then Some (ToStream k) else None)"
proof (induction ops rule: rev_induct)
  case Nil
  then show ?case using assms by (simp add: process_all_def client_run_def freshClient_def)
next
  case (snoc op ops)
  then show ?case unfolding client_run_snoc
    by (cases op) (auto simp: process_all_def process_find client_joinRoom_def client_leaveRoom_def client_sendSignal_def client_send_def)
qed

lemma process_leaves:
  "findPeer (rooms (process_all E k peer s (map LeaveRoom rs))) room peer = (if room \<in> set rs then None else findPeer (rooms s) room peer)"
  by (induction rs arbitrary: s) (simp_all add: process_all_def process_find)


definition sample_relay :: "string \<Rightarrow> relayEnv" where
  "sample_relay name = \<lparr>rwire = sample_wire, selfId = name, netId = ''main'', forwarding = True\<rparr>"

lemma sample_leave_small: "length (encodeSignal sample_wire (LeaveRoom ''r'')) < 2 ^ 32"
  by (simp add: encodeSignal_def sample_wire_def unary_write_def chars_write_def array_write_def)


section \<open>The relay\<close>

text \<open>
  C18: whatever reaches a relay, in any order: a member with a stream is the peer of a stream that is still read and is not
  tracked as remote there; every other member is a peer that another relay has announced for the room and not taken
  back; no room is empty, and no member is in a room twice.
\<close>

theorem relay_invariant:
  assumes "s = relay_run E freshRelay events"
  shows "(\<forall>room peer via. (peer, via) \<in> set (members (rooms (relayOf s)) room) \<longrightarrow> (case via of
      ToStream k \<Rightarrow> (\<exists>buffer. map_of (streams s) k = Some (peer, buffer)) \<and> tracked (relayOf s) room peer = None
    | ToRemote r p \<Rightarrow> forwarding E \<and> r = room \<and> p = peer \<and>
        (\<exists>relay. tracked (relayOf s) room peer = Some relay \<and> relay \<noteq> selfId E))) \<and>
    (\<forall>(room, ms) \<in> set (rooms (relayOf s)). ms \<noteq> [] \<and> distinct (map fst ms))"
proof -
  have ok: "node_ok E s" unfolding assms relay_run_def by (rule relay_machine.inv_run)
  then have inv: "relay_inv E (\<lambda>k. map_option fst (map_of (streams s) k)) (relayOf s)" by (simp add: node_ok_def)
  note D = relay_invD [OF inv]
  have "case via of
      ToStream k \<Rightarrow> (\<exists>buffer. map_of (streams s) k = Some (peer, buffer)) \<and> tracked (relayOf s) room peer = None
    | ToRemote r p \<Rightarrow> forwarding E \<and> r = room \<and> p = peer \<and>
        (\<exists>relay. tracked (relayOf s) room peer = Some relay \<and> relay \<noteq> selfId E)"
    if "(peer, via) \<in> set (members (rooms (relayOf s)) room)" for room peer via
  proof -
    have e: "entry_ok (\<lambda>k. map_option fst (map_of (streams s) k)) (relayOf s) room peer via"
      using that D(5) by (simp add: member_find [OF D(1)])
    show ?thesis
    proof (cases via)
      case (ToStream k)
      then show ?thesis using e by auto
    next
      case (ToRemote r p)
      moreover have "forwarding E" if "tracked (relayOf s) room peer \<noteq> None" using D(3) that by (auto simp: tracked_def)
      ultimately show ?thesis using e D(4) [of room peer] by auto
    qed
  qed
  then show ?thesis using D(1) unfolding reg_ok_def by blast
qed

text \<open>A peer joins.\<close>

definition sample_events :: "relayEvent list" where
  "sample_events = [Accept ''p'', Chunk 0 (frameLengthPrefix (encodeSignal sample_wire (JoinRoom ''r'')))]"

lemma sample_events_state:
  "relayOf (relay_run (sample_relay ''A'') freshRelay sample_events) =
     fst (processMessage (sample_relay ''A'') (relayOf freshRelay) 0 ''p'' (JoinRoom ''r''))"
proof -
  have w: "wire_ok (rwire (sample_relay ''A''))" "rwire (sample_relay ''A'') = sample_wire"
    by (simp_all add: sample_relay_def sample_wire_ok)
  have c: "createFrameReader [] (frameLengthPrefix (encodeSignal sample_wire (JoinRoom ''r''))) = ([encodeSignal sample_wire (JoinRoom ''r'')], [])"
    using takeFrames_frame [OF sample_small(1), of "[]"] by (simp add: createFrameReader_def takeFrames_short)
  obtain fs where "handleFrames (sample_relay ''A'') 0 ''p'' [encodeSignal sample_wire (JoinRoom ''r'')] (relayOf freshRelay) =
      (fst (processMessage (sample_relay ''A'') (relayOf freshRelay) 0 ''p'' (JoinRoom ''r'')), fs, True)"
    using handleFrames_encoded [OF w(1), of 0 "''p''" "[JoinRoom ''r'']" "relayOf freshRelay"] w(2) by (auto simp: process_all_def)
  then show ?thesis
    by (simp add: relay_run_def sample_events_def freshRelay_def c del: handleFrames.simps)
qed

theorem relay_invariant_witness:
  "\<exists>buffer. map_of (streams (relay_run (sample_relay ''A'') freshRelay sample_events)) 0 = Some (''p'', buffer)"
proof -
  have "(''p'', ToStream 0) \<in> set (members (rooms (relayOf (relay_run (sample_relay ''A'') freshRelay sample_events))) ''r'')"
    unfolding sample_events_state by (simp add: processMessage_def onLocalJoin_def sample_relay_def freshRelay_def untrack_def reg_join_def members_def Let_def)
  then show ?thesis using relay_invariant [OF refl, of "sample_relay ''A''" sample_events] by fastforce
qed

section \<open>Between two relays\<close>

lemma join_effects:
  assumes "forwarding E"
  shows "publish E (RelayJoin (selfId E) room peer) \<in> set (snd (processMessage E s k peer (JoinRoom room)))"
    "fst (processMessage E s k peer (JoinRoom room)) = (untrack s room peer)\<lparr>rooms := reg_join (rooms s) room peer (ToStream k)\<rparr>"
  using assms by (simp_all add: processMessage_def onLocalJoin_def untrack_def Let_def split: option.split)

lemma gossip_join:
  assumes "wire_ok (rwire E)" "netId E' = netId E" "rwire E' = rwire E" "relay \<noteq> selfId E" "publish E' (RelayJoin relay room peer) = Publish topic data"
  shows "onGossipMessage E s topic data = handleRemoteJoin E s relay room peer"
  using assms decode_encode_relay [OF assms(1)] by (auto simp: onGossipMessage_def publish_def)

lemma gossip_signal:
  assumes "wire_ok (rwire E)" "netId E' = netId E" "rwire E' = rwire E" "relay \<noteq> selfId E" "publish E' (RelaySignal relay room peer payload) = Publish topic data"
  shows "onGossipMessage E s topic data = (s, handleRemoteSignal E s room peer payload)"
  using assms decode_encode_relay [OF assms(1)] by (auto simp: onGossipMessage_def publish_def)

lemma remoteJoin_find:
  assumes "tracked s room peer \<noteq> Some relay"
  shows "findPeer (rooms (fst (handleRemoteJoin E s relay room peer))) room peer = Some (ToRemote room peer)"
    "isRemote (fst (handleRemoteJoin E s relay room peer)) peer"
proof -
  obtain s1 where a: "addRemote s room peer relay = Some s1" using assms by (simp add: addRemote_def)
  show "findPeer (rooms (fst (handleRemoteJoin E s relay room peer))) room peer = Some (ToRemote room peer)"
    "isRemote (fst (handleRemoteJoin E s relay room peer)) peer"
    using addRemote_Some(4) [OF a] by (simp_all add: handleRemoteJoin_rooms [OF a] find_join)
qed

lemma signal_to_remote:
  "findPeer (rooms s) room q = Some (ToRemote room q) \<Longrightarrow>
   processMessage E s k p (Signal room q payload) =
     (s, [publish E (RelaySignal (selfId E) room q (encodeSignal (rwire E) (Signal room p payload)))])"
  by (simp add: processMessage_def sendBy_def)

text \<open>
  C17: A peer \<open>q\<close> that joins a room at relay B is announced to relay A, which tells each of its own members of the room; from
  then on what any peer \<open>p\<close> of A signals to \<open>q\<close> in the room arrives, through the mesh, on the stream of \<open>q\<close>, as one frame
  that decodes to the payload with \<open>p\<close> as its sender.
\<close>

theorem signal_forwarded:
  assumes "wire_ok w" "rwire A = w" "rwire B = w" "netId A = netId B" "selfId A \<noteq> selfId B" "forwarding B"
    "remotes_ok sB" "\<forall>r. r \<noteq> room \<longrightarrow> tracked sB r q = None" "tracked sA room q \<noteq> Some (selfId B)"
    "sB1 = fst (processMessage B sB j q (JoinRoom room))"
    "sA1 = fst (handleRemoteJoin A sA (selfId B) room q)" "length (encodeSignal w (Signal room p payload)) < 2 ^ 32"
  shows "(\<exists>topic data. Publish topic data \<in> set (snd (processMessage B sB j q (JoinRoom room))) \<and>
      onGossipMessage A sA topic data = handleRemoteJoin A sA (selfId B) room q) \<and>
    (\<forall>m k'. (m, ToStream k') \<in> set (members (rooms sA) room) \<and> \<not> isRemote sA m \<and> m \<noteq> q \<longrightarrow>
      Deliver k' (frameLengthPrefix (encodeSignal w (PeerJoined room q))) \<in> set (snd (handleRemoteJoin A sA (selfId B) room q))) \<and>
    (\<exists>topic data frame. processMessage A sA1 k p (Signal room q payload) = (sA1, [Publish topic data]) \<and>
      onGossipMessage B sB1 topic data = (sB1, [Deliver j frame]) \<and>
      map (decodeSignal w) (fst (takeFrames frame)) = [Ok (Signal room p payload)])"
proof -
  have "publish B (RelayJoin (selfId B) room q) \<in> set (snd (processMessage B sB j q (JoinRoom room)))"
    by (rule join_effects(1) [OF assms(6)])
  moreover obtain topic data where t: "publish B (RelayJoin (selfId B) room q) = Publish topic data" by (simp add: publish_def)
  moreover have "onGossipMessage A sA topic data = handleRemoteJoin A sA (selfId B) room q"
    using gossip_join [of A B "selfId B"] assms(1-5) t by auto
  ultimately have announced: "\<exists>topic data. Publish topic data \<in> set (snd (processMessage B sB j q (JoinRoom room))) \<and>
      onGossipMessage A sA topic data = handleRemoteJoin A sA (selfId B) room q" by metis
  obtain s1 where a: "addRemote sA room q (selfId B) = Some s1" using assms(9) by (simp add: addRemote_def)
  note f = addRemote_Some [OF a]
  have told: "Deliver k' (frameLengthPrefix (encodeSignal w (PeerJoined room q))) \<in> set (snd (handleRemoteJoin A sA (selfId B) room q))"
    if "(m, ToStream k') \<in> set (members (rooms sA) room)" "\<not> isRemote sA m" "m \<noteq> q" for m k'
  proof -
    have "(m, ToStream k') \<in> set (filter (\<lambda>(p, _). \<not> isRemote s1 p) (members (rooms s1) room))"
      using that f(1,4) by simp
    then have "sendBy A (ToStream k') (encodeSignal w (PeerJoined room q)) \<in>
        set (tell A (filter (\<lambda>(p, _). \<not> isRemote s1 p) (members (rooms s1) room)) (PeerJoined room q))"
      unfolding tell_def assms(2) by (force simp: image_iff)
    then show ?thesis by (simp add: handleRemoteJoin_def a Let_def sendBy_def)
  qed
  have fA: "findPeer (rooms sA1) room q = Some (ToRemote room q)"
    unfolding assms(11) by (rule remoteJoin_find(1) [OF assms(9)])
  let ?b = "encodeSignal w (Signal room p payload)"
  have sB1: "findPeer (rooms sB1) room q = Some (ToStream j)" "tracked sB1 r q = None" "remotes_ok sB1" for r
    using untrack_facts(2,3) [of sB room q] assms(7,8) by (auto simp: assms(10) join_effects(2) [OF assms(6)] find_join untrack_facts(2))
  have "\<not> isRemote sB1 q" using sB1(2) by (simp add: isRemote_tracked [OF sB1(3)])
  then have sig: "handleRemoteSignal B sB1 room q ?b = [Deliver j (frameLengthPrefix ?b)]"
    by (simp add: handleRemoteSignal_def sB1(1) sendBy_def)
  obtain topic2 data2 where t2: "publish A (RelaySignal (selfId A) room q ?b) = Publish topic2 data2" by (simp add: publish_def)
  have "onGossipMessage B sB1 topic2 data2 = (sB1, [Deliver j (frameLengthPrefix ?b)])"
    using gossip_signal [of B A "selfId A" room q ?b topic2 data2 sB1] assms(1-5) t2 sig by simp
  moreover have "processMessage A sA1 k p (Signal room q payload) = (sA1, [Publish topic2 data2])"
    using signal_to_remote [OF fA, of A k p payload] t2 by (simp add: assms(2))
  moreover have "map (decodeSignal w) (fst (takeFrames (frameLengthPrefix ?b))) = [Ok (Signal room p payload)]"
    using takeFrames_frame [OF assms(12), of "[]"] by (simp add: takeFrames_short decode_encode_signal [OF assms(1)])
  ultimately have "\<exists>topic data frame. processMessage A sA1 k p (Signal room q payload) = (sA1, [Publish topic data]) \<and>
      onGossipMessage B sB1 topic data = (sB1, [Deliver j frame]) \<and>
      map (decodeSignal w) (fst (takeFrames frame)) = [Ok (Signal room p payload)]"
    by (intro exI [of _ topic2] exI [of _ data2] exI [of _ "frameLengthPrefix ?b"] conjI)
  then show ?thesis by (intro conjI allI impI announced told) (elim conjE; assumption)+
qed

lemma sample_signal_small: "length (encodeSignal sample_wire (Signal ''r'' ''p'' [7])) < 2 ^ 32"
  by (simp add: encodeSignal_def sample_wire_def unary_write_def chars_write_def array_write_def)

theorem signal_forwarded_witness:
  "\<exists>topic data frame.
     processMessage (sample_relay ''A'') (fst (handleRemoteJoin (sample_relay ''A'') (relayOf freshRelay) ''B'' ''r'' ''q'')) 4 ''p''
       (Signal ''r'' ''q'' [7]) =
       (fst (handleRemoteJoin (sample_relay ''A'') (relayOf freshRelay) ''B'' ''r'' ''q''), [Publish topic data]) \<and>
     onGossipMessage (sample_relay ''B'') (fst (processMessage (sample_relay ''B'') (relayOf freshRelay) 3 ''q'' (JoinRoom ''r''))) topic data =
       (fst (processMessage (sample_relay ''B'') (relayOf freshRelay) 3 ''q'' (JoinRoom ''r'')), [Deliver 3 frame]) \<and>
     map (decodeSignal sample_wire) (fst (takeFrames frame)) = [Ok (Signal ''r'' ''p'' [7])]"
proof -
  have e: "selfId (sample_relay ''B'') = ''B''" by (simp add: sample_relay_def)
  have h: "rwire (sample_relay n) = sample_wire" "netId (sample_relay ''A'') = netId (sample_relay ''B'')"
    "selfId (sample_relay ''A'') \<noteq> selfId (sample_relay ''B'')" "forwarding (sample_relay ''B'')" "remotes_ok (relayOf freshRelay)"
    "\<forall>r. r \<noteq> ''r'' \<longrightarrow> tracked (relayOf freshRelay) r ''q'' = None" "tracked (relayOf freshRelay) ''r'' ''q'' \<noteq> Some (selfId (sample_relay ''B''))" for n
    by (simp_all add: sample_relay_def freshRelay_def remotes_ok_def tracked_def)
  show ?thesis
    using signal_forwarded [OF sample_wire_ok h(1,1-6) h(7) refl refl sample_signal_small, where j = 3 and k = 4,
        unfolded e, THEN conjunct2, THEN conjunct2] .
qed

section \<open>Peers that move between relays\<close>

lemma no_signal_while_remote: "isRemote s peer \<Longrightarrow> handleRemoteSignal E s room peer payload = []"
  by (simp add: handleRemoteSignal_def split: option.split)

lemma signal_effects_remote:
  assumes "findPeer (rooms s) room q = Some (ToRemote room q)" "(j, frame) = (j', frame')"
  shows "Deliver j frame \<notin> set (snd (processMessage E s k p (Signal room q payload)))"
  by (simp add: signal_to_remote [OF assms(1)] publish_def)

text \<open>
  C19: A peer that has joined a room through two relays, as a browser with two relays does, is lost to both when their
  announcements cross: each takes the peer for the other's, its own stream is no longer registered, and no signal to the
  peer, from whichever relay it comes, is delivered any more.
\<close>

theorem crossed_joins:
  assumes "wire_ok w" "rwire A = w" "rwire B = w" "netId A = netId B" "selfId A \<noteq> selfId B"
    "findPeer (rooms sA) room p = Some (ToStream i)" "findPeer (rooms sB) room p = Some (ToStream j)"
    "tracked sA room p \<noteq> Some (selfId B)" "tracked sB room p \<noteq> Some (selfId A)"
    "publish A (RelayJoin (selfId A) room p) = Publish topic fromA" "publish B (RelayJoin (selfId B) room p) = Publish topic fromB"
    "sA1 = fst (onGossipMessage A sA topic fromB)" "sB1 = fst (onGossipMessage B sB topic fromA)"
  shows "findPeer (rooms sA1) room p = Some (ToRemote room p) \<and> findPeer (rooms sB1) room p = Some (ToRemote room p) \<and>
    (\<forall>k q payload. \<exists>data. processMessage A sA1 k q (Signal room p payload) = (sA1, [Publish topic data]) \<and>
      onGossipMessage B sB1 topic data = (sB1, [])) \<and>
    (\<forall>k q payload. \<exists>data. processMessage B sB1 k q (Signal room p payload) = (sB1, [Publish topic data]) \<and>
      onGossipMessage A sA1 topic data = (sA1, [])) \<and>
    (\<forall>C payload data. netId C = netId A \<and> rwire C = w \<and> selfId C \<notin> {selfId A, selfId B} \<and>
      publish C (RelaySignal (selfId C) room p payload) = Publish topic data \<longrightarrow>
      onGossipMessage A sA1 topic data = (sA1, []) \<and> onGossipMessage B sB1 topic data = (sB1, []))"
proof -
  have a: "sA1 = fst (handleRemoteJoin A sA (selfId B) room p)"
    using gossip_join [of A B "selfId B" room p topic fromB sA] assms(1-5,11,12) by simp
  have b: "sB1 = fst (handleRemoteJoin B sB (selfId A) room p)"
    using gossip_join [of B A "selfId A" room p topic fromA sB] assms(1-5,10,13) by simp
  note fa = remoteJoin_find [OF assms(8), of A, folded a] and fb = remoteJoin_find [OF assms(9), of B, folded b]
  have top: "topic = relaySignalingTopic (netId A)" using assms(10) by (simp add: publish_def)
  have AB: "\<exists>data. processMessage A sA1 k q (Signal room p payload) = (sA1, [Publish topic data]) \<and> onGossipMessage B sB1 topic data = (sB1, [])" for k q payload
    using signal_to_remote [OF fa(1), of A k q payload] assms(1-5) top
      gossip_signal [of B A "selfId A" room p "encodeSignal w (Signal room q payload)" topic _ sB1, OF _ _ _ _ _]
    by (auto simp: publish_def no_signal_while_remote [OF fb(2)])
  have BA: "\<exists>data. processMessage B sB1 k q (Signal room p payload) = (sB1, [Publish topic data]) \<and> onGossipMessage A sA1 topic data = (sA1, [])" for k q payload
    using signal_to_remote [OF fb(1), of B k q payload] assms(1-5) top
      gossip_signal [of A B "selfId B" room p "encodeSignal w (Signal room q payload)" topic _ sA1, OF _ _ _ _ _]
    by (auto simp: publish_def no_signal_while_remote [OF fa(2)])
  have C: "onGossipMessage A sA1 topic data = (sA1, []) \<and> onGossipMessage B sB1 topic data = (sB1, [])"
    if "netId C = netId A \<and> rwire C = w \<and> selfId C \<notin> {selfId A, selfId B} \<and>
      publish C (RelaySignal (selfId C) room p payload) = Publish topic data" for C payload data
    using that gossip_signal [of A C "selfId C" room p payload topic data sA1] gossip_signal [of B C "selfId C" room p payload topic data sB1]
      assms(1-4) by (simp add: no_signal_while_remote [OF fa(2)] no_signal_while_remote [OF fb(2)])
  show ?thesis by (intro conjI allI impI fa fb AB BA) (use C in blast)+
qed

definition sample_joined :: "string \<Rightarrow> relay" where
  "sample_joined name = fst (processMessage (sample_relay name) (relayOf freshRelay) 0 ''p'' (JoinRoom ''r''))"

lemma sample_joined_facts:
  "findPeer (rooms (sample_joined name)) ''r'' ''p'' = Some (ToStream 0)" "tracked (sample_joined name) ''r'' ''p'' = None"
  by (simp_all add: sample_joined_def process_find)
    (simp add: processMessage_def onLocalJoin_def sample_relay_def untrack_def freshRelay_def tracked_def Let_def)

theorem crossed_joins_witness:
  "findPeer (rooms (fst (onGossipMessage (sample_relay ''A'') (sample_joined ''A'') (relaySignalingTopic ''main'')
     (encodeRelayMsg sample_wire (RelayJoin ''B'' ''r'' ''p''))))) ''r'' ''p'' = Some (ToRemote ''r'' ''p'')"
proof -
  have h: "rwire (sample_relay n) = sample_wire" "netId (sample_relay ''A'') = netId (sample_relay ''B'')"
    "selfId (sample_relay ''A'') \<noteq> selfId (sample_relay ''B'')"
    "publish (sample_relay n) (RelayJoin (selfId (sample_relay n)) ''r'' ''p'') =
       Publish (relaySignalingTopic ''main'') (encodeRelayMsg sample_wire (RelayJoin n ''r'' ''p''))" for n
    by (simp_all add: sample_relay_def publish_def)
  have t: "tracked (sample_joined n) ''r'' ''p'' \<noteq> Some x" for n x by (simp add: sample_joined_facts)
  show ?thesis
    using crossed_joins [OF sample_wire_ok h(1) h(1) h(2,3) sample_joined_facts(1) sample_joined_facts(1) t t h(4) h(4) refl refl] by blast
qed

text \<open>
  A peer that has moved to another relay and then leaves a room on its old stream is removed from the room of the old
  relay, where the others are told that it left, although it is a member at its new relay; the announcements of the new
  relay are taken for repetitions from then on, and nothing reaches the peer.
\<close>

theorem stale_leave:
  assumes "wire_ok (rwire A)" "netId B = netId A" "rwire B = rwire A" "selfId B \<noteq> selfId A"
    "tracked sA room p = Some (selfId B)" "publish B (RelayJoin (selfId B) room p) = Publish topic data"
    "processMessage A sA k p (LeaveRoom room) = (sA1, effs)"
  shows "(\<forall>m via. (m, via) \<in> set (members (rooms sA1) room) \<longrightarrow>
      sendBy A via (encodeSignal (rwire A) (PeerLeft room p)) \<in> set effs) \<and>
    onGossipMessage A sA1 topic data = (sA1, []) \<and>
    (\<forall>k q payload. processMessage A sA1 k q (Signal room p payload) = (sA1, []))"
proof -
  have s: "sA1 = sA\<lparr>rooms := reg_leave (rooms sA) room p\<rparr>"
    "effs = (if forwarding A then onLocalLeave A room p else []) @ tell A (members (rooms sA1) room) (PeerLeft room p)"
    using assms(7) by (auto simp: processMessage_def Let_def)
  have "tracked sA1 room p = Some (selfId B)" using assms(5) by (simp add: s(1))
  then have "onGossipMessage A sA1 topic data = (sA1, [])"
    using gossip_join [of A B "selfId B" room p topic data sA1] assms(1-4,6) by (simp add: handleRemoteJoin_def addRemote_def)
  moreover have "findPeer (rooms sA1) room p = None" by (simp add: s(1) find_leave)
  then have "processMessage A sA1 k q (Signal room p payload) = (sA1, [])" for k q payload by (simp add: processMessage_def)
  moreover have "sendBy A via (encodeSignal (rwire A) (PeerLeft room p)) \<in> set effs" if "(m, via) \<in> set (members (rooms sA1) room)" for m via
    using that by (force simp: s(2) tell_def image_iff)
  ultimately show ?thesis by blast
qed

theorem stale_leave_witness:
  "\<exists>sA1 effs. processMessage (sample_relay ''A'') (fst (handleRemoteJoin (sample_relay ''A'') (sample_joined ''A'') ''B'' ''r'' ''p'')) 0 ''p''
     (LeaveRoom ''r'') = (sA1, effs) \<and>
   onGossipMessage (sample_relay ''A'') sA1 (relaySignalingTopic ''main'') (encodeRelayMsg sample_wire (RelayJoin ''B'' ''r'' ''p'')) = (sA1, [])"
proof -
  let ?s = "fst (handleRemoteJoin (sample_relay ''A'') (sample_joined ''A'') ''B'' ''r'' ''p'')"
  obtain s1 where a: "addRemote (sample_joined ''A'') ''r'' ''p'' ''B'' = Some s1" by (simp add: addRemote_def sample_joined_facts)
  have h: "wire_ok (rwire (sample_relay ''A''))" "netId (sample_relay ''B'') = netId (sample_relay ''A'')"
    "rwire (sample_relay ''B'') = rwire (sample_relay ''A'')" "selfId (sample_relay ''B'') \<noteq> selfId (sample_relay ''A'')"
    "tracked ?s ''r'' ''p'' = Some (selfId (sample_relay ''B''))"
    "publish (sample_relay ''B'') (RelayJoin (selfId (sample_relay ''B'')) ''r'' ''p'') =
       Publish (relaySignalingTopic ''main'') (encodeRelayMsg sample_wire (RelayJoin ''B'' ''r'' ''p''))"
    using addRemote_Some(2) [OF a] sample_wire_ok by (simp_all add: handleRemoteJoin_rooms [OF a] sample_relay_def publish_def)
  obtain s2 effs where p: "processMessage (sample_relay ''A'') ?s 0 ''p'' (LeaveRoom ''r'') = (s2, effs)" by fastforce
  show ?thesis using stale_leave [OF h p] p by blast
qed

end
