(* ===== verification/Peer_Connection.thy ===== *)
theory Peer_Connection
  imports Complex_Main Relay_Net Announce "HOL-Library.List_Lexorder" "HOL-Library.Char_ord"
begin

text \<open>
  The manager of WebRTC connections (\<open>packages/sync/src/signaling/peer-connection.ts\<close>): discovery of peers by the
  signalling client, offers, answers and candidates, and the retries after a failure.  The connections are the
  browser's: their states change by events, and what is asynchronous, applying a description or making an offer or
  answer, is a task that ends with a value or fails.  Timers and tasks are numbered; a closure is its job with the
  peer and the connection it has captured.  The callbacks and what is sent are the list \<open>happened\<close>.
\<close>

section \<open>Signals\<close>

datatype webrtcSignal = SdpOffer json | SdpAnswer json | IceCandidate json

definition encodeWebRTCSignal :: "json_codec \<Rightarrow> webrtcSignal \<Rightarrow> bytes" where
  "encodeWebRTCSignal J signal = (case signal of
      SdpOffer sdp \<Rightarrow> 0 # json_write J sdp
    | SdpAnswer sdp \<Rightarrow> 1 # json_write J sdp
    | IceCandidate candidate \<Rightarrow> 2 # json_write J candidate)"

definition decodeWebRTCSignal :: "json_codec \<Rightarrow> bytes \<Rightarrow> webrtcSignal result" where
  "decodeWebRTCSignal J bytes = (case bytes of
      [] \<Rightarrow> Throw ''Malformed WebRTC signal: invalid JSON''
    | type # text \<Rightarrow> (case json_read J text of
        Inl _ \<Rightarrow> Throw ''Malformed WebRTC signal: invalid JSON''
      | Inr data \<Rightarrow>
          if type = 0 then Ok (SdpOffer data)
          else if type = 1 then Ok (SdpAnswer data)
          else if type = 2 then Ok (IceCandidate data)
          else Throw ''Unknown WebRTC signal type''))"

section \<open>State\<close>

definition OFFER_TIMEOUT_MS :: int where "OFFER_TIMEOUT_MS = 10000"
definition GRACE_MS :: int where "GRACE_MS = 10000"
definition BASE_BACKOFF_MS :: int where "BASE_BACKOFF_MS = 1000"
definition MAX_RETRIES :: nat where "MAX_RETRIES = 3"

record pmEnv =
  roomName :: string
  localPeerId :: string
  pmCodec :: json_codec
  jitter :: "nat \<Rightarrow> real"

datatype cstate = CNew | CConnecting | CConnected | CDisconnected | CFailed | CClosed

record peerState =
  attempts :: nat
  offerTimer :: "nat option"
  disconnectedTimer :: "nat option"
  retryTimer :: "nat option"

definition freshPeerState :: peerState where
  "freshPeerState = \<lparr>attempts = 0, offerTimer = None, disconnectedTimer = None, retryTimer = None\<rparr>"

datatype timerJob = OfferTimeout string nat | GraceOver string nat | RetryNow string nat

datatype task = Offering string nat | ApplyingOffer string nat | MakingAnswer string nat | ApplyingAnswer string nat

datatype pmEffect =
    PeerCreated string nat bool
  | PeerConnection string nat bool
  | PeerDisconnected string
  | AddIceCandidate nat json
  | SentSignal string bytes
  | TimerStarted nat int

text \<open>\<open>connections\<close> has every connection that was made, with the peer that its handlers have captured.\<close>

record peerManager =
  peers :: "string \<rightharpoonup> nat"
  connections :: "nat \<rightharpoonup> string \<times> cstate"
  iceBuf :: "string \<rightharpoonup> json list"
  remoteDescSet :: "string set"
  peerStates :: "string \<rightharpoonup> peerState"
  timers :: "nat \<rightharpoonup> timerJob"
  tasks :: "nat \<rightharpoonup> task"
  nextId :: nat
  listening :: bool
  happened :: "pmEffect list"

definition freshManager :: peerManager where
  "freshManager = \<lparr>peers = Map.empty, connections = Map.empty, iceBuf = Map.empty, remoteDescSet = {}, peerStates = Map.empty,
     timers = Map.empty, tasks = Map.empty, nextId = 0, listening = True, happened = []\<rparr>"

definition emit :: "peerManager \<Rightarrow> pmEffect list \<Rightarrow> peerManager" where
  "emit s es = s\<lparr>happened := happened s @ es\<rparr>"

definition getPeerState :: "peerManager \<Rightarrow> string \<Rightarrow> peerState" where
  "getPeerState s peer = (case peerStates s peer of Some ps \<Rightarrow> ps | None \<Rightarrow> freshPeerState)"

definition putPeerState :: "peerManager \<Rightarrow> string \<Rightarrow> peerState \<Rightarrow> peerManager" where
  "putPeerState s peer ps = s\<lparr>peerStates := (peerStates s)(peer \<mapsto> ps)\<rparr>"

definition clearTimer :: "peerManager \<Rightarrow> nat option \<Rightarrow> peerManager" where
  "clearTimer s t = (case t of Some i \<Rightarrow> s\<lparr>timers := (timers s)(i := None)\<rparr> | None \<Rightarrow> s)"

definition clearAllTimers :: "peerManager \<Rightarrow> peerState \<Rightarrow> peerManager" where
  "clearAllTimers s ps = clearTimer (clearTimer (clearTimer s (offerTimer ps)) (disconnectedTimer ps)) (retryTimer ps)"

definition createTimer :: "peerManager \<Rightarrow> timerJob \<Rightarrow> int \<Rightarrow> peerManager" where
  "createTimer s job ms = s\<lparr>timers := (timers s)(nextId s \<mapsto> job), nextId := nextId s + 1,
     happened := happened s @ [TimerStarted (nextId s) ms]\<rparr>"

definition beginTask :: "peerManager \<Rightarrow> task \<Rightarrow> peerManager" where
  "beginTask s t = s\<lparr>tasks := (tasks s)(nextId s \<mapsto> t), nextId := nextId s + 1\<rparr>"

definition computeBackoffMs :: "real \<Rightarrow> nat \<Rightarrow> int" where
  "computeBackoffMs j attempt =
     (let base = of_int BASE_BACKOFF_MS * 2 ^ attempt; offset = base * (3 / 10) * (2 * j - 1)
      in max 0 (round (base + offset)))"

definition isInitiator :: "pmEnv \<Rightarrow> string \<Rightarrow> bool" where
  "isInitiator E remotePeerId \<longleftrightarrow> localPeerId E < remotePeerId"

section \<open>Candidates\<close>

definition bufferOrAddCandidate :: "peerManager \<Rightarrow> string \<Rightarrow> json \<Rightarrow> peerManager" where
  "bufferOrAddCandidate s peer candidate = (case peers s peer of
      None \<Rightarrow> s
    | Some pc \<Rightarrow>
        if peer \<in> remoteDescSet s then emit s [AddIceCandidate pc candidate]
        else s\<lparr>iceBuf := (iceBuf s)(peer \<mapsto> (case iceBuf s peer of Some buf \<Rightarrow> buf | None \<Rightarrow> []) @ [candidate])\<rparr>)"

definition flushIceCandidates :: "peerManager \<Rightarrow> string \<Rightarrow> peerManager" where
  "flushIceCandidates s peer =
     (let s1 = s\<lparr>remoteDescSet := insert peer (remoteDescSet s)\<rparr>
      in case iceBuf s peer of
          None \<Rightarrow> s1
        | Some buf \<Rightarrow>
            if buf = [] then s1
            else case peers s peer of
                None \<Rightarrow> s1
              | Some pc \<Rightarrow> emit (s1\<lparr>iceBuf := (iceBuf s)(peer := None)\<rparr>) (map (AddIceCandidate pc) buf))"

section \<open>Connections\<close>

definition getOrCreatePC :: "peerManager \<Rightarrow> string \<Rightarrow> peerManager \<times> nat" where
  "getOrCreatePC s peer = (case peers s peer of
      Some pc \<Rightarrow> (s, pc)
    | None \<Rightarrow> (s\<lparr>peers := (peers s)(peer \<mapsto> nextId s), connections := (connections s)(nextId s \<mapsto> (peer, CNew)),
        nextId := nextId s + 1\<rparr>, nextId s))"

definition closeConnection :: "peerManager \<Rightarrow> nat \<Rightarrow> peerManager" where
  "closeConnection s pc = s\<lparr>connections := (connections s)(pc := map_option (\<lambda>(p, _). (p, CClosed)) (connections s pc))\<rparr>"

definition closePC :: "peerManager \<Rightarrow> string \<Rightarrow> peerManager" where
  "closePC s peer =
     (let s1 = (case peers s peer of
          Some pc \<Rightarrow> closeConnection (s\<lparr>peers := (peers s)(peer := None)\<rparr>) pc | None \<Rightarrow> s);
        s2 = s1\<lparr>iceBuf := (iceBuf s1)(peer := None), remoteDescSet := remoteDescSet s1 - {peer}\<rparr>
      in case peerStates s2 peer of
          Some ps \<Rightarrow> let s3 = clearAllTimers s2 ps in s3\<lparr>peerStates := (peerStates s3)(peer := None)\<rparr>
        | None \<Rightarrow> s2)"

definition handleFailure :: "pmEnv \<Rightarrow> peerManager \<Rightarrow> string \<Rightarrow> nat \<Rightarrow> peerManager" where
  "handleFailure E s peer failedPC =
     (let ps = getPeerState s peer; s0 = putPeerState s peer ps
      in if retryTimer ps \<noteq> None then s0
         else
           let ps1 = ps\<lparr>offerTimer := None, disconnectedTimer := None\<rparr>;
               s1 = putPeerState (clearTimer (clearTimer s0 (offerTimer ps)) (disconnectedTimer ps)) peer ps1
           in if attempts ps \<ge> MAX_RETRIES then emit (closePC s1 peer) [PeerDisconnected peer]
              else createTimer (putPeerState s1 peer (ps1\<lparr>attempts := attempts ps + 1, retryTimer := Some (nextId s1)\<rparr>))
                     (RetryNow peer failedPC) (computeBackoffMs (jitter E (nextId s1)) (attempts ps)))"

text \<open>The first part of \<open>sendOffer\<close>; the second is the end of the task.\<close>

definition sendOffer :: "peerManager \<Rightarrow> string \<Rightarrow> nat \<Rightarrow> peerManager" where
  "sendOffer s peer pc = beginTask s (Offering peer pc)"

definition announceCreated :: "pmEnv \<Rightarrow> peerManager \<Rightarrow> string \<Rightarrow> peerManager" where
  "announceCreated E s peer = (case getOrCreatePC s peer of (s1, pc) \<Rightarrow>
     let s2 = emit s1 [PeerCreated peer pc (isInitiator E peer)]
     in if isInitiator E peer then sendOffer s2 peer pc else s2)"

definition executeRetry :: "pmEnv \<Rightarrow> peerManager \<Rightarrow> string \<Rightarrow> nat \<Rightarrow> peerManager" where
  "executeRetry E s peer oldPC =
     announceCreated E
       (if peers s peer = Some oldPC
        then closeConnection (s\<lparr>peers := (peers s)(peer := None), iceBuf := (iceBuf s)(peer := None),
          remoteDescSet := remoteDescSet s - {peer}\<rparr>) oldPC
        else s) peer"

text \<open>The end of \<open>sendOffer\<close>, once the offer is the local description.\<close>

definition offerReady :: "pmEnv \<Rightarrow> peerManager \<Rightarrow> string \<Rightarrow> nat \<Rightarrow> json \<Rightarrow> peerManager" where
  "offerReady E s peer pc offer =
     (if peers s peer \<noteq> Some pc then s
      else
        let ps = getPeerState s peer; s1 = clearTimer s (offerTimer ps);
            s2 = putPeerState s1 peer (ps\<lparr>offerTimer := Some (nextId s1)\<rparr>);
            s3 = createTimer s2 (OfferTimeout peer pc) OFFER_TIMEOUT_MS
        in emit s3 [SentSignal peer (encodeWebRTCSignal (pmCodec E) (SdpOffer offer))])"

section \<open>Events\<close>

text \<open>
  A connection changes its state; the handler ignores one that is not the peer's current one.  A connection that has
  been closed stays so, without an event.
\<close>

definition onConnectionState :: "pmEnv \<Rightarrow> peerManager \<Rightarrow> nat \<Rightarrow> cstate \<Rightarrow> peerManager" where
  "onConnectionState E s pc st = (case connections s pc of
      None \<Rightarrow> s
    | Some (peer, st0) \<Rightarrow>
        let s1 = s\<lparr>connections := (connections s)(pc \<mapsto> (peer, st))\<rparr>
        in if st0 = CClosed then s
           else if peers s1 peer \<noteq> Some pc then s1
           else case st of
               CConnected \<Rightarrow>
                 let s2 = (case peerStates s1 peer of
                     Some ps \<Rightarrow> putPeerState (clearAllTimers s1 ps) peer freshPeerState | None \<Rightarrow> s1)
                 in emit s2 [PeerConnection peer pc (isInitiator E peer)]
             | CDisconnected \<Rightarrow>
                 let ps = getPeerState s1 peer; s2 = putPeerState s1 peer ps
                 in if disconnectedTimer ps \<noteq> None then s2
                    else createTimer (putPeerState s2 peer (ps\<lparr>disconnectedTimer := Some (nextId s2)\<rparr>)) (GraceOver peer pc) GRACE_MS
             | CFailed \<Rightarrow> handleFailure E s1 peer pc
             | _ \<Rightarrow> s1)"

definition onLocalCandidate :: "pmEnv \<Rightarrow> peerManager \<Rightarrow> nat \<Rightarrow> json \<Rightarrow> peerManager" where
  "onLocalCandidate E s pc candidate = (case connections s pc of
      None \<Rightarrow> s
    | Some (peer, _) \<Rightarrow> emit s [SentSignal peer (encodeWebRTCSignal (pmCodec E) (IceCandidate candidate))])"

definition fireTimer :: "pmEnv \<Rightarrow> peerManager \<Rightarrow> nat \<Rightarrow> peerManager" where
  "fireTimer E s i = (case timers s i of
      None \<Rightarrow> s
    | Some job \<Rightarrow>
        let s1 = s\<lparr>timers := (timers s)(i := None)\<rparr>
        in case job of
            OfferTimeout peer pc \<Rightarrow>
              let s2 = putPeerState s1 peer ((getPeerState s1 peer)\<lparr>offerTimer := None\<rparr>)
              in if peers s2 peer \<noteq> Some pc then s2 else handleFailure E s2 peer pc
          | GraceOver peer pc \<Rightarrow>
              let s2 = putPeerState s1 peer ((getPeerState s1 peer)\<lparr>disconnectedTimer := None\<rparr>)
              in if peers s2 peer \<noteq> Some pc then s2 else handleFailure E s2 peer pc
          | RetryNow peer pc \<Rightarrow>
              executeRetry E (putPeerState s1 peer ((getPeerState s1 peer)\<lparr>retryTimer := None\<rparr>)) peer pc)"

text \<open>A task ends with the description it made, or fails, which is only logged.\<close>

definition endTask :: "pmEnv \<Rightarrow> peerManager \<Rightarrow> nat \<Rightarrow> json option \<Rightarrow> peerManager" where
  "endTask E s i outcome = (case tasks s i of
      None \<Rightarrow> s
    | Some t \<Rightarrow>
        let s1 = s\<lparr>tasks := (tasks s)(i := None)\<rparr>
        in case outcome of
            None \<Rightarrow> s1
          | Some desc \<Rightarrow> (case t of
              Offering peer pc \<Rightarrow> offerReady E s1 peer pc desc
            | ApplyingOffer peer pc \<Rightarrow> beginTask (flushIceCandidates s1 peer) (MakingAnswer peer pc)
            | MakingAnswer peer pc \<Rightarrow> emit s1 [SentSignal peer (encodeWebRTCSignal (pmCodec E) (SdpAnswer desc))]
            | ApplyingAnswer peer pc \<Rightarrow> flushIceCandidates s1 peer))"

fun healthy :: "cstate \<Rightarrow> bool" where
  "healthy CNew = True"
| "healthy CConnecting = True"
| "healthy CConnected = True"
| "healthy _ = False"

definition onPeerJoined :: "pmEnv \<Rightarrow> peerManager \<Rightarrow> string \<Rightarrow> string \<Rightarrow> peerManager" where
  "onPeerJoined E s room peer =
     (if room \<noteq> roomName E \<or> peer = localPeerId E then s
      else case peers s peer of
          Some pc \<Rightarrow>
            if (case connections s pc of Some (_, st) \<Rightarrow> healthy st | None \<Rightarrow> False) then s
            else announceCreated E (closePC s peer) peer
        | None \<Rightarrow> announceCreated E
            (case peerStates s peer of
               Some ps \<Rightarrow> let s1 = clearAllTimers s ps in s1\<lparr>peerStates := (peerStates s1)(peer := None)\<rparr>
             | None \<Rightarrow> s) peer)"

definition onPeerLeft :: "pmEnv \<Rightarrow> peerManager \<Rightarrow> string \<Rightarrow> string \<Rightarrow> peerManager" where
  "onPeerLeft E s room peer =
     (if room \<noteq> roomName E then s
      else
        let s1 = closePC s peer
        in if peers s peer \<noteq> None \<or> peerStates s peer \<noteq> None then emit s1 [PeerDisconnected peer] else s1)"

text \<open>A payload that does not decode is an exception of the callback.\<close>

definition onSignal :: "pmEnv \<Rightarrow> peerManager \<Rightarrow> string \<Rightarrow> string \<Rightarrow> bytes \<Rightarrow> peerManager result" where
  "onSignal E s room from payload =
     (if room \<noteq> roomName E then Ok s
      else and_then (decodeWebRTCSignal (pmCodec E) payload) (\<lambda>signal. Ok (case signal of
          SdpOffer sdp \<Rightarrow> (case getOrCreatePC s from of (s1, pc) \<Rightarrow> beginTask s1 (ApplyingOffer from pc))
        | SdpAnswer sdp \<Rightarrow> (case peers s from of
            None \<Rightarrow> s
          | Some pc \<Rightarrow>
              let s1 = (case peerStates s from of
                  Some ps \<Rightarrow> putPeerState (clearTimer s (offerTimer ps)) from (ps\<lparr>offerTimer := None\<rparr>) | None \<Rightarrow> s)
              in beginTask s1 (ApplyingAnswer from pc))
        | IceCandidate candidate \<Rightarrow> bufferOrAddCandidate s from candidate)))"

definition pm_destroy :: "peerManager \<Rightarrow> peerManager" where
  "pm_destroy s = s\<lparr>listening := False, timers := (\<lambda>i. if \<exists>ps \<in> ran (peerStates s). Some i \<in> {offerTimer ps, disconnectedTimer ps, retryTimer ps}
       then None else timers s i),
     peerStates := Map.empty,
     connections := (\<lambda>pc. if pc \<in> ran (peers s) then map_option (\<lambda>(p, _). (p, CClosed)) (connections s pc) else connections s pc),
     peers := Map.empty, iceBuf := Map.empty, remoteDescSet := {}\<rparr>"

datatype pmEvent =
    JoinedEv string string
  | LeftEv string string
  | SignalEv string string bytes
  | StateEv nat cstate
  | CandidateEv nat json
  | TimerEv nat
  | TaskEv nat "json option"
  | DestroyEv

fun pm_step :: "pmEnv \<Rightarrow> peerManager \<Rightarrow> pmEvent \<Rightarrow> peerManager" where
  "pm_step E s (JoinedEv room peer) = (if listening s then onPeerJoined E s room peer else s)"
| "pm_step E s (LeftEv room peer) = (if listening s then onPeerLeft E s room peer else s)"
| "pm_step E s (SignalEv room from payload) =
     (if listening s then (case onSignal E s room from payload of Inl _ \<Rightarrow> s | Inr s1 \<Rightarrow> s1) else s)"
| "pm_step E s (StateEv pc st) = onConnectionState E s pc st"
| "pm_step E s (CandidateEv pc candidate) = onLocalCandidate E s pc candidate"
| "pm_step E s (TimerEv i) = fireTimer E s i"
| "pm_step E s (TaskEv i outcome) = endTask E s i outcome"
| "pm_step E s DestroyEv = pm_destroy s"

definition pm_run :: "pmEnv \<Rightarrow> peerManager \<Rightarrow> pmEvent list \<Rightarrow> peerManager" where
  "pm_run E = foldl (pm_step E)"

section \<open>The invariant\<close>

text \<open>Timers and the states of the peers point to each other, kind by kind.\<close>

datatype kind = KOffer | KGrace | KRetry

fun slot :: "kind \<Rightarrow> peerState \<Rightarrow> nat option" where
  "slot KOffer ps = offerTimer ps"
| "slot KGrace ps = disconnectedTimer ps"
| "slot KRetry ps = retryTimer ps"

fun put_slot :: "kind \<Rightarrow> nat option \<Rightarrow> peerState \<Rightarrow> peerState" where
  "put_slot KOffer v ps = ps\<lparr>offerTimer := v\<rparr>"
| "put_slot KGrace v ps = ps\<lparr>disconnectedTimer := v\<rparr>"
| "put_slot KRetry v ps = ps\<lparr>retryTimer := v\<rparr>"

fun kindOf :: "timerJob \<Rightarrow> kind" where
  "kindOf (OfferTimeout _ _) = KOffer"
| "kindOf (GraceOver _ _) = KGrace"
| "kindOf (RetryNow _ _) = KRetry"

fun job_peer :: "timerJob \<Rightarrow> string" where
  "job_peer (OfferTimeout p _) = p"
| "job_peer (GraceOver p _) = p"
| "job_peer (RetryNow p _) = p"

lemma slot_put: "slot k (put_slot k' v ps) = (if k = k' then v else slot k ps)"
  by (cases k; cases k') simp_all

lemma attempts_put [simp]: "attempts (put_slot k v ps) = attempts ps"
  by (cases k) simp_all

lemma put_same: "slot k ps = v \<Longrightarrow> put_slot k v ps = ps"
  by (cases k) auto

definition timers_ok :: "(string \<rightharpoonup> peerState) \<Rightarrow> (nat \<rightharpoonup> timerJob) \<Rightarrow> nat \<Rightarrow> bool" where
  "timers_ok P T n \<longleftrightarrow> (\<forall>p ps. P p = Some ps \<longrightarrow> attempts ps \<le> MAX_RETRIES) \<and> (\<forall>i job. T i = Some job \<longrightarrow> i < n) \<and>
     (\<forall>i k p. (\<exists>ps. P p = Some ps \<and> slot k ps = Some i) \<longleftrightarrow> (\<exists>job. T i = Some job \<and> kindOf job = k \<and> job_peer job = p))"

definition conns_ok :: "(string \<rightharpoonup> nat) \<Rightarrow> (nat \<rightharpoonup> string \<times> cstate) \<Rightarrow> nat \<Rightarrow> bool" where
  "conns_ok C K n \<longleftrightarrow> (\<forall>p pc. C p = Some pc \<longrightarrow> (\<exists>st. K pc = Some (p, st))) \<and>
     (\<forall>pc p st. K pc = Some (p, st) \<longrightarrow> pc < n \<and> (C p = Some pc \<or> st = CClosed))"

definition retries_ok :: "(string \<rightharpoonup> nat) \<Rightarrow> (nat \<rightharpoonup> timerJob) \<Rightarrow> bool" where
  "retries_ok C T \<longleftrightarrow> (\<forall>i p pc. T i = Some (RetryNow p pc) \<longrightarrow> C p = Some pc)"

definition manager_ok :: "peerManager \<Rightarrow> bool" where
  "manager_ok s \<longleftrightarrow> timers_ok (peerStates s) (timers s) (nextId s) \<and> conns_ok (peers s) (connections s) (nextId s) \<and>
     retries_ok (peers s) (timers s) \<and> dom (peerStates s) \<subseteq> dom (peers s) \<and> dom (iceBuf s) \<subseteq> dom (peers s)"

definition unset :: "nat option \<Rightarrow> (nat \<rightharpoonup> timerJob) \<Rightarrow> (nat \<rightharpoonup> timerJob)" where
  "unset t T = (case t of Some i \<Rightarrow> T(i := None) | None \<Rightarrow> T)"

lemma timers_okD:
  assumes "timers_ok P T n"
  shows "P p = Some ps \<Longrightarrow> attempts ps \<le> MAX_RETRIES" "T i = Some job \<Longrightarrow> i < n"
    "P p = Some ps \<Longrightarrow> slot k ps = Some i \<Longrightarrow> \<exists>job. T i = Some job \<and> kindOf job = k \<and> job_peer job = p"
    "T i = Some job \<Longrightarrow> \<exists>ps. P (job_peer job) = Some ps \<and> slot (kindOf job) ps = Some i"
  using assms unfolding timers_ok_def by blast+

lemma timers_okI:
  assumes "\<And>p ps. P p = Some ps \<Longrightarrow> attempts ps \<le> MAX_RETRIES" "\<And>i job. T i = Some job \<Longrightarrow> i < n"
    "\<And>p ps k i. P p = Some ps \<Longrightarrow> slot k ps = Some i \<Longrightarrow> \<exists>job. T i = Some job \<and> kindOf job = k \<and> job_peer job = p"
    "\<And>i job. T i = Some job \<Longrightarrow> \<exists>ps. P (job_peer job) = Some ps \<and> slot (kindOf job) ps = Some i"
  shows "timers_ok P T n"
  unfolding timers_ok_def using assms by blast

text \<open>A timer is cleared or has fired.\<close>

lemma timers_ok_unset:
  assumes "timers_ok P T n" "P p = Some ps"
  shows "timers_ok (P(p \<mapsto> put_slot k None ps)) (unset (slot k ps) T) n"
proof (cases "slot k ps")
  case None
  then show ?thesis using assms by (simp add: unset_def put_same fun_upd_idem)
next
  case (Some j)
  note D = timers_okD [OF assms(1)]
  obtain job where j: "T j = Some job" "kindOf job = k" "job_peer job = p" using D(3) [OF assms(2) Some] by blast
  show ?thesis unfolding Some unset_def option.case
  proof (rule timers_okI)
    fix q qs k' i
    assume q: "(P(p \<mapsto> put_slot k None ps)) q = Some qs" "slot k' qs = Some i"
    then obtain qs' where q': "P q = Some qs'" "slot k' qs' = Some i" "q \<noteq> p \<or> k' \<noteq> k"
      using assms(2) by (auto simp: slot_put split: if_splits)
    obtain job' where t: "T i = Some job'" "kindOf job' = k'" "job_peer job' = q" using D(3) [OF q'(1,2)] by blast
    then have "i \<noteq> j" using j q'(3) by auto
    with t show "\<exists>job. (T(j := None)) i = Some job \<and> kindOf job = k' \<and> job_peer job = q" by simp
  next
    fix i job' assume t: "(T(j := None)) i = Some job'"
    then have "T i = Some job'" "i \<noteq> j" by (auto split: if_splits)
    then show "\<exists>ps'. (P(p \<mapsto> put_slot k None ps)) (job_peer job') = Some ps' \<and> slot (kindOf job') ps' = Some i"
      using D(4) [of i job'] Some assms(2) by (auto simp: slot_put)
  next
    fix q qs assume "(P(p \<mapsto> put_slot k None ps)) q = Some qs"
    then show "attempts qs \<le> MAX_RETRIES" using D(1) assms(2) by (auto split: if_splits)
  next
    fix i job' assume "(T(j := None)) i = Some job'"
    then show "i < n" using D(2) by (auto split: if_splits)
  qed
qed

text \<open>A timer is set.\<close>

lemma timers_ok_set:
  assumes "timers_ok P T n" "P p = Some ps" "slot (kindOf job) ps = None" "job_peer job = p" "attempts qs \<le> MAX_RETRIES"
    "\<And>k. slot k qs = slot k (put_slot (kindOf job) (Some n) ps)"
  shows "timers_ok (P(p \<mapsto> qs)) (T(n \<mapsto> job)) (n + 1)"
proof -
  note D = timers_okD [OF assms(1)]
  have n: "T n = None" using D(2) [of n] by (metis less_irrefl not_None_eq)
  show ?thesis
  proof (rule timers_okI)
    fix q qs' k i
    assume "(P(p \<mapsto> qs)) q = Some qs'" "slot k qs' = Some i"
    then show "\<exists>job'. (T(n \<mapsto> job)) i = Some job' \<and> kindOf job' = k \<and> job_peer job' = q"
      using D(3) [of q _ k i] assms(2,4,6) n by (auto simp: slot_put split: if_splits)
  next
    fix i job' assume "(T(n \<mapsto> job)) i = Some job'"
    then show "\<exists>ps'. (P(p \<mapsto> qs)) (job_peer job') = Some ps' \<and> slot (kindOf job') ps' = Some i"
      using D(4) [of i job'] assms(2,3,4,6) by (auto simp: slot_put split: if_splits)
  next
    fix q qs' assume "(P(p \<mapsto> qs)) q = Some qs'"
    then show "attempts qs' \<le> MAX_RETRIES" using D(1) assms(5) by (auto split: if_splits)
  next
    fix i job' assume "(T(n \<mapsto> job)) i = Some job'"
    then show "i < n + 1" using D(2) by (auto split: if_splits intro: less_SucI)
  qed
qed

lemma timers_ok_fresh:
  assumes "timers_ok P T n" "P p = None"
  shows "timers_ok (P(p \<mapsto> freshPeerState)) T n"
proof -
  note D = timers_okD [OF assms(1)]
  have "slot k freshPeerState = None" for k by (cases k) (simp_all add: freshPeerState_def)
  then show ?thesis
    by (intro timers_okI) (use D assms(2) in \<open>fastforce simp: freshPeerState_def split: if_splits\<close>)+
qed

lemma timers_ok_drop:
  assumes "timers_ok P T n" "P p = Some ps" "\<And>k. slot k ps = None"
  shows "timers_ok (P(p := None)) T n"
proof -
  note D = timers_okD [OF assms(1)]
  show ?thesis
    by (intro timers_okI) (use D assms(2,3) in \<open>fastforce split: if_splits\<close>)+
qed

lemma timers_ok_mono: "timers_ok P T n \<Longrightarrow> n \<le> m \<Longrightarrow> timers_ok P T m"
  by (intro timers_okI) (fastforce dest: timers_okD)+

lemma timers_ok_clear:
  assumes "timers_ok P T n" "P p = Some ps"
  shows "timers_ok (P(p := None)) (unset (retryTimer ps) (unset (disconnectedTimer ps) (unset (offerTimer ps) T))) n"
proof -
  let ?p1 = "put_slot KOffer None ps"
  let ?p2 = "put_slot KGrace None ?p1"
  have "timers_ok (P(p \<mapsto> ?p1)) (unset (offerTimer ps) T) n" using timers_ok_unset [OF assms, of KOffer] by simp
  from timers_ok_unset [OF this, of p ?p1 KGrace]
  have "timers_ok (P(p \<mapsto> ?p2)) (unset (disconnectedTimer ps) (unset (offerTimer ps) T)) n" by simp
  from timers_ok_unset [OF this, of p ?p2 KRetry]
  have "timers_ok (P(p \<mapsto> put_slot KRetry None ?p2)) (unset (retryTimer ps) (unset (disconnectedTimer ps) (unset (offerTimer ps) T))) n"
    by simp
  moreover have "slot k (put_slot KRetry None ?p2) = None" for k by (cases k) simp_all
  ultimately show ?thesis using timers_ok_drop [of "P(p \<mapsto> put_slot KRetry None ?p2)" _ n p "put_slot KRetry None ?p2"]
    by simp
qed

lemma retries_ok_unset: "retries_ok C T \<Longrightarrow> retries_ok C (unset t T)"
  by (auto simp: retries_ok_def unset_def split: option.split)

lemma clearTimer_unset: "clearTimer s t = s\<lparr>timers := unset t (timers s)\<rparr>"
  by (simp add: clearTimer_def unset_def split: option.split)

lemma clearAll_unset: "clearAllTimers s ps =
  s\<lparr>timers := unset (retryTimer ps) (unset (disconnectedTimer ps) (unset (offerTimer ps) (timers s)))\<rparr>"
  by (simp add: clearAllTimers_def clearTimer_unset)

lemma manager_okD:
  assumes "manager_ok s"
  shows "timers_ok (peerStates s) (timers s) (nextId s)" "conns_ok (peers s) (connections s) (nextId s)"
    "retries_ok (peers s) (timers s)" "dom (peerStates s) \<subseteq> dom (peers s)" "dom (iceBuf s) \<subseteq> dom (peers s)"
  using assms by (simp_all add: manager_ok_def)

lemma emit_ok [simp]: "manager_ok (emit s es) = manager_ok s"
  by (simp add: manager_ok_def emit_def)

lemma beginTask_ok: "manager_ok s \<Longrightarrow> manager_ok (beginTask s t)"
  by (auto simp: manager_ok_def beginTask_def conns_ok_def intro: timers_ok_mono less_SucI)

lemma tasks_ok [simp]: "manager_ok (s\<lparr>tasks := f\<rparr>) = manager_ok s"
  by (simp add: manager_ok_def)

lemma remote_ok [simp]: "manager_ok (s\<lparr>remoteDescSet := d\<rparr>) = manager_ok s"
  by (simp add: manager_ok_def)

lemma flush_ok: "manager_ok s \<Longrightarrow> manager_ok (flushIceCandidates s p)"
  by (auto simp: flushIceCandidates_def Let_def split: option.split) (auto simp: manager_ok_def)

lemma buffer_ok: "manager_ok s \<Longrightarrow> manager_ok (bufferOrAddCandidate s p c)"
  by (auto simp: bufferOrAddCandidate_def split: option.split) (auto simp: manager_ok_def)

lemma conns_ok_close:
  assumes "conns_ok C K n" "C p = Some pc"
  shows "conns_ok (C(p := None)) (K(pc := map_option (\<lambda>(q, _). (q, CClosed)) (K pc))) n"
proof -
  obtain st where "K pc = Some (p, st)" using assms unfolding conns_ok_def by metis
  moreover have "q = p" if "C q = Some pc" for q
    using that assms(1) calculation unfolding conns_ok_def by (metis option.inject prod.inject)
  moreover have "st' = CClosed" if "K pc' = Some (p, st')" "pc' \<noteq> pc" for pc' st'
    using that assms unfolding conns_ok_def by (metis option.inject)
  moreover have "pc' < n \<and> (C q = Some pc' \<or> st' = CClosed)" if "K pc' = Some (q, st')" for pc' q st'
    using that assms(1) by (simp add: conns_ok_def)
  moreover have "\<exists>st. K pc' = Some (q, st)" if "C q = Some pc'" for q pc'
    using that assms(1) by (simp add: conns_ok_def)
  ultimately show ?thesis unfolding conns_ok_def by (auto split: if_splits)
qed

lemma conns_ok_new:
  assumes "conns_ok C K n" "C p = None"
  shows "conns_ok (C(p \<mapsto> n)) (K(n \<mapsto> (p, CNew))) (n + 1)"
  using assms by (fastforce simp: conns_ok_def intro: less_SucI split: if_splits)

lemma conns_ok_state:
  assumes "conns_ok C K n" "C p = Some pc"
  shows "conns_ok C (K(pc \<mapsto> (p, st))) n"
proof -
  obtain st0 where k: "K pc = Some (p, st0)" using assms unfolding conns_ok_def by metis
  have inj: "q = p" if "C q = Some pc" for q
    using that assms(1) k unfolding conns_ok_def by (metis option.inject prod.inject)
  have pc: "pc < n" using assms(1) k by (simp add: conns_ok_def)
  show ?thesis unfolding conns_ok_def
  proof (intro conjI allI impI)
    fix q pc' assume q: "C q = Some pc'"
    show "\<exists>st'. (K(pc \<mapsto> (p, st))) pc' = Some (q, st')"
    proof (cases "pc' = pc")
      case True
      then show ?thesis using inj q by simp
    next
      case False
      then show ?thesis using q assms(1) by (simp add: conns_ok_def)
    qed
  next
    fix pc' q st' assume q: "(K(pc \<mapsto> (p, st))) pc' = Some (q, st')"
    then show "pc' < n" "C q = Some pc' \<or> st' = CClosed"
      using assms pc by (cases "pc' = pc"; simp add: conns_ok_def)+
  qed
qed

text \<open>The state of a peer without a state has no timers.\<close>

lemma no_jobs: "timers_ok P T n \<Longrightarrow> P p = None \<Longrightarrow> T i = Some job \<Longrightarrow> job_peer job \<noteq> p"
  by (auto dest: timers_okD(4))

lemma closePC_fields:
  "peers (closePC s p) = (peers s)(p := None)" "peerStates (closePC s p) = (peerStates s)(p := None)"
  "iceBuf (closePC s p) = (iceBuf s)(p := None)" "remoteDescSet (closePC s p) = remoteDescSet s - {p}"
  "nextId (closePC s p) = nextId s" "happened (closePC s p) = happened s" "listening (closePC s p) = listening s"
  "timers (closePC s p) = (case peerStates s p of None \<Rightarrow> timers s
     | Some ps \<Rightarrow> unset (retryTimer ps) (unset (disconnectedTimer ps) (unset (offerTimer ps) (timers s))))"
  "connections (closePC s p) = (case peers s p of None \<Rightarrow> connections s
     | Some pc \<Rightarrow> (connections s)(pc := map_option (\<lambda>(q, _). (q, CClosed)) (connections s pc)))"
  by (simp_all add: closePC_def closeConnection_def clearAll_unset Let_def fun_upd_idem split: option.split)

lemma closePC_ok:
  assumes "manager_ok s"
  shows "manager_ok (closePC s p)"
proof -
  note M = manager_okD [OF assms]
  have t: "timers_ok ((peerStates s)(p := None)) (timers (closePC s p)) (nextId s)"
    using M(1) timers_ok_clear [OF M(1), of p] by (cases "peerStates s p") (simp_all add: closePC_fields(8) fun_upd_idem)
  have closed: "retries_ok (peers s) (timers (closePC s p))"
    using M(3) by (simp add: closePC_fields(8) retries_ok_unset split: option.split)
  have "retries_ok ((peers s)(p := None)) (timers (closePC s p))"
    unfolding retries_ok_def
  proof (intro allI impI)
    fix i q pc assume i: "timers (closePC s p) i = Some (RetryNow q pc)"
    have "q \<noteq> p" using no_jobs [OF t _ i] by auto
    moreover have "peers s q = Some pc"
      using i closed by (simp add: retries_ok_def)
    ultimately show "((peers s)(p := None)) q = Some pc" by simp
  qed
  moreover have "conns_ok ((peers s)(p := None)) (connections (closePC s p)) (nextId s)"
    using M(2) conns_ok_close [OF M(2), of p] by (cases "peers s p") (simp_all add: closePC_fields(9) fun_upd_idem)
  ultimately show ?thesis using t M(4,5) by (auto simp: manager_ok_def closePC_fields(1-7))
qed

lemma announceCreated_ok:
  assumes "manager_ok s"
  shows "manager_ok (announceCreated E s p)"
proof -
  note M = manager_okD [OF assms]
  have g: "manager_ok (fst (getOrCreatePC s p))"
  proof (cases "peers s p")
    case None
    have "retries_ok ((peers s)(p \<mapsto> nextId s)) (timers s)" using M(3) None by (fastforce simp: retries_ok_def)
    then show ?thesis using M conns_ok_new [OF M(2) None] timers_ok_mono [OF M(1), of "nextId s + 1"] None
      by (auto simp: getOrCreatePC_def manager_ok_def)
  qed (use assms in \<open>simp add: getOrCreatePC_def\<close>)
  obtain s1 pc where s1: "getOrCreatePC s p = (s1, pc)" by fastforce
  show ?thesis using g by (simp add: announceCreated_def s1 Let_def sendOffer_def beginTask_ok)
qed

text \<open>A state that only adds timers, or the state of a peer that has a connection.\<close>

lemma manager_okI:
  assumes "timers_ok (peerStates s) (timers s) (nextId s)" "conns_ok (peers s) (connections s) (nextId s)"
    "retries_ok (peers s) (timers s)" "dom (peerStates s) \<subseteq> dom (peers s)" "dom (iceBuf s) \<subseteq> dom (peers s)"
  shows "manager_ok s"
  using assms by (simp add: manager_ok_def)

lemma conns_ok_mono: "conns_ok C K n \<Longrightarrow> n \<le> m \<Longrightarrow> conns_ok C K m"
  unfolding conns_ok_def by (meson order_less_le_trans)

text \<open>The state of a peer, made when it is missing.\<close>

lemma ensure_ok:
  assumes "manager_ok s" "peers s p \<noteq> None"
  shows "manager_ok (putPeerState s p (getPeerState s p))"
proof (cases "peerStates s p")
  case None
  then show ?thesis using manager_okD [OF assms(1)] timers_ok_fresh [OF manager_okD(1) [OF assms(1)] None] assms(2)
    by (auto simp: manager_ok_def putPeerState_def getPeerState_def)
next
  case (Some ps)
  then show ?thesis using assms(1) by (simp add: manager_ok_def putPeerState_def getPeerState_def fun_upd_idem)
qed

lemma ensure_same [simp]:
  "getPeerState (putPeerState s p ps) p = ps" "peerStates (putPeerState s p ps) p = Some ps"
  "putPeerState (putPeerState s p ps) p qs = putPeerState s p qs"
  by (simp_all add: getPeerState_def putPeerState_def)

lemma getPeerState_eq: "peerStates s p = Some ps \<Longrightarrow> getPeerState s p = ps"
  by (simp add: getPeerState_def)

text \<open>A slot is cleared, with its timer.\<close>

lemma unset_ok:
  assumes "manager_ok s" "peerStates s p = Some ps"
  shows "manager_ok (putPeerState (clearTimer s (slot k ps)) p (put_slot k None ps))"
  using manager_okD [OF assms(1)] timers_ok_unset [OF manager_okD(1) [OF assms(1)] assms(2), of k] assms(2)
  by (intro manager_okI) (auto simp: putPeerState_def clearTimer_unset retries_ok_unset)

text \<open>A slot is set, with a new timer.\<close>

lemma createTimer_ok:
  assumes "manager_ok s" "peerStates s p = Some ps" "slot (kindOf job) ps = None" "job_peer job = p" "attempts qs \<le> MAX_RETRIES"
    "\<And>k. slot k qs = slot k (put_slot (kindOf job) (Some (nextId s)) ps)" "\<And>q pc. job = RetryNow q pc \<Longrightarrow> peers s q = Some pc"
  shows "manager_ok (createTimer (putPeerState s p qs) job ms)"
proof -
  note M = manager_okD [OF assms(1)]
  have "retries_ok (peers s) ((timers s)(nextId s \<mapsto> job))" using M(3) assms(7) by (auto simp: retries_ok_def)
  then show ?thesis using M timers_ok_set [OF M(1) assms(2-6)] assms(2) conns_ok_mono [OF M(2), of "nextId s + 1"]
    by (intro manager_okI) (auto simp: putPeerState_def createTimer_def)
qed

lemma handleFailure_ok:
  assumes "manager_ok s" "peers s p = Some pc"
  shows "manager_ok (handleFailure E s p pc)"
proof -
  define ps where "ps = getPeerState s p"
  define s0 where "s0 = putPeerState s p ps"
  have s0: "manager_ok s0" "peerStates s0 p = Some ps" "peers s0 p = Some pc"
    using ensure_ok [OF assms(1)] assms(2) by (simp_all add: s0_def ps_def) (simp add: putPeerState_def)
  show ?thesis
  proof (cases "retryTimer ps")
    case (Some i)
    then show ?thesis using s0(1) by (simp add: handleFailure_def Let_def flip: ps_def) (simp add: s0_def)
  next
    case None
    define ps1 where "ps1 = ps\<lparr>offerTimer := None, disconnectedTimer := None\<rparr>"
    define s1 where "s1 = putPeerState (clearTimer (clearTimer s0 (offerTimer ps)) (disconnectedTimer ps)) p ps1"
    have "manager_ok (putPeerState (clearTimer s0 (offerTimer ps)) p (ps\<lparr>offerTimer := None\<rparr>))"
      using unset_ok [OF s0(1,2), of KOffer] by simp
    from unset_ok [OF this ensure_same(2), of KGrace]
    have s1: "manager_ok s1" by (simp add: s1_def ps1_def) (simp add: clearTimer_unset putPeerState_def)
    have s1f: "peerStates s1 p = Some ps1" "peers s1 p = Some pc" "slot KRetry ps1 = None"
      using s0(3) None by (simp_all add: s1_def ps1_def clearTimer_unset putPeerState_def)
    have e: "handleFailure E s p pc = (if attempts ps \<ge> MAX_RETRIES then emit (closePC s1 p) [PeerDisconnected p]
        else createTimer (putPeerState s1 p (ps1\<lparr>attempts := attempts ps + 1, retryTimer := Some (nextId s1)\<rparr>))
                     (RetryNow p pc) (computeBackoffMs (jitter E (nextId s1)) (attempts ps)))"
      unfolding handleFailure_def Let_def ps_def [symmetric] s0_def [symmetric] ps1_def [symmetric] s1_def [symmetric]
      using None by simp
    show ?thesis
    proof (cases "attempts ps \<ge> MAX_RETRIES")
      case True
      then show ?thesis using closePC_ok [OF s1] by (simp add: e)
    next
      case False
      have "slot k (ps1\<lparr>attempts := attempts ps + 1, retryTimer := Some (nextId s1)\<rparr>) = slot k (put_slot KRetry (Some (nextId s1)) ps1)" for k
        by (cases k) simp_all
      then show ?thesis unfolding e using False s1 s1f
        by (auto intro!: createTimer_ok [of s1 p ps1])
    qed
  qed
qed

lemma fired_ok:
  assumes "manager_ok s" "timers s i = Some job"
  obtains ps where "peerStates s (job_peer job) = Some ps" "slot (kindOf job) ps = Some i"
    "manager_ok (putPeerState (s\<lparr>timers := (timers s)(i := None)\<rparr>) (job_peer job) (put_slot (kindOf job) None ps))"
proof -
  obtain ps where ps: "peerStates s (job_peer job) = Some ps" "slot (kindOf job) ps = Some i"
    using timers_okD(4) [OF manager_okD(1) [OF assms(1)] assms(2)] by blast
  have "clearTimer s (slot (kindOf job) ps) = s\<lparr>timers := (timers s)(i := None)\<rparr>" by (simp add: clearTimer_def ps(2))
  with unset_ok [OF assms(1) ps(1), of "kindOf job"] ps that show thesis by simp
qed

lemma executeRetry_ok:
  assumes "manager_ok s" "peerStates s p = Some ps" "retryTimer ps = None" "peers s p = Some old"
  shows "manager_ok (executeRetry E s p old)"
proof -
  note M = manager_okD [OF assms(1)]
  have no: "\<nexists>i pc. timers s i = Some (RetryNow p pc)"
    using timers_okD(4) [OF M(1), of _ "RetryNow p pc" for pc] assms(2,3) by fastforce
  define s1 where "s1 = closeConnection (s\<lparr>peers := (peers s)(p := None), iceBuf := (iceBuf s)(p := None), remoteDescSet := remoteDescSet s - {p}\<rparr>) old"
  have n: "peers s1 p = None" by (simp add: s1_def closeConnection_def)
  have c: "conns_ok (peers s1) (connections s1) (nextId s1)"
    using conns_ok_close [OF M(2) assms(4)] by (simp add: s1_def closeConnection_def)
  have f: "peerStates s1 = peerStates s" "timers s1 = timers s" "nextId s1 = nextId s" "iceBuf s1 = (iceBuf s)(p := None)"
    "peers s1 = (peers s)(p := None)"
    by (simp_all add: s1_def closeConnection_def)
  have "manager_ok (s1\<lparr>peers := (peers s1)(p \<mapsto> nextId s1), connections := (connections s1)(nextId s1 \<mapsto> (p, CNew)), nextId := nextId s1 + 1\<rparr>)"
  proof (rule manager_okI)
    show "retries_ok (peers (s1\<lparr>peers := (peers s1)(p \<mapsto> nextId s1), connections := (connections s1)(nextId s1 \<mapsto> (p, CNew)), nextId := nextId s1 + 1\<rparr>))
       (timers (s1\<lparr>peers := (peers s1)(p \<mapsto> nextId s1), connections := (connections s1)(nextId s1 \<mapsto> (p, CNew)), nextId := nextId s1 + 1\<rparr>))"
      using M(3) no by (auto simp: f retries_ok_def)
    show "conns_ok (peers (s1\<lparr>peers := (peers s1)(p \<mapsto> nextId s1), connections := (connections s1)(nextId s1 \<mapsto> (p, CNew)), nextId := nextId s1 + 1\<rparr>))
       (connections (s1\<lparr>peers := (peers s1)(p \<mapsto> nextId s1), connections := (connections s1)(nextId s1 \<mapsto> (p, CNew)), nextId := nextId s1 + 1\<rparr>))
       (nextId (s1\<lparr>peers := (peers s1)(p \<mapsto> nextId s1), connections := (connections s1)(nextId s1 \<mapsto> (p, CNew)), nextId := nextId s1 + 1\<rparr>))"
      using conns_ok_new [OF c n] by simp
  qed (use M timers_ok_mono [OF M(1), of "nextId s + 1"] in \<open>auto simp: f\<close>)
  then show ?thesis using assms(4)
    by (simp add: executeRetry_def flip: s1_def) (simp add: announceCreated_def getOrCreatePC_def n Let_def sendOffer_def beginTask_ok)
qed

lemma fireTimer_ok:
  assumes "manager_ok s"
  shows "manager_ok (fireTimer E s i)"
proof (cases "timers s i")
  case (Some job)
  obtain ps where ps: "peerStates s (job_peer job) = Some ps" "slot (kindOf job) ps = Some i"
    "manager_ok (putPeerState (s\<lparr>timers := (timers s)(i := None)\<rparr>) (job_peer job) (put_slot (kindOf job) None ps))"
    using fired_ok [OF assms Some] .
  have g: "getPeerState (s\<lparr>timers := (timers s)(i := None)\<rparr>) (job_peer job) = ps" using ps(1) by (simp add: getPeerState_def)
  show ?thesis
  proof (cases job)
    case (OfferTimeout p pc)
    then show ?thesis using ps(3) g handleFailure_ok [OF ps(3)] by (auto simp: fireTimer_def Some Let_def)
  next
    case (GraceOver p pc)
    then show ?thesis using ps(3) g handleFailure_ok [OF ps(3)] by (auto simp: fireTimer_def Some Let_def)
  next
    case (RetryNow p pc)
    have "peers s p = Some pc" using manager_okD(3) [OF assms] Some RetryNow by (simp add: retries_ok_def)
    then show ?thesis using ps(3) g executeRetry_ok [OF ps(3) ensure_same(2), of pc E] RetryNow
      by (simp add: fireTimer_def Some Let_def) (simp add: putPeerState_def)
  qed
qed (use assms in \<open>simp add: fireTimer_def\<close>)

lemma onConnectionState_ok:
  assumes "manager_ok s"
  shows "manager_ok (onConnectionState E s pc st)"
proof (cases "connections s pc")
  case (Some x)
  obtain p st0 where x: "x = (p, st0)" by fastforce
  define s1 where "s1 = s\<lparr>connections := (connections s)(pc \<mapsto> (p, st))\<rparr>"
  note M = manager_okD [OF assms]
  show ?thesis
  proof (cases "st0 = CClosed")
    case True
    then show ?thesis using assms by (simp add: onConnectionState_def Some x Let_def)
  next
    case False
    then have c: "peers s p = Some pc" using M(2) Some x unfolding conns_ok_def by blast
    have "conns_ok (peers s) ((connections s)(pc \<mapsto> (p, st))) (nextId s)" by (rule conns_ok_state [OF M(2) c])
    then have s1: "manager_ok s1" "peers s1 p = Some pc" using M c by (simp_all add: s1_def manager_ok_def)
    have e: "onConnectionState E s pc st = (case st of
               CConnected \<Rightarrow>
                 let s2 = (case peerStates s1 p of
                     Some ps \<Rightarrow> putPeerState (clearAllTimers s1 ps) p freshPeerState | None \<Rightarrow> s1)
                 in emit s2 [PeerConnection p pc (isInitiator E p)]
             | CDisconnected \<Rightarrow>
                 let ps = getPeerState s1 p; s2 = putPeerState s1 p ps
                 in if disconnectedTimer ps \<noteq> None then s2
                    else createTimer (putPeerState s2 p (ps\<lparr>disconnectedTimer := Some (nextId s2)\<rparr>)) (GraceOver p pc) GRACE_MS
             | CFailed \<Rightarrow> handleFailure E s1 p pc
             | _ \<Rightarrow> s1)"
      unfolding onConnectionState_def Some x option.case prod.case Let_def s1_def [symmetric] using False s1(2) by simp
    have connected: "manager_ok (putPeerState (clearAllTimers s1 ps) p freshPeerState)" if "peerStates s1 p = Some ps" for ps
      using manager_okD [OF s1(1)] timers_ok_fresh [OF timers_ok_clear [OF manager_okD(1) [OF s1(1)] that], of p] s1(2)
      by (intro manager_okI) (auto simp: putPeerState_def clearAll_unset retries_ok_unset)
    have grace: "manager_ok (let ps = getPeerState s1 p; s2 = putPeerState s1 p ps
                 in if disconnectedTimer ps \<noteq> None then s2
                    else createTimer (putPeerState s2 p (ps\<lparr>disconnectedTimer := Some (nextId s2)\<rparr>)) (GraceOver p pc) GRACE_MS)"
    proof -
      define ps where "ps = getPeerState s1 p"
      define s2 where "s2 = putPeerState s1 p ps"
      have s2: "manager_ok s2" using ensure_ok [OF s1(1), of p] s1(2) by (simp add: s2_def ps_def)
      have a: "attempts ps \<le> MAX_RETRIES" using timers_okD(1) [OF manager_okD(1) [OF s2], of p ps] by (simp add: s2_def)
      show ?thesis unfolding Let_def ps_def [symmetric] s2_def [symmetric]
        using s2 a createTimer_ok [OF s2, of p ps "GraceOver p pc" "ps\<lparr>disconnectedTimer := Some (nextId s2)\<rparr>" GRACE_MS]
        by (simp add: s2_def)
    qed
    show ?thesis unfolding e
      using s1 connected grace handleFailure_ok [OF s1, of E]
      by (simp split: cstate.split option.split)
  qed
qed (use assms in \<open>simp add: onConnectionState_def\<close>)

lemma offerReady_ok:
  assumes "manager_ok s"
  shows "manager_ok (offerReady E s p pc desc)"
proof (cases "peers s p = Some pc")
  case True
  define ps where "ps = getPeerState s p"
  define s0 where "s0 = putPeerState s p ps"
  have s0: "manager_ok s0" "peerStates s0 p = Some ps" using ensure_ok [OF assms, of p] True by (simp_all add: s0_def ps_def)
  define s1 where "s1 = putPeerState (clearTimer s0 (offerTimer ps)) p (ps\<lparr>offerTimer := None\<rparr>)"
  have s1: "manager_ok s1" "peerStates s1 p = Some (ps\<lparr>offerTimer := None\<rparr>)"
    using unset_ok [OF s0, of KOffer] by (simp_all add: s1_def)
  have a: "attempts ps \<le> MAX_RETRIES" using timers_okD(1) [OF manager_okD(1) [OF s0(1)] s0(2)] .
  have sl: "slot k (ps\<lparr>offerTimer := Some i\<rparr>) = slot k (put_slot KOffer (Some i) (ps\<lparr>offerTimer := None\<rparr>))" for k i by (cases k) simp_all
  have eq: "putPeerState (clearTimer s (offerTimer ps)) p (ps\<lparr>offerTimer := Some (nextId s)\<rparr>) = putPeerState s1 p (ps\<lparr>offerTimer := Some (nextId s1)\<rparr>)"
    by (simp add: s1_def s0_def putPeerState_def clearTimer_unset)
  have n: "nextId (clearTimer s (offerTimer ps)) = nextId s" by (simp add: clearTimer_unset)
  have "manager_ok (createTimer (putPeerState s1 p (ps\<lparr>offerTimer := Some (nextId s1)\<rparr>)) (OfferTimeout p pc) OFFER_TIMEOUT_MS)"
    by (rule createTimer_ok [OF s1]) (use a sl in simp_all)
  then show ?thesis using True by (simp add: offerReady_def Let_def n eq flip: ps_def)
qed (use assms in \<open>simp add: offerReady_def\<close>)

lemma endTask_ok: "manager_ok s \<Longrightarrow> manager_ok (endTask E s i outcome)"
  by (auto simp: endTask_def Let_def split: option.split task.split intro!: offerReady_ok beginTask_ok flush_ok)

lemma drop_state_ok:
  assumes "manager_ok s" "peerStates s p = Some ps"
  shows "manager_ok ((clearAllTimers s ps)\<lparr>peerStates := (peerStates s)(p := None)\<rparr>)"
  using manager_okD [OF assms(1)] timers_ok_clear [OF manager_okD(1) [OF assms(1)] assms(2)]
  by (intro manager_okI) (auto simp: clearAll_unset retries_ok_unset)

lemma onPeerJoined_ok: "manager_ok s \<Longrightarrow> manager_ok (onPeerJoined E s room p)"
  by (auto simp: onPeerJoined_def Let_def clearAll_unset split: option.split prod.split
      intro!: announceCreated_ok closePC_ok dest: drop_state_ok [unfolded clearAll_unset])

lemma onPeerLeft_ok: "manager_ok s \<Longrightarrow> manager_ok (onPeerLeft E s room p)"
  by (auto simp: onPeerLeft_def Let_def closePC_ok)

lemma getOrCreatePC_ok:
  assumes "manager_ok s" "getOrCreatePC s p = (s1, pc)"
  shows "manager_ok s1" "peers s1 p = Some pc"
proof -
  note M = manager_okD [OF assms(1)]
  have "manager_ok s1 \<and> peers s1 p = Some pc"
  proof (cases "peers s p")
    case None
    have "retries_ok ((peers s)(p \<mapsto> nextId s)) (timers s)" using M(3) None by (fastforce simp: retries_ok_def)
    then show ?thesis using M conns_ok_new [OF M(2) None] timers_ok_mono [OF M(1), of "nextId s + 1"] None assms(2)
      by (auto simp: getOrCreatePC_def manager_ok_def dom_def subset_eq)
  qed (use assms in \<open>simp add: getOrCreatePC_def\<close>)
  then show "manager_ok s1" "peers s1 p = Some pc" by simp_all
qed

lemma onSignal_ok:
  assumes "manager_ok s" "onSignal E s room p payload = Ok s'"
  shows "manager_ok s'"
proof (cases "room = roomName E")
  case True
  then obtain sig where sig: "decodeWebRTCSignal (pmCodec E) payload = Ok sig" using assms(2) by (auto simp: onSignal_def and_then_Ok_iff)
  show ?thesis
  proof (cases sig)
    case (SdpOffer sdp)
    obtain s1 pc where g: "getOrCreatePC s p = (s1, pc)" by fastforce
    show ?thesis using assms(2) getOrCreatePC_ok(1) [OF assms(1) g] by (auto simp: onSignal_def True sig SdpOffer g intro: beginTask_ok)
  next
    case (SdpAnswer sdp)
    have "manager_ok (putPeerState (clearTimer s (offerTimer ps)) p (ps\<lparr>offerTimer := None\<rparr>))" if "peerStates s p = Some ps" for ps
      using unset_ok [OF assms(1) that, of KOffer] by simp
    then show ?thesis using assms by (auto simp: onSignal_def True sig SdpAnswer Let_def split: option.splits intro!: beginTask_ok)
  next
    case (IceCandidate c)
    then show ?thesis using assms by (auto simp: onSignal_def True sig buffer_ok)
  qed
qed (use assms in \<open>simp add: onSignal_def\<close>)

lemma destroy_ok:
  assumes "manager_ok s"
  shows "manager_ok (pm_destroy s)" "timers (pm_destroy s) = Map.empty"
proof -
  note M = manager_okD [OF assms]
  have "timers (pm_destroy s) i = None" for i
  proof (cases "timers s i")
    case (Some job)
    obtain ps where "peerStates s (job_peer job) = Some ps" "slot (kindOf job) ps = Some i"
      using timers_okD(4) [OF M(1) Some] by blast
    then have "ps \<in> ran (peerStates s)" "Some i \<in> {offerTimer ps, disconnectedTimer ps, retryTimer ps}"
      by (auto intro: ranI) (cases job; simp)+
    then show ?thesis by (auto simp: pm_destroy_def)
  qed (simp add: pm_destroy_def)
  then show t: "timers (pm_destroy s) = Map.empty" by (simp add: fun_eq_iff)
  have "pc < nextId s \<and> st = CClosed" if "connections (pm_destroy s) pc = Some (p, st)" for pc p st
    using that M(2) unfolding conns_ok_def by (auto simp: pm_destroy_def split: if_splits) (metis ranI)
  then have c: "conns_ok Map.empty (connections (pm_destroy s)) (nextId s)" by (simp add: conns_ok_def)
  show "manager_ok (pm_destroy s)"
    by (intro manager_okI) (use t c in \<open>simp_all add: timers_ok_def retries_ok_def\<close>, simp_all add: pm_destroy_def)
qed

lemma pm_step_ok: "manager_ok s \<Longrightarrow> manager_ok (pm_step E s ev)"
  by (cases ev) (auto simp: onPeerJoined_ok onPeerLeft_ok onConnectionState_ok fireTimer_ok endTask_ok destroy_ok(1) onLocalCandidate_def
      split: sum.split option.split intro: onSignal_ok)

lemma freshManager_ok: "manager_ok freshManager"
  by (simp add: freshManager_def manager_ok_def timers_ok_def conns_ok_def retries_ok_def)

interpretation peer_machine: inv_machine freshManager "pm_step E" manager_ok for E
  by unfold_locales (rule freshManager_ok, rule pm_step_ok)

end
