(* ===== verification/Peer_Retries.thy ===== *)
theory Peer_Retries
  imports Peer_Connection
begin

text \<open>
  What follows for the manager of WebRTC connections: its invariant, the bound on its retries, that candidates wait for
  the description, and three ways in which the order of messages defeats it.
\<close>

section \<open>The invariant\<close>

text \<open>
  C38: at every point of a run the timers that are running are exactly those of the states of the peers, each of its kind and
  one of a kind, so none is left behind; a retry that is waiting is for the peer's current connection; every connection
  that is not the current one of its peer has been closed; and a peer with a state of its own has a connection: the
  branch of a join for a peer that waits for a retry without one is never taken.  Destroying leaves no timer.
\<close>

theorem manager_invariant:
  assumes "s = pm_run E freshManager events"
  shows "(\<forall>i k p. (\<exists>ps. peerStates s p = Some ps \<and> slot k ps = Some i) \<longleftrightarrow>
      (\<exists>job. timers s i = Some job \<and> kindOf job = k \<and> job_peer job = p)) \<and>
    (\<forall>i p pc. timers s i = Some (RetryNow p pc) \<longrightarrow> peers s p = Some pc) \<and>
    (\<forall>pc p st. connections s pc = Some (p, st) \<longrightarrow> peers s p = Some pc \<or> st = CClosed) \<and>
    (\<forall>p ps. peerStates s p = Some ps \<longrightarrow> attempts ps \<le> MAX_RETRIES \<and> peers s p \<noteq> None) \<and>
    timers (pm_step E s DestroyEv) = Map.empty"
proof -
  have ok: "manager_ok s" unfolding assms pm_run_def by (rule peer_machine.inv_run)
  note M = manager_okD [OF ok]
  show ?thesis
  proof (intro conjI allI impI)
    fix i k p
    show "(\<exists>ps. peerStates s p = Some ps \<and> slot k ps = Some i) \<longleftrightarrow> (\<exists>job. timers s i = Some job \<and> kindOf job = k \<and> job_peer job = p)"
      using M(1) unfolding timers_ok_def by blast
  next
    fix i p pc assume "timers s i = Some (RetryNow p pc)"
    then show "peers s p = Some pc" using M(3) by (simp add: retries_ok_def)
  next
    fix pc p st assume "connections s pc = Some (p, st)"
    then show "peers s p = Some pc \<or> st = CClosed" using M(2) by (simp add: conns_ok_def)
  next
    fix p ps assume "peerStates s p = Some ps"
    then show "attempts ps \<le> MAX_RETRIES" "peers s p \<noteq> None" using M(4) timers_okD(1) [OF M(1)] by auto
  next
    show "timers (pm_step E s DestroyEv) = Map.empty" using destroy_ok(2) [OF ok] by simp
  qed
qed

definition sample_pm :: pmEnv where
  "sample_pm = \<lparr>roomName = ''r'', localPeerId = ''b'', pmCodec = sample_json, jitter = (\<lambda>_. 0)\<rparr>"

theorem manager_invariant_witness:
  "timers (pm_step sample_pm (pm_run sample_pm freshManager
     [JoinedEv ''r'' ''c'', TaskEv 1 (Some (JString ''x'')), StateEv 0 CFailed]) DestroyEv) = Map.empty"
  using manager_invariant [OF refl] by blast

section \<open>Retries\<close>

lemmas pm_defs = emit_def putPeerState_def clearTimer_unset clearAll_unset createTimer_def beginTask_def getPeerState_def
  closeConnection_def getOrCreatePC_def announceCreated_def sendOffer_def executeRetry_def handleFailure_def offerReady_def
  flushIceCandidates_def bufferOrAddCandidate_def closePC_fields Let_def

definition created :: "peerManager \<Rightarrow> string \<Rightarrow> nat" where
  "created s p = length (filter (\<lambda>e. case e of PeerCreated q _ _ \<Rightarrow> q = p | _ \<Rightarrow> False) (happened s))"

text \<open>How often a peer can still be created without anything new from it.\<close>

definition budget :: "peerManager \<Rightarrow> string \<Rightarrow> nat" where
  "budget s p = (case peerStates s p of
      None \<Rightarrow> if peers s p = None then 0 else MAX_RETRIES
    | Some ps \<Rightarrow> MAX_RETRIES - attempts ps + (if retryTimer ps = None then 0 else 1))"

text \<open>Nothing new comes from the peer: it does not join, makes no offer, and no connection to it is established.\<close>

fun quiet_event :: "pmEnv \<Rightarrow> string \<Rightarrow> peerManager \<Rightarrow> pmEvent \<Rightarrow> bool" where
  "quiet_event E p s (JoinedEv room q) = (q \<noteq> p)"
| "quiet_event E p s (SignalEv room q payload) =
     (q \<noteq> p \<or> (case decodeWebRTCSignal (pmCodec E) payload of Inr (SdpOffer _) \<Rightarrow> False | _ \<Rightarrow> True))"
| "quiet_event E p s (StateEv pc st) = (st \<noteq> CConnected \<or> (case connections s pc of Some (q, _) \<Rightarrow> q \<noteq> p | None \<Rightarrow> True))"
| "quiet_event E p s _ = True"

fun quiet :: "pmEnv \<Rightarrow> string \<Rightarrow> peerManager \<Rightarrow> pmEvent list \<Rightarrow> bool" where
  "quiet E p s [] = True"
| "quiet E p s (ev # evs) = (quiet_event E p s ev \<and> quiet E p (pm_step E s ev) evs)"

definition same :: "string \<Rightarrow> peerManager \<Rightarrow> peerManager \<Rightarrow> bool" where
  "same p s s' \<longleftrightarrow> peers s' p = peers s p \<and> peerStates s' p = peerStates s p \<and> created s' p = created s p"

lemma same_budget: "same p s s' \<Longrightarrow> created s' p + budget s' p = created s p + budget s p"
  by (auto simp: same_def budget_def split: option.split)

lemma same_trans: "same p s s' \<Longrightarrow> same p s' s'' \<Longrightarrow> same p s s''"
  by (simp add: same_def)

lemma filter_sent: "filter (\<lambda>e. case e of PeerCreated q _ _ \<Rightarrow> q = p | _ \<Rightarrow> False) (map (AddIceCandidate pc) cs) = []"
  by (simp add: filter_empty_conv)

lemma same_other:
  assumes "q \<noteq> p"
  shows "same p s (closePC s q)" "same p s (handleFailure E s q pc)" "same p s (announceCreated E s q)"
    "same p s (executeRetry E s q pc)" "same p s (offerReady E s q pc d)" "same p s (flushIceCandidates s q)"
    "same p s (bufferOrAddCandidate s q c)" "same p s (putPeerState s q ps)" "same p s (fst (getOrCreatePC s q))"
  using assms by (auto simp: same_def created_def filter_sent pm_defs split: option.split)

lemma same_neutral:
  "same p s (beginTask s t)" "same p s (s\<lparr>tasks := f\<rparr>)" "same p s (s\<lparr>connections := g\<rparr>)" "same p s (s\<lparr>timers := h\<rparr>)"
  "same p s (clearTimer s t')" "same p s (clearAllTimers s ps)" "same p s (createTimer s job ms)" "same p s (emit s [SentSignal q b])"
  "same p s (emit s [PeerConnection q pc i])" "same p s (emit s [PeerDisconnected q])"
  "same p s (flushIceCandidates s q)" "same p s (bufferOrAddCandidate s q c)" "same p s s"
  by (auto simp: same_def created_def filter_sent pm_defs split: option.split)

definition spent :: "string \<Rightarrow> peerManager \<Rightarrow> peerManager \<Rightarrow> bool" where
  "spent p s s' \<longleftrightarrow> created s' p + budget s' p \<le> created s p + budget s p"

lemma same_spent: "same p s s' \<Longrightarrow> spent p s s'"
  by (simp add: spent_def same_budget)

lemma closePC_spent: "spent p s (closePC s p)"
  by (simp add: spent_def budget_def created_def closePC_fields)

lemma handleFailure_spent:
  assumes "peers s p = Some pc"
  shows "spent p s (handleFailure E s p pc)"
  using assms by (auto simp: spent_def budget_def created_def pm_defs freshPeerState_def split: option.split)

lemma put_slot_spent:
  assumes "peerStates s p = Some ps" "attempts qs = attempts ps" "retryTimer qs = retryTimer ps"
  shows "spent p s (putPeerState s p qs)"
  using assms by (simp add: spent_def budget_def created_def pm_defs)

lemma spent_trans: "spent p s s' \<Longrightarrow> spent p s' s'' \<Longrightarrow> spent p s s''"
  by (simp add: spent_def)

text \<open>A retry that fires has been paid for.\<close>

lemma retry_spent:
  assumes "peerStates s p = Some ps" "retryTimer ps = Some i" "peers s p = Some pc"
  shows "spent p s (executeRetry E (putPeerState (s\<lparr>timers := T\<rparr>) p (ps\<lparr>retryTimer := None\<rparr>)) p pc)"
  using assms by (auto simp: spent_def budget_def created_def pm_defs)

lemma fireTimer_spent:
  assumes "manager_ok s"
  shows "spent p s (fireTimer E s i)"
proof (cases "timers s i")
  case (Some job)
  let ?s1 = "s\<lparr>timers := (timers s)(i := None)\<rparr>"
  show ?thesis
  proof (cases "job_peer job = p")
    case False
    have put: "same p s (putPeerState ?s1 q qs)" if "q \<noteq> p" for q qs
      using that by (simp add: same_def created_def pm_defs)
    show ?thesis using False Some
      by (cases job) (auto simp: fireTimer_def Let_def intro!: same_spent put same_trans [OF put same_other(2)] same_trans [OF put same_other(4)])
  next
    case True
    obtain ps where ps: "peerStates s p = Some ps" "slot (kindOf job) ps = Some i"
      using fired_ok [OF assms Some] True by metis
    have g: "getPeerState ?s1 p = ps" using ps(1) by (simp add: getPeerState_def)
    have put: "spent p s (putPeerState ?s1 p qs)" if "attempts qs = attempts ps" "retryTimer qs = retryTimer ps" for qs
      using that ps(1) by (simp add: spent_def budget_def created_def pm_defs)
    show ?thesis
    proof (cases job)
      case (OfferTimeout q pc)
      then show ?thesis using True g
        by (auto simp: fireTimer_def Some Let_def intro!: put spent_trans [OF put handleFailure_spent])
    next
      case (GraceOver q pc)
      then show ?thesis using True g
        by (auto simp: fireTimer_def Some Let_def intro!: put spent_trans [OF put handleFailure_spent])
    next
      case (RetryNow q pc)
      have "peers s p = Some pc" using manager_okD(3) [OF assms] Some RetryNow True by (simp add: retries_ok_def)
      moreover have "retryTimer ps = Some i" using ps(2) RetryNow by simp
      ultimately show ?thesis using True g RetryNow retry_spent [OF ps(1), of i pc E "(timers s)(i := None)"]
        by (simp add: fireTimer_def Some Let_def)
    qed
  qed
qed (simp add: fireTimer_def spent_def)

lemma onConnectionState_spent:
  assumes "manager_ok s" "quiet_event E p s (StateEv pc st)"
  shows "spent p s (onConnectionState E s pc st)"
proof (cases "connections s pc")
  case (Some x)
  obtain q st0 where x: "x = (q, st0)" by fastforce
  define s1 where "s1 = s\<lparr>connections := (connections s)(pc \<mapsto> (q, st))\<rparr>"
  have s1: "same p s s1" by (simp add: s1_def same_neutral)
  show ?thesis
  proof (cases "st0 = CClosed \<or> peers s q \<noteq> Some pc")
    case True
    then show ?thesis using same_spent [OF s1] by (auto simp: onConnectionState_def Some x Let_def s1_def spent_def)
  next
    case False
    then have e: "onConnectionState E s pc st = (case st of
               CConnected \<Rightarrow>
                 let s2 = (case peerStates s1 q of
                     Some ps \<Rightarrow> putPeerState (clearAllTimers s1 ps) q freshPeerState | None \<Rightarrow> s1)
                 in emit s2 [PeerConnection q pc (isInitiator E q)]
             | CDisconnected \<Rightarrow>
                 let ps = getPeerState s1 q; s2 = putPeerState s1 q ps
                 in if disconnectedTimer ps \<noteq> None then s2
                    else createTimer (putPeerState s2 q (ps\<lparr>disconnectedTimer := Some (nextId s2)\<rparr>)) (GraceOver q pc) GRACE_MS
             | CFailed \<Rightarrow> handleFailure E s1 q pc
             | _ \<Rightarrow> s1)"
      unfolding onConnectionState_def Some x option.case prod.case Let_def s1_def [symmetric] by (simp add: s1_def)
    have c: "peers s1 q = Some pc" using False by (simp add: s1_def)
    show ?thesis
    proof (cases st)
      case CConnected
      then have "q \<noteq> p" using assms(2) by (simp add: Some x)
      then have "same p s1 (onConnectionState E s pc st)"
        unfolding CConnected e [unfolded CConnected] using \<open>q \<noteq> p\<close> by (auto simp: same_def created_def pm_defs split: option.split)
      then show ?thesis using s1 same_trans same_spent by blast
    next
      case CDisconnected
      have "spent p s1 (onConnectionState E s pc st)"
        unfolding CDisconnected e [unfolded CDisconnected] using c
        by (auto simp: spent_def budget_def created_def pm_defs freshPeerState_def split: option.split)
      then show ?thesis using s1 spent_trans same_spent by blast
    next
      case CFailed
      have "spent p s1 (handleFailure E s1 q pc)"
        using handleFailure_spent [OF c] same_other(2) [of q p s1] same_spent by (cases "q = p") auto
      then show ?thesis using s1 spent_trans same_spent by (metis (no_types, lifting) CFailed cstate.case(5) e)
    qed (use s1 same_spent e in simp_all)
  qed
qed (simp add: onConnectionState_def spent_def)

lemma endTask_spent:
  assumes "manager_ok s"
  shows "spent p s (endTask E s i outcome)"
proof -
  have ready: "spent p s' (offerReady E s' q pc d)" for s' q pc d
    by (cases "q = p") (auto simp: spent_def budget_def created_def pm_defs freshPeerState_def split: option.split)
  define s1 where "s1 = s\<lparr>tasks := (tasks s)(i := None)\<rparr>"
  have s1: "spent p s s1" unfolding s1_def by (rule same_spent [OF same_neutral(2)])
  show ?thesis
  proof (cases "tasks s i")
    case (Some t)
    show ?thesis
    proof (cases outcome)
      case None
      then show ?thesis using s1 by (simp add: endTask_def Some Let_def s1_def)
    next
      case (Some d)
      have e: "endTask E s i outcome = (case t of
              Offering peer pc \<Rightarrow> offerReady E s1 peer pc d
            | ApplyingOffer peer pc \<Rightarrow> beginTask (flushIceCandidates s1 peer) (MakingAnswer peer pc)
            | MakingAnswer peer pc \<Rightarrow> emit s1 [SentSignal peer (encodeWebRTCSignal (pmCodec E) (SdpAnswer d))]
            | ApplyingAnswer peer pc \<Rightarrow> flushIceCandidates s1 peer)"
        unfolding endTask_def \<open>tasks s i = Some t\<close> Some option.case Let_def s1_def ..
      have "spent p s1 (endTask E s i outcome)" unfolding e
        by (cases t) (auto intro: ready same_spent [OF same_neutral(8)] same_spent [OF same_neutral(11)]
            same_spent [OF same_trans [OF same_neutral(11) same_neutral(1)]])
      then show ?thesis using s1 spent_trans by blast
    qed
  qed (simp add: endTask_def spent_def)
qed

lemma joined_same: "q \<noteq> p \<Longrightarrow> same p s (onPeerJoined E s room q)"
  by (auto simp: onPeerJoined_def same_def created_def pm_defs split: option.split prod.split)

lemma signal_spent:
  assumes "quiet_event E p s (SignalEv room q payload)" "onSignal E s room q payload = Ok s'"
  shows "spent p s s'"
proof (cases "room = roomName E")
  case True
  then obtain sig where sig: "decodeWebRTCSignal (pmCodec E) payload = Ok sig" using assms(2) by (auto simp: onSignal_def and_then_Ok_iff)
  show ?thesis
  proof (cases sig)
    case (SdpOffer sdp)
    then have "q \<noteq> p" using assms(1) sig by auto
    then show ?thesis using assms(2) True sig SdpOffer
      by (intro same_spent) (auto simp: onSignal_def same_def created_def pm_defs split: option.split)
  next
    case (SdpAnswer sdp)
    have cleared: "spent p s (putPeerState (clearTimer s t) q (ps\<lparr>offerTimer := None\<rparr>))" if "peerStates s q = Some ps" for ps t
      using that by (cases "q = p") (auto simp: spent_def budget_def created_def pm_defs split: option.split)
    show ?thesis using assms(2) True sig SdpAnswer same_spent [OF same_neutral(1)] same_spent [OF same_neutral(13)]
      by (auto simp: onSignal_def Let_def split: option.splits intro: spent_trans [OF cleared])
  next
    case (IceCandidate c)
    then show ?thesis using assms(2) True sig same_spent [OF same_neutral(12)] by (auto simp: onSignal_def)
  qed
qed (use assms in \<open>simp add: onSignal_def spent_def\<close>)

lemma pm_step_spent:
  assumes "manager_ok s" "quiet_event E p s ev"
  shows "spent p s (pm_step E s ev)"
proof (cases ev)
  case (JoinedEv room q)
  then show ?thesis using assms same_spent [OF joined_same] same_spent [OF same_neutral(13)] by simp
next
  case (LeftEv room q)
  have "spent p s (closePC s q)" using closePC_spent same_spent [OF same_other(1)] by (cases "q = p") auto
  then show ?thesis using LeftEv same_spent [OF same_neutral(13)] spent_trans [OF _ same_spent [OF same_neutral(10)]]
    by (auto simp: onPeerLeft_def Let_def)
next
  case (SignalEv room q payload)
  then show ?thesis using signal_spent [of E p s room q payload] assms(2) by (auto simp: spent_def split: sum.split)
next
  case (CandidateEv pc c)
  then show ?thesis
    by (auto simp: onLocalCandidate_def split: option.split intro: same_spent [OF same_neutral(8)] same_spent [OF same_neutral(13)])
next
  case DestroyEv
  then show ?thesis by (simp add: spent_def budget_def created_def pm_destroy_def)
qed (use assms fireTimer_spent onConnectionState_spent endTask_spent in simp_all)

lemma run_spent: "manager_ok s \<Longrightarrow> quiet E p s evs \<Longrightarrow> spent p s (pm_run E s evs)"
proof (induction evs arbitrary: s)
  case (Cons ev evs)
  have "spent p s (pm_step E s ev)" using pm_step_spent Cons.prems by simp
  moreover have "spent p (pm_step E s ev) (pm_run E (pm_step E s ev) evs)" using Cons pm_step_ok [of s E ev] by simp
  ultimately show ?case using spent_trans by (simp add: pm_run_def)
qed (simp add: pm_run_def spent_def)

lemma backoff_bounds:
  assumes "0 \<le> j" "j \<le> 1"
  shows "700 * 2 ^ a \<le> computeBackoffMs j a" "computeBackoffMs j a \<le> 1300 * 2 ^ a"
proof -
  define x where "x = 1000 * 2 ^ a + 1000 * 2 ^ a * (3 / 10) * (2 * j - 1 :: real)"
  have p: "(0 :: real) < 2 ^ a" by simp
  have x: "x = 2 ^ a * (700 + 600 * j)" by (simp add: x_def algebra_simps)
  have "of_int (700 * 2 ^ a) \<le> x" "x \<le> of_int (1300 * 2 ^ a)" using assms p by (simp_all add: x)
  then have "700 * 2 ^ a \<le> round x" "round x \<le> 1300 * 2 ^ a" using round_mono round_of_int by metis+
  moreover have "computeBackoffMs j a = max 0 (round x)" by (simp only: computeBackoffMs_def BASE_BACKOFF_MS_def x_def Let_def of_int_numeral)
  moreover have "(0 :: int) \<le> 700 * 2 ^ a" by simp
  ultimately show "700 * 2 ^ a \<le> computeBackoffMs j a" "computeBackoffMs j a \<le> 1300 * 2 ^ a" by simp_all
qed

text \<open>
  C39: A peer that has failed is made anew at most three times, in whatever order timers, tasks and states come, unless it
  joins again, makes an offer or is connected.  The failure after the last of them is reported once, and nothing of the
  peer is left.  The waiting times are those of the schedule, one, two and four seconds, up to thirty per cent.
\<close>

theorem retries_bounded:
  assumes "s = pm_run E freshManager before" "peerStates s p = None" "quiet E p s evs" "s' = pm_run E s evs"
    "\<forall>i. 0 \<le> jitter E i \<and> jitter E i \<le> 1"
  shows "created s' p \<le> created s p + MAX_RETRIES \<and>
    (\<forall>pc ps. peers s' p = Some pc \<and> peerStates s' p = Some ps \<and> attempts ps = MAX_RETRIES \<and> retryTimer ps = None \<longrightarrow>
      (let s2 = handleFailure E s' p pc in happened s2 = happened s' @ [PeerDisconnected p] \<and> peers s2 p = None \<and>
        peerStates s2 p = None \<and> (\<forall>evs2. quiet E p s2 evs2 \<longrightarrow> created (pm_run E s2 evs2) p = created s2 p))) \<and>
    (\<forall>i a. 700 * 2 ^ a \<le> computeBackoffMs (jitter E i) a \<and> computeBackoffMs (jitter E i) a \<le> 1300 * 2 ^ a)"
proof -
  have ok: "manager_ok s" unfolding assms(1) pm_run_def by (rule peer_machine.inv_run)
  have ok': "manager_ok s'" unfolding assms(4) pm_run_def by (rule peer_machine.inv_run_from [OF ok])
  have "budget s p \<le> MAX_RETRIES" using assms(2) by (simp add: budget_def)
  then have 1: "created s' p \<le> created s p + MAX_RETRIES"
    using run_spent [OF ok assms(3)] by (simp add: spent_def assms(4))
  have mono: "created t p \<le> created (pm_run E t es) p" for t es
  proof -
    have step: "\<exists>es. happened (pm_step E t ev) = happened t @ es" for t ev
      by (cases ev)
        (auto simp: onPeerJoined_def onPeerLeft_def onSignal_def onConnectionState_def fireTimer_def endTask_def onLocalCandidate_def
          pm_destroy_def pm_defs and_then_def split: option.split sum.split cstate.split timerJob.split task.split webrtcSignal.split prod.split)
    show ?thesis
    proof (induction es arbitrary: t)
      case (Cons ev es)
      have "created t p \<le> created (pm_step E t ev) p" using step [of t ev] by (auto simp: created_def)
      then show ?case using Cons [of "pm_step E t ev"] by (simp add: pm_run_def)
    qed (simp add: pm_run_def)
  qed
  have 2: "let s2 = handleFailure E s' p pc in happened s2 = happened s' @ [PeerDisconnected p] \<and> peers s2 p = None \<and>
        peerStates s2 p = None \<and> (\<forall>evs2. quiet E p s2 evs2 \<longrightarrow> created (pm_run E s2 evs2) p = created s2 p)"
    if "peers s' p = Some pc" "peerStates s' p = Some ps" "attempts ps = MAX_RETRIES" "retryTimer ps = None" for pc ps
  proof -
    define s2 where "s2 = handleFailure E s' p pc"
    have f: "happened s2 = happened s' @ [PeerDisconnected p]" "peers s2 p = None" "peerStates s2 p = None"
      using that by (simp_all add: s2_def pm_defs)
    have "created (pm_run E s2 evs2) p = created s2 p" if "quiet E p s2 evs2" for evs2
      using run_spent [OF handleFailure_ok [OF ok' \<open>peers s' p = Some pc\<close>, of E, folded s2_def] that] mono [of s2 evs2] f
      by (simp add: spent_def budget_def)
    with f show ?thesis by (simp add: Let_def flip: s2_def)
  qed
  have 3: "700 * 2 ^ a \<le> computeBackoffMs (jitter E i) a \<and> computeBackoffMs (jitter E i) a \<le> 1300 * 2 ^ a" for i a
    using backoff_bounds assms(5) by simp
  show ?thesis using 1 2 3 by blast
qed

theorem retries_bounded_witness:
  "created (pm_run sample_pm (pm_run sample_pm freshManager [JoinedEv ''r'' ''c'']) [StateEv 0 CFailed, TimerEv 2]) ''c''
   \<le> created (pm_run sample_pm freshManager [JoinedEv ''r'' ''c'']) ''c'' + MAX_RETRIES"
proof -
  have "peerStates (pm_run sample_pm freshManager [JoinedEv ''r'' ''c'']) ''c'' = None"
    by (simp add: pm_run_def freshManager_def sample_pm_def onPeerJoined_def pm_defs)
  then show ?thesis
    using retries_bounded [OF refl, of sample_pm "[JoinedEv ''r'' ''c'']" "''c''" "[StateEv 0 CFailed, TimerEv 2]", OF _ _ refl]
    by (simp add: sample_pm_def)
qed

section \<open>Candidates\<close>

text \<open>
  Candidates that arrive before the remote description is applied wait, and are added in the order they came when it is;
  those that come later are added at once.  None is lost and none is added twice.
\<close>

definition candidates :: "peerManager \<Rightarrow> nat \<Rightarrow> json list" where
  "candidates s pc = concat (map (\<lambda>e. case e of AddIceCandidate c j \<Rightarrow> (if c = pc then [j] else []) | _ \<Rightarrow> []) (happened s))"

lemma candidates_emit: "candidates (emit s es) pc =
  candidates s pc @ concat (map (\<lambda>e. case e of AddIceCandidate c j \<Rightarrow> (if c = pc then [j] else []) | _ \<Rightarrow> []) es)"
  by (simp add: candidates_def emit_def)

lemma concat_single: "concat (map (\<lambda>j. [j]) xs) = xs"
  by (induction xs) simp_all

lemma flushed: "concat (map ((\<lambda>e. case e of AddIceCandidate c j \<Rightarrow> (if c = pc then [j] else []) | _ \<Rightarrow> []) \<circ> AddIceCandidate pc) buf) = buf"
  by (simp add: o_def concat_single)

definition waiting :: "peerManager \<Rightarrow> string \<Rightarrow> json list" where
  "waiting s p = (case iceBuf s p of Some buf \<Rightarrow> buf | None \<Rightarrow> [])"

lemma buffer_many:
  assumes "peers s p = Some pc" "waiting s p = w" "p \<in> remoteDescSet s \<longrightarrow> w = []"
  shows "let s' = foldl (\<lambda>s c. bufferOrAddCandidate s p c) s cs in
    peers s' p = Some pc \<and> remoteDescSet s' = remoteDescSet s \<and>
    candidates s' pc @ waiting s' p = candidates s pc @ w @ cs \<and> (p \<in> remoteDescSet s \<longrightarrow> waiting s' p = [])"
  using assms
proof (induction cs arbitrary: s w)
  case (Cons c cs)
  define s1 where "s1 = bufferOrAddCandidate s p c"
  have s1: "peers s1 p = Some pc" "remoteDescSet s1 = remoteDescSet s"
    "candidates s1 pc @ waiting s1 p = candidates s pc @ w @ [c]" "p \<in> remoteDescSet s1 \<longrightarrow> waiting s1 p = []"
    using Cons.prems by (auto simp: s1_def bufferOrAddCandidate_def waiting_def candidates_emit)
      (auto simp: candidates_def emit_def split: option.splits)
  show ?case using Cons.IH [OF s1(1) refl s1(4)] s1 by (simp add: Let_def flip: s1_def)
qed (auto simp: Let_def)

theorem candidates_in_order:
  assumes "peers s p = Some pc" "p \<notin> remoteDescSet s" "waiting s p = []"
    "s1 = foldl (\<lambda>s c. bufferOrAddCandidate s p c) s early" "s2 = flushIceCandidates s1 p"
    "s3 = foldl (\<lambda>s c. bufferOrAddCandidate s p c) s2 late"
  shows "candidates s1 pc = candidates s pc \<and> candidates s3 pc = candidates s pc @ early @ late \<and> waiting s3 p = []"
proof -
  have b: "peers s1 p = Some pc" "remoteDescSet s1 = remoteDescSet s" "candidates s1 pc @ waiting s1 p = candidates s pc @ early"
    using buffer_many [OF assms(1) assms(3), of early] assms(2) by (simp_all add: Let_def assms(4))
  have c: "candidates s1 pc = candidates s pc" unfolding assms(4) using assms(1,2)
  proof (induction early arbitrary: s)
    case (Cons c cs)
    have "peers (bufferOrAddCandidate s p c) p = Some pc" "p \<notin> remoteDescSet (bufferOrAddCandidate s p c)"
      "candidates (bufferOrAddCandidate s p c) pc = candidates s pc"
      using Cons.prems by (simp_all add: bufferOrAddCandidate_def candidates_def)
    then show ?case using Cons.IH by simp
  qed simp
  have s2: "peers s2 p = Some pc" "p \<in> remoteDescSet s2" "waiting s2 p = []" "candidates s2 pc = candidates s1 pc @ waiting s1 p"
    using b(1) by (auto simp: assms(5) flushIceCandidates_def waiting_def candidates_emit flushed Let_def split: option.split)
      (auto simp: emit_def candidates_def)
  have "candidates s3 pc @ waiting s3 p = candidates s2 pc @ [] @ late" "waiting s3 p = []"
    using buffer_many [OF s2(1,3), of late] s2(2) unfolding Let_def assms(6) [symmetric] by blast+
  moreover have "waiting s1 p = early" using b(3) c by simp
  ultimately show ?thesis using c s2(4) by simp
qed

theorem candidates_in_order_witness:
  "candidates (flushIceCandidates (bufferOrAddCandidate (pm_run sample_pm freshManager [JoinedEv ''r'' ''c'']) ''c'' JNull) ''c'') 0 = [JNull]"
proof -
  let ?s = "pm_run sample_pm freshManager [JoinedEv ''r'' ''c'']"
  have "peers ?s ''c'' = Some 0" "''c'' \<notin> remoteDescSet ?s" "waiting ?s ''c'' = []" "candidates ?s 0 = []"
    by (simp_all add: pm_run_def freshManager_def sample_pm_def onPeerJoined_def pm_defs waiting_def candidates_def)
  then show ?thesis
    using candidates_in_order [of ?s "''c''" 0 _ "[JNull]", OF _ _ _ refl refl, of _ "[]"] by simp
qed

section \<open>What the order and the content of messages can do\<close>

text \<open>
  An offer that arrives before the peer is announced makes its connection; the announcement is then taken for a
  duplicate, so that the consumers are never told of the connection and add no data channel to it.
\<close>

theorem offer_before_join:
  assumes "listening s" "peers s p = None" "p \<noteq> localPeerId E" "decodeWebRTCSignal (pmCodec E) payload = Ok (SdpOffer sdp)"
    "s1 = pm_step E s (SignalEv (roomName E) p payload)" "s2 = pm_step E s1 (JoinedEv (roomName E) p)"
  shows "s2 = s1 \<and> (\<exists>pc. peers s2 p = Some pc \<and> connections s2 pc = Some (p, CNew)) \<and> happened s2 = happened s"
proof -
  have s1: "s1 = beginTask (fst (getOrCreatePC s p)) (ApplyingOffer p (nextId s))"
    using assms(1,2,4) by (simp add: assms(5) onSignal_def getOrCreatePC_def)
  have f: "peers s1 p = Some (nextId s)" "connections s1 (nextId s) = Some (p, CNew)" "listening s1" "happened s1 = happened s"
    using assms(1,2) by (simp_all add: s1 beginTask_def getOrCreatePC_def)
  then have "s2 = s1" using assms(3) by (simp add: assms(6) onPeerJoined_def)
  with f show ?thesis by auto
qed

definition sample_offer :: bytes where
  "sample_offer = encodeWebRTCSignal sample_json (SdpOffer (JObject []))"

lemma sample_offer_decodes: "decodeWebRTCSignal sample_json sample_offer = Ok (SdpOffer (JObject []))"
  using sample_json_ok by (simp add: sample_offer_def encodeWebRTCSignal_def decodeWebRTCSignal_def json_ok_def)

theorem offer_before_join_witness:
  "happened (pm_step sample_pm (pm_step sample_pm freshManager (SignalEv ''r'' ''c'' sample_offer)) (JoinedEv ''r'' ''c'')) = []"
proof -
  have h: "listening freshManager" "peers freshManager ''c'' = None" "''c'' \<noteq> localPeerId sample_pm"
    "decodeWebRTCSignal (pmCodec sample_pm) sample_offer = Ok (SdpOffer (JObject []))" "happened freshManager = []"
    "roomName sample_pm = ''r''"
    using sample_offer_decodes by (simp_all add: freshManager_def sample_pm_def)
  show ?thesis using offer_before_join [OF h(1-4) refl refl] unfolding h(5,6) by blast
qed

text \<open>
  The client that a manager listens to: a callback that throws ends the reading of the stream, as an undecodable frame
  does.
\<close>

fun manager_call :: "pmEnv \<Rightarrow> peerManager \<Rightarrow> clientCall \<Rightarrow> peerManager result" where
  "manager_call E s (OnPeerJoined room peer) = Ok (pm_step E s (JoinedEv room peer))"
| "manager_call E s (OnPeerLeft room peer) = Ok (pm_step E s (LeftEv room peer))"
| "manager_call E s (OnSignal room peer payload) = (if listening s then onSignal E s room peer payload else Ok s)"

fun client_feed :: "wire \<Rightarrow> pmEnv \<Rightarrow> peerManager \<Rightarrow> bytes list \<Rightarrow> peerManager \<times> bool" where
  "client_feed w E s [] = (s, True)"
| "client_feed w E s (frame # frames) =
     (case and_then (decodeSignal w frame) (\<lambda>msg. foldl_res (manager_call E) s (client_call msg)) of
        Inl _ \<Rightarrow> (s, False)
      | Inr s1 \<Rightarrow> client_feed w E s1 frames)"

text \<open>
  Any peer of a room can cut the others off their relay: a signal whose payload does not decode, which the relay passes
  on as it is, ends the reading of the receiver's stream, and whatever the relay sends after it is lost.
\<close>

theorem malformed_signal:
  assumes "wire_ok w" "rwire A = w" "findPeer (rooms sA) (roomName E) p = Some (ToStream j)" "listening s"
    "decodeWebRTCSignal (pmCodec E) payload = Inl err" "length (encodeSignal w (Signal (roomName E) q payload)) < 2 ^ 32"
  shows "\<exists>frame. processMessage A sA k q (Signal (roomName E) p payload) = (sA, [Deliver j frame]) \<and>
    (\<forall>later. client_feed w E s (fst (takeFrames frame) @ later) = (s, False))"
proof -
  let ?b = "encodeSignal w (Signal (roomName E) q payload)"
  have "processMessage A sA k q (Signal (roomName E) p payload) = (sA, [Deliver j (frameLengthPrefix ?b)])"
    using assms(2,3) by (simp add: processMessage_def sendBy_def)
  moreover have "fst (takeFrames (frameLengthPrefix ?b)) = [?b]"
    using takeFrames_frame [OF assms(6), of "[]"] by (simp add: takeFrames_short)
  moreover have "client_feed w E s (?b # later) = (s, False)" for later
    using assms(4,5) by (simp add: decode_encode_signal [OF assms(1)] onSignal_def)
  ultimately show ?thesis by auto
qed

theorem malformed_signal_witness:
  "\<exists>frame. processMessage (sample_relay ''A'') (sample_joined ''A'') 1 ''q'' (Signal ''r'' ''p'' []) = (sample_joined ''A'', [Deliver 0 frame]) \<and>
    client_feed sample_wire sample_pm freshManager (fst (takeFrames frame)) = (freshManager, False)"
proof -
  have h: "rwire (sample_relay ''A'') = sample_wire" "findPeer (rooms (sample_joined ''A'')) (roomName sample_pm) ''p'' = Some (ToStream 0)"
    "listening freshManager" "decodeWebRTCSignal (pmCodec sample_pm) [] = Throw ''Malformed WebRTC signal: invalid JSON''"
    using sample_joined_facts(1) by (simp_all add: sample_relay_def sample_pm_def freshManager_def decodeWebRTCSignal_def)
  have l: "length (encodeSignal sample_wire (Signal (roomName sample_pm) ''q'' [])) < 2 ^ 32"
    by (simp add: sample_pm_def encodeSignal_def sample_wire_def unary_write_def chars_write_def array_write_def)
  have r: "roomName sample_pm = ''r''" by (simp add: sample_pm_def)
  show ?thesis using malformed_signal [OF sample_wire_ok h l, of 1, unfolded r] append_Nil2 by metis
qed

end
