(* ===== verification/Node_Registry.thy ===== *)
theory Node_Registry
  imports Announce
begin

text \<open>
  The nodes a browser knows (\<open>packages/core/src/node-registry.ts\<close>): the parser of the capability broadcasts, the handler
  that takes them, and the pruning that marks and removes what is silent.  The clock and the set of connected peers are
  arguments of an event, the notification of the listeners is a value that it returns.
\<close>

section \<open>Broadcasts\<close>

definition nodeCapsTopic :: "string \<Rightarrow> string" where
  "nodeCapsTopic networkId = ''pokapali.'' @ networkId @ ''._node-caps._p2p._pubsub''"

definition STALE_MS :: int where "STALE_MS = 150000"
definition REMOVE_MS :: int where "REMOVE_MS = 300000"
definition DISCONNECT_HYSTERESIS :: nat where "DISCONNECT_HYSTERESIS = 2"

record neighbor =
  npeer :: string
  nrole :: "string option"

record nodeCapsMessage =
  cpeer :: string
  croles :: "json list"
  cneighbors :: "neighbor list option"
  cbrowsers :: "int option"
  caddrs :: "string list option"
  chttp :: "string option"

fun parseNeighbor :: "json \<Rightarrow> neighbor list" where
  "parseNeighbor (JObject fs) = (case text_field (map_of fs ''peerId'') of
      Some p \<Rightarrow> [\<lparr>npeer = p, nrole = text_field (map_of fs ''role'')\<rparr>] | None \<Rightarrow> [])"
| "parseNeighbor _ = []"

fun parseNeighbors :: "json option \<Rightarrow> neighbor list" where
  "parseNeighbors (Some (JArray arr)) = concat (map parseNeighbor arr)"
| "parseNeighbors _ = []"

fun parseAddrs :: "json option \<Rightarrow> string list option" where
  "parseAddrs (Some (JArray arr)) = Some (concat (map (\<lambda>a. case a of JString s \<Rightarrow> [s] | _ \<Rightarrow> []) arr))"
| "parseAddrs _ = None"

definition parseCapsMessage :: "json_codec \<Rightarrow> bytes \<Rightarrow> nodeCapsMessage option" where
  "parseCapsMessage J data = (case json_read J data of
      Inr (JObject fs) \<Rightarrow>
        (case (map_of fs ''version'', text_field (map_of fs ''peerId''), map_of fs ''roles'') of
          (Some (JNumber v), Some p, Some (JArray roles)) \<Rightarrow>
            if v = 1 then Some \<lparr>cpeer = p, croles = roles, cneighbors = None, cbrowsers = None, caddrs = None, chttp = None\<rparr>
            else if v = 2 then Some \<lparr>cpeer = p, croles = roles, cneighbors = Some (parseNeighbors (map_of fs ''neighbors'')),
              cbrowsers = number_field (map_of fs ''browserCount''), caddrs = parseAddrs (map_of fs ''addrs''),
              chttp = text_field (map_of fs ''httpUrl'')\<rparr>
            else None
        | _ \<Rightarrow> None)
    | _ \<Rightarrow> None)"

text \<open>\<^verbatim>\<open>===\<close> on parsed values: objects and arrays are the same only as references, and two parses make two of them.\<close>

fun strictEq :: "json \<Rightarrow> json \<Rightarrow> bool" where
  "strictEq (JString a) (JString b) = (a = b)"
| "strictEq (JNumber a) (JNumber b) = (a = b)"
| "strictEq (JBool a) (JBool b) = (a = b)"
| "strictEq JNull JNull = True"
| "strictEq _ _ = False"

definition rolesEqual :: "json list \<Rightarrow> json list \<Rightarrow> bool" where
  "rolesEqual a b \<longleftrightarrow> length a = length b \<and> list_all2 strictEq a b"

definition neighborsEqual :: "neighbor list \<Rightarrow> neighbor list \<Rightarrow> bool" where
  "neighborsEqual a b \<longleftrightarrow> length a = length b \<and> list_all2 (\<lambda>x y. npeer x = npeer y \<and> nrole x = nrole y) a b"

definition addrsEqual :: "string list \<Rightarrow> string list \<Rightarrow> bool" where
  "addrsEqual a b \<longleftrightarrow> length a = length b \<and> list_all2 (=) a b"

section \<open>The registry\<close>

record knownNode =
  kpeer :: string
  kroles :: "json list"
  lastSeen :: int
  connectedNode :: bool
  staleNode :: bool
  kneighbors :: "neighbor list"
  kbrowsers :: "int option"
  kaddrs :: "string list"
  khttp :: "string option"

record nodeRegistry =
  rnodes :: "(string, knownNode) omap"
  disconnectCounts :: "(string, nat) omap"

definition default_list :: "'a list option \<Rightarrow> 'a list" where
  "default_list v = (case v of Some xs \<Rightarrow> xs | None \<Rightarrow> [])"

definition nodeOf :: "nodeCapsMessage \<Rightarrow> int \<Rightarrow> bool \<Rightarrow> knownNode" where
  "nodeOf caps now isConnected = \<lparr>kpeer = cpeer caps, kroles = croles caps, lastSeen = now, connectedNode = isConnected, staleNode = False,
     kneighbors = default_list (cneighbors caps), kbrowsers = cbrowsers caps, kaddrs = default_list (caddrs caps), khttp = chttp caps\<rparr>"

definition capsChanged :: "knownNode option \<Rightarrow> nodeCapsMessage \<Rightarrow> bool \<Rightarrow> bool" where
  "capsChanged prev caps isConnected = (case prev of
      None \<Rightarrow> True
    | Some n \<Rightarrow> connectedNode n \<noteq> isConnected \<or> staleNode n \<or> \<not> rolesEqual (kroles n) (croles caps) \<or>
        \<not> neighborsEqual (kneighbors n) (default_list (cneighbors caps)) \<or> kbrowsers n \<noteq> cbrowsers caps \<or>
        khttp n \<noteq> chttp caps \<or> \<not> addrsEqual (kaddrs n) (default_list (caddrs caps)))"

definition takeCaps :: "nodeRegistry \<Rightarrow> nodeCapsMessage \<Rightarrow> int \<Rightarrow> string set \<Rightarrow> nodeRegistry \<times> bool" where
  "takeCaps s caps now connectedPids =
     (let p = cpeer caps; isConnected = p \<in> connectedPids
      in (s\<lparr>disconnectCounts := AList.delete p (disconnectCounts s), rnodes := AList.update p (nodeOf caps now isConnected) (rnodes s)\<rparr>,
          capsChanged (map_of (rnodes s) p) caps isConnected))"

definition messageHandler :: "json_codec \<Rightarrow> string \<Rightarrow> nodeRegistry \<Rightarrow> string \<Rightarrow> bytes \<Rightarrow> int \<Rightarrow> string set \<Rightarrow> nodeRegistry \<times> bool" where
  "messageHandler J networkId s topic data now connectedPids =
     (if topic \<noteq> nodeCapsTopic networkId then (s, False)
      else case parseCapsMessage J data of
        None \<Rightarrow> (s, False) | Some caps \<Rightarrow> takeCaps s caps now connectedPids)"

text \<open>The body of the loop of the pruning: the node unless it is removed, and whether anything changed.\<close>

definition pruneNode :: "int \<Rightarrow> string set \<Rightarrow> (string, nat) omap \<Rightarrow> string \<Rightarrow> knownNode \<Rightarrow>
    knownNode option \<times> (string, nat) omap \<times> bool" where
  "pruneNode now pids counts pid node =
     (let age = now - lastSeen node
      in if age > REMOVE_MS then (None, AList.delete pid counts, True)
         else
           let (n1, ch1) = (if age > STALE_MS \<and> \<not> staleNode node then (node\<lparr>staleNode := True\<rparr>, True) else (node, False))
           in if pid \<in> pids then
                let counts1 = AList.delete pid counts
                in if \<not> connectedNode n1 then (Some (n1\<lparr>connectedNode := True\<rparr>), counts1, True) else (Some n1, counts1, ch1)
              else if connectedNode n1 then
                let count = (case map_of counts pid of Some c \<Rightarrow> c | None \<Rightarrow> 0) + 1; counts1 = AList.update pid count counts
                in if count \<ge> DISCONNECT_HYSTERESIS then (Some (n1\<lparr>connectedNode := False\<rparr>), counts1, True) else (Some n1, counts1, ch1)
              else (Some n1, counts, ch1))"

fun pruneNodes :: "int \<Rightarrow> string set \<Rightarrow> (string, nat) omap \<Rightarrow> (string, knownNode) omap \<Rightarrow>
    (string, knownNode) omap \<times> (string, nat) omap \<times> bool" where
  "pruneNodes now pids counts [] = ([], counts, False)"
| "pruneNodes now pids counts ((pid, node) # rest) =
     (case pruneNode now pids counts pid node of (n, counts1, changed) \<Rightarrow>
      case pruneNodes now pids counts1 rest of (ns, cs, changed2) \<Rightarrow>
        ((case n of Some x \<Rightarrow> [(pid, x)] | None \<Rightarrow> []) @ ns, cs, changed \<or> changed2))"

definition pruneTick :: "nodeRegistry \<Rightarrow> int \<Rightarrow> string set \<Rightarrow> nodeRegistry \<times> bool" where
  "pruneTick s now pids = (case pruneNodes now pids (disconnectCounts s) (rnodes s) of
     (ns, cs, changed) \<Rightarrow> (\<lparr>rnodes = ns, disconnectCounts = cs\<rparr>, changed))"

definition freshRegistry :: nodeRegistry where
  "freshRegistry = \<lparr>rnodes = [], disconnectCounts = []\<rparr>"

datatype registryEvent = Caps nodeCapsMessage int "string set" | Tick int "string set"

fun registry_step :: "nodeRegistry \<Rightarrow> registryEvent \<Rightarrow> nodeRegistry \<times> bool" where
  "registry_step s (Caps caps now pids) = takeCaps s caps now pids"
| "registry_step s (Tick now pids) = pruneTick s now pids"

definition registry_run :: "nodeRegistry \<Rightarrow> registryEvent list \<Rightarrow> nodeRegistry" where
  "registry_run = foldl (\<lambda>s ev. fst (registry_step s ev))"

section \<open>One node of a pruning\<close>

definition pruned :: "int \<Rightarrow> string set \<Rightarrow> nat option \<Rightarrow> string \<Rightarrow> knownNode \<Rightarrow> knownNode" where
  "pruned now pids count pid node = node\<lparr>staleNode := staleNode node \<or> now - lastSeen node > STALE_MS,
     connectedNode := pid \<in> pids \<or> (connectedNode node \<and> (case count of Some c \<Rightarrow> c | None \<Rightarrow> 0) + 1 < DISCONNECT_HYSTERESIS)\<rparr>"

definition counted :: "int \<Rightarrow> string set \<Rightarrow> nat option \<Rightarrow> string \<Rightarrow> knownNode \<Rightarrow> nat option" where
  "counted now pids count pid node =
     (if now - lastSeen node > REMOVE_MS \<or> pid \<in> pids then None
      else if connectedNode node then Some ((case count of Some c \<Rightarrow> c | None \<Rightarrow> 0) + 1) else count)"

lemma pruneNode_node:
  "fst (pruneNode now pids counts pid node) =
     (if now - lastSeen node > REMOVE_MS then None else Some (pruned now pids (map_of counts pid) pid node))"
  by (cases node) (auto simp: pruneNode_def pruned_def Let_def DISCONNECT_HYSTERESIS_def)

lemma pruneNode_counts:
  "map_of (fst (snd (pruneNode now pids counts pid node))) q =
     (if q = pid then counted now pids (map_of counts pid) pid node else map_of counts q)"
  by (auto simp: pruneNode_def counted_def Let_def delete_conv' update_conv')

lemma pruneNode_changed:
  "snd (snd (pruneNode now pids counts pid node)) \<longleftrightarrow>
     now - lastSeen node > REMOVE_MS \<or> pruned now pids (map_of counts pid) pid node \<noteq> node"
  by (cases node) (auto simp: pruneNode_def pruned_def Let_def DISCONNECT_HYSTERESIS_def)

definition prune_spec :: "int \<Rightarrow> string set \<Rightarrow> (string, nat) omap \<Rightarrow> (string, knownNode) omap \<Rightarrow>
    (string, knownNode) omap \<times> (string, nat) omap \<times> bool \<Rightarrow> bool" where
  "prune_spec now pids counts ns r \<longleftrightarrow>
     (\<forall>q. map_of (fst r) q = (case map_of ns q of
        None \<Rightarrow> None
      | Some node \<Rightarrow> if now - lastSeen node > REMOVE_MS then None else Some (pruned now pids (map_of counts q) q node))) \<and>
     (\<forall>q. map_of (fst (snd r)) q = (case map_of ns q of
        None \<Rightarrow> map_of counts q | Some node \<Rightarrow> counted now pids (map_of counts q) q node)) \<and>
     (snd (snd r) \<longleftrightarrow> (\<exists>p node. map_of ns p = Some node \<and>
        (now - lastSeen node > REMOVE_MS \<or> pruned now pids (map_of counts p) p node \<noteq> node))) \<and>
     fst ` set (fst r) \<subseteq> fst ` set ns \<and> distinct (map fst (fst r))"

lemma pruneNodes_spec: "distinct (map fst ns) \<Longrightarrow> prune_spec now pids counts ns (pruneNodes now pids counts ns)"
proof (induction ns arbitrary: counts)
  case (Cons x ns)
  obtain pid node where x: "x = (pid, node)" by fastforce
  obtain n c1 ch where b: "pruneNode now pids counts pid node = (n, c1, ch)" by (metis prod_cases3)
  have n: "n = (if now - lastSeen node > REMOVE_MS then None else Some (pruned now pids (map_of counts pid) pid node))"
    and c1: "map_of c1 r = (if r = pid then counted now pids (map_of counts pid) pid node else map_of counts r)"
    and ch: "ch \<longleftrightarrow> now - lastSeen node > REMOVE_MS \<or> pruned now pids (map_of counts pid) pid node \<noteq> node" for r
    using pruneNode_node [of now pids counts pid node] pruneNode_counts [of now pids counts pid node]
      pruneNode_changed [of now pids counts pid node] by (simp_all add: b)
  obtain ns' cs ch2 where r: "pruneNodes now pids c1 ns = (ns', cs, ch2)" by (metis prod_cases3)
  have d: "pid \<notin> fst ` set ns" "distinct (map fst ns)" using Cons.prems by (auto simp: x)
  have e: "pruneNodes now pids counts (x # ns) = ((case n of Some y \<Rightarrow> [(pid, y)] | None \<Rightarrow> []) @ ns', cs, ch \<or> ch2)"
    by (simp add: x b r)
  note IH = Cons.IH [OF d(2), of c1, unfolded r prune_spec_def fst_conv snd_conv]
  have none: "map_of ns pid = None" using d(1) by (simp add: map_of_eq_None_iff)
  have ns': "pid \<notin> fst ` set ns'" "map_of ns' pid = None" using IH d(1) unfolding map_of_eq_None_iff by blast+
  have other: "map_of c1 p = map_of counts p" if "map_of ns p \<noteq> None" for p using that none by (auto simp: c1)
  show ?case unfolding e prune_spec_def fst_conv snd_conv
  proof (intro conjI allI)
    fix q
    have q: "map_of ns' q = (case map_of ns q of None \<Rightarrow> None
      | Some node \<Rightarrow> if now - lastSeen node > REMOVE_MS then None else Some (pruned now pids (map_of c1 q) q node))"
      "map_of cs q = (case map_of ns q of None \<Rightarrow> map_of c1 q | Some node \<Rightarrow> counted now pids (map_of c1 q) q node)"
      using IH by blast+
    show "map_of ((case n of Some y \<Rightarrow> [(pid, y)] | None \<Rightarrow> []) @ ns') q = (case map_of (x # ns) q of None \<Rightarrow> None
      | Some node \<Rightarrow> if now - lastSeen node > REMOVE_MS then None else Some (pruned now pids (map_of counts q) q node))"
      using q(1) ns'(2) other [of q] by (cases "q = pid") (auto simp: x n split: option.splits)
    show "map_of cs q = (case map_of (x # ns) q of None \<Rightarrow> map_of counts q | Some node \<Rightarrow> counted now pids (map_of counts q) q node)"
      using q(2) none other [of q] by (cases "q = pid") (auto simp: x c1 split: option.splits)
  next
    have "ch2 \<longleftrightarrow> (\<exists>p node. map_of ns p = Some node \<and>
        (now - lastSeen node > REMOVE_MS \<or> pruned now pids (map_of counts p) p node \<noteq> node))"
      using IH other by (metis option.distinct(1))
    then show "(ch \<or> ch2) \<longleftrightarrow> (\<exists>p node. map_of (x # ns) p = Some node \<and>
        (now - lastSeen node > REMOVE_MS \<or> pruned now pids (map_of counts p) p node \<noteq> node))"
      using ch none by (simp add: x) (metis option.distinct(1))
    show "fst ` set ((case n of Some y \<Rightarrow> [(pid, y)] | None \<Rightarrow> []) @ ns') \<subseteq> fst ` set (x # ns)"
      using IH by (auto simp: x split: option.split)
    show "distinct (map fst ((case n of Some y \<Rightarrow> [(pid, y)] | None \<Rightarrow> []) @ ns'))"
      using IH ns'(1) by (auto split: option.split)
  qed
qed (simp add: prune_spec_def)

section \<open>What is in the registry\<close>

fun time_of :: "registryEvent \<Rightarrow> int" where
  "time_of (Caps _ now _) = now"
| "time_of (Tick now _) = now"

definition last_heard :: "registryEvent list \<Rightarrow> string \<Rightarrow> int option" where
  "last_heard evs p = foldl (\<lambda>t ev. case ev of Caps c now _ \<Rightarrow> if cpeer c = p then Some now else t | Tick _ _ \<Rightarrow> t) None evs"

lemma last_heard_snoc:
  "last_heard (evs @ [Tick now pids]) p = last_heard evs p"
  "last_heard (evs @ [Caps c now pids]) p = (if cpeer c = p then Some now else last_heard evs p)"
  by (simp_all add: last_heard_def)

definition registry_inv :: "registryEvent list \<Rightarrow> int \<Rightarrow> nodeRegistry \<Rightarrow> bool" where
  "registry_inv evs T s \<longleftrightarrow> distinct (map fst (rnodes s)) \<and>
     (\<forall>p node. map_of (rnodes s) p = Some node \<longrightarrow> kpeer node = p \<and> last_heard evs p = Some (lastSeen node) \<and>
        (staleNode node \<longrightarrow> T - lastSeen node > STALE_MS) \<and>
        map_of (disconnectCounts s) p \<in> (if connectedNode node then {None, Some 1} else {None, Some 2})) \<and>
     (\<forall>p t. last_heard evs p = Some t \<and> T - t \<le> REMOVE_MS \<longrightarrow> map_of (rnodes s) p \<noteq> None)"

lemma registry_inv_mono: "registry_inv evs T s \<Longrightarrow> T \<le> T' \<Longrightarrow> registry_inv evs T' s"
  unfolding registry_inv_def by (smt (verit))

lemma caps_inv:
  assumes "registry_inv evs T s" "T \<le> now"
  shows "registry_inv (evs @ [Caps c now pids]) now (fst (takeCaps s c now pids))"
proof -
  note I = registry_inv_mono [OF assms, unfolded registry_inv_def]
  have d: "distinct (map fst (AList.update (cpeer c) (nodeOf c now (cpeer c \<in> pids)) (rnodes s)))"
    using I by (simp add: distinct_update)
  show ?thesis using I d
    by (auto simp: registry_inv_def takeCaps_def Let_def update_conv' delete_conv' last_heard_snoc nodeOf_def)
qed

lemma pruned_fields [simp]:
  "lastSeen (pruned now pids c p node) = lastSeen node" "kpeer (pruned now pids c p node) = kpeer node"
  "staleNode (pruned now pids c p node) \<longleftrightarrow> staleNode node \<or> now - lastSeen node > STALE_MS"
  by (simp_all add: pruned_def)

lemma tick_fields:
  assumes "distinct (map fst (rnodes s))"
  shows "prune_spec now pids (disconnectCounts s) (rnodes s)
    (rnodes (fst (pruneTick s now pids)), disconnectCounts (fst (pruneTick s now pids)), snd (pruneTick s now pids))"
proof -
  obtain ns cs ch where "pruneNodes now pids (disconnectCounts s) (rnodes s) = (ns, cs, ch)" by (metis prod_cases3)
  then show ?thesis using pruneNodes_spec [OF assms, of now pids "disconnectCounts s"] by (simp add: pruneTick_def)
qed

lemma tick_find:
  assumes "distinct (map fst (rnodes s))"
  shows "map_of (rnodes (fst (pruneTick s now pids))) q = (case map_of (rnodes s) q of
        None \<Rightarrow> None
      | Some node \<Rightarrow> if now - lastSeen node > REMOVE_MS then None else Some (pruned now pids (map_of (disconnectCounts s) q) q node))"
    "map_of (disconnectCounts (fst (pruneTick s now pids))) q = (case map_of (rnodes s) q of
        None \<Rightarrow> map_of (disconnectCounts s) q | Some node \<Rightarrow> counted now pids (map_of (disconnectCounts s) q) q node)"
    "snd (pruneTick s now pids) \<longleftrightarrow> (\<exists>p node. map_of (rnodes s) p = Some node \<and>
        (now - lastSeen node > REMOVE_MS \<or> pruned now pids (map_of (disconnectCounts s) p) p node \<noteq> node))"
    "distinct (map fst (rnodes (fst (pruneTick s now pids))))"
  using tick_fields [OF assms, of now pids] unfolding prune_spec_def fst_conv snd_conv by blast+

lemma tick_inv:
  assumes "registry_inv evs T s" "T \<le> now"
  shows "registry_inv (evs @ [Tick now pids]) now (fst (pruneTick s now pids))"
proof -
  note I = registry_inv_mono [OF assms, unfolded registry_inv_def]
  note F = tick_find [of s now pids, OF conjunct1 [OF I]]
  show ?thesis unfolding registry_inv_def
  proof (intro conjI allI impI)
    show "distinct (map fst (rnodes (fst (pruneTick s now pids))))" by (rule F(4))
  next
    fix p node assume n: "map_of (rnodes (fst (pruneTick s now pids))) p = Some node"
    then obtain n0 where n0: "map_of (rnodes s) p = Some n0" "node = pruned now pids (map_of (disconnectCounts s) p) p n0"
      "now - lastSeen n0 \<le> REMOVE_MS"
      by (auto simp: F(1) split: option.splits if_splits)
    have i: "kpeer n0 = p" "last_heard evs p = Some (lastSeen n0)" "staleNode n0 \<longrightarrow> now - lastSeen n0 > STALE_MS"
      "map_of (disconnectCounts s) p \<in> (if connectedNode n0 then {None, Some 1} else {None, Some 2})"
      using I n0(1) by blast+
    show "kpeer node = p" "last_heard (evs @ [Tick now pids]) p = Some (lastSeen node)"
      "staleNode node \<Longrightarrow> STALE_MS < now - lastSeen node"
      using i by (auto simp: n0(2) last_heard_snoc)
    have "map_of (disconnectCounts (fst (pruneTick s now pids))) p = counted now pids (map_of (disconnectCounts s) p) p n0"
      by (simp add: F(2) n0(1))
    then show "map_of (disconnectCounts (fst (pruneTick s now pids))) p \<in> (if connectedNode node then {None, Some 1} else {None, Some 2})"
      using i(4) n0(3) by (auto simp: counted_def n0(2) pruned_def DISCONNECT_HYSTERESIS_def split: if_splits)
  next
    fix p t assume "last_heard (evs @ [Tick now pids]) p = Some t \<and> now - t \<le> REMOVE_MS"
    then have t: "last_heard evs p = Some t" "now - t \<le> REMOVE_MS" by (simp_all add: last_heard_snoc)
    then obtain node where n: "map_of (rnodes s) p = Some node" using I by blast
    then have "lastSeen node = t" using I t(1) by fastforce
    then show "map_of (rnodes (fst (pruneTick s now pids))) p \<noteq> None" using n t(2) by (simp add: F(1))
  qed
qed

lemma registry_run_inv:
  "sorted (map time_of evs) \<Longrightarrow> (\<forall>ev \<in> set evs. time_of ev \<le> T) \<Longrightarrow> registry_inv evs T (registry_run freshRegistry evs)"
proof (induction evs arbitrary: T rule: rev_induct)
  case Nil
  then show ?case by (simp add: registry_run_def freshRegistry_def registry_inv_def last_heard_def)
next
  case (snoc ev evs)
  have before: "registry_inv evs (time_of ev) (registry_run freshRegistry evs)"
    using snoc by (simp add: sorted_append)
  have run: "registry_run freshRegistry (evs @ [ev]) = fst (registry_step (registry_run freshRegistry evs) ev)"
    by (simp add: registry_run_def)
  have "registry_inv (evs @ [ev]) (time_of ev) (registry_run freshRegistry (evs @ [ev]))"
    unfolding run using caps_inv [OF before] tick_inv [OF before] by (cases ev) auto
  then show ?case using registry_inv_mono snoc.prems(2) by auto
qed

text \<open>
  After a pruning the registry has exactly the nodes whose last broadcast is at most five minutes old, and greys exactly
  those whose last broadcast is older than two and a half; a node is shown as disconnected at the second check in a row
  that finds no connection, not at the first.
\<close>

theorem registry_exact:
  assumes "sorted (map time_of (evs @ [Tick now pids]))" "s0 = registry_run freshRegistry evs"
    "s = registry_run freshRegistry (evs @ [Tick now pids])"
  shows "(\<forall>p. map_of (rnodes s) p \<noteq> None \<longleftrightarrow> (\<exists>t. last_heard evs p = Some t \<and> now - t \<le> REMOVE_MS)) \<and>
    (\<forall>p node. map_of (rnodes s) p = Some node \<longrightarrow> last_heard evs p = Some (lastSeen node) \<and>
      (staleNode node \<longleftrightarrow> now - lastSeen node > STALE_MS)) \<and>
    (\<forall>p node n0. map_of (rnodes s) p = Some node \<and> map_of (rnodes s0) p = Some n0 \<longrightarrow>
      (p \<in> pids \<longrightarrow> connectedNode node) \<and>
      (p \<notin> pids \<and> connectedNode n0 \<and> map_of (disconnectCounts s0) p = None \<longrightarrow> connectedNode node \<and>
        (\<forall>now2 pids2 n2. p \<notin> pids2 \<and> map_of (rnodes (fst (pruneTick s now2 pids2))) p = Some n2 \<longrightarrow> \<not> connectedNode n2)))"
proof -
  have i0: "registry_inv evs now s0" unfolding assms(2) using registry_run_inv [of evs now] assms(1) by (simp add: sorted_append)
  have s: "s = fst (pruneTick s0 now pids)" by (simp add: assms(2,3) registry_run_def)
  have i: "registry_inv (evs @ [Tick now pids]) now s" unfolding s by (rule tick_inv [OF i0 order.refl])
  note I0 = i0 [unfolded registry_inv_def] and I = i [unfolded registry_inv_def last_heard_snoc]
  note F = tick_find [of s0 now pids, OF conjunct1 [OF I0], folded s]
  note F2 = tick_find [of s _ _, OF conjunct1 [OF I]]
  have 1: "map_of (rnodes s) p \<noteq> None \<longleftrightarrow> (\<exists>t. last_heard evs p = Some t \<and> now - t \<le> REMOVE_MS)" for p
  proof
    assume "map_of (rnodes s) p \<noteq> None"
    then obtain n0 where "map_of (rnodes s0) p = Some n0" "now - lastSeen n0 \<le> REMOVE_MS"
      by (auto simp: F(1) split: option.splits if_splits)
    then show "\<exists>t. last_heard evs p = Some t \<and> now - t \<le> REMOVE_MS" using I0 by blast
  qed (use I in blast)
  have 2: "last_heard evs p = Some (lastSeen node) \<and> (staleNode node \<longleftrightarrow> now - lastSeen node > STALE_MS)"
    if "map_of (rnodes s) p = Some node" for p node
    using I that F(1) [of p] by (auto split: option.splits if_splits)
  have 3: "connectedNode node" if "map_of (rnodes s) p = Some node" "p \<in> pids" for p node
    using that by (auto simp: F(1) pruned_def split: option.splits if_splits)
  have 4: "connectedNode node \<and>
        (\<forall>now2 pids2 n2. p \<notin> pids2 \<and> map_of (rnodes (fst (pruneTick s now2 pids2))) p = Some n2 \<longrightarrow> \<not> connectedNode n2)"
    if "map_of (rnodes s) p = Some node" "map_of (rnodes s0) p = Some n0" "p \<notin> pids" "connectedNode n0" "map_of (disconnectCounts s0) p = None"
    for p node n0
  proof -
    have n: "node = pruned now pids None p n0" "\<not> now - lastSeen n0 > REMOVE_MS" using that(1,2,5) by (simp_all add: F(1) split: if_splits)
    then have "connectedNode node" "map_of (disconnectCounts s) p = Some 1"
      using that(2-5) by (simp_all add: F(2) pruned_def counted_def DISCONNECT_HYSTERESIS_def)
    then show ?thesis using that(1) by (auto simp: F2(1) pruned_def DISCONNECT_HYSTERESIS_def split: if_splits)
  qed
  show ?thesis using 1 2 3 4 by blast
qed

theorem registry_exact_witness:
  "(\<forall>p. map_of (rnodes (registry_run freshRegistry ([Caps \<lparr>cpeer = ''n'', croles = [], cneighbors = None, cbrowsers = None, caddrs = None, chttp = None\<rparr> 0 {''n''}] @
     [Tick 200000 {}]))) p \<noteq> None \<longleftrightarrow> p = ''n'')"
proof -
  let ?c = "Caps \<lparr>cpeer = ''n'', croles = [], cneighbors = None, cbrowsers = None, caddrs = None, chttp = None\<rparr> 0 {''n''}"
  have "sorted (map time_of ([?c] @ [Tick 200000 {}]))" by simp
  from conjunct1 [OF registry_exact [OF this refl refl]] show ?thesis
    by (simp add: last_heard_def REMOVE_MS_def)
qed

section \<open>Notifications\<close>

text \<open>What the listeners can see of a node: all but the time of its last broadcast.\<close>

definition visible :: "knownNode \<Rightarrow> knownNode" where
  "visible node = node\<lparr>lastSeen := 0\<rparr>"

definition shown :: "nodeRegistry \<Rightarrow> string \<Rightarrow> knownNode option" where
  "shown s p = map_option visible (map_of (rnodes s) p)"

fun primitive :: "json \<Rightarrow> bool" where
  "primitive (JArray _) = False"
| "primitive (JObject _) = False"
| "primitive _ = True"

lemma strictEq_iff: "primitive b \<Longrightarrow> strictEq a b \<longleftrightarrow> a = b"
  by (cases a; cases b) simp_all

lemma strict_all: "list_all primitive b \<Longrightarrow> list_all2 strictEq a b \<longleftrightarrow> a = b"
proof (induction b arbitrary: a)
  case (Cons x b)
  then show ?case by (cases a) (simp_all add: strictEq_iff)
qed simp

lemma rolesEqual_iff: "list_all primitive b \<Longrightarrow> rolesEqual a b \<longleftrightarrow> a = b"
  by (auto simp: rolesEqual_def strict_all)

lemma neighborsEqual_iff: "neighborsEqual a b \<longleftrightarrow> a = b"
proof -
  have "(\<lambda>x y :: neighbor. npeer x = npeer y \<and> nrole x = nrole y) = (=)"
    by (auto simp: fun_eq_iff intro: neighbor.equality)
  then show ?thesis by (auto simp: neighborsEqual_def simp flip: list_all2_eq)
qed

lemma addrsEqual_iff: "addrsEqual a b \<longleftrightarrow> a = b"
  by (auto simp: addrsEqual_def simp flip: list_all2_eq)

lemma visible_eq: "visible a = visible b \<longleftrightarrow> kpeer a = kpeer b \<and> kroles a = kroles b \<and> connectedNode a = connectedNode b \<and>
  staleNode a = staleNode b \<and> kneighbors a = kneighbors b \<and> kbrowsers a = kbrowsers b \<and> kaddrs a = kaddrs b \<and> khttp a = khttp b"
  by (cases a; cases b) (auto simp: visible_def)

text \<open>
  The listeners are notified exactly when something they can see has changed, as long as roles are what they ought to be:
  a broadcast whose roles contain an object or an array is taken for a change every time.
\<close>

theorem changes_notified:
  assumes "sorted (map time_of evs)" "s = registry_run freshRegistry evs"
    "case ev of Caps c _ _ \<Rightarrow> list_all primitive (croles c) | Tick _ _ \<Rightarrow> True"
  shows "snd (registry_step s ev) \<longleftrightarrow> shown (fst (registry_step s ev)) \<noteq> shown s"
proof -
  obtain T where i: "registry_inv evs T s"
    using registry_run_inv [OF assms(1), of "Max (insert 0 (time_of ` set evs))"] assms(2) by force
  note I = i [unfolded registry_inv_def]
  show ?thesis
  proof (cases ev)
    case (Caps c now pids)
    have "shown (fst (takeCaps s c now pids)) q = (if q = cpeer c then Some (visible (nodeOf c now (cpeer c \<in> pids))) else shown s q)" for q
      by (simp add: shown_def takeCaps_def Let_def update_conv')
    then have "shown (fst (takeCaps s c now pids)) \<noteq> shown s \<longleftrightarrow> shown s (cpeer c) \<noteq> Some (visible (nodeOf c now (cpeer c \<in> pids)))"
      by (metis ext)
    moreover have key: "map_of (rnodes s) (cpeer c) = Some n \<Longrightarrow> kpeer n = cpeer c" for n using I by blast
    have "capsChanged (map_of (rnodes s) (cpeer c)) c (cpeer c \<in> pids) \<longleftrightarrow>
        shown s (cpeer c) \<noteq> Some (visible (nodeOf c now (cpeer c \<in> pids)))"
      using key assms(3) by (auto simp: Caps capsChanged_def shown_def visible_eq nodeOf_def rolesEqual_iff neighborsEqual_iff addrsEqual_iff split: option.split)
    ultimately show ?thesis by (simp add: Caps takeCaps_def Let_def)
  next
    case (Tick now pids)
    note F = tick_find [of s now pids, OF conjunct1 [OF I]]
    have v: "visible (pruned now pids c p node) = visible node \<longleftrightarrow> pruned now pids c p node = node" for c p node
      by (cases node) (auto simp: visible_def pruned_def)
    have "shown (fst (pruneTick s now pids)) p \<noteq> shown s p \<longleftrightarrow> (\<exists>node. map_of (rnodes s) p = Some node \<and>
        (now - lastSeen node > REMOVE_MS \<or> pruned now pids (map_of (disconnectCounts s) p) p node \<noteq> node))" for p
      by (auto simp: shown_def F(1) v split: option.split)
    then have "shown (fst (pruneTick s now pids)) \<noteq> shown s \<longleftrightarrow> snd (pruneTick s now pids)"
      unfolding F(3) by (metis ext)
    then show ?thesis by (simp add: Tick)
  qed
qed

theorem changes_notified_witness:
  "snd (registry_step freshRegistry (Caps \<lparr>cpeer = ''n'', croles = [JString ''relay''], cneighbors = None, cbrowsers = None, caddrs = None, chttp = None\<rparr> 0 {})) \<longleftrightarrow>
   shown (fst (registry_step freshRegistry (Caps \<lparr>cpeer = ''n'', croles = [JString ''relay''], cneighbors = None, cbrowsers = None, caddrs = None, chttp = None\<rparr> 0 {}))) \<noteq> shown freshRegistry"
  by (rule changes_notified [of "[]"]) (simp_all add: registry_run_def)

end
