(* ===== verification/Topology.thy ===== *)
theory Topology
  imports Node_Registry "HOL-Library.List_Lexorder" "HOL-Library.Char_ord"
begin

text \<open>
  The graph of the network that a document shows (\<open>packages/core/src/topology-graph.ts\<close>): nodes and edges merged from the
  diagnostics, the neighbours that nodes report and the awareness states of the other browsers.  The states are those of
  their declared types; the fields that the code checks at run time are parsed values.
\<close>

section \<open>Types\<close>

datatype nodeKind = KSelf | KRelay | KPinner | KRelayPinner | KBrowser

record topologyNode =
  tid :: string
  tkind :: nodeKind
  tlabel :: string
  tconnected :: bool
  troles :: "json list"
  tclient :: "nat option"
  tacked :: "bool option"
  tbrowsers :: "int option"

record topologyEdge =
  esource :: string
  etarget :: string
  econnected :: bool

record diagNode =
  dpeer :: string
  dshort :: string
  dconnected :: bool
  droles :: "json list"
  dacked :: bool
  dbrowsers :: "int option"

record knownInfo =
  iPeer :: "json option"
  iRoles :: "json option"
  iBrowsers :: "int option"

record awarenessTopology =
  knownInfos :: "knownInfo list option"
  connectedRelays :: "string list option"
  relayRoles :: "(string \<rightharpoonup> json list) option"

record awarenessState =
  userName :: "string option"
  topologyField :: "awarenessTopology option"

definition nodeKindOf :: "json list \<Rightarrow> nodeKind" where
  "nodeKindOf roles =
     (let isPinner = JString ''pinner'' \<in> set roles; isRelay = JString ''relay'' \<in> set roles
      in if isPinner \<and> isRelay then KRelayPinner else if isPinner then KPinner else if isRelay then KRelay else KBrowser)"

section \<open>Edges\<close>

text \<open>The key has the endpoints in order, with a \<^verbatim>\<open>NUL\<close> between them.\<close>

definition edgeKey :: "string \<Rightarrow> string \<Rightarrow> string" where
  "edgeKey source target = (if source < target then source @ [CHR 0x00] @ target else target @ [CHR 0x00] @ source)"

definition addEdge :: "(string, topologyEdge) omap \<Rightarrow> string \<Rightarrow> string \<Rightarrow> bool \<Rightarrow> (string, topologyEdge) omap" where
  "addEdge edges source target isConnected =
     (let key = edgeKey source target
      in case map_of edges key of
          Some prev \<Rightarrow> if isConnected \<and> \<not> econnected prev then AList.update key (prev\<lparr>econnected := True\<rparr>) edges else edges
        | None \<Rightarrow> AList.update key \<lparr>esource = source, etarget = target, econnected = isConnected\<rparr> edges)"

section \<open>The graph\<close>

record graphState =
  gnodes :: "topologyNode list"
  seenIds :: "string list"
  gedges :: "(string, topologyEdge) omap"

definition lastChars :: "nat \<Rightarrow> string \<Rightarrow> string" where
  "lastChars n s = drop (length s - n) s"

definition startGraph :: graphState where
  "startGraph = \<lparr>gnodes = [\<lparr>tid = ''_self'', tkind = KSelf, tlabel = ''You'', tconnected = True, troles = [], tclient = None,
     tacked = None, tbrowsers = None\<rparr>], seenIds = [], gedges = []\<rparr>"

definition addDiagNode :: "graphState \<Rightarrow> diagNode \<Rightarrow> graphState" where
  "addDiagNode g n = g\<lparr>seenIds := List.insert (dpeer n) (seenIds g),
     gnodes := gnodes g @ [\<lparr>tid = dpeer n, tkind = nodeKindOf (droles n), tlabel = ''...'' @ dshort n, tconnected = dconnected n,
       troles = droles n, tclient = None, tacked = Some (dacked n), tbrowsers = dbrowsers n\<rparr>],
     gedges := addEdge (gedges g) ''_self'' (dpeer n) (dconnected n)\<rparr>"

definition addInfraNode :: "graphState \<Rightarrow> string \<Rightarrow> json list \<Rightarrow> int option \<Rightarrow> graphState" where
  "addInfraNode g peer roles browsers =
     (if peer \<in> set (seenIds g) then g
      else g\<lparr>seenIds := List.insert peer (seenIds g),
        gnodes := gnodes g @ [\<lparr>tid = peer, tkind = nodeKindOf roles, tlabel = ''...'' @ lastChars 8 peer, tconnected = False,
          troles = roles, tclient = None, tacked = None, tbrowsers = browsers\<rparr>]\<rparr>)"

definition addKnown :: "graphState \<Rightarrow> knownInfo \<Rightarrow> graphState" where
  "addKnown g kn = (case (iPeer kn, iRoles kn) of
      (Some (JString p), Some (JArray roles)) \<Rightarrow> addInfraNode g p roles (iBrowsers kn)
    | _ \<Rightarrow> g)"

definition mergeKnown :: "nat \<Rightarrow> graphState \<Rightarrow> nat \<times> awarenessState option \<Rightarrow> graphState" where
  "mergeKnown me g entry = (case entry of
      (_, None) \<Rightarrow> g
    | (client, Some st) \<Rightarrow>
        if client = me then g
        else (case topologyField st of
            None \<Rightarrow> g
          | Some topo \<Rightarrow> foldl addKnown g (case knownInfos topo of Some ks \<Rightarrow> ks | None \<Rightarrow> [])))"

fun natString :: "nat \<Rightarrow> string" where
  "natString n = (if n < 10 then [char_of (48 + n)] else natString (n div 10) @ [char_of (48 + n mod 10)])"

declare natString.simps [simp del]

definition awarenessId :: "nat \<Rightarrow> string" where
  "awarenessId client = ''awareness:'' @ natString client"

definition addRelay :: "string \<Rightarrow> awarenessTopology \<Rightarrow> graphState \<Rightarrow> string \<Rightarrow> graphState" where
  "addRelay peer topo g relay =
     (let roles = (case relayRoles topo of Some rr \<Rightarrow> (case rr relay of Some r \<Rightarrow> r | None \<Rightarrow> []) | None \<Rightarrow> []);
          g1 = addInfraNode g relay roles None
      in g1\<lparr>gedges := addEdge (gedges g1) peer relay True\<rparr>)"

definition addBrowser :: "nat \<Rightarrow> graphState \<Rightarrow> nat \<times> awarenessState option \<Rightarrow> graphState" where
  "addBrowser me g entry = (case entry of
      (_, None) \<Rightarrow> g
    | (client, Some st) \<Rightarrow>
        if client = me then g
        else
          let peer = awarenessId client;
              g1 = g\<lparr>gnodes := gnodes g @ [\<lparr>tid = peer, tkind = KBrowser,
                tlabel = (case userName st of Some n \<Rightarrow> n | None \<Rightarrow> ''Peer '' @ natString client), tconnected = True, troles = [],
                tclient = Some client, tacked = None, tbrowsers = None\<rparr>]\<rparr>
          in (case topologyField st of
              None \<Rightarrow> g1
            | Some topo \<Rightarrow> foldl (addRelay peer topo) g1 (case connectedRelays topo of Some rs \<Rightarrow> rs | None \<Rightarrow> [])))"

definition buildTopologyGraph :: "diagNode list \<Rightarrow> (string \<times> string) list \<Rightarrow> (nat \<times> awarenessState option) list \<Rightarrow> nat \<Rightarrow>
    topologyNode list \<times> topologyEdge list" where
  "buildTopologyGraph infoNodes topology states me =
     (let g1 = foldl addDiagNode startGraph infoNodes;
          g2 = foldl (\<lambda>g (source, target). g\<lparr>gedges := addEdge (gedges g) source target True\<rparr>) g1 topology;
          g3 = foldl (mergeKnown me) g2 states;
          g4 = foldl (addBrowser me) g3 states
      in (gnodes g4, map snd (gedges g4)))"

section \<open>Edges as pairs\<close>

definition plain :: "string \<Rightarrow> bool" where
  "plain s \<longleftrightarrow> CHR 0x00 \<notin> set s"

lemma key_split:
  assumes "plain a" "plain c" "a @ [CHR 0x00] @ b = c @ [CHR 0x00] @ d"
  shows "a = c \<and> b = d"
proof -
  have t: "takeWhile (\<lambda>x. x \<noteq> CHR 0x00) (u @ [CHR 0x00] @ v) = u" if "plain u" for u v
    using that unfolding plain_def by (subst takeWhile_append2) auto
  have "a = c" using t [OF assms(1), of b] t [OF assms(2), of d] unfolding assms(3) by (rule trans [OF sym])
  then show ?thesis using assms(3) by simp
qed

lemma edgeKey_min: "edgeKey a b = min a b @ [CHR 0x00] @ max a b"
  by (auto simp: edgeKey_def min_def max_def)

lemma edgeKey_eq:
  assumes "plain a" "plain b" "plain c" "plain d"
  shows "edgeKey a b = edgeKey c d \<longleftrightarrow> {a, b} = {c, d}"
proof -
  have p: "plain (min a b)" "plain (min c d)" using assms by (simp_all add: min_def)
  have "edgeKey a b = edgeKey c d \<longleftrightarrow> min a b = min c d \<and> max a b = max c d"
  proof
    assume "edgeKey a b = edgeKey c d"
    then show "min a b = min c d \<and> max a b = max c d" unfolding edgeKey_min by (rule key_split [OF p])
  qed (simp add: edgeKey_min)
  also have "\<dots> \<longleftrightarrow> {a, b} = {c, d}"
    by (cases "a \<le> b"; cases "c \<le> d") (auto simp: doubleton_eq_iff min_absorb1 min_absorb2 max_absorb1 max_absorb2 dest: not_le_imp_less less_imp_le)
  finally show ?thesis .
qed

text \<open>Every call of \<open>addEdge\<close>, in order.\<close>

type_synonym mention = "string \<times> string \<times> bool"

definition others :: "nat \<Rightarrow> (nat \<times> awarenessState option) list \<Rightarrow> (nat \<times> awarenessTopology) list" where
  "others me states = concat (map (\<lambda>(c, st). case st of
     Some x \<Rightarrow> (case topologyField x of Some topo \<Rightarrow> if c = me then [] else [(c, topo)] | None \<Rightarrow> []) | None \<Rightarrow> []) states)"

definition relay_mentions :: "nat \<times> awarenessTopology \<Rightarrow> mention list" where
  "relay_mentions = (\<lambda>(c, topo). map (\<lambda>r. (awarenessId c, r, True)) (case connectedRelays topo of Some rs \<Rightarrow> rs | None \<Rightarrow> []))"

definition mentions :: "diagNode list \<Rightarrow> (string \<times> string) list \<Rightarrow> (nat \<times> awarenessState option) list \<Rightarrow> nat \<Rightarrow> mention list" where
  "mentions infoNodes topology states me =
     map (\<lambda>n. (''_self'', dpeer n, dconnected n)) infoNodes @ map (\<lambda>(s, t). (s, t, True)) topology @
     concat (map relay_mentions (others me states))"

definition addMention :: "(string, topologyEdge) omap \<Rightarrow> mention \<Rightarrow> (string, topologyEdge) omap" where
  "addMention es m = (case m of (s, t, c) \<Rightarrow> addEdge es s t c)"

definition edges_ok :: "mention list \<Rightarrow> (string, topologyEdge) omap \<Rightarrow> bool" where
  "edges_ok ms es \<longleftrightarrow> distinct (map fst es) \<and>
     (\<forall>k e. map_of es k = Some e \<longrightarrow> k = edgeKey (esource e) (etarget e) \<and> (\<exists>c. (esource e, etarget e, c) \<in> set ms) \<and>
        (econnected e \<longleftrightarrow> (\<exists>s t. (s, t, True) \<in> set ms \<and> edgeKey s t = k))) \<and>
     (\<forall>(s, t, c) \<in> set ms. map_of es (edgeKey s t) \<noteq> None)"

lemma edges_ok_step:
  assumes "edges_ok ms es"
  shows "edges_ok (ms @ [m]) (addMention es m)"
proof -
  obtain s t c where m: "m = (s, t, c)" by (metis prod_cases3)
  define k where "k = edgeKey s t"
  define e' where "e' = (case map_of es k of
      Some prev \<Rightarrow> if c \<and> \<not> econnected prev then prev\<lparr>econnected := True\<rparr> else prev
    | None \<Rightarrow> \<lparr>esource = s, etarget = t, econnected = c\<rparr>)"
  have f: "map_of (addMention es m) = (map_of es)(k \<mapsto> e')"
    by (auto simp: addMention_def m addEdge_def Let_def e'_def k_def update_conv' fun_upd_idem split: option.split)
  have d: "distinct (map fst (addMention es m))"
    using assms by (auto simp: addMention_def m addEdge_def Let_def edges_ok_def distinct_update split: option.split)
  have e': "edgeKey (esource e') (etarget e') = k" "\<exists>c. (esource e', etarget e', c) \<in> set (ms @ [m])"
    "econnected e' \<longleftrightarrow> (\<exists>s t. (s, t, True) \<in> set (ms @ [m]) \<and> edgeKey s t = k)"
  proof -
    have "edgeKey (esource e') (etarget e') = k \<and> (\<exists>c. (esource e', etarget e', c) \<in> set (ms @ [m])) \<and>
      (econnected e' \<longleftrightarrow> (\<exists>s t. (s, t, True) \<in> set (ms @ [m]) \<and> edgeKey s t = k))"
    proof (cases "map_of es k")
      case None
      have "edgeKey s' t' \<noteq> k" if "(s', t', c') \<in> set ms" for s' t' c'
        using assms None that unfolding edges_ok_def by fastforce
      moreover have "e' = \<lparr>esource = s, etarget = t, econnected = c\<rparr>" by (simp add: e'_def None)
      ultimately show ?thesis by (auto simp: m k_def)
    next
      case (Some prev)
      have p: "k = edgeKey (esource prev) (etarget prev)" "\<exists>c. (esource prev, etarget prev, c) \<in> set ms"
        "econnected prev \<longleftrightarrow> (\<exists>s t. (s, t, True) \<in> set ms \<and> edgeKey s t = k)"
        using assms Some unfolding edges_ok_def by blast+
      moreover have "e' = (if c \<and> \<not> econnected prev then prev\<lparr>econnected := True\<rparr> else prev)" by (simp add: e'_def Some)
      moreover have "edgeKey s t = k" by (simp add: k_def)
      ultimately show ?thesis by (cases c) (auto simp: m)
    qed
    then show "edgeKey (esource e') (etarget e') = k" "\<exists>c. (esource e', etarget e', c) \<in> set (ms @ [m])"
      "econnected e' \<longleftrightarrow> (\<exists>s t. (s, t, True) \<in> set (ms @ [m]) \<and> edgeKey s t = k)" by blast+
  qed
  have old: "k' = edgeKey (esource e) (etarget e) \<and> (\<exists>c. (esource e, etarget e, c) \<in> set (ms @ [m])) \<and>
        (econnected e \<longleftrightarrow> (\<exists>s t. (s, t, True) \<in> set (ms @ [m]) \<and> edgeKey s t = k'))"
    if "map_of es k' = Some e" "k' \<noteq> k" for k' e
  proof -
    have "k' = edgeKey (esource e) (etarget e)" "\<exists>c. (esource e, etarget e, c) \<in> set ms"
      "econnected e \<longleftrightarrow> (\<exists>s t. (s, t, True) \<in> set ms \<and> edgeKey s t = k')"
      using assms that(1) unfolding edges_ok_def by blast+
    then show ?thesis using that(2) by (auto simp: m k_def)
  qed
  have all: "map_of es (edgeKey s' t') \<noteq> None" if "(s', t', c') \<in> set ms" for s' t' c'
    using assms that unfolding edges_ok_def by fastforce
  show ?thesis unfolding edges_ok_def
  proof (intro conjI allI impI)
    fix k2 e assume "map_of (addMention es m) k2 = Some e"
    then have "k2 = k \<and> e = e' \<or> k2 \<noteq> k \<and> map_of es k2 = Some e" by (auto simp: f split: if_splits)
    then show "k2 = edgeKey (esource e) (etarget e)" "\<exists>c. (esource e, etarget e, c) \<in> set (ms @ [m])"
      "econnected e \<longleftrightarrow> (\<exists>s t. (s, t, True) \<in> set (ms @ [m]) \<and> edgeKey s t = k2)"
      using e' old by metis+
  next
    show "\<forall>(s, t, c) \<in> set (ms @ [m]). map_of (addMention es m) (edgeKey s t) \<noteq> None"
      unfolding f using all by (auto simp: m k_def)
  qed (rule d)
qed

lemma edges_ok_fold: "edges_ok ms (foldl addMention [] ms)"
proof (induction ms rule: rev_induct)
  case (snoc m ms)
  then show ?case using edges_ok_step by simp
qed (simp add: edges_ok_def)

end
