(* ===== verification/Spec2Isabelle.thy ===== *)
theory Spec2Isabelle
  imports Channel Session Coordinator Ingest Snapshot_Exchange Block_Resolver Capability_Url Gossip Node_Gossip Relay_Net Peer_Retries Topology
begin

text \<open>
  A verification development for pokapali, a library for collaborative documents that are edited offline, synchronised
  between peers over data channels and published as chains of encrypted, signed snapshots.

  \<^bold>\<open>The program and its theories.\<close>

  \<^item> \<^verbatim>\<open>Prelude\<close>: thrown errors as values, bytes, the insertion-ordered map of JavaScript
    as an association list, and the locales of state machines that keep an invariant or implement an abstract machine.
  \<^item> \<^verbatim>\<open>Finger_Tree\<close>, \<^verbatim>\<open>Finger_Ops\<close> (\<^verbatim>\<open>packages/finger-tree/src\<close>): the persistent sequence every channel is kept in:
    types, cached measures, deque operations, folds, split and concatenation.
  \<^item> \<^verbatim>\<open>History\<close> (\<^verbatim>\<open>packages/document/src/history\<close>): edits, epochs, their summaries, merging, splitting at a snapshot and
    backfilling.  \<^verbatim>\<open>View\<close> (\<^verbatim>\<open>view.ts\<close>, \<^verbatim>\<open>fingerprint\<close>, \<^verbatim>\<open>state\<close>): monoidal views with a cache keyed by tree nodes.
    \<^verbatim>\<open>Channel\<close> (\<^verbatim>\<open>feed\<close>, \<^verbatim>\<open>registry\<close>, \<^verbatim>\<open>channel\<close>): a channel with its tree, its registry of activated views and their feeds.
  \<^item> \<^verbatim>\<open>Merkle_Trie\<close>, \<^verbatim>\<open>Wire\<close>, \<^verbatim>\<open>Session\<close>, \<^verbatim>\<open>Snapshot_Exchange\<close> (\<^verbatim>\<open>packages/sync/src/reconciliation\<close>): the trie of edit hashes,
    the encoding of messages and frames, the session that finds the missing edits, and the exchange of snapshot blocks.
  \<^item> \<^verbatim>\<open>Facts\<close>, \<^verbatim>\<open>Reducers\<close>, \<^verbatim>\<open>Doc_State\<close>, \<^verbatim>\<open>Interpreter\<close> (\<^verbatim>\<open>packages/core/src\<close>: \<^verbatim>\<open>facts.ts\<close>, \<^verbatim>\<open>doc-status.ts\<close>, \<^verbatim>\<open>reducers.ts\<close>,
    \<^verbatim>\<open>interpreter.ts\<close>): the stream of facts, the state they reduce to, what is derived from it, and the effects of one
    turn of the interpreter.
  \<^item> \<^verbatim>\<open>Blocks\<close> (\<^verbatim>\<open>packages/blocks\<close>, \<^verbatim>\<open>packages/crypto\<close>): encryption, signing and decoding of snapshots, the walk of the chain.
    \<^verbatim>\<open>Bounded_Store\<close>: the LRU cache (\<^verbatim>\<open>packages/protocol/src/lru-cache.ts\<close>) and the sideband of pending snapshots, two instances
    of one contract.  \<^verbatim>\<open>Ingest\<close> (\<^verbatim>\<open>ingest-snapshot.ts\<close>, \<^verbatim>\<open>snapshot-codec.ts\<close>, \<^verbatim>\<open>snapshot-ops.ts\<close>): the one way in for snapshots.
    \<^verbatim>\<open>Block_Resolver\<close> (\<^verbatim>\<open>doc-block-resolver.ts\<close>, \<^verbatim>\<open>fetch-block.ts\<close>): memory, block store and network tiers of blocks.
  \<^item> \<^verbatim>\<open>Capability_Url\<close> (\<^verbatim>\<open>packages/capability\<close>, \<^verbatim>\<open>packages/document/src/capability\<close>): what a credential permits and the URLs that
    carry it.
  \<^item> \<^verbatim>\<open>Coordinator\<close> (\<^verbatim>\<open>coordinator.ts\<close>, \<^verbatim>\<open>edit-resolver.ts\<close>, \<^verbatim>\<open>epoch/sign-edit.ts\<close>, \<^verbatim>\<open>reconciliation-wiring.ts\<close>): which edits a document
    offers, signs and trusts, and the sessions that a coordinator keeps with a peer.
  \<^item> \<^verbatim>\<open>Retention\<close> (\<^verbatim>\<open>packages/node/src/history.ts\<close>, \<^verbatim>\<open>rate-limiter.ts\<close>, \<^verbatim>\<open>new-name-limiter.ts\<close>), \<^verbatim>\<open>Schedule_Heap\<close> (\<^verbatim>\<open>pinner.ts\<close>),
    \<^verbatim>\<open>Pinner_Store\<close> (\<^verbatim>\<open>pinner-store.ts\<close>), \<^verbatim>\<open>Announce\<close> (\<^verbatim>\<open>packages/core/src/announce.ts\<close>): what a pinner keeps of the history of a
    document, its limits, its heap of announcements, its keys in the datastore, and the messages it sends and hears.
    \<^verbatim>\<open>Pinner\<close> is the pinner itself (\<^verbatim>\<open>pinner.ts\<close>, \<^verbatim>\<open>state.ts\<close>); \<^verbatim>\<open>Pinner_Facts\<close>, \<^verbatim>\<open>Pinner_Restart\<close> and \<^verbatim>\<open>Pinner_Promises\<close> are its
    invariant, its restart after a crash, and what becomes of its guarantees.
  \<^item> \<^verbatim>\<open>Gossip\<close> (\<^verbatim>\<open>doc-gossip-bridge.ts\<close>, \<^verbatim>\<open>verify-cid.ts\<close>) and \<^verbatim>\<open>Node_Gossip\<close> (\<^verbatim>\<open>packages/node/bin/node.ts\<close>): the messages of the
    announcement topic as a document and as a pinner take them.
  \<^item> \<^verbatim>\<open>Signalling\<close>, \<^verbatim>\<open>Relay\<close>, \<^verbatim>\<open>Relay_Net\<close> (\<^verbatim>\<open>packages/node/src/signaling\<close>, \<^verbatim>\<open>packages/sync/src/signaling/client.ts\<close>): messages,
    frames, the relay with its registry and its forwarder, and the client.  \<^verbatim>\<open>Peer_Connection\<close>, \<^verbatim>\<open>Peer_Retries\<close>
    (\<^verbatim>\<open>peer-connection.ts\<close>): the manager of WebRTC connections and its retries.

  \<^bold>\<open>How they interact.\<close>  A local edit is appended to a channel, whose hash goes into the trie of the next session with a
  peer; what the session delivers is appended on the other side.  A published or announced snapshot becomes a fact; the
  interpreter fetches its block through the resolver and applies the newest one through the ingestion, whose outcome is
  a fact again.  Snapshot blocks also arrive by the exchange.  A pinner hears the announcements, stores the blocks,
  acknowledges them with a guarantee, which reaches the state of the document as facts, and announces the newest block
  again on a schedule.  Peers find each other through relays and open the connections that the sessions run over.

  \<^bold>\<open>State and effects.\<close>  A class or closure of the code is a record with the fields of its state, a method a function
  from the state to the new state and its results.  A callback is a value in a list of outputs, or an entry of a log.
  An \<^verbatim>\<open>async\<close> function is cut where it awaits, so that other operations can come between its pieces (\<^verbatim>\<open>Ingest\<close>,
  \<^verbatim>\<open>Block_Resolver\<close>, \<^verbatim>\<open>Snapshot_Exchange\<close>, \<^verbatim>\<open>Pinner\<close>, \<^verbatim>\<open>Peer_Connection\<close>).  A thrown error is the left value of a sum.  Byte arrays are
  lists of 8-bit words.  A timer is an entry of the state that an event fires; the time is an argument.

  \<^bold>\<open>Parameters.\<close>  What is not in the repository is an argument: the primitive coders of lib0 (\<^verbatim>\<open>Wire\<close>), DAG-CBOR, AES-GCM
  and Ed25519 (record \<^verbatim>\<open>crypto\<close>), SHA-256, the block store, pinners and bitswap (record \<^verbatim>\<open>net\<close>), the import of keys, JSON
  (record \<^verbatim>\<open>json_codec\<close>), the datastore of the pinner, Helia and the clock (record \<^verbatim>\<open>pinnerEnv\<close>), CIDs and their hashes (record
  \<^verbatim>\<open>genv\<close>).  What they document is a named hypothesis (\<^verbatim>\<open>wire_ok\<close>, \<^verbatim>\<open>crypto_ok\<close>, \<^verbatim>\<open>json_ok\<close>, \<^verbatim>\<open>datastore_ok\<close>) that the witnesses
  instantiate with concrete functions.

  \<^bold>\<open>What the lemmas show.\<close>  Each property of the manifest has the label of its place in the order of importance.  They are,
  by part: reconciliation finds exactly the missing edits, delivers them with the coordinator around it, and loses some
  of them at the end of some conversations; the ingestion never applies a snapshot before what it rests on; the chain of
  snapshots that the facts reduce to keeps its invariant, and a turn of the interpreter applies the newest block; the
  finger tree is the list of its elements, and a channel on it implements a list of closed epochs with an open tip; the
  pinner's datastore mirrors its tables at every point of a life with crashes, a crash loses only what is said to be
  lost, pruning and thinning keep exactly what they ought to, the schedule ends, and guarantees are kept within a window
  and broken outside it; capabilities permit what is shared; messages, announcements, snapshots and frames come back as
  they were sent; a relay's members have a stream or are tracked at another relay, signals reach a peer at another relay
  and are lost when announcements cross; the connections of a peer are retried a bounded number of times.

  \<^bold>\<open>Bounds and fuel.\<close>  The conversation of two sessions (\<^verbatim>\<open>converse\<close>) is given fuel: each prefix of the tree of depth 16 is
  visited at most once for at most two rounds, so \<^verbatim>\<open>2 ^ 18\<close> rounds are enough, as \<^verbatim>\<open>Session.reconcile_complete\<close> proves.  The pass
  over the schedule of a pinner has one more round than the heap has entries, which is enough since each round removes
  a due entry and the one it pushes is not due (\<^verbatim>\<open>Pinner_Promises.schedule_serves\<close>).  The walk that fills in a missing history
  is \<^verbatim>\<open>None\<close> when its fuel is spent; nothing is claimed of it.  All other loops are structural or have a measure.

  \<^bold>\<open>Not modelled.\<close>  User interfaces and command line; the assembly of a document and of the processes of a node, which
  connect the modelled parts to libp2p, Helia and HTTP; republishing of records and failures to publish; the delay of
  writes to disk; storage in IndexedDB; Yjs and its codec, comments included; \<^verbatim>\<open>PROJECT.json\<close> lists every part with the
  reason.
\<close>

end
